(* ===== verification/Prelude.thy ===== *)
theory Prelude
  imports Main "HOL-Library.Word"
begin

text \<open>
  The library shared by all components of the memguard development:
  \<^item> Go's machine integers (\<open>int\<close> of 64 bits) and bytes;
  \<^item> \<open>sub\<close> and \<open>overwrite\<close>, reading and writing a contiguous part of a list, which model what
    a slice sees of the array behind it;
  \<^item> \<open>xorl\<close>, byte-wise exclusive or;
  \<^item> the computations \<open>('s, 'a) comp\<close>: state passing with the ways in which a Go call can
    end (a return, a panic, a fatal memory fault, blocking forever on a mutex, \<open>os.Exit\<close>; \<open>Unfinished\<close>
    is a loop that ran out of the fuel it was given), with their execution equations in the collection \<open>exec\<close>.
\<close>

unbundle bit_operations_syntax

named_theorems exec \<open>equations that run one primitive computation from a given state\<close>

subsection \<open>Machine integers and bytes\<close>

type_synonym byte = "8 word"

definition go_int :: "int \<Rightarrow> int" where
  "go_int x = sint (word_of_int x :: 64 word)"

subsection \<open>Parts of lists\<close>

definition sub :: "nat \<Rightarrow> nat \<Rightarrow> 'a list \<Rightarrow> 'a list" where
  "sub i n xs = take n (drop i xs)"

definition overwrite :: "nat \<Rightarrow> 'a list \<Rightarrow> 'a list \<Rightarrow> 'a list" where
  "overwrite i ys xs = take i xs @ ys @ drop (i + length ys) xs"

definition xorl :: "byte list \<Rightarrow> byte list \<Rightarrow> byte list" where
  "xorl xs ys = map2 (XOR) xs ys"

subsection \<open>Errors, panics and the outcome of a call\<close>

text \<open>
  Every error value of the library, and the two of package \<^verbatim>\<open>io\<close> it handles. \<open>OSErr\<close> is an error of the operating system or of the
  random source, \<open>ErrText\<close> an error built from a message with \<^verbatim>\<open>errors.New\<close> or \<^verbatim>\<open>fmt.Errorf\<close>.
\<close>

datatype err =
    ErrNullBuffer
  | ErrBufferExpired
  | ErrCofferExpired
  | ErrNullEnclave
  | ErrInvalidKeyLength
  | ErrBufferTooSmall
  | ErrDecryptionFailed
  | EOF
  | ErrUnexpectedEOF
  | OSErr string
  | ErrText string

datatype panicval = PErr err | PStr string | PRuntime string

datatype 'a outcome =
    Ret 'a
  | Panicked panicval
  | Crash
  | Blocked
  | Exited int
  | Unfinished

type_synonym ('s, 'a) comp = "'s \<Rightarrow> 'a outcome \<times> 's"

definition ret :: "'a \<Rightarrow> ('s, 'a) comp" where
  "ret v s = (Ret v, s)"

definition go_panic :: "panicval \<Rightarrow> ('s, 'a) comp" where
  "go_panic p s = (Panicked p, s)"

fun run_then :: "'a outcome \<times> 's \<Rightarrow> ('a \<Rightarrow> ('s, 'b) comp) \<Rightarrow> 'b outcome \<times> 's" where
  "run_then (Ret v, t) f = f v t"
| "run_then (Panicked p, t) f = (Panicked p, t)"
| "run_then (Crash, t) f = (Crash, t)"
| "run_then (Blocked, t) f = (Blocked, t)"
| "run_then (Exited c, t) f = (Exited c, t)"
| "run_then (Unfinished, t) f = (Unfinished, t)"

definition bind :: "('s, 'a) comp \<Rightarrow> ('a \<Rightarrow> ('s, 'b) comp) \<Rightarrow> ('s, 'b) comp" where
  "bind m f s = run_then (m s) f"

definition gets :: "('s \<Rightarrow> 'a) \<Rightarrow> ('s, 'a) comp" where
  "gets f s = (Ret (f s), s)"

definition modify :: "('s \<Rightarrow> 's) \<Rightarrow> ('s, unit) comp" where
  "modify f s = (Ret (), f s)"

text \<open>A \<^verbatim>\<open>for\<close> loop over a range that was evaluated before the loop started.\<close>

fun for_each :: "'i list \<Rightarrow> ('i \<Rightarrow> ('s, unit) comp) \<Rightarrow> ('s, unit) comp" where
  "for_each [] body = ret ()"
| "for_each (i # is) body = bind (body i) (\<lambda>_. for_each is body)"

text \<open>\<^verbatim>\<open>defer f()\<close>: \<open>f\<close> runs when the rest of the function returns or panics.\<close>

definition defer_do :: "('s, unit) comp \<Rightarrow> ('s, 'a) comp \<Rightarrow> ('s, 'a) comp" where
  "defer_do f m s =
     (case m s of
        (Ret v, t) \<Rightarrow> bind f (\<lambda>_. ret v) t
      | (Panicked p, t) \<Rightarrow> bind f (\<lambda>_. go_panic p) t
      | (r, t) \<Rightarrow> (r, t))"

text \<open>The end of a loop whose fuel is used up before the loop ends.\<close>

definition unfinished :: "('s, 'a) comp" where
  "unfinished s = (Unfinished, s)"

subsection \<open>Facts: integers\<close>

lemma go_int_id [simp]: "- (2 ^ 63) \<le> x \<Longrightarrow> x < 2 ^ 63 \<Longrightarrow> go_int x = x"
  by (simp add: go_int_def sint_sbintrunc' signed_take_bit_int_eq_self)

lemma go_int_range: "- (2 ^ 63) \<le> go_int x" "go_int x < 2 ^ 63"
  using sint_range_size [of "word_of_int x :: 64 word"]
  by (simp_all add: go_int_def word_size)

subsection \<open>Facts: parts of lists\<close>

lemma length_sub [simp]: "length (sub i n xs) = min n (length xs - i)"
  by (simp add: sub_def)

lemma nth_sub [simp]: "j < n \<Longrightarrow> i + j < length xs \<Longrightarrow> sub i n xs ! j = xs ! (i + j)"
  by (simp add: sub_def)

lemma sub_0 [simp]: "sub i 0 xs = []"
  by (simp add: sub_def)

lemma sub_all [simp]: "length xs = n \<Longrightarrow> sub 0 n xs = xs"
  by (simp add: sub_def)

lemma sub_replicate [simp]: "sub i n (replicate k x) = replicate (min n (k - i)) x"
  by (simp add: sub_def min.commute)

lemma length_overwrite [simp]:
  "i + length ys \<le> length xs \<Longrightarrow> length (overwrite i ys xs) = length xs"
  by (simp add: overwrite_def)

lemma overwrite_Nil [simp]: "overwrite i [] xs = xs"
  by (simp add: overwrite_def)

lemma nth_overwrite:
  "i + length ys \<le> length xs \<Longrightarrow> j < length xs \<Longrightarrow>
   overwrite i ys xs ! j = (if i \<le> j \<and> j < i + length ys then ys ! (j - i) else xs ! j)"
  by (auto simp: overwrite_def nth_append min_def)

lemma sub_overwrite_same [simp]:
  "i + length ys \<le> length xs \<Longrightarrow> length ys = n \<Longrightarrow> sub i n (overwrite i ys xs) = ys"
  by (simp add: sub_def overwrite_def)

lemma sub_overwrite_disjoint:
  assumes "i + length ys \<le> length xs" and "j + n \<le> i \<or> i + length ys \<le> j"
  shows "sub j n (overwrite i ys xs) = sub j n xs"
  using assms by (intro nth_equalityI) (auto simp: nth_overwrite)

lemma overwrite_overwrite [simp]:
  assumes "i + length ys \<le> length xs" and "length zs = length ys"
  shows "overwrite i zs (overwrite i ys xs) = overwrite i zs xs"
  using assms by (intro nth_equalityI) (auto simp: nth_overwrite)

lemma overwrite_sub [simp]:
  assumes "i + n \<le> length xs"
  shows "overwrite i (sub i n xs) xs = xs"
  using assms by (intro nth_equalityI) (auto simp: nth_overwrite)

lemma overwrite_all [simp]: "length ys = length xs \<Longrightarrow> overwrite 0 ys xs = ys"
  by (simp add: overwrite_def)

lemma overwrite_single:
  "i < length xs \<Longrightarrow> overwrite i [x] xs = xs[i := x]"
  by (simp add: overwrite_def upd_conv_take_nth_drop)

lemma overwrite_snoc:
  assumes "i + length ys < length xs"
  shows "(overwrite i ys xs)[i + length ys := y] = overwrite i (ys @ [y]) xs"
  using assms by (intro nth_equalityI) (auto simp: nth_overwrite nth_list_update nth_append)

lemma overwrite_append:
  "length xs = i \<Longrightarrow> length ys = length zs \<Longrightarrow> overwrite i ys (xs @ zs @ ws) = xs @ ys @ ws"
  by (simp add: overwrite_def)

lemma sub_Suc:
  "i + n < length xs \<Longrightarrow> sub i (Suc n) xs = sub i n xs @ [xs ! (i + n)]"
  by (simp add: sub_def take_Suc_conv_app_nth)

lemma sub_sub: "j + m \<le> n \<Longrightarrow> sub j m (sub i n xs) = sub (i + j) m xs"
  by (rule nth_equalityI) (auto simp: add.assoc)

lemma sub_append_sub: "sub i n xs @ sub (i + n) m xs = sub i (n + m) xs"
  by (simp add: sub_def take_add add.commute [of n i])

subsection \<open>Facts: exclusive or\<close>

lemma length_xorl [simp]: "length (xorl xs ys) = min (length xs) (length ys)"
  by (simp add: xorl_def)

lemma nth_xorl [simp]:
  "i < length xs \<Longrightarrow> i < length ys \<Longrightarrow> xorl xs ys ! i = xs ! i XOR ys ! i"
  by (simp add: xorl_def)

lemma xorl_commute: "xorl xs ys = xorl ys xs"
  by (rule nth_equalityI) (auto simp: xor.commute)

lemma xorl_assoc: "xorl (xorl xs ys) zs = xorl xs (xorl ys zs)"
  by (rule nth_equalityI) (auto simp: xor.assoc)

lemma xorl_cancel [simp]: "length xs \<le> length ys \<Longrightarrow> xorl (xorl xs ys) ys = xs"
  by (rule nth_equalityI) (auto simp: xor.assoc)

lemma xorl_self: "xorl xs xs = replicate (length xs) 0"
  by (rule nth_equalityI) auto

subsection \<open>Facts: computations\<close>

lemma ret_run [simp, exec]: "ret v s = (Ret v, s)"
  by (simp add: ret_def)

lemma go_panic_run [simp, exec]: "go_panic p s = (Panicked p, s)"
  by (simp add: go_panic_def)

lemma gets_run [exec]: "gets f s = (Ret (f s), s)"
  by (simp add: gets_def)

lemma modify_run [exec]: "modify f s = (Ret (), f s)"
  by (simp add: modify_def)

lemma run_then_case:
  "run_then r f =
     (case r of
        (Ret v, t) \<Rightarrow> f v t
      | (Panicked p, t) \<Rightarrow> (Panicked p, t)
      | (Crash, t) \<Rightarrow> (Crash, t)
      | (Blocked, t) \<Rightarrow> (Blocked, t)
      | (Exited c, t) \<Rightarrow> (Exited c, t)
      | (Unfinished, t) \<Rightarrow> (Unfinished, t))"
  by (simp split: prod.split outcome.split)

lemma bind_Ret: "m s = (Ret v, t) \<Longrightarrow> bind m f s = f v t"
  by (simp add: bind_def)

lemma bind_Panicked: "m s = (Panicked p, t) \<Longrightarrow> bind m f s = (Panicked p, t)"
  by (simp add: bind_def)

lemma bind_Crash: "m s = (Crash, t) \<Longrightarrow> bind m f s = (Crash, t)"
  by (simp add: bind_def)

lemma bind_Blocked: "m s = (Blocked, t) \<Longrightarrow> bind m f s = (Blocked, t)"
  by (simp add: bind_def)

lemma bind_Exited: "m s = (Exited c, t) \<Longrightarrow> bind m f s = (Exited c, t)"
  by (simp add: bind_def)

lemmas bind_runs = bind_Ret bind_Panicked bind_Crash bind_Blocked bind_Exited

lemma bind_prim [simp]:
  "bind (ret v) f s = f v s"
  "bind (gets g) f s = f (g s) s"
  "bind (modify h) k s = k () (h s)"
  "bind (go_panic p) f s = (Panicked p, s)"
  "bind (Pair (Ret v)) f s = f v s"
  "bind (Pair (Panicked p)) f s = (Panicked p, s)"
  "bind (Pair Crash) f s = (Crash, s)"
  "bind (Pair Blocked) f s = (Blocked, s)"
  by (simp_all add: bind_def gets_run modify_run)

lemma bind_assoc: "bind (bind m f) g = bind m (\<lambda>x. bind (f x) g)"
  by (rule ext) (simp add: bind_def run_then_case split: prod.split outcome.split)

lemma bind_cong_run: "m s = m' s \<Longrightarrow> bind m f s = bind m' f s"
  by (simp add: bind_def)

lemma for_each_append:
  "for_each (is @ js) body = bind (for_each is body) (\<lambda>_. for_each js body)"
proof (induction "is")
  case Nil
  show ?case by (rule ext) simp
next
  case (Cons i "is")
  then show ?case by (simp add: bind_assoc)
qed

lemma for_each_snoc:
  "for_each is body s = (Ret (), t) \<Longrightarrow>
   for_each (is @ [i]) body s = body i t"
  by (simp add: for_each_append bind_def run_then_case split: prod.split outcome.split)

end
