(* ===== verification/World.thy ===== *)
theory World
  imports Prelude
begin

text \<open>
  The state of a process that uses memguard and the Go primitives the library is written with:
  byte slices over protected memory, mutexes with \<^verbatim>\<open>defer\<close>red unlocking, the \<^verbatim>\<open>Buffer\<close> and
  \<^verbatim>\<open>Coffer\<close> objects, the global variables of package \<^verbatim>\<open>core\<close>, and the environment: the
  packages outside the repository (\<^verbatim>\<open>memcall\<close>, \<^verbatim>\<open>secretbox\<close>, \<^verbatim>\<open>blake2b\<close>), the page size and the
  random source. What the development assumes of the environment is in \<open>memcall_ok\<close>, \<open>memcall_works\<close>,
  \<open>secretbox_ok\<close>, \<open>hash_ok\<close>, \<open>rand_ok\<close> and \<open>page_ok\<close>.
\<close>

subsection \<open>Memory\<close>

text \<open>
  Memory is a collection of regions: \<open>Sys\<close> regions are mapped by the operating system through
  \<^verbatim>\<open>memcall\<close>, \<open>GC\<close> regions belong to the garbage-collected heap. Every mapping gets a new name, an
  unmapped region has no bytes. Each byte has a protection and a flag that says whether it is
  locked into physical memory.
\<close>

datatype base = is_Sys: Sys (sys_id: nat) | GC nat

datatype prot = NoAccess | ReadOnly | ReadWrite

record region =
  rbytes :: "byte list"
  rprot :: "nat \<Rightarrow> prot"
  rlock :: "nat \<Rightarrow> bool"

record mem =
  regs :: "base \<Rightarrow> region"
  sysnext :: nat
  gcnext :: nat

text \<open>A slice: array, offset, length and capacity.\<close>

datatype slice = NilSlice | Slice base nat nat nat

fun slen :: "slice \<Rightarrow> nat" where
  "slen NilSlice = 0"
| "slen (Slice a i n c) = n"

fun scap :: "slice \<Rightarrow> nat" where
  "scap NilSlice = 0"
| "scap (Slice a i n c) = c"

fun contents :: "mem \<Rightarrow> slice \<Rightarrow> byte list" where
  "contents m NilSlice = []"
| "contents m (Slice a i n c) = sub i n (rbytes (regs m a))"

fun put :: "mem \<Rightarrow> slice \<Rightarrow> byte list \<Rightarrow> mem" where
  "put m NilSlice bs = m"
| "put m (Slice a i n c) bs =
     m\<lparr>regs := (regs m)(a := (regs m a)\<lparr>rbytes := overwrite i bs (rbytes (regs m a))\<rparr>)\<rparr>"

fun readable :: "mem \<Rightarrow> slice \<Rightarrow> bool" where
  "readable m NilSlice = True"
| "readable m (Slice a i n c) =
     (i + n \<le> length (rbytes (regs m a)) \<and> (\<forall>j<n. rprot (regs m a) (i + j) \<noteq> NoAccess))"

fun writable :: "mem \<Rightarrow> slice \<Rightarrow> bool" where
  "writable m NilSlice = True"
| "writable m (Slice a i n c) =
     (i + n \<le> length (rbytes (regs m a)) \<and> (\<forall>j<n. rprot (regs m a) (i + j) = ReadWrite))"

fun fits :: "mem \<Rightarrow> slice \<Rightarrow> bool" where
  "fits m NilSlice = True"
| "fits m (Slice a i n c) = (i + n \<le> length (rbytes (regs m a)))"

text \<open>Two slices that share no byte.\<close>

fun apart :: "slice \<Rightarrow> slice \<Rightarrow> bool" where
  "apart (Slice a i n c) (Slice b j k d) = (a \<noteq> b \<or> i + n \<le> j \<or> j + k \<le> i)"
| "apart _ _ = True"

fun in_region :: "base \<Rightarrow> slice \<Rightarrow> bool" where
  "in_region a NilSlice = False"
| "in_region a (Slice b i n c) = (a = b)"

definition fresh_region :: "nat \<Rightarrow> region" where
  "fresh_region n = \<lparr>rbytes = replicate n 0, rprot = (\<lambda>_. ReadWrite), rlock = (\<lambda>_. False)\<rparr>"

definition no_region :: region where
  "no_region = \<lparr>rbytes = [], rprot = (\<lambda>_. NoAccess), rlock = (\<lambda>_. False)\<rparr>"

text \<open>The effects of the system calls on memory.\<close>

definition map_region :: "nat \<Rightarrow> mem \<Rightarrow> mem" where
  "map_region n m = m\<lparr>regs := (regs m)(Sys (sysnext m) := fresh_region n), sysnext := Suc (sysnext m)\<rparr>"

fun unmap_region :: "slice \<Rightarrow> mem \<Rightarrow> mem" where
  "unmap_region NilSlice m = m"
| "unmap_region (Slice a i n c) m = m\<lparr>regs := (regs m)(a := no_region)\<rparr>"

fun set_prot :: "slice \<Rightarrow> prot \<Rightarrow> mem \<Rightarrow> mem" where
  "set_prot NilSlice p m = m"
| "set_prot (Slice a i n c) p m =
     m\<lparr>regs := (regs m)(a := (regs m a)\<lparr>rprot := (\<lambda>j. if i \<le> j \<and> j < i + n then p else rprot (regs m a) j)\<rparr>)\<rparr>"

fun set_lock :: "slice \<Rightarrow> bool \<Rightarrow> mem \<Rightarrow> mem" where
  "set_lock NilSlice l m = m"
| "set_lock (Slice a i n c) l m =
     m\<lparr>regs := (regs m)(a := (regs m a)\<lparr>rlock := (\<lambda>j. if i \<le> j \<and> j < i + n then l else rlock (regs m a) j)\<rparr>)\<rparr>"

subsection \<open>Objects and global variables\<close>

text \<open>
  \<^verbatim>\<open>type Buffer struct\<close>. The embedded \<^verbatim>\<open>sync.RWMutex\<close> of buffer \<open>b\<close> is the lock \<open>BufLock b\<close>.
\<close>

record Buffer =
  alive :: bool
  mutable :: bool
  data :: slice
  memory :: slice
  preguard :: slice
  inner :: slice
  postguard :: slice
  canary :: slice

text \<open>
  \<^verbatim>\<open>type Coffer struct\<close>; its fields are pointers to buffers, \<open>None\<close> for \<^verbatim>\<open>nil\<close>. The embedded
  \<^verbatim>\<open>sync.Mutex\<close> of coffer \<open>c\<close> is the lock \<open>CofLock c\<close>.
\<close>

record Coffer =
  left :: "nat option"
  right :: "nat option"
  rand :: "nat option"

definition zero_Buffer :: Buffer where
  "zero_Buffer = \<lparr>alive = False, mutable = False, data = NilSlice, memory = NilSlice,
     preguard = NilSlice, inner = NilSlice, postguard = NilSlice, canary = NilSlice\<rparr>"

definition zero_Coffer :: Coffer where
  "zero_Coffer = \<lparr>left = None, right = None, rand = None\<rparr>"

datatype lockid = BufLock nat | ListLock | CofLock nat | KeyMtx

datatype rwlock = Unlocked | WLocked | RLocked nat

text \<open>
  The process. Pointers to buffers and coffers are the numbers below \<open>nbufs\<close> and \<open>ncoffers\<close>;
  \<open>blist\<close> is \<^verbatim>\<open>buffers.list\<close>, \<open>key\<close> the global key coffer, \<open>rekeyers\<close> the coffers whose re-key
  goroutine is running, \<open>rpos\<close> the number of random bytes drawn, \<open>mcalls\<close> the number of system
  calls made and \<open>warnings\<close> the buffers for which \<^verbatim>\<open>Purge\<close> printed a warning.
\<close>

record world =
  mem :: mem
  bufs :: "nat \<Rightarrow> Buffer"
  nbufs :: nat
  blist :: "nat list"
  coffers :: "nat \<Rightarrow> Coffer"
  ncoffers :: nat
  key :: nat
  locks :: "lockid \<Rightarrow> rwlock"
  rekeyers :: "nat list"
  rpos :: nat
  mcalls :: nat
  warnings :: "nat list"

type_synonym 'a go = "(world, 'a) comp"

definition init_mem :: mem where
  "init_mem = \<lparr>regs = (\<lambda>_. no_region), sysnext = 0, gcnext = 0\<rparr>"

text \<open>Program start: \<^verbatim>\<open>buffers = new(bufferList)\<close> and \<^verbatim>\<open>key = &Coffer{}\<close>.\<close>

definition init_world :: world where
  "init_world = \<lparr>mem = init_mem, bufs = (\<lambda>_. zero_Buffer), nbufs = 0, blist = [],
     coffers = (\<lambda>_. zero_Coffer), ncoffers = 1, key = 0, locks = (\<lambda>_. Unlocked),
     rekeyers = [], rpos = 0, mcalls = 0, warnings = []\<rparr>"

subsection \<open>The environment\<close>

text \<open>
  The system calls of package \<^verbatim>\<open>memcall\<close> take the number of system calls made before, so that the
  same request may succeed once and fail later. \<open>sbSeal\<close> and \<open>sbOpen\<close> take message (or box), nonce
  and key. \<open>rnd i\<close> is the \<open>i\<close>-th byte of \<^verbatim>\<open>crypto/rand\<close> and \<open>rnderr i\<close> the error a read at that
  position returns.
\<close>

record env =
  pageSize :: nat
  mcAlloc :: "nat \<Rightarrow> mem \<Rightarrow> int \<Rightarrow> (err + slice) \<times> mem"
  mcFree :: "nat \<Rightarrow> mem \<Rightarrow> slice \<Rightarrow> err option \<times> mem"
  mcProtect :: "nat \<Rightarrow> mem \<Rightarrow> slice \<Rightarrow> prot \<Rightarrow> err option \<times> mem"
  mcLock :: "nat \<Rightarrow> mem \<Rightarrow> slice \<Rightarrow> err option \<times> mem"
  mcUnlock :: "nat \<Rightarrow> mem \<Rightarrow> slice \<Rightarrow> err option \<times> mem"
  sbOverhead :: nat
  sbSeal :: "byte list \<Rightarrow> byte list \<Rightarrow> byte list \<Rightarrow> byte list"
  sbOpen :: "byte list \<Rightarrow> byte list \<Rightarrow> byte list \<Rightarrow> byte list option"
  blake2b :: "byte list \<Rightarrow> byte list"
  rnd :: "nat \<Rightarrow> byte"
  rnderr :: "nat \<Rightarrow> err option"

text \<open>
  What package \<^verbatim>\<open>memcall\<close> documents: \<^verbatim>\<open>Alloc\<close> maps a new zeroed readable and writable region of the
  given positive size, \<^verbatim>\<open>Protect\<close> sets the protection of the given bytes, \<^verbatim>\<open>Lock\<close> and \<^verbatim>\<open>Unlock\<close>
  lock and unlock them, \<^verbatim>\<open>Free\<close> unmaps the region; a call that fails changes nothing.
\<close>

definition memcall_ok :: "env \<Rightarrow> bool" where
  "memcall_ok E \<longleftrightarrow>
     (\<forall>k m n. case mcAlloc E k m n of
        (Inl e, m') \<Rightarrow> m' = m
      | (Inr sl, m') \<Rightarrow> 0 < n \<and> sl = Slice (Sys (sysnext m)) 0 (nat n) (nat n) \<and> m' = map_region (nat n) m) \<and>
     (\<forall>k m sl. mcFree E k m sl = (None, unmap_region sl m) \<or> (\<exists>e. mcFree E k m sl = (Some e, m))) \<and>
     (\<forall>k m sl p. mcProtect E k m sl p = (None, set_prot sl p m) \<or> (\<exists>e. mcProtect E k m sl p = (Some e, m))) \<and>
     (\<forall>k m sl. mcLock E k m sl = (None, set_lock sl True m) \<or> (\<exists>e. mcLock E k m sl = (Some e, m))) \<and>
     (\<forall>k m sl. mcUnlock E k m sl = (None, set_lock sl False m) \<or> (\<exists>e. mcUnlock E k m sl = (Some e, m)))"

text \<open>The operating system grants every request.\<close>

definition memcall_works :: "env \<Rightarrow> bool" where
  "memcall_works E \<longleftrightarrow>
     (\<forall>k m n. 0 < n \<longrightarrow> (\<exists>sl. fst (mcAlloc E k m n) = Inr sl)) \<and>
     (\<forall>k m sl. fst (mcFree E k m sl) = None) \<and>
     (\<forall>k m sl p. fst (mcProtect E k m sl p) = None) \<and>
     (\<forall>k m sl. fst (mcLock E k m sl) = None) \<and>
     (\<forall>k m sl. fst (mcUnlock E k m sl) = None)"

text \<open>
  \<^verbatim>\<open>secretbox\<close>: a box is \<open>sbOverhead\<close> bytes longer than its message, opening a sealed box with the
  same nonce and key gives the message back, and whatever opens has the length of its box less the
  overhead.
\<close>

definition secretbox_ok :: "env \<Rightarrow> bool" where
  "secretbox_ok E \<longleftrightarrow>
     (\<forall>m n k. length (sbSeal E m n k) = length m + sbOverhead E) \<and>
     (\<forall>m n k. sbOpen E (sbSeal E m n k) n k = Some m) \<and>
     (\<forall>b n k m. sbOpen E b n k = Some m \<longrightarrow> length b = length m + sbOverhead E)"

text \<open>\<^verbatim>\<open>blake2b.Sum256\<close> returns 32 bytes.\<close>

definition hash_ok :: "env \<Rightarrow> bool" where
  "hash_ok E \<longleftrightarrow> (\<forall>x. length (blake2b E x) = 32)"

text \<open>\<^verbatim>\<open>crypto/rand.Read\<close> does not fail.\<close>

definition rand_ok :: "env \<Rightarrow> bool" where
  "rand_ok E \<longleftrightarrow> (\<forall>i. rnderr E i = None)"

text \<open>The page size is a power of two that fits a Go \<^verbatim>\<open>int\<close> with room for three pages.\<close>

definition page_ok :: "env \<Rightarrow> bool" where
  "page_ok E \<longleftrightarrow> (\<exists>k<60. pageSize E = 2 ^ k)"

definition env_ok :: "env \<Rightarrow> bool" where
  "env_ok E \<longleftrightarrow> memcall_ok E \<and> secretbox_ok E \<and> hash_ok E \<and> page_ok E"

definition env_works :: "env \<Rightarrow> bool" where
  "env_works E \<longleftrightarrow> env_ok E \<and> memcall_works E \<and> rand_ok E"

subsection \<open>Slices\<close>

definition index_panic :: panicval where
  "index_panic = PRuntime ''index out of range''"

text \<open>Reading and writing \<^verbatim>\<open>sl[i]\<close>: a bounds check, then a memory access that may fault.\<close>

fun idx_get :: "slice \<Rightarrow> nat \<Rightarrow> byte go" where
  "idx_get NilSlice i s = (Panicked index_panic, s)"
| "idx_get (Slice a off n c) i s =
     (if n \<le> i then (Panicked index_panic, s)
      else if off + i < length (rbytes (regs (mem s) a)) \<and> rprot (regs (mem s) a) (off + i) \<noteq> NoAccess
      then (Ret (rbytes (regs (mem s) a) ! (off + i)), s)
      else (Crash, s))"

fun idx_set :: "slice \<Rightarrow> nat \<Rightarrow> byte \<Rightarrow> unit go" where
  "idx_set NilSlice i v s = (Panicked index_panic, s)"
| "idx_set (Slice a off n c) i v s =
     (if n \<le> i then (Panicked index_panic, s)
      else if off + i < length (rbytes (regs (mem s) a)) \<and> rprot (regs (mem s) a) (off + i) = ReadWrite
      then (Ret (), s\<lparr>mem := put (mem s) (Slice a (off + i) 1 1) [v]\<rparr>)
      else (Crash, s))"

text \<open>\<^verbatim>\<open>sl[i:]\<close> and \<^verbatim>\<open>sl[:j]\<close>.\<close>

fun slice_from :: "slice \<Rightarrow> int \<Rightarrow> slice go" where
  "slice_from NilSlice i = (if i = 0 then ret NilSlice else go_panic index_panic)"
| "slice_from (Slice a off n c) i =
     (if 0 \<le> i \<and> nat i \<le> n then ret (Slice a (off + nat i) (n - nat i) (c - nat i)) else go_panic index_panic)"

fun slice_upto :: "slice \<Rightarrow> int \<Rightarrow> slice go" where
  "slice_upto NilSlice j = (if j = 0 then ret NilSlice else go_panic index_panic)"
| "slice_upto (Slice a off n c) j =
     (if 0 \<le> j \<and> nat j \<le> c then ret (Slice a off (nat j) c) else go_panic index_panic)"

text \<open>\<^verbatim>\<open>unsafe.Slice(&sl[i], n)\<close>\<close>

fun unsafe_slice :: "slice \<Rightarrow> int \<Rightarrow> int \<Rightarrow> slice go" where
  "unsafe_slice NilSlice i n = go_panic index_panic"
| "unsafe_slice (Slice a off m c) i n =
     (if 0 \<le> i \<and> nat i < m
      then (if 0 \<le> n then ret (Slice a (off + nat i) (nat n) (nat n))
            else go_panic (PRuntime ''unsafe.Slice: len out of range''))
      else go_panic index_panic)"

text \<open>Reading and writing a whole slice, as library routines outside the repository do.\<close>

definition read_all :: "slice \<Rightarrow> byte list go" where
  "read_all sl s = (if readable (mem s) sl then (Ret (contents (mem s) sl), s) else (Crash, s))"

definition write_all :: "slice \<Rightarrow> byte list \<Rightarrow> unit go" where
  "write_all sl bs s = (if writable (mem s) sl then (Ret (), s\<lparr>mem := put (mem s) sl bs\<rparr>) else (Crash, s))"

text \<open>A new slice on the garbage-collected heap.\<close>

definition gc_new :: "byte list \<Rightarrow> slice go" where
  "gc_new bs s =
     (Ret (Slice (GC (gcnext (mem s))) 0 (length bs) (length bs)),
      s\<lparr>mem := (mem s)\<lparr>regs := (regs (mem s))(GC (gcnext (mem s)) := (fresh_region 0)\<lparr>rbytes := bs\<rparr>),
                      gcnext := Suc (gcnext (mem s))\<rparr>\<rparr>)"

subsection \<open>System calls\<close>

definition memcall_Alloc :: "env \<Rightarrow> int \<Rightarrow> (err + slice) go" where
  "memcall_Alloc E n s =
     (case mcAlloc E (mcalls s) (mem s) n of (r, m) \<Rightarrow> (Ret r, s\<lparr>mem := m, mcalls := Suc (mcalls s)\<rparr>))"

definition memcall_Free :: "env \<Rightarrow> slice \<Rightarrow> err option go" where
  "memcall_Free E sl s =
     (case mcFree E (mcalls s) (mem s) sl of (r, m) \<Rightarrow> (Ret r, s\<lparr>mem := m, mcalls := Suc (mcalls s)\<rparr>))"

definition memcall_Protect :: "env \<Rightarrow> slice \<Rightarrow> prot \<Rightarrow> err option go" where
  "memcall_Protect E sl p s =
     (case mcProtect E (mcalls s) (mem s) sl p of (r, m) \<Rightarrow> (Ret r, s\<lparr>mem := m, mcalls := Suc (mcalls s)\<rparr>))"

definition memcall_Lock :: "env \<Rightarrow> slice \<Rightarrow> err option go" where
  "memcall_Lock E sl s =
     (case mcLock E (mcalls s) (mem s) sl of (r, m) \<Rightarrow> (Ret r, s\<lparr>mem := m, mcalls := Suc (mcalls s)\<rparr>))"

definition memcall_Unlock :: "env \<Rightarrow> slice \<Rightarrow> err option go" where
  "memcall_Unlock E sl s =
     (case mcUnlock E (mcalls s) (mem s) sl of (r, m) \<Rightarrow> (Ret r, s\<lparr>mem := m, mcalls := Suc (mcalls s)\<rparr>))"

subsection \<open>Mutexes\<close>

text \<open>
  A call that takes a lock some call in progress holds never returns: no other goroutine releases
  a lock that the goroutine itself holds. Unlocking is always \<^verbatim>\<open>defer\<close>red, so it also happens when
  the body panics.
\<close>

fun rw_release :: "rwlock \<Rightarrow> rwlock" where
  "rw_release (RLocked (Suc (Suc n))) = RLocked (Suc n)"
| "rw_release _ = Unlocked"

definition set_rw :: "lockid \<Rightarrow> rwlock \<Rightarrow> world \<Rightarrow> world" where
  "set_rw l x s = s\<lparr>locks := (locks s)(l := x)\<rparr>"

definition deferred :: "(world \<Rightarrow> world) \<Rightarrow> 'a go \<Rightarrow> 'a go" where
  "deferred f m s =
     (case m s of
        (Ret v, t) \<Rightarrow> (Ret v, f t)
      | (Panicked p, t) \<Rightarrow> (Panicked p, f t)
      | (r, t) \<Rightarrow> (r, t))"

definition release :: "lockid \<Rightarrow> world \<Rightarrow> world" where
  "release l s = set_rw l (rw_release (locks s l)) s"

definition with_lock :: "lockid \<Rightarrow> 'a go \<Rightarrow> 'a go" where
  "with_lock l m s =
     (if locks s l = Unlocked then deferred (release l) m (set_rw l WLocked s) else (Blocked, s))"

definition with_rlock :: "lockid \<Rightarrow> 'a go \<Rightarrow> 'a go" where
  "with_rlock l m s =
     (case locks s l of
        Unlocked \<Rightarrow> deferred (release l) m (set_rw l (RLocked 1) s)
      | RLocked n \<Rightarrow> deferred (release l) m (set_rw l (RLocked (Suc n)) s)
      | WLocked \<Rightarrow> (Blocked, s))"

text \<open>
  A computation is \<^emph>\<open>oblivious\<close> of a lock when it neither reads nor changes it. Under a lock that
  is free, an oblivious body runs as if there were no lock.
\<close>

definition oblivious :: "lockid \<Rightarrow> 'a go \<Rightarrow> bool" where
  "oblivious l m \<longleftrightarrow> (\<forall>s x. m (set_rw l x s) = (case m s of (r, t) \<Rightarrow> (r, set_rw l x t)))"

text \<open>The same for a run from one particular state, and for several locks.\<close>

definition set_rws :: "lockid list \<Rightarrow> (lockid \<Rightarrow> rwlock) \<Rightarrow> world \<Rightarrow> world" where
  "set_rws ls h s = s\<lparr>locks := \<lambda>l. if l \<in> set ls then h l else locks s l\<rparr>"

definition oblivious_at :: "lockid list \<Rightarrow> 'a go \<Rightarrow> world \<Rightarrow> bool" where
  "oblivious_at ls m s \<longleftrightarrow> (\<forall>h. m (set_rws ls h s) = (case m s of (r, t) \<Rightarrow> (r, set_rws ls h t)))"

subsection \<open>Objects\<close>

definition upd_buf :: "nat \<Rightarrow> (Buffer \<Rightarrow> Buffer) \<Rightarrow> unit go" where
  "upd_buf b f = modify (\<lambda>s. s\<lparr>bufs := (bufs s)(b := f (bufs s b))\<rparr>)"

definition get_buf :: "nat \<Rightarrow> Buffer go" where
  "get_buf b = gets (\<lambda>s. bufs s b)"

text \<open>\<^verbatim>\<open>new(Buffer)\<close>\<close>

definition new_Buffer :: "nat go" where
  "new_Buffer s = (Ret (nbufs s), s\<lparr>bufs := (bufs s)(nbufs s := zero_Buffer), nbufs := Suc (nbufs s)\<rparr>)"

subsection \<open>Facts: the order of updates\<close>

text \<open>Updates of different fields commute; these rules sort them by field.\<close>

lemma world_order:
  fixes s :: world
  shows
  "mem_update f0 (bufs_update f1 s) = bufs_update f1 (mem_update f0 s)"
  "mem_update f0 (nbufs_update f2 s) = nbufs_update f2 (mem_update f0 s)"
  "mem_update f0 (blist_update f3 s) = blist_update f3 (mem_update f0 s)"
  "mem_update f0 (coffers_update f4 s) = coffers_update f4 (mem_update f0 s)"
  "mem_update f0 (ncoffers_update f5 s) = ncoffers_update f5 (mem_update f0 s)"
  "mem_update f0 (key_update f6 s) = key_update f6 (mem_update f0 s)"
  "mem_update f0 (locks_update f7 s) = locks_update f7 (mem_update f0 s)"
  "mem_update f0 (rekeyers_update f8 s) = rekeyers_update f8 (mem_update f0 s)"
  "mem_update f0 (rpos_update f9 s) = rpos_update f9 (mem_update f0 s)"
  "mem_update f0 (mcalls_update f10 s) = mcalls_update f10 (mem_update f0 s)"
  "mem_update f0 (warnings_update f11 s) = warnings_update f11 (mem_update f0 s)"
  "bufs_update f1 (nbufs_update f2 s) = nbufs_update f2 (bufs_update f1 s)"
  "bufs_update f1 (blist_update f3 s) = blist_update f3 (bufs_update f1 s)"
  "bufs_update f1 (coffers_update f4 s) = coffers_update f4 (bufs_update f1 s)"
  "bufs_update f1 (ncoffers_update f5 s) = ncoffers_update f5 (bufs_update f1 s)"
  "bufs_update f1 (key_update f6 s) = key_update f6 (bufs_update f1 s)"
  "bufs_update f1 (locks_update f7 s) = locks_update f7 (bufs_update f1 s)"
  "bufs_update f1 (rekeyers_update f8 s) = rekeyers_update f8 (bufs_update f1 s)"
  "bufs_update f1 (rpos_update f9 s) = rpos_update f9 (bufs_update f1 s)"
  "bufs_update f1 (mcalls_update f10 s) = mcalls_update f10 (bufs_update f1 s)"
  "bufs_update f1 (warnings_update f11 s) = warnings_update f11 (bufs_update f1 s)"
  "nbufs_update f2 (blist_update f3 s) = blist_update f3 (nbufs_update f2 s)"
  "nbufs_update f2 (coffers_update f4 s) = coffers_update f4 (nbufs_update f2 s)"
  "nbufs_update f2 (ncoffers_update f5 s) = ncoffers_update f5 (nbufs_update f2 s)"
  "nbufs_update f2 (key_update f6 s) = key_update f6 (nbufs_update f2 s)"
  "nbufs_update f2 (locks_update f7 s) = locks_update f7 (nbufs_update f2 s)"
  "nbufs_update f2 (rekeyers_update f8 s) = rekeyers_update f8 (nbufs_update f2 s)"
  "nbufs_update f2 (rpos_update f9 s) = rpos_update f9 (nbufs_update f2 s)"
  "nbufs_update f2 (mcalls_update f10 s) = mcalls_update f10 (nbufs_update f2 s)"
  "nbufs_update f2 (warnings_update f11 s) = warnings_update f11 (nbufs_update f2 s)"
  "blist_update f3 (coffers_update f4 s) = coffers_update f4 (blist_update f3 s)"
  "blist_update f3 (ncoffers_update f5 s) = ncoffers_update f5 (blist_update f3 s)"
  "blist_update f3 (key_update f6 s) = key_update f6 (blist_update f3 s)"
  "blist_update f3 (locks_update f7 s) = locks_update f7 (blist_update f3 s)"
  "blist_update f3 (rekeyers_update f8 s) = rekeyers_update f8 (blist_update f3 s)"
  "blist_update f3 (rpos_update f9 s) = rpos_update f9 (blist_update f3 s)"
  "blist_update f3 (mcalls_update f10 s) = mcalls_update f10 (blist_update f3 s)"
  "blist_update f3 (warnings_update f11 s) = warnings_update f11 (blist_update f3 s)"
  "coffers_update f4 (ncoffers_update f5 s) = ncoffers_update f5 (coffers_update f4 s)"
  "coffers_update f4 (key_update f6 s) = key_update f6 (coffers_update f4 s)"
  "coffers_update f4 (locks_update f7 s) = locks_update f7 (coffers_update f4 s)"
  "coffers_update f4 (rekeyers_update f8 s) = rekeyers_update f8 (coffers_update f4 s)"
  "coffers_update f4 (rpos_update f9 s) = rpos_update f9 (coffers_update f4 s)"
  "coffers_update f4 (mcalls_update f10 s) = mcalls_update f10 (coffers_update f4 s)"
  "coffers_update f4 (warnings_update f11 s) = warnings_update f11 (coffers_update f4 s)"
  "ncoffers_update f5 (key_update f6 s) = key_update f6 (ncoffers_update f5 s)"
  "ncoffers_update f5 (locks_update f7 s) = locks_update f7 (ncoffers_update f5 s)"
  "ncoffers_update f5 (rekeyers_update f8 s) = rekeyers_update f8 (ncoffers_update f5 s)"
  "ncoffers_update f5 (rpos_update f9 s) = rpos_update f9 (ncoffers_update f5 s)"
  "ncoffers_update f5 (mcalls_update f10 s) = mcalls_update f10 (ncoffers_update f5 s)"
  "ncoffers_update f5 (warnings_update f11 s) = warnings_update f11 (ncoffers_update f5 s)"
  "key_update f6 (locks_update f7 s) = locks_update f7 (key_update f6 s)"
  "key_update f6 (rekeyers_update f8 s) = rekeyers_update f8 (key_update f6 s)"
  "key_update f6 (rpos_update f9 s) = rpos_update f9 (key_update f6 s)"
  "key_update f6 (mcalls_update f10 s) = mcalls_update f10 (key_update f6 s)"
  "key_update f6 (warnings_update f11 s) = warnings_update f11 (key_update f6 s)"
  "locks_update f7 (rekeyers_update f8 s) = rekeyers_update f8 (locks_update f7 s)"
  "locks_update f7 (rpos_update f9 s) = rpos_update f9 (locks_update f7 s)"
  "locks_update f7 (mcalls_update f10 s) = mcalls_update f10 (locks_update f7 s)"
  "locks_update f7 (warnings_update f11 s) = warnings_update f11 (locks_update f7 s)"
  "rekeyers_update f8 (rpos_update f9 s) = rpos_update f9 (rekeyers_update f8 s)"
  "rekeyers_update f8 (mcalls_update f10 s) = mcalls_update f10 (rekeyers_update f8 s)"
  "rekeyers_update f8 (warnings_update f11 s) = warnings_update f11 (rekeyers_update f8 s)"
  "rpos_update f9 (mcalls_update f10 s) = mcalls_update f10 (rpos_update f9 s)"
  "rpos_update f9 (warnings_update f11 s) = warnings_update f11 (rpos_update f9 s)"
  "mcalls_update f10 (warnings_update f11 s) = warnings_update f11 (mcalls_update f10 s)"
  by simp_all

lemma mem_order:
  fixes s :: mem
  shows
  "regs_update f12 (sysnext_update f13 s) = sysnext_update f13 (regs_update f12 s)"
  "regs_update f12 (gcnext_update f14 s) = gcnext_update f14 (regs_update f12 s)"
  "sysnext_update f13 (gcnext_update f14 s) = gcnext_update f14 (sysnext_update f13 s)"
  by simp_all

lemma region_order:
  fixes s :: region
  shows
  "rbytes_update f15 (rprot_update f16 s) = rprot_update f16 (rbytes_update f15 s)"
  "rbytes_update f15 (rlock_update f17 s) = rlock_update f17 (rbytes_update f15 s)"
  "rprot_update f16 (rlock_update f17 s) = rlock_update f17 (rprot_update f16 s)"
  by simp_all

lemmas state_order = world_order mem_order region_order

subsection \<open>Facts: slices and memory\<close>

lemma length_contents [simp]: "fits m sl \<Longrightarrow> length (contents m sl) = slen sl"
  by (cases sl) auto

lemma writable_readable: "writable m sl \<Longrightarrow> readable m sl"
  by (cases sl) auto

lemma readable_fits: "readable m sl \<Longrightarrow> fits m sl"
  by (cases sl) auto

lemma writable_fits: "writable m sl \<Longrightarrow> fits m sl"
  by (cases sl) auto

lemma apart_sym: "apart x y \<longleftrightarrow> apart y x"
  by (cases x; cases y) auto

lemma put_gcnext [simp]: "gcnext (put m sl bs) = gcnext m" "sysnext (put m sl bs) = sysnext m"
  by (cases sl; simp)+

lemma set_prot_next [simp]: "gcnext (set_prot sl p m) = gcnext m" "sysnext (set_prot sl p m) = sysnext m"
  by (cases sl; simp)+

lemma set_lock_next [simp]: "gcnext (set_lock sl l m) = gcnext m" "sysnext (set_lock sl l m) = sysnext m"
  by (cases sl; simp)+

lemma contents_put_same [simp]:
  "fits m sl \<Longrightarrow> length bs = slen sl \<Longrightarrow> contents (put m sl bs) sl = bs"
  by (cases sl) auto

lemma contents_put_apart:
  "apart sl sl' \<Longrightarrow> fits m sl \<Longrightarrow> length bs = slen sl \<Longrightarrow> contents (put m sl bs) sl' = contents m sl'"
  by (cases sl; cases sl') (auto simp: sub_overwrite_disjoint)

lemma put_access [simp]:
  assumes "fits m sl" and "length bs = slen sl"
  shows "fits (put m sl bs) sl' = fits m sl'"
    and "readable (put m sl bs) sl' = readable m sl'"
    and "writable (put m sl bs) sl' = writable m sl'"
  using assms by (cases sl; cases sl'; simp)+

lemma put_regs_other:
  "\<not> in_region a sl \<Longrightarrow> regs (put m sl bs) a = regs m a"
  "\<not> in_region a sl \<Longrightarrow> regs (set_prot sl p m) a = regs m a"
  "\<not> in_region a sl \<Longrightarrow> regs (set_lock sl l m) a = regs m a"
  "\<not> in_region a sl \<Longrightarrow> regs (unmap_region sl m) a = regs m a"
  by (cases sl; simp)+

lemma contents_set [simp]:
  "contents (set_prot sl p m) sl' = contents m sl'"
  "contents (set_lock sl l m) sl' = contents m sl'"
  by (cases sl; cases sl'; simp)+

lemma put_put [simp]:
  "fits m sl \<Longrightarrow> length bs = slen sl \<Longrightarrow> length cs = slen sl \<Longrightarrow> put (put m sl bs) sl cs = put m sl cs"
  by (cases sl) auto

lemma put_contents [simp]: "fits m sl \<Longrightarrow> put m sl (contents m sl) = m"
  by (cases sl) auto

lemma idx_get_run:
  "i < slen sl \<Longrightarrow> readable (mem s) sl \<Longrightarrow> idx_get sl i s = (Ret (contents (mem s) sl ! i), s)"
  by (cases sl) auto

lemma idx_set_run:
  "i < slen sl \<Longrightarrow> writable (mem s) sl \<Longrightarrow>
   idx_set sl i v s = (Ret (), s\<lparr>mem := put (mem s) sl ((contents (mem s) sl)[i := v])\<rparr>)"
proof (cases sl)
  case (Slice a off n c)
  assume "i < slen sl" and "writable (mem s) sl"
  with Slice have *: "i < n" "off + n \<le> length (rbytes (regs (mem s) a))" by auto
  then have "(rbytes (regs (mem s) a))[off + i := v] =
      overwrite off ((sub off n (rbytes (regs (mem s) a)))[i := v]) (rbytes (regs (mem s) a))"
    by (intro nth_equalityI) (auto simp: nth_overwrite nth_list_update)
  with * Slice \<open>writable (mem s) sl\<close> show ?thesis by (simp add: overwrite_single)
qed auto

lemma read_all_run [exec]: "readable (mem s) sl \<Longrightarrow> read_all sl s = (Ret (contents (mem s) sl), s)"
  by (simp add: read_all_def)

lemma write_all_run [exec]: "writable (mem s) sl \<Longrightarrow> write_all sl bs s = (Ret (), s\<lparr>mem := put (mem s) sl bs\<rparr>)"
  by (simp add: write_all_def)

text \<open>
  The loop that overwrites a slice byte by byte writes the values of all positions; the value at
  each position may depend on the contents before the loop.
\<close>

lemma for_each_set:
  assumes body: "\<And>i t. i < slen sl \<Longrightarrow> writable (mem t) sl \<Longrightarrow> R t i \<Longrightarrow>
        f i t = (Ret (), t\<lparr>mem := put (mem t) sl ((contents (mem t) sl)[i := v i])\<rparr>)"
    and R: "\<And>i. i < slen sl \<Longrightarrow>
        R (s\<lparr>mem := put (mem s) sl (map v [0..<i] @ drop i (contents (mem s) sl))\<rparr>) i"
    and w: "writable (mem s) sl"
  shows "for_each [0..<slen sl] f s = (Ret (), s\<lparr>mem := put (mem s) sl (map v [0..<slen sl])\<rparr>)"
proof -
  have "for_each [0..<k] f s =
      (Ret (), s\<lparr>mem := put (mem s) sl (map v [0..<k] @ drop k (contents (mem s) sl))\<rparr>)"
    if "k \<le> slen sl" for k using that
  proof (induction k)
    case 0
    show ?case using w by (simp add: writable_fits)
  next
    case (Suc k)
    let ?t = "s\<lparr>mem := put (mem s) sl (map v [0..<k] @ drop k (contents (mem s) sl))\<rparr>"
    have fit: "fits (mem s) sl" and k: "k < slen sl" using w Suc.prems by (auto simp: writable_fits)
    have "drop k (contents (mem s) sl) = contents (mem s) sl ! k # drop (Suc k) (contents (mem s) sl)"
      using k fit by (simp add: Cons_nth_drop_Suc)
    then have eq: "(map v [0..<k] @ drop k (contents (mem s) sl))[k := v k] =
        map v [0..<Suc k] @ drop (Suc k) (contents (mem s) sl)"
      by (simp add: list_update_append)
    have "for_each [0..<Suc k] f s = f k ?t"
      using Suc k by (simp add: for_each_snoc)
    also have "\<dots> = (Ret (), ?t\<lparr>mem := put (mem ?t) sl ((contents (mem ?t) sl)[k := v k])\<rparr>)"
      by (rule body) (use k w R fit in auto)
    finally show ?case using fit k eq by simp
  qed
  from this [of "slen sl"] show ?thesis using w by (simp add: writable_fits)
qed

text \<open>The same for a loop whose body reads the position it writes.\<close>

lemma for_each_upd:
  assumes w: "writable (mem s) sl"
    and body: "\<And>i bs. i < slen sl \<Longrightarrow> length bs = slen sl \<Longrightarrow>
        f i (s\<lparr>mem := put (mem s) sl bs\<rparr>) = idx_set sl i (g i (bs ! i)) (s\<lparr>mem := put (mem s) sl bs\<rparr>)"
  shows "for_each [0..<slen sl] f s =
     (Ret (), s\<lparr>mem := put (mem s) sl (map (\<lambda>i. g i (contents (mem s) sl ! i)) [0..<slen sl])\<rparr>)"
proof -
  have fit: "fits (mem s) sl" using w by (rule writable_fits)
  show ?thesis
  proof (rule for_each_set [where R = "\<lambda>t i. \<exists>bs. length bs = slen sl \<and> t = s\<lparr>mem := put (mem s) sl bs\<rparr> \<and>
        bs ! i = contents (mem s) sl ! i"])
    fix i and t :: world
    assume i: "i < slen sl" and wt: "writable (mem t) sl"
      and "\<exists>bs. length bs = slen sl \<and> t = s\<lparr>mem := put (mem s) sl bs\<rparr> \<and> bs ! i = contents (mem s) sl ! i"
    then obtain bs where bs: "length bs = slen sl" "t = s\<lparr>mem := put (mem s) sl bs\<rparr>" "bs ! i = contents (mem s) sl ! i"
      by blast
    show "f i t = (Ret (), t\<lparr>mem := put (mem t) sl ((contents (mem t) sl)[i := g i (contents (mem s) sl ! i)])\<rparr>)"
      using body [OF i bs(1)] bs idx_set_run [OF i wt] by simp
  next
    fix i assume "i < slen sl"
    then show "\<exists>bs. length bs = slen sl \<and>
        s\<lparr>mem := put (mem s) sl (map (\<lambda>i. g i (contents (mem s) sl ! i)) [0..<i] @ drop i (contents (mem s) sl))\<rparr> =
          s\<lparr>mem := put (mem s) sl bs\<rparr> \<and> bs ! i = contents (mem s) sl ! i"
      using fit by (intro exI [of _ "map (\<lambda>i. g i (contents (mem s) sl ! i)) [0..<i] @ drop i (contents (mem s) sl)"])
        (simp add: nth_append)
  qed (rule w)
qed

text \<open>A new slice on the garbage-collected heap leaves the rest of memory alone.\<close>

lemma gc_new_access:
  assumes "gc_new bs s = (Ret sl, t)"
  shows "sl = Slice (GC (gcnext (mem s))) 0 (length bs) (length bs)"
    and "contents (mem t) sl = bs" and "writable (mem t) sl" and "sysnext (mem t) = sysnext (mem s)"
    and "regs (mem t) (Sys i) = regs (mem s) (Sys i)" and "gcnext (mem t) = Suc (gcnext (mem s))"
    and "j < gcnext (mem s) \<Longrightarrow> regs (mem t) (GC j) = regs (mem s) (GC j)"
    and "t = s\<lparr>mem := mem t\<rparr>"
  using assms by (auto simp: gc_new_def fresh_region_def)

subsection \<open>Facts: system calls\<close>

lemma memcall_Alloc_cases:
  assumes "memcall_ok E"
  obtains (error) e where "memcall_Alloc E n s = (Ret (Inl e), s\<lparr>mcalls := Suc (mcalls s)\<rparr>)"
  | (mapped) "0 < n"
      "memcall_Alloc E n s = (Ret (Inr (Slice (Sys (sysnext (mem s))) 0 (nat n) (nat n))),
         s\<lparr>mem := map_region (nat n) (mem s), mcalls := Suc (mcalls s)\<rparr>)"
proof -
  obtain r m where rm: "mcAlloc E (mcalls s) (mem s) n = (r, m)" by (cases "mcAlloc E (mcalls s) (mem s) n")
  have law: "case mcAlloc E (mcalls s) (mem s) n of
        (Inl e, m') \<Rightarrow> m' = mem s
      | (Inr sl, m') \<Rightarrow> 0 < n \<and> sl = Slice (Sys (sysnext (mem s))) 0 (nat n) (nat n) \<and> m' = map_region (nat n) (mem s)"
    using assms unfolding memcall_ok_def by (elim conjE allE)
  show ?thesis
  proof (cases r)
    case (Inl e)
    with law rm error [of e] show ?thesis by (simp add: memcall_Alloc_def)
  next
    case (Inr sl)
    with law rm mapped show ?thesis by (simp add: memcall_Alloc_def)
  qed
qed

lemma memcall_Free_cases:
  assumes "memcall_ok E"
  obtains (error) e where "memcall_Free E sl s = (Ret (Some e), s\<lparr>mcalls := Suc (mcalls s)\<rparr>)"
  | (granted) "memcall_Free E sl s = (Ret None, s\<lparr>mem := unmap_region sl (mem s), mcalls := Suc (mcalls s)\<rparr>)"
proof -
  have "mcFree E (mcalls s) (mem s) sl = (None, unmap_region sl (mem s)) \<or>
      (\<exists>e. mcFree E (mcalls s) (mem s) sl = (Some e, mem s))"
    using assms unfolding memcall_ok_def by blast
  with that show ?thesis by (auto simp: memcall_Free_def)
qed

lemma memcall_Protect_cases:
  assumes "memcall_ok E"
  obtains (error) e where "memcall_Protect E sl p s = (Ret (Some e), s\<lparr>mcalls := Suc (mcalls s)\<rparr>)"
  | (granted) "memcall_Protect E sl p s = (Ret None, s\<lparr>mem := set_prot sl p (mem s), mcalls := Suc (mcalls s)\<rparr>)"
proof -
  have "mcProtect E (mcalls s) (mem s) sl p = (None, set_prot sl p (mem s)) \<or>
      (\<exists>e. mcProtect E (mcalls s) (mem s) sl p = (Some e, mem s))"
    using assms unfolding memcall_ok_def by blast
  with that show ?thesis by (auto simp: memcall_Protect_def)
qed

lemma memcall_Lock_cases:
  assumes "memcall_ok E"
  obtains (error) e where "memcall_Lock E sl s = (Ret (Some e), s\<lparr>mcalls := Suc (mcalls s)\<rparr>)"
  | (granted) "memcall_Lock E sl s = (Ret None, s\<lparr>mem := set_lock sl True (mem s), mcalls := Suc (mcalls s)\<rparr>)"
proof -
  have "mcLock E (mcalls s) (mem s) sl = (None, set_lock sl True (mem s)) \<or>
      (\<exists>e. mcLock E (mcalls s) (mem s) sl = (Some e, mem s))"
    using assms unfolding memcall_ok_def by blast
  with that show ?thesis by (auto simp: memcall_Lock_def)
qed

lemma memcall_Unlock_cases:
  assumes "memcall_ok E"
  obtains (error) e where "memcall_Unlock E sl s = (Ret (Some e), s\<lparr>mcalls := Suc (mcalls s)\<rparr>)"
  | (granted) "memcall_Unlock E sl s = (Ret None, s\<lparr>mem := set_lock sl False (mem s), mcalls := Suc (mcalls s)\<rparr>)"
proof -
  have "mcUnlock E (mcalls s) (mem s) sl = (None, set_lock sl False (mem s)) \<or>
      (\<exists>e. mcUnlock E (mcalls s) (mem s) sl = (Some e, mem s))"
    using assms unfolding memcall_ok_def by blast
  with that show ?thesis by (auto simp: memcall_Unlock_def)
qed

text \<open>The same calls when the operating system grants every request.\<close>

lemma memcall_runs:
  assumes ok: "memcall_ok E" and works: "memcall_works E"
  shows "0 < n \<Longrightarrow> memcall_Alloc E n s = (Ret (Inr (Slice (Sys (sysnext (mem s))) 0 (nat n) (nat n))),
           s\<lparr>mem := map_region (nat n) (mem s), mcalls := Suc (mcalls s)\<rparr>)"
    and "memcall_Free E sl s = (Ret None, s\<lparr>mem := unmap_region sl (mem s), mcalls := Suc (mcalls s)\<rparr>)"
    and "memcall_Protect E sl p s = (Ret None, s\<lparr>mem := set_prot sl p (mem s), mcalls := Suc (mcalls s)\<rparr>)"
    and "memcall_Lock E sl s = (Ret None, s\<lparr>mem := set_lock sl True (mem s), mcalls := Suc (mcalls s)\<rparr>)"
    and "memcall_Unlock E sl s = (Ret None, s\<lparr>mem := set_lock sl False (mem s), mcalls := Suc (mcalls s)\<rparr>)"
proof -
  have no_err: "0 < n \<Longrightarrow> memcall_Alloc E n s \<noteq> (Ret (Inl e), t)"
      "memcall_Free E sl s \<noteq> (Ret (Some e), t)"
      "memcall_Protect E sl p s \<noteq> (Ret (Some e), t)"
      "memcall_Lock E sl s \<noteq> (Ret (Some e), t)"
      "memcall_Unlock E sl s \<noteq> (Ret (Some e), t)" for e t
    using works
    by (auto simp: memcall_works_def memcall_Alloc_def memcall_Free_def memcall_Protect_def
        memcall_Lock_def memcall_Unlock_def split: prod.splits) (metis fst_conv Inl_Inr_False option.distinct(1))+
  show "0 < n \<Longrightarrow> memcall_Alloc E n s = (Ret (Inr (Slice (Sys (sysnext (mem s))) 0 (nat n) (nat n))),
           s\<lparr>mem := map_region (nat n) (mem s), mcalls := Suc (mcalls s)\<rparr>)"
    by (rule memcall_Alloc_cases [OF ok, of n s]) (use no_err(1) in auto)
  show "memcall_Free E sl s = (Ret None, s\<lparr>mem := unmap_region sl (mem s), mcalls := Suc (mcalls s)\<rparr>)"
    by (rule memcall_Free_cases [OF ok, of sl s]) (use no_err(2) in auto)
  show "memcall_Protect E sl p s = (Ret None, s\<lparr>mem := set_prot sl p (mem s), mcalls := Suc (mcalls s)\<rparr>)"
    by (rule memcall_Protect_cases [OF ok, of sl p s]) (use no_err(3) in auto)
  show "memcall_Lock E sl s = (Ret None, s\<lparr>mem := set_lock sl True (mem s), mcalls := Suc (mcalls s)\<rparr>)"
    by (rule memcall_Lock_cases [OF ok, of sl s]) (use no_err(4) in auto)
  show "memcall_Unlock E sl s = (Ret None, s\<lparr>mem := set_lock sl False (mem s), mcalls := Suc (mcalls s)\<rparr>)"
    by (rule memcall_Unlock_cases [OF ok, of sl s]) (use no_err(5) in auto)
qed

lemma env_works_D [dest]:
  "env_works E \<Longrightarrow> memcall_ok E" "env_works E \<Longrightarrow> memcall_works E" "env_works E \<Longrightarrow> rand_ok E"
  "env_works E \<Longrightarrow> env_ok E" "env_works E \<Longrightarrow> hash_ok E" "env_works E \<Longrightarrow> secretbox_ok E" "env_works E \<Longrightarrow> page_ok E"
  by (auto simp: env_works_def env_ok_def)

lemma env_ok_D [dest]:
  "env_ok E \<Longrightarrow> memcall_ok E" "env_ok E \<Longrightarrow> secretbox_ok E" "env_ok E \<Longrightarrow> hash_ok E" "env_ok E \<Longrightarrow> page_ok E"
  by (auto simp: env_ok_def)

subsection \<open>Facts: mutexes\<close>

lemma set_rw_simps [simp]:
  "mem (set_rw l x s) = mem s" "bufs (set_rw l x s) = bufs s" "nbufs (set_rw l x s) = nbufs s"
  "blist (set_rw l x s) = blist s" "coffers (set_rw l x s) = coffers s" "ncoffers (set_rw l x s) = ncoffers s"
  "key (set_rw l x s) = key s" "locks (set_rw l x s) = (locks s)(l := x)"
  "rekeyers (set_rw l x s) = rekeyers s" "rpos (set_rw l x s) = rpos s" "mcalls (set_rw l x s) = mcalls s"
  "warnings (set_rw l x s) = warnings s"
  by (simp_all add: set_rw_def)

lemma set_rw_set_rw [simp]: "set_rw l x (set_rw l y s) = set_rw l x s"
  by (simp add: set_rw_def)

lemma set_rw_same [simp]: "locks s l = x \<Longrightarrow> set_rw l x s = s"
  by (simp add: set_rw_def fun_upd_idem)

lemma set_rw_commute: "l \<noteq> k \<Longrightarrow> set_rw l x (set_rw k y s) = set_rw k y (set_rw l x s)"
  by (simp add: set_rw_def fun_upd_twist)

text \<open>Pushing updates of other fields inside a change of a lock.\<close>

lemma set_rw_updates:
  "(set_rw l x s)\<lparr>mem := m\<rparr> = set_rw l x (s\<lparr>mem := m\<rparr>)"
  "(set_rw l x s)\<lparr>bufs := b\<rparr> = set_rw l x (s\<lparr>bufs := b\<rparr>)"
  "(set_rw l x s)\<lparr>nbufs := n\<rparr> = set_rw l x (s\<lparr>nbufs := n\<rparr>)"
  "(set_rw l x s)\<lparr>blist := bl\<rparr> = set_rw l x (s\<lparr>blist := bl\<rparr>)"
  "(set_rw l x s)\<lparr>coffers := c\<rparr> = set_rw l x (s\<lparr>coffers := c\<rparr>)"
  "(set_rw l x s)\<lparr>ncoffers := n\<rparr> = set_rw l x (s\<lparr>ncoffers := n\<rparr>)"
  "(set_rw l x s)\<lparr>key := kk\<rparr> = set_rw l x (s\<lparr>key := kk\<rparr>)"
  "(set_rw l x s)\<lparr>rekeyers := bl\<rparr> = set_rw l x (s\<lparr>rekeyers := bl\<rparr>)"
  "(set_rw l x s)\<lparr>rpos := n\<rparr> = set_rw l x (s\<lparr>rpos := n\<rparr>)"
  "(set_rw l x s)\<lparr>mcalls := n\<rparr> = set_rw l x (s\<lparr>mcalls := n\<rparr>)"
  "(set_rw l x s)\<lparr>warnings := bl\<rparr> = set_rw l x (s\<lparr>warnings := bl\<rparr>)"
  by (simp_all add: set_rw_def)

lemma oblivious_run: "oblivious l m \<Longrightarrow> m s = (r, t) \<Longrightarrow> m (set_rw l x s) = (r, set_rw l x t)"
  by (simp add: oblivious_def)

lemma oblivious_locks: "oblivious l m \<Longrightarrow> m s = (r, t) \<Longrightarrow> locks t l = locks s l"
  using oblivious_run [of l m s r t "locks s l"] by (auto simp: set_rw_def dest: arg_cong [of _ _ "\<lambda>u. locks u l"])

lemma with_lock_Ret:
  assumes "m (set_rw l WLocked s) = (Ret v, set_rw l WLocked t)"
    and "locks s l = Unlocked" and "locks t l = Unlocked"
  shows "with_lock l m s = (Ret v, t)"
  using assms by (simp add: with_lock_def deferred_def release_def)

lemma with_lock_Panicked:
  assumes "m (set_rw l WLocked s) = (Panicked p, set_rw l WLocked t)"
    and "locks s l = Unlocked" and "locks t l = Unlocked"
  shows "with_lock l m s = (Panicked p, t)"
  using assms by (simp add: with_lock_def deferred_def release_def)

lemma set_rws_simps: "set_rws [] h s = s" "set_rws (l # ls) h s = set_rw l (h l) (set_rws ls h s)" "set_rws [l] (\<lambda>_. x) s = set_rw l x s"
  by (simp_all add: set_rws_def set_rw_def fun_eq_iff)

lemma set_rws_sel [simp]:
  "mem (set_rws ls h s) = mem s" "bufs (set_rws ls h s) = bufs s" "nbufs (set_rws ls h s) = nbufs s"
  "blist (set_rws ls h s) = blist s" "coffers (set_rws ls h s) = coffers s" "ncoffers (set_rws ls h s) = ncoffers s"
  "key (set_rws ls h s) = key s" "rpos (set_rws ls h s) = rpos s" "mcalls (set_rws ls h s) = mcalls s"
  "locks (set_rws ls h s) l = (if l \<in> set ls then h l else locks s l)"
  by (simp_all add: set_rws_def)

lemma set_rws_commute: "(\<And>l x s. f (set_rw l x s) = set_rw l x (f s)) \<Longrightarrow> f (set_rws ls h s) = set_rws ls h (f s)"
  by (induction ls) (simp_all add: set_rws_simps)

lemma set_rws_set_rw: "l \<notin> set ls \<Longrightarrow> set_rws ls h (set_rw l x s) = set_rw l x (set_rws ls h s)"
  by (simp add: set_rws_def set_rw_def) (rule arg_cong2 [where f = locks_update], auto simp: fun_eq_iff)

lemma oblivious_atI:
  assumes "\<And>l. l \<in> set ls \<Longrightarrow> oblivious l m"
  shows "oblivious_at ls m s"
proof -
  have "m (set_rws ls h s) = (case m s of (r, t) \<Rightarrow> (r, set_rws ls h t))" for h
    using assms
  proof (induction ls)
    case (Cons l ls)
    then have "m (set_rw l (h l) (set_rws ls h s)) = (case m (set_rws ls h s) of (r, t) \<Rightarrow> (r, set_rw l (h l) t))"
      by (simp add: oblivious_def)
    then show ?case using Cons by (simp add: set_rws_simps split: prod.splits)
  qed (simp add: set_rws_simps split: prod.splits)
  then show ?thesis by (simp add: oblivious_at_def)
qed

lemma oblivious_at_bind:
  "oblivious_at ls m s \<Longrightarrow> (\<And>v t. m s = (Ret v, t) \<Longrightarrow> oblivious_at ls (f v) t) \<Longrightarrow> oblivious_at ls (bind m f) s"
  unfolding oblivious_at_def bind_def run_then_case by (auto split: prod.splits outcome.splits)

lemma oblivious_at_run: "oblivious_at [l] m s \<Longrightarrow> m s = (r, t) \<Longrightarrow> m (set_rw l x s) = (r, set_rw l x t)"
  unfolding oblivious_at_def by (drule spec [of _ "\<lambda>_. x"]) (simp add: set_rws_simps)

lemma oblivious_at_locks: "oblivious_at [l] m s \<Longrightarrow> m s = (r, t) \<Longrightarrow> locks t l = locks s l"
  using oblivious_at_run [of l m s r t "locks s l"]
  by (auto simp: set_rw_def dest: arg_cong [of _ _ "\<lambda>u. locks u l"])

lemma with_lock_free_at:
  assumes "oblivious_at [l] m s" and "locks s l = Unlocked"
  shows "m s = (Ret v, t) \<Longrightarrow> with_lock l m s = (Ret v, t)"
    and "m s = (Panicked p, t) \<Longrightarrow> with_lock l m s = (Panicked p, t)"
  using assms oblivious_at_run [OF assms(1)] oblivious_at_locks [OF assms(1)]
  by (auto intro!: with_lock_Ret with_lock_Panicked)

lemma with_lock_free:
  assumes "oblivious l m" and "locks s l = Unlocked"
  shows "m s = (Ret v, t) \<Longrightarrow> with_lock l m s = (Ret v, t)"
    and "m s = (Panicked p, t) \<Longrightarrow> with_lock l m s = (Panicked p, t)"
  by (rule with_lock_free_at [OF oblivious_atI assms(2)]; use assms(1) in simp)+

lemma with_lock_blocked: "locks s l \<noteq> Unlocked \<Longrightarrow> with_lock l m s = (Blocked, s)"
  by (simp add: with_lock_def)

text \<open>A read lock is available when no writer holds the lock.\<close>

lemma with_rlock_free:
  assumes "oblivious l m" and "locks s l = Unlocked \<or> locks s l = RLocked (Suc n)"
  shows "m s = (Ret v, t) \<Longrightarrow> with_rlock l m s = (Ret v, t)"
    and "m s = (Panicked p, t) \<Longrightarrow> with_rlock l m s = (Panicked p, t)"
  using assms(2) oblivious_run [OF assms(1), of s] oblivious_locks [OF assms(1), of s]
  by (auto simp: with_rlock_def deferred_def release_def)

subsection \<open>Facts: oblivious computations\<close>

named_theorems obliviousI \<open>introduction rules for oblivious computations\<close>

lemma oblivious_prim [obliviousI]:
  "oblivious l (ret v)"
  "oblivious l (go_panic p)"
  "(\<And>x s. f (set_rw l x s) = f s) \<Longrightarrow> oblivious l (gets f)"
  "(\<And>x s. h (set_rw l x s) = set_rw l x (h s)) \<Longrightarrow> oblivious l (modify h)"
  by (auto simp: oblivious_def exec)

lemma oblivious_bind [obliviousI]:
  "oblivious l m \<Longrightarrow> (\<And>v. oblivious l (f v)) \<Longrightarrow> oblivious l (bind m f)"
  unfolding oblivious_def bind_def run_then_case by (auto split: prod.splits outcome.splits)

lemma oblivious_for_each [obliviousI]:
  "(\<And>i. oblivious l (f i)) \<Longrightarrow> oblivious l (for_each is f)"
  by (induction "is") (auto intro: obliviousI)

lemma oblivious_if [obliviousI]:
  "oblivious l m \<Longrightarrow> oblivious l m' \<Longrightarrow> oblivious l (if b then m else m')"
  by simp

lemma oblivious_case [obliviousI]:
  "oblivious l m \<Longrightarrow> (\<And>x. oblivious l (f x)) \<Longrightarrow> oblivious l (case z of None \<Rightarrow> m | Some x \<Rightarrow> f x)"
  "(\<And>x. oblivious l (g x)) \<Longrightarrow> (\<And>x. oblivious l (h x)) \<Longrightarrow>
   oblivious l (case y of Inl x \<Rightarrow> g x | Inr x \<Rightarrow> h x)"
  by (auto split: option.splits sum.splits)

lemma oblivious_memory [obliviousI]:
  "oblivious l (idx_get sl i)" "oblivious l (idx_set sl i v)"
  "oblivious l (read_all sl)" "oblivious l (write_all sl bs)" "oblivious l (gc_new bs)"
  "oblivious l (slice_from sl k)" "oblivious l (slice_upto sl k)" "oblivious l (unsafe_slice sl k n)"
  by (cases sl; auto simp: oblivious_def read_all_def write_all_def gc_new_def set_rw_updates)+

lemma oblivious_memcall [obliviousI]:
  "oblivious l (memcall_Alloc E n)" "oblivious l (memcall_Free E sl)" "oblivious l (memcall_Protect E sl p)"
  "oblivious l (memcall_Lock E sl)" "oblivious l (memcall_Unlock E sl)"
  by (auto simp: oblivious_def memcall_Alloc_def memcall_Free_def memcall_Protect_def memcall_Lock_def
      memcall_Unlock_def set_rw_updates split: prod.split)

lemma oblivious_objects [obliviousI]:
  "oblivious l (get_buf b)" "oblivious l (upd_buf b g)" "oblivious l new_Buffer"
  by (auto simp: oblivious_def get_buf_def upd_buf_def new_Buffer_def set_rw_updates exec)

lemma oblivious_with_lock [obliviousI]:
  assumes "k \<noteq> l" and "oblivious l m"
  shows "oblivious l (with_lock k m)" and "oblivious l (with_rlock k m)"
  using assms
  by (auto simp: oblivious_def with_lock_def with_rlock_def deferred_def release_def
      set_rw_commute [of k l] split: prod.splits outcome.splits rwlock.splits)

end
