(* ===== verification/Crypto.thy ===== *)
theory Crypto
  imports World
begin

text \<open>
  The byte-level helpers of \<^verbatim>\<open>core/crypto.go\<close> (\<^verbatim>\<open>Scramble\<close>, \<^verbatim>\<open>Wipe\<close>, \<^verbatim>\<open>Copy\<close>, \<^verbatim>\<open>Move\<close>, \<^verbatim>\<open>Equal\<close>,
  \<^verbatim>\<open>Hash\<close>) with the constant-time routines of \<^verbatim>\<open>crypto/subtle\<close> they are built on, and
  \<^verbatim>\<open>roundToPageSize\<close> of \<^verbatim>\<open>core/auxiliary.go\<close>. The loops access memory one byte at a time; the
  lemmas show that on accessible, non-overlapping slices they amount to one block operation, that
  the masked copy and the accumulated comparison compute what \<^verbatim>\<open>copy\<close> and \<^verbatim>\<open>==\<close> do, and that
  rounding is exact until it overflows.
\<close>

subsection \<open>core/auxiliary.go\<close>

definition roundToPageSize :: "env \<Rightarrow> int \<Rightarrow> int" where
  "roundToPageSize E len =
     sint (((word_of_int len :: 64 word) + (word_of_nat (pageSize E) - 1)) AND NOT (word_of_nat (pageSize E) - 1))"

subsection \<open>crypto/rand and crypto/subtle\<close>

definition rand_bytes :: "env \<Rightarrow> nat \<Rightarrow> nat \<Rightarrow> byte list" where
  "rand_bytes E i n = map (\<lambda>j. rnd E (i + j)) [0..<n]"

definition rand_Read :: "env \<Rightarrow> slice \<Rightarrow> err option go" where
  "rand_Read E buf =
     bind (gets rpos) (\<lambda>i.
     case rnderr E i of
       Some e \<Rightarrow> bind (modify (\<lambda>s. s\<lparr>rpos := Suc i\<rparr>)) (\<lambda>_. ret (Some e))
     | None \<Rightarrow>
         bind (write_all buf (rand_bytes E i (slen buf))) (\<lambda>_.
         bind (modify (\<lambda>s. s\<lparr>rpos := i + slen buf\<rparr>)) (\<lambda>_. ret None)))"

definition ConstantTimeByteEq :: "byte \<Rightarrow> byte \<Rightarrow> int" where
  "ConstantTimeByteEq x y = uint (drop_bit 31 ((ucast (x XOR y) :: 32 word) - 1))"

fun compare_loop :: "nat list \<Rightarrow> slice \<Rightarrow> slice \<Rightarrow> byte \<Rightarrow> byte go" where
  "compare_loop [] x y v = ret v"
| "compare_loop (i # is) x y v =
     bind (idx_get x i) (\<lambda>a. bind (idx_get y i) (\<lambda>b. compare_loop is x y (v OR (a XOR b))))"

definition ConstantTimeCompare :: "slice \<Rightarrow> slice \<Rightarrow> int go" where
  "ConstantTimeCompare x y =
     (if slen x \<noteq> slen y then ret 0
      else bind (compare_loop [0..<slen x] x y 0) (\<lambda>v. ret (ConstantTimeByteEq v 0)))"

definition ConstantTimeCopy :: "int \<Rightarrow> slice \<Rightarrow> slice \<Rightarrow> unit go" where
  "ConstantTimeCopy v x y =
     (if slen x \<noteq> slen y then go_panic (PStr ''subtle: slices have different lengths'')
      else for_each [0..<slen x] (\<lambda>i.
        bind (idx_get x i) (\<lambda>a. bind (idx_get y i) (\<lambda>b.
        idx_set x i ((a AND word_of_int (v - 1)) OR (b AND word_of_int (NOT (v - 1))))))))"

subsection \<open>core/crypto.go\<close>

definition Overhead :: "env \<Rightarrow> int" where
  "Overhead E = int (sbOverhead E) + 24"

definition Hash :: "env \<Rightarrow> slice \<Rightarrow> slice go" where
  "Hash E b = bind (read_all b) (\<lambda>bs. gc_new (blake2b E bs))"

definition Scramble :: "env \<Rightarrow> slice \<Rightarrow> err option go" where
  "Scramble E buf =
     bind (rand_Read E buf) (\<lambda>err.
     case err of Some e \<Rightarrow> ret (Some e) | None \<Rightarrow> ret None)"

definition Wipe :: "slice \<Rightarrow> unit go" where
  "Wipe buf = for_each [0..<slen buf] (\<lambda>i. idx_set buf i 0)"

definition Copy :: "slice \<Rightarrow> slice \<Rightarrow> unit go" where
  "Copy dst src =
     (if slen src < slen dst then
        bind (slice_upto dst (int (slen src))) (\<lambda>d. ConstantTimeCopy 1 d src)
      else if slen dst < slen src then
        bind (slice_upto src (int (slen dst))) (\<lambda>s. ConstantTimeCopy 1 dst s)
      else ConstantTimeCopy 1 dst src)"

definition Move :: "slice \<Rightarrow> slice \<Rightarrow> unit go" where
  "Move dst src = bind (Copy dst src) (\<lambda>_. Wipe src)"

definition Equal :: "slice \<Rightarrow> slice \<Rightarrow> bool go" where
  "Equal x y = bind (ConstantTimeCompare x y) (\<lambda>r. ret (r = 1))"

text \<open>A slice as Go makes them: its length is at most its capacity.\<close>

definition wf_slice :: "slice \<Rightarrow> bool" where
  "wf_slice sl = (slen sl \<le> scap sl)"

text \<open>What \<^verbatim>\<open>Copy\<close> leaves in the destination.\<close>

definition copied :: "byte list \<Rightarrow> byte list \<Rightarrow> byte list" where
  "copied dst src = take (length dst) src @ drop (length src) dst"

subsection \<open>Rounding\<close>

lemma and_not_mask_int:
  fixes x :: int
  shows "x AND NOT (mask k) = x - x mod 2 ^ k"
proof -
  have "NOT x AND (x AND mask k) = 0"
    by (simp add: and.assoc [symmetric])
  then have "x - (x AND mask k) = x AND NOT (x AND mask k)"
    by (rule disjunctive_diff_eq_and_not)
  also have "\<dots> = x AND NOT (mask k)"
    by (rule bit_eqI) (auto simp: bit_simps)
  finally show ?thesis by (simp add: take_bit_eq_mask [symmetric] take_bit_eq_mod)
qed

lemma roundToPageSize_wrap:
  assumes "pageSize E = 2 ^ k"
  shows "roundToPageSize E n = go_int ((n + (2 ^ k - 1)) - (n + (2 ^ k - 1)) mod 2 ^ k)"
proof -
  let ?x = "n + (2 ^ k - 1)"
  have "roundToPageSize E n = sint (word_of_int (?x AND NOT (mask k)) :: 64 word)"
    by (simp add: roundToPageSize_def assms mask_eq_exp_minus_1 of_int_and_eq of_int_not_eq)
  then show ?thesis by (simp add: go_int_def and_not_mask_int)
qed

lemma roundToPageSize_eq:
  assumes "pageSize E = 2 ^ k" and "k < 60" and "0 \<le> n" and "n + 2 ^ k \<le> 2 ^ 63"
  shows "roundToPageSize E n = (n + (2 ^ k - 1)) - (n + (2 ^ k - 1)) mod 2 ^ k"
  unfolding roundToPageSize_wrap [OF assms(1)]
proof (rule go_int_id)
  let ?x = "n + (2 ^ k - 1)"
  have "0 \<le> ?x mod 2 ^ k" and "?x mod 2 ^ k \<le> ?x" using assms by (auto intro: zmod_le_nonneg_dividend)
  then show "- (2 ^ 63) \<le> ?x - ?x mod 2 ^ k" and "?x - ?x mod 2 ^ k < 2 ^ 63"
    using assms(4) by linarith+
qed

text \<open>The rounded size is the least multiple of the page size that is not smaller.\<close>

lemma round_up_props:
  fixes n p :: int
  assumes "0 < p" and "0 \<le> n"
  defines "r \<equiv> (n + (p - 1)) - (n + (p - 1)) mod p"
  shows "p dvd r" and "n \<le> r" and "r < n + p"
proof -
  show "p dvd r" by (simp add: r_def minus_mod_eq_mult_div)
  have "0 \<le> (n + (p - 1)) mod p" and "(n + (p - 1)) mod p < p" using assms(1) by simp_all
  then show "n \<le> r" and "r < n + p" unfolding r_def by linarith+
qed

lemma round_facts:
  assumes "page_ok E" and "0 < n" and "n \<le> 2 ^ 62"
  obtains il where "roundToPageSize E n = int il" and "pageSize E dvd il" and "n \<le> int il"
    and "int il < n + int (pageSize E)" and "0 < pageSize E" and "pageSize E < 2 ^ 60"
proof -
  obtain k where k: "k < 60" "pageSize E = 2 ^ k" using assms(1) by (auto simp: page_ok_def)
  let ?r = "(n + (2 ^ k - 1)) - (n + (2 ^ k - 1)) mod 2 ^ k :: int"
  have kp: "(2 :: int) ^ k \<le> 2 ^ 59" and kn: "(2 :: nat) ^ k \<le> 2 ^ 59"
    using k(1) power_increasing [of k 59 "2 :: int"] power_increasing [of k 59 "2 :: nat"] by simp_all
  have eq: "roundToPageSize E n = ?r"
    by (rule roundToPageSize_eq) (use k assms kp in auto)
  have p: "2 ^ k dvd ?r" "n \<le> ?r" "?r < n + 2 ^ k"
    using round_up_props [of "2 ^ k" n] assms(2) by auto
  show ?thesis
  proof (rule that [of "nat ?r"])
    show "roundToPageSize E n = int (nat ?r)" using eq p assms(2) by simp
    have "int (2 ^ k) dvd int (nat ?r)" using p(1,2) assms(2) by simp
    then show "pageSize E dvd nat ?r" using k(2) by (simp only: int_dvd_int_iff)
    show "n \<le> int (nat ?r)" and "int (nat ?r) < n + int (pageSize E)" using p k(2) assms(2) by auto
    show "0 < pageSize E" and "pageSize E < 2 ^ 60" using k kn by auto
  qed
qed

subsection \<open>Constant-time routines\<close>

lemma xor_0_iff [simp]:
  fixes x y :: "'a::len word"
  shows "x XOR y = 0 \<longleftrightarrow> x = y"
proof
  assume "x XOR y = 0"
  then have "(x XOR y) XOR y = 0 XOR y" by simp
  then show "x = y" by (simp add: xor.assoc)
qed simp

lemma ConstantTimeByteEq_iff: "ConstantTimeByteEq x y = (if x = y then 1 else 0)"
proof (cases "x = y")
  case True
  then show ?thesis by (simp add: ConstantTimeByteEq_def)
next
  case False
  let ?z = "ucast (x XOR y) :: 32 word"
  have "0 < uint (x XOR y)" using False by (simp add: order_less_le uint_0_iff)
  moreover have "uint (x XOR y) < 256" using uint_lt2p [of "x XOR y"] by simp
  ultimately have "uint (?z - 1) < 2 ^ 31"
    by (simp add: uint_word_ariths unsigned_ucast_eq take_bit_eq_mod)
  then have "drop_bit 31 (?z - 1) = 0"
    by (simp add: drop_bit_eq_div word_uint_eq_iff uint_div_distrib)
  with False show ?thesis by (simp add: ConstantTimeByteEq_def)
qed

lemma compare_loop_run:
  assumes "readable (mem s) x" and "readable (mem s) y" and "slen x = slen y"
    and "\<forall>i \<in> set is. i < slen x"
  shows "\<exists>w. compare_loop is x y v s = (Ret w, s) \<and>
     (w = 0 \<longleftrightarrow> v = 0 \<and> (\<forall>i \<in> set is. contents (mem s) x ! i = contents (mem s) y ! i))"
  using assms(4)
proof (induction "is" arbitrary: v)
  case Nil
  show ?case by simp
next
  case (Cons i "is")
  let ?a = "contents (mem s) x ! i" and ?b = "contents (mem s) y ! i"
  have run: "compare_loop (i # is) x y v s = compare_loop is x y (v OR (?a XOR ?b)) s"
    using Cons.prems assms(1-3) by (simp add: bind_Ret [OF idx_get_run])
  have "v OR (?a XOR ?b) = 0 \<longleftrightarrow> v = 0 \<and> ?a = ?b"
    by (simp add: or_eq_0_iff)
  with Cons.IH [of "v OR (?a XOR ?b)"] Cons.prems run show ?case by auto
qed

lemma ConstantTimeCompare_run:
  assumes "readable (mem s) x" and "readable (mem s) y"
  shows "ConstantTimeCompare x y s =
     (Ret (if contents (mem s) x = contents (mem s) y then 1 else 0), s)"
proof (cases "slen x = slen y")
  case False
  then have "contents (mem s) x \<noteq> contents (mem s) y"
    using assms by (metis length_contents readable_fits)
  with False show ?thesis by (simp add: ConstantTimeCompare_def)
next
  case True
  obtain w where w: "compare_loop [0..<slen x] x y 0 s = (Ret w, s)"
    and iff: "w = 0 \<longleftrightarrow> (\<forall>i < slen x. contents (mem s) x ! i = contents (mem s) y ! i)"
    using compare_loop_run [OF assms True, of "[0..<slen x]" 0] by (auto simp: atLeast0LessThan)
  have "w = 0 \<longleftrightarrow> contents (mem s) x = contents (mem s) y"
    unfolding iff list_eq_iff_nth_eq using True assms by (simp add: readable_fits)
  with True show ?thesis
    by (simp add: ConstantTimeCompare_def bind_def w [unfolded True] ConstantTimeByteEq_iff)
qed

lemma Equal_run:
  "readable (mem s) x \<Longrightarrow> readable (mem s) y \<Longrightarrow>
   Equal x y s = (Ret (contents (mem s) x = contents (mem s) y), s)"
  by (simp add: Equal_def bind_Ret [OF ConstantTimeCompare_run])

lemma Equal_different_length: "slen x \<noteq> slen y \<Longrightarrow> Equal x y s = (Ret False, s)"
  by (simp add: Equal_def ConstantTimeCompare_def)

lemma ConstantTimeCopy_run:
  assumes "slen x = slen y" and "writable (mem s) x" and "readable (mem s) y" and "apart x y"
  shows "ConstantTimeCopy 1 x y s = (Ret (), s\<lparr>mem := put (mem s) x (contents (mem s) y)\<rparr>)"
proof -
  let ?v = "\<lambda>i. contents (mem s) y ! i"
  let ?body = "\<lambda>i. bind (idx_get x i) (\<lambda>a. bind (idx_get y i) (\<lambda>b.
        idx_set x i ((a AND word_of_int (1 - 1)) OR (b AND word_of_int (NOT (1 - 1))))))"
  let ?R = "\<lambda>t i. readable (mem t) y \<and> contents (mem t) y ! i = ?v i"
  have fit: "fits (mem s) x" "fits (mem s) y" using assms by (auto simp: writable_fits readable_fits)
  have all: "map ?v [0..<slen x] = contents (mem s) y"
    using assms(1) fit by (metis length_contents map_nth)
  have "for_each [0..<slen x] ?body s = (Ret (), s\<lparr>mem := put (mem s) x (map ?v [0..<slen x])\<rparr>)"
  proof (rule for_each_set [where R = ?R])
    fix i and t :: world
    assume i: "i < slen x" and w: "writable (mem t) x" and R: "?R t i"
    have "?body i t = idx_set x i (contents (mem t) y ! i) t"
      using i w R assms(1)
      by (simp add: bind_Ret [OF idx_get_run] writable_readable and_not_numerals)
    with i w R show "?body i t = (Ret (), t\<lparr>mem := put (mem t) x ((contents (mem t) x)[i := ?v i])\<rparr>)"
      by (simp add: idx_set_run)
  next
    fix i assume "i < slen x"
    then show "?R (s\<lparr>mem := put (mem s) x (map ?v [0..<i] @ drop i (contents (mem s) x))\<rparr>) i"
      using assms fit by (simp add: contents_put_apart)
  qed (rule assms(2))
  with assms(1) all show ?thesis by (simp add: ConstantTimeCopy_def)
qed

subsection \<open>Wiping and copying\<close>

lemma Wipe_run:
  assumes "writable (mem s) sl"
  shows "Wipe sl s = (Ret (), s\<lparr>mem := put (mem s) sl (replicate (slen sl) 0)\<rparr>)"
proof -
  have "for_each [0..<slen sl] (\<lambda>i. idx_set sl i 0) s =
      (Ret (), s\<lparr>mem := put (mem s) sl (map (\<lambda>_. 0) [0..<slen sl])\<rparr>)"
    by (rule for_each_set [where R = "\<lambda>_ _. True"]) (use assms in \<open>auto simp: idx_set_run\<close>)
  then show ?thesis by (simp add: Wipe_def map_replicate_const)
qed

lemma slice_upto_run:
  "k \<le> scap sl \<Longrightarrow> slice_upto sl (int k) s =
     (Ret (case sl of NilSlice \<Rightarrow> NilSlice | Slice a i n c \<Rightarrow> Slice a i k c), s)"
  by (cases sl) auto

lemma slice_from_run:
  "k \<le> slen sl \<Longrightarrow> slice_from sl (int k) s =
     (Ret (case sl of NilSlice \<Rightarrow> NilSlice | Slice a i n c \<Rightarrow> Slice a (i + k) (n - k) (c - k)), s)"
  by (cases sl) auto

text \<open>Writing a prefix of a slice is writing the slice with its other bytes unchanged.\<close>

lemma put_prefix:
  assumes "k \<le> n" and "fits m (Slice a i n c)" and "length bs = k"
  shows "put m (Slice a i k c') bs = put m (Slice a i n c) (bs @ drop k (contents m (Slice a i n c)))"
proof -
  have "overwrite i bs xs = overwrite i (bs @ drop k (sub i n xs)) xs"
    if "i + n \<le> length xs" for xs :: "byte list"
    using that assms(1,3) by (intro nth_equalityI) (auto simp: nth_overwrite nth_append)
  with assms(2) show ?thesis by simp
qed

lemma length_copied [simp]: "length (copied dst src) = length dst"
  by (simp add: copied_def)

lemma copied_same_length [simp]: "length dst = length src \<Longrightarrow> copied dst src = src"
  by (simp add: copied_def)

lemma Copy_run:
  assumes "wf_slice dst" and "wf_slice src"
    and "writable (mem s) dst" and "readable (mem s) src" and "apart dst src"
  shows "Copy dst src s = (Ret (), s\<lparr>mem := put (mem s) dst (copied (contents (mem s) dst) (contents (mem s) src))\<rparr>)"
proof -
  have fit: "fits (mem s) dst" "fits (mem s) src" using assms by (auto simp: writable_fits readable_fits)
  consider (shorter) "slen src < slen dst" | (longer) "slen dst < slen src" | (same) "slen src = slen dst"
    by linarith
  then show ?thesis
  proof cases
    case shorter
    then obtain a i n c where dst: "dst = Slice a i n c" by (cases dst) auto
    let ?d = "Slice a i (slen src) c"
    have "Copy dst src s = ConstantTimeCopy 1 ?d src s"
      using shorter assms(1) dst by (simp add: Copy_def wf_slice_def)
    also have "\<dots> = (Ret (), s\<lparr>mem := put (mem s) ?d (contents (mem s) src)\<rparr>)"
      by (rule ConstantTimeCopy_run) (use assms dst shorter in \<open>cases src; auto\<close>)+
    also have "put (mem s) ?d (contents (mem s) src) =
        put (mem s) dst (contents (mem s) src @ drop (slen src) (contents (mem s) dst))"
      unfolding dst by (rule put_prefix) (use shorter fit dst in auto)
    finally show ?thesis using shorter fit by (simp add: copied_def)
  next
    case longer
    then obtain a i n c where src: "src = Slice a i n c" by (cases src) auto
    let ?s = "Slice a i (slen dst) c"
    have sub: "contents (mem s) ?s = take (slen dst) (contents (mem s) src)"
      using longer src by (simp add: sub_def)
    have "Copy dst src s = ConstantTimeCopy 1 dst ?s s"
      using longer assms(2) src by (simp add: Copy_def wf_slice_def)
    also have "\<dots> = (Ret (), s\<lparr>mem := put (mem s) dst (contents (mem s) ?s)\<rparr>)"
      by (rule ConstantTimeCopy_run) (use assms src longer in \<open>cases dst; auto\<close>)+
    finally show ?thesis using longer fit sub by (simp add: copied_def)
  next
    case same
    then have "Copy dst src s = ConstantTimeCopy 1 dst src s" by (simp add: Copy_def)
    also have "\<dots> = (Ret (), s\<lparr>mem := put (mem s) dst (contents (mem s) src)\<rparr>)"
      by (rule ConstantTimeCopy_run) (use assms same in auto)
    finally show ?thesis using same fit by simp
  qed
qed

lemma Move_run:
  assumes "wf_slice dst" and "wf_slice src"
    and "writable (mem s) dst" and "writable (mem s) src" and "apart dst src"
  shows "Move dst src s =
     (Ret (), s\<lparr>mem := put (put (mem s) dst (copied (contents (mem s) dst) (contents (mem s) src)))
                        src (replicate (slen src) 0)\<rparr>)"
proof -
  have c: "Copy dst src s = (Ret (), s\<lparr>mem := put (mem s) dst (copied (contents (mem s) dst) (contents (mem s) src))\<rparr>)"
    by (rule Copy_run) (use assms in \<open>auto simp: writable_readable\<close>)
  show ?thesis
    using assms(3,4) by (simp add: Move_def bind_def c Wipe_run writable_fits)
qed

subsection \<open>Randomness and hashing\<close>

lemma length_rand_bytes [simp]: "length (rand_bytes E i n) = n"
  by (simp add: rand_bytes_def)

lemma Scramble_run:
  "rand_ok E \<Longrightarrow> writable (mem s) sl \<Longrightarrow>
   Scramble E sl s = (Ret None, s\<lparr>mem := put (mem s) sl (rand_bytes E (rpos s) (slen sl)), rpos := rpos s + slen sl\<rparr>)"
  by (simp add: Scramble_def rand_Read_def rand_ok_def write_all_def bind_def exec)

lemma Scramble_error:
  "rnderr E (rpos s) = Some e \<Longrightarrow> Scramble E sl s = (Ret (Some e), s\<lparr>rpos := Suc (rpos s)\<rparr>)"
  by (simp add: Scramble_def rand_Read_def bind_def exec)

lemma Hash_run:
  "readable (mem s) sl \<Longrightarrow> Hash E sl s = gc_new (blake2b E (contents (mem s) sl)) s"
  by (simp add: Hash_def bind_def read_all_def)

subsection \<open>Accesses to protected memory fault\<close>

lemma for_each_crash:
  "is = js @ i # ks \<Longrightarrow> for_each js f s = (Ret (), t) \<Longrightarrow> f i t = (Crash, u) \<Longrightarrow> for_each is f s = (Crash, u)"
  by (simp add: for_each_append bind_def)

lemma idx_set_crash:
  "i < n \<Longrightarrow> rprot (regs (mem s) a) (off + i) \<noteq> ReadWrite \<Longrightarrow> idx_set (Slice a off n c) i v s = (Crash, s)"
  by simp

lemma Wipe_crash:
  assumes "0 < n" and "rprot (regs (mem s) a) off \<noteq> ReadWrite"
  shows "Wipe (Slice a off n c) s = (Crash, s)"
proof -
  have "[0..<n] = [] @ 0 # [1..<n]" using assms(1) by (simp add: upt_conv_Cons)
  moreover have "idx_set (Slice a off n c) 0 0 s = (Crash, s)" using assms by simp
  ultimately show ?thesis unfolding Wipe_def slen.simps by (intro for_each_crash [of _ "[]" 0 "[1..<n]" _ s s]) simp_all
qed

subsection \<open>The helpers use no mutex\<close>

lemma oblivious_compare_loop [obliviousI]: "oblivious l (compare_loop is x y v)"
  by (induction "is" arbitrary: v) (auto intro!: obliviousI)

lemma oblivious_Crypto [obliviousI]:
  "oblivious l (rand_Read E sl)" "oblivious l (Scramble E sl)" "oblivious l (Hash E sl)"
  "oblivious l (Wipe sl)" "oblivious l (ConstantTimeCopy v x y)" "oblivious l (ConstantTimeCompare x y)"
  by (auto simp: rand_Read_def Scramble_def Hash_def Wipe_def ConstantTimeCopy_def ConstantTimeCompare_def
      set_rw_updates intro!: obliviousI split: option.split)

lemma oblivious_Crypto2 [obliviousI]:
  "oblivious l (Copy x y)" "oblivious l (Move x y)" "oblivious l (Equal x y)"
  by (auto simp: Copy_def Move_def Equal_def intro!: obliviousI)

end
