(* ===== verification/Buffer_Ops.thy ===== *)
theory Buffer_Ops
  imports Crypto
begin

text \<open>
  The unexported operations of \<^verbatim>\<open>core/buffer.go\<close> that never purge the session: the state machine of
  a single buffer (\<^verbatim>\<open>freeze\<close>, \<^verbatim>\<open>melt\<close>, \<^verbatim>\<open>scramble\<close>, \<^verbatim>\<open>destroy\<close> and the queries) and the list of
  all active buffers (\<^verbatim>\<open>bufferList\<close>). \<open>laid_out\<close> is the geometry of an allocation (guard page,
  canary, data, guard page), \<open>guarded\<close> adds the protections and the page locks, \<open>canary_ok\<close> that no
  overflow hit the canary. The lemmas give the exact effect of each operation on a guarded buffer.
\<close>

subsection \<open>core/buffer.go: one buffer\<close>

definition Data :: "nat \<Rightarrow> slice go" where
  "Data b = bind (get_buf b) (\<lambda>B. ret (data B))"

definition Inner :: "nat \<Rightarrow> slice go" where
  "Inner b = bind (get_buf b) (\<lambda>B. ret (inner B))"

definition freeze :: "env \<Rightarrow> nat \<Rightarrow> err option go" where
  "freeze E b = with_lock (BufLock b)
     (bind (get_buf b) (\<lambda>B.
      if \<not> alive B then ret None
      else if mutable B then
        bind (memcall_Protect E (inner B) ReadOnly) (\<lambda>err.
        case err of
          Some e \<Rightarrow> ret (Some e)
        | None \<Rightarrow> bind (upd_buf b (\<lambda>B. B\<lparr>mutable := False\<rparr>)) (\<lambda>_. ret None))
      else ret None))"

definition melt :: "env \<Rightarrow> nat \<Rightarrow> err option go" where
  "melt E b = with_lock (BufLock b)
     (bind (get_buf b) (\<lambda>B.
      if \<not> alive B then ret None
      else if \<not> mutable B then
        bind (memcall_Protect E (inner B) ReadWrite) (\<lambda>err.
        case err of
          Some e \<Rightarrow> ret (Some e)
        | None \<Rightarrow> bind (upd_buf b (\<lambda>B. B\<lparr>mutable := True\<rparr>)) (\<lambda>_. ret None))
      else ret None))"

definition scramble :: "env \<Rightarrow> nat \<Rightarrow> err option go" where
  "scramble E b = with_lock (BufLock b) (bind (Data b) (\<lambda>d. Scramble E d))"

definition canaryErr :: err where
  "canaryErr = ErrText ''<memguard::core::buffer> canary verification failed; buffer overflow detected''"

text \<open>The condition of the canary check, with the short-circuit of \<^verbatim>\<open>||\<close>.\<close>

definition canary_broken :: "Buffer \<Rightarrow> bool go" where
  "canary_broken B =
     bind (Equal (preguard B) (postguard B)) (\<lambda>same.
     if \<not> same then ret True
     else bind (slice_upto (preguard B) (int (slen (canary B)))) (\<lambda>p.
          bind (Equal p (canary B)) (\<lambda>eq. ret (\<not> eq))))"

text \<open>The part of \<^verbatim>\<open>destroy\<close> after the canary was verified.\<close>

definition release_memory :: "env \<Rightarrow> nat \<Rightarrow> Buffer \<Rightarrow> err option go" where
  "release_memory E b B =
     bind (Wipe (memory B)) (\<lambda>_.
     bind (memcall_Unlock E (inner B)) (\<lambda>err.
     case err of Some e \<Rightarrow> ret (Some e) | None \<Rightarrow>
     bind (memcall_Free E (memory B)) (\<lambda>err.
     case err of Some e \<Rightarrow> ret (Some e) | None \<Rightarrow>
     bind (upd_buf b (\<lambda>B. B\<lparr>alive := False, mutable := False, data := NilSlice, memory := NilSlice,
        preguard := NilSlice, inner := NilSlice, postguard := NilSlice, canary := NilSlice\<rparr>)) (\<lambda>_.
     ret None))))"

definition destroy_body :: "env \<Rightarrow> nat \<Rightarrow> err option go" where
  "destroy_body E b =
     bind (get_buf b) (\<lambda>B.
     if \<not> alive B then ret None
     else bind (memcall_Protect E (memory B) ReadWrite) (\<lambda>err.
       case err of Some e \<Rightarrow> ret (Some e) | None \<Rightarrow>
       bind (upd_buf b (\<lambda>B. B\<lparr>mutable := True\<rparr>)) (\<lambda>_.
       bind (Wipe (data B)) (\<lambda>_.
       bind (canary_broken B) (\<lambda>broken.
       if broken then ret (Some canaryErr) else release_memory E b B)))))"

text \<open>\<^verbatim>\<open>destroy\<close>, which is also called on a \<^verbatim>\<open>nil\<close> pointer.\<close>

fun destroy :: "env \<Rightarrow> nat option \<Rightarrow> err option go" where
  "destroy E None = ret None"
| "destroy E (Some b) = with_lock (BufLock b) (destroy_body E b)"

definition Alive :: "nat \<Rightarrow> bool go" where
  "Alive b = with_rlock (BufLock b) (bind (get_buf b) (\<lambda>B. ret (alive B)))"

definition Mutable :: "nat \<Rightarrow> bool go" where
  "Mutable b = with_rlock (BufLock b) (bind (get_buf b) (\<lambda>B. ret (mutable B)))"

definition isDestroyed :: "nat \<Rightarrow> bool go" where
  "isDestroyed b = with_rlock (BufLock b) (bind (get_buf b) (\<lambda>B. ret (data B = NilSlice)))"

subsection \<open>core/buffer.go: the list of buffers\<close>

fun remove_first :: "'a \<Rightarrow> 'a list \<Rightarrow> 'a list" where
  "remove_first b [] = []"
| "remove_first b (v # vs) = (if v = b then vs else v # remove_first b vs)"

definition list_add :: "nat list \<Rightarrow> unit go" where
  "list_add bs = with_lock ListLock (modify (\<lambda>s. s\<lparr>blist := blist s @ bs\<rparr>))"

definition list_copy :: "nat list go" where
  "list_copy = with_lock ListLock (gets blist)"

fun list_remove :: "nat option \<Rightarrow> unit go" where
  "list_remove None = with_lock ListLock (ret ())"
| "list_remove (Some b) = with_lock ListLock (modify (\<lambda>s. s\<lparr>blist := remove_first b (blist s)\<rparr>))"

definition list_exists :: "nat \<Rightarrow> bool go" where
  "list_exists b = with_rlock ListLock (gets (\<lambda>s. b \<in> set (blist s)))"

definition list_flush :: "nat list go" where
  "list_flush = with_lock ListLock
     (bind (gets blist) (\<lambda>l. bind (modify (\<lambda>s. s\<lparr>blist := []\<rparr>)) (\<lambda>_. ret l)))"

subsection \<open>Well-formed buffers\<close>

fun slice_base :: "slice \<Rightarrow> base" where
  "slice_base NilSlice = GC 0"
| "slice_base (Slice a i n c) = a"

definition buf_base :: "Buffer \<Rightarrow> base" where
  "buf_base B = slice_base (memory B)"

abbreviation buf_region :: "world \<Rightarrow> nat \<Rightarrow> region" where
  "buf_region s b \<equiv> regs (mem s) (buf_base (bufs s b))"

text \<open>
  The layout of an allocation whose data has \<open>n\<close> bytes: a guard page, \<open>il\<close> bytes of inner pages
  that hold the canary followed by the data, a guard page. The data ends where the second guard
  page starts.
\<close>

definition laid_out :: "env \<Rightarrow> Buffer \<Rightarrow> bool" where
  "laid_out E B \<longleftrightarrow>
     (let ps = pageSize E; n = slen (data B); il = slen (inner B); a = buf_base B in
      is_Sys a \<and> 0 < n \<and> n \<le> il \<and> il < n + ps \<and> ps dvd il \<and>
      memory B = Slice a 0 (2 * ps + il) (2 * ps + il) \<and>
      preguard B = Slice a 0 ps ps \<and>
      inner B = Slice a ps il il \<and>
      postguard B = Slice a (ps + il) ps ps \<and>
      data B = Slice a (ps + (il - n)) n n \<and>
      canary B = Slice a ps (il - n) (il - n))"

definition mapped :: "env \<Rightarrow> world \<Rightarrow> nat \<Rightarrow> bool" where
  "mapped E s b \<longleftrightarrow>
     laid_out E (bufs s b) \<and> sys_id (buf_base (bufs s b)) < sysnext (mem s) \<and>
     length (rbytes (buf_region s b)) = 2 * pageSize E + slen (inner (bufs s b))"

definition guarded :: "env \<Rightarrow> world \<Rightarrow> nat \<Rightarrow> bool" where
  "guarded E s b \<longleftrightarrow>
     (let B = bufs s b; ps = pageSize E; il = slen (inner B); r = buf_region s b in
      alive B \<and> mapped E s b \<and>
      (\<forall>j<ps. rprot r j = NoAccess) \<and>
      (\<forall>j<il. rprot r (ps + j) = (if mutable B then ReadWrite else ReadOnly)) \<and>
      (\<forall>j<ps. rprot r (ps + il + j) = NoAccess) \<and>
      (\<forall>j<il. rlock r (ps + j)))"

text \<open>Both guard pages hold the same bytes and start with the canary.\<close>

definition canary_ok :: "world \<Rightarrow> nat \<Rightarrow> bool" where
  "canary_ok s b \<longleftrightarrow>
     (let B = bufs s b in
      contents (mem s) (preguard B) = contents (mem s) (postguard B) \<and>
      take (slen (canary B)) (contents (mem s) (preguard B)) = contents (mem s) (canary B))"

definition destroyed_state :: "nat \<Rightarrow> world \<Rightarrow> world" where
  "destroyed_state b s =
     s\<lparr>mem := (mem s)\<lparr>regs := (regs (mem s))(buf_base (bufs s b) := no_region)\<rparr>,
       bufs := (bufs s)(b := zero_Buffer), mcalls := mcalls s + 3\<rparr>"

text \<open>What is left of a buffer whose canary check failed.\<close>

definition broken_state :: "nat \<Rightarrow> world \<Rightarrow> world" where
  "broken_state b s =
     s\<lparr>mem := put (set_prot (memory (bufs s b)) ReadWrite (mem s)) (data (bufs s b))
               (replicate (slen (data (bufs s b))) 0),
       bufs := (bufs s)(b := (bufs s b)\<lparr>mutable := True\<rparr>), mcalls := Suc (mcalls s)\<rparr>"

subsection \<open>Facts: layout\<close>

lemma laid_outE:
  assumes "laid_out E B"
  obtains i n c where "buf_base B = Sys i"
    and "memory B = Slice (Sys i) 0 (2 * pageSize E + (n + c)) (2 * pageSize E + (n + c))"
    and "preguard B = Slice (Sys i) 0 (pageSize E) (pageSize E)"
    and "inner B = Slice (Sys i) (pageSize E) (n + c) (n + c)"
    and "postguard B = Slice (Sys i) (pageSize E + (n + c)) (pageSize E) (pageSize E)"
    and "data B = Slice (Sys i) (pageSize E + c) n n"
    and "canary B = Slice (Sys i) (pageSize E) c c"
    and "0 < n" and "c < pageSize E" and "pageSize E dvd n + c" and "0 < pageSize E"
proof (rule that [of "sys_id (buf_base B)" "slen (data B)" "slen (inner B) - slen (data B)"])
  let ?n = "slen (data B)" and ?il = "slen (inner B)"
  have il: "?n + (?il - ?n) = ?il" "?il - ?n < pageSize E" "0 < pageSize E"
    using assms unfolding laid_out_def Let_def by linarith+
  show "0 < pageSize E" "?il - ?n < pageSize E" by (rule il)+
  show "buf_base B = Sys (sys_id (buf_base B))" using assms unfolding laid_out_def Let_def by simp
qed (use assms in \<open>auto simp only: laid_out_def Let_def base.collapse(1) le_add_diff_inverse\<close>)

lemma laid_out_mutable [simp]: "laid_out E (B\<lparr>mutable := v\<rparr>) = laid_out E B"
  by (simp add: laid_out_def buf_base_def)

lemma buf_base_mutable [simp]: "buf_base (B\<lparr>mutable := v\<rparr>) = buf_base B"
  by (simp add: buf_base_def)

lemma buf_base_zero [simp]: "buf_base zero_Buffer = GC 0"
  by (simp add: buf_base_def zero_Buffer_def)

lemma zero_Buffer_simps [simp]:
  "alive zero_Buffer = False" "mutable zero_Buffer = False" "data zero_Buffer = NilSlice"
  "memory zero_Buffer = NilSlice" "preguard zero_Buffer = NilSlice" "inner zero_Buffer = NilSlice"
  "postguard zero_Buffer = NilSlice" "canary zero_Buffer = NilSlice"
  by (simp_all add: zero_Buffer_def)

lemma reset_Buffer [simp]:
  fixes B :: Buffer
  shows "B\<lparr>alive := False, mutable := False, data := NilSlice, memory := NilSlice, preguard := NilSlice,
     inner := NilSlice, postguard := NilSlice, canary := NilSlice\<rparr> = zero_Buffer"
  by (simp add: zero_Buffer_def)

subsection \<open>Facts: the effect of the operations\<close>

lemmas buf_prims = get_buf_def upd_buf_def

declare destroy.simps(2) [simp del] list_remove.simps [simp del]

lemma Data_run [simp]: "Data b s = (Ret (data (bufs s b)), s)"
  by (simp add: Data_def get_buf_def exec)

lemma oblivious_Data [obliviousI]: "oblivious l (Data b)" "oblivious l (Inner b)"
  by (auto simp: Data_def Inner_def intro!: obliviousI)

lemma dead_runs:
  assumes "\<not> alive (bufs s b)" and "locks s (BufLock b) = Unlocked"
  shows "freeze E b s = (Ret None, s)" "melt E b s = (Ret None, s)" "destroy E (Some b) s = (Ret None, s)"
  using assms
  by (auto simp: freeze_def melt_def destroy.simps destroy_body_def get_buf_def bind_def exec intro!: with_lock_Ret)

lemma freeze_run:
  assumes "memcall_ok E" and "memcall_works E" and "alive (bufs s b)" and "locks s (BufLock b) = Unlocked"
  shows "freeze E b s =
     (Ret None, if mutable (bufs s b)
       then s\<lparr>mem := set_prot (inner (bufs s b)) ReadOnly (mem s),
              bufs := (bufs s)(b := (bufs s b)\<lparr>mutable := False\<rparr>), mcalls := Suc (mcalls s)\<rparr>
       else s)"
  using assms(3,4)
  by (auto simp: freeze_def buf_prims bind_def exec memcall_runs [OF assms(1,2)] set_rw_updates intro!: with_lock_Ret)

lemma melt_run:
  assumes "memcall_ok E" and "memcall_works E" and "alive (bufs s b)" and "locks s (BufLock b) = Unlocked"
  shows "melt E b s =
     (Ret None, if mutable (bufs s b) then s
       else s\<lparr>mem := set_prot (inner (bufs s b)) ReadWrite (mem s),
              bufs := (bufs s)(b := (bufs s b)\<lparr>mutable := True\<rparr>), mcalls := Suc (mcalls s)\<rparr>)"
  using assms(3,4)
  by (auto simp: melt_def buf_prims bind_def exec memcall_runs [OF assms(1,2)] set_rw_updates intro!: with_lock_Ret)

text \<open>Reading the canary: what the check computes once all of the memory is readable.\<close>

lemma canary_broken_run:
  assumes "laid_out E B" and "readable (mem s) (memory B)"
  shows "canary_broken B s =
     (Ret (\<not> (contents (mem s) (preguard B) = contents (mem s) (postguard B) \<and>
              take (slen (canary B)) (contents (mem s) (preguard B)) = contents (mem s) (canary B))), s)"
  using assms(1)
proof (rule laid_outE)
  fix i n c
  assume B: "memory B = Slice (Sys i) 0 (2 * pageSize E + (n + c)) (2 * pageSize E + (n + c))"
      "preguard B = Slice (Sys i) 0 (pageSize E) (pageSize E)"
      "postguard B = Slice (Sys i) (pageSize E + (n + c)) (pageSize E) (pageSize E)"
      "canary B = Slice (Sys i) (pageSize E) c c" "c < pageSize E"
  have r: "\<And>j. j < 2 * pageSize E + (n + c) \<Longrightarrow> rprot (regs (mem s) (Sys i)) j \<noteq> NoAccess"
    and len: "2 * pageSize E + (n + c) \<le> length (rbytes (regs (mem s) (Sys i)))"
    using assms(2) B by auto
  have rd: "readable (mem s) (preguard B)" "readable (mem s) (postguard B)" "readable (mem s) (canary B)"
      "readable (mem s) (Slice (Sys i) 0 c (pageSize E))"
    using B r len by auto
  have "take c (sub 0 (pageSize E) xs) = sub 0 c xs" for xs :: "byte list"
    using B by (simp add: sub_def min_absorb1)
  with rd B show ?thesis
    by (simp add: canary_broken_def bind_def exec Equal_run)
qed

lemma mappedE:
  assumes "mapped E s b"
  obtains i n c where "buf_base (bufs s b) = Sys i" and "i < sysnext (mem s)"
    and "memory (bufs s b) = Slice (Sys i) 0 (2 * pageSize E + (n + c)) (2 * pageSize E + (n + c))"
    and "preguard (bufs s b) = Slice (Sys i) 0 (pageSize E) (pageSize E)"
    and "inner (bufs s b) = Slice (Sys i) (pageSize E) (n + c) (n + c)"
    and "postguard (bufs s b) = Slice (Sys i) (pageSize E + (n + c)) (pageSize E) (pageSize E)"
    and "data (bufs s b) = Slice (Sys i) (pageSize E + c) n n"
    and "canary (bufs s b) = Slice (Sys i) (pageSize E) c c"
    and "0 < n" and "c < pageSize E" and "pageSize E dvd n + c" and "0 < pageSize E"
    and "length (rbytes (regs (mem s) (Sys i))) = 2 * pageSize E + (n + c)"
proof -
  from assms have "laid_out E (bufs s b)" by (simp add: mapped_def)
  then show ?thesis
    by (rule laid_outE) (rule that, use assms in \<open>auto simp: mapped_def\<close>)
qed

text \<open>Once the whole allocation is readable and writable, so are its parts.\<close>

lemma mapped_open:
  assumes "mapped E s b"
  shows "writable (set_prot (memory (bufs s b)) ReadWrite (mem s)) (memory (bufs s b))"
    and "writable (set_prot (memory (bufs s b)) ReadWrite (mem s)) (data (bufs s b))"
  using assms by (auto elim!: mappedE)

lemma apart_guards:
  assumes "laid_out E B"
  shows "apart (data B) (preguard B)" and "apart (data B) (postguard B)" and "apart (data B) (canary B)"
  using assms by (auto elim!: laid_outE)

text \<open>The memory and the buffer when \<^verbatim>\<open>destroy\<close> has made everything accessible and wiped the data.\<close>

lemma destroy_opened:
  assumes "alive (bufs s b)" and "mapped E s b"
    and P: "memcall_Protect E (memory (bufs s b)) ReadWrite s =
       (Ret None, s\<lparr>mem := set_prot (memory (bufs s b)) ReadWrite (mem s), mcalls := Suc (mcalls s)\<rparr>)"
  shows "destroy_body E b s =
     (if canary_ok s b then release_memory E b (bufs s b) (broken_state b s)
      else (Ret (Some canaryErr), broken_state b s))"
proof -
  let ?B = "bufs s b" and ?m = "set_prot (memory (bufs s b)) ReadWrite (mem s)"
  let ?t = "s\<lparr>mem := ?m, bufs := (bufs s)(b := ?B\<lparr>mutable := True\<rparr>), mcalls := Suc (mcalls s)\<rparr>"
  have lo: "laid_out E ?B" using assms(2) by (simp add: mapped_def)
  have wr: "writable ?m (data ?B)" "writable ?m (memory ?B)" using mapped_open [OF assms(2)] by auto
  have wipe: "Wipe (data ?B) ?t = (Ret (), broken_state b s)"
    using wr by (simp add: Wipe_run broken_state_def)
  have rd: "readable (mem (broken_state b s)) (memory ?B)"
    using wr by (simp add: broken_state_def writable_readable writable_fits)
  have same: "contents (mem (broken_state b s)) sl = contents (mem s) sl" if "apart (data ?B) sl" for sl
    using that wr by (simp add: broken_state_def contents_put_apart writable_fits)
  have broken: "canary_broken ?B (broken_state b s) = (Ret (\<not> canary_ok s b), broken_state b s)"
    using apart_guards [OF lo] by (simp add: canary_broken_run [OF lo rd] same canary_ok_def Let_def)
  have "destroy_body E b s = run_then (Wipe (data ?B) ?t)
      (\<lambda>_. bind (canary_broken ?B) (\<lambda>broken. if broken then ret (Some canaryErr) else release_memory E b ?B))"
    using assms(1) by (simp add: destroy_body_def buf_prims bind_def exec P state_order)
  also have "\<dots> = (if canary_ok s b then release_memory E b ?B (broken_state b s)
      else (Ret (Some canaryErr), broken_state b s))"
    unfolding wipe by (simp add: bind_def exec broken)
  finally show ?thesis .
qed

lemma release_memory_run:
  assumes "memcall_ok E" and "memcall_works E" and "mapped E s b"
  shows "release_memory E b (bufs s b) (broken_state b s) = (Ret None, destroyed_state b s)"
proof -
  let ?B = "bufs s b" and ?t = "broken_state b s"
  have "writable (mem ?t) (memory ?B)"
    using mapped_open [OF assms(3)] by (simp add: broken_state_def writable_fits)
  then have wipe: "Wipe (memory ?B) ?t = (Ret (), ?t\<lparr>mem := put (mem ?t) (memory ?B) (replicate (slen (memory ?B)) 0)\<rparr>)"
    by (rule Wipe_run)
  have "release_memory E b ?B ?t = (Ret None,
      ?t\<lparr>mem := unmap_region (memory ?B) (set_lock (inner ?B) False (put (mem ?t) (memory ?B) (replicate (slen (memory ?B)) 0))),
         bufs := (bufs ?t)(b := zero_Buffer), mcalls := Suc (Suc (mcalls ?t))\<rparr>)"
    by (simp add: release_memory_def bind_def exec wipe memcall_runs [OF assms(1,2)] upd_buf_def state_order)
  also have "\<dots> = (Ret None, destroyed_state b s)"
    using assms(3) by (auto elim!: mappedE simp: broken_state_def destroyed_state_def state_order)
  finally show ?thesis .
qed

lemma oblivious_destroy_body [obliviousI]: "oblivious l (destroy_body E b)"
  by (auto simp: destroy_body_def canary_broken_def release_memory_def intro!: obliviousI)

lemma destroy_run:
  assumes "memcall_ok E" and "memcall_works E" and "alive (bufs s b)" and "mapped E s b"
    and "locks s (BufLock b) = Unlocked"
  shows "destroy E (Some b) s =
     (if canary_ok s b then (Ret None, destroyed_state b s) else (Ret (Some canaryErr), broken_state b s))"
proof -
  have body: "destroy_body E b s =
     (if canary_ok s b then (Ret None, destroyed_state b s) else (Ret (Some canaryErr), broken_state b s))"
    using destroy_opened [OF assms(3,4)] memcall_runs(3) [OF assms(1,2)] release_memory_run [OF assms(1,2,4)]
    by simp
  from with_lock_free(1) [OF oblivious_destroy_body assms(5)] body show ?thesis by (auto simp: destroy.simps split: if_splits)
qed

end
