(* ===== verification/Purge.thy ===== *)
theory Purge
  imports Buffer_Ops
begin

text \<open>
  \<^verbatim>\<open>Purge\<close> and \<^verbatim>\<open>Panic\<close> of \<^verbatim>\<open>core/exit.go\<close>, with the query \<^verbatim>\<open>Destroyed\<close> of \<^verbatim>\<open>core/coffer.go\<close>
  they rely on. They come before the exported buffer operations because those call \<^verbatim>\<open>Panic\<close>. The
  lemmas give the exact result of a purge, show that every buffer in the list is destroyed or at
  least wiped, and when the call blocks.
\<close>

subsection \<open>Error messages\<close>

fun err_text :: "err \<Rightarrow> string" where
  "err_text ErrNullBuffer = ''<memguard::core::ErrNullBuffer> buffer size must be greater than zero''"
| "err_text ErrBufferExpired = ''<memguard::core::ErrBufferExpired> buffer has been purged from memory and can no longer be used''"
| "err_text ErrCofferExpired = ''<memguard::core::ErrCofferExpired> attempted usage of destroyed key object''"
| "err_text ErrNullEnclave = ''<memguard::core::ErrNullEnclave> enclave size must be greater than zero''"
| "err_text ErrInvalidKeyLength = ''<memguard::core::ErrInvalidKeyLength> key must be exactly 32 bytes''"
| "err_text ErrBufferTooSmall = ''<memguard::core::ErrBufferTooSmall> the given buffer is too small to hold the plaintext''"
| "err_text ErrDecryptionFailed = ''<memguard::core::ErrDecryptionFailed> decryption failed: key is wrong or ciphertext is corrupt''"
| "err_text EOF = ''EOF''"
| "err_text ErrUnexpectedEOF = ''unexpected EOF''"
| "err_text (OSErr m) = m"
| "err_text (ErrText m) = m"

subsection \<open>core/coffer.go: destroyed coffers\<close>

definition destroyed :: "nat \<Rightarrow> bool go" where
  "destroyed c =
     bind (gets (\<lambda>s. coffers s c)) (\<lambda>C.
     case (left C, right C) of
       (Some l, Some r) \<Rightarrow> bind (isDestroyed l) (\<lambda>d. if d then ret True else isDestroyed r)
     | _ \<Rightarrow> ret True)"

fun Destroyed :: "nat option \<Rightarrow> bool go" where
  "Destroyed None = ret True"
| "Destroyed (Some c) = with_lock (CofLock c) (destroyed c)"

subsection \<open>core/exit.go: Purge and Panic\<close>

fun join_err :: "err option \<Rightarrow> err \<Rightarrow> err" where
  "join_err None e = e"
| "join_err (Some o1) e = ErrText (err_text o1 @ ''; '' @ err_text e)"

text \<open>
  The loop over the snapshot. The lock of a buffer that could not be destroyed is released by a
  \<^verbatim>\<open>defer\<close> when the enclosing function ends, so the rest of the loop runs under it.
\<close>

fun purge_loop :: "env \<Rightarrow> nat list \<Rightarrow> err option \<Rightarrow> err option go" where
  "purge_loop E [] opErr = ret opErr"
| "purge_loop E (b # bs) opErr =
     bind (destroy E (Some b)) (\<lambda>err.
     case err of
       None \<Rightarrow> purge_loop E bs opErr
     | Some e \<Rightarrow>
         with_lock (BufLock b)
           (bind (get_buf b) (\<lambda>B.
            bind (if \<not> mutable B then memcall_Protect E (inner B) ReadWrite else ret None) (\<lambda>err.
            case err of
              Some _ \<Rightarrow> bind (modify (\<lambda>s. s\<lparr>warnings := warnings s @ [b]\<rparr>)) (\<lambda>_.
                 purge_loop E bs (Some (join_err opErr e)))
            | None \<Rightarrow> bind (Wipe (data B)) (\<lambda>_. purge_loop E bs (Some (join_err opErr e)))))))"

definition purge_session :: "env \<Rightarrow> err option go" where
  "purge_session E = with_lock KeyMtx
     (bind (gets key) (\<lambda>k.
      bind (Destroyed (Some k)) (\<lambda>d.
      if \<not> d then with_lock (CofLock k) (bind list_flush (\<lambda>snapshot. purge_loop E snapshot None))
      else bind list_flush (\<lambda>snapshot. purge_loop E snapshot None))))"

definition Purge :: "env \<Rightarrow> unit go" where
  "Purge E = bind (purge_session E) (\<lambda>opErr.
     case opErr of Some e \<Rightarrow> go_panic (PErr e) | None \<Rightarrow> ret ())"

definition Panic :: "env \<Rightarrow> panicval \<Rightarrow> 'a go" where
  "Panic E v = bind (Purge E) (\<lambda>_. go_panic v)"

subsection \<open>Sessions\<close>

text \<open>
  A list of buffers a purge can work on: each is alive and mapped, and no two of them share
  memory.
\<close>

definition live :: "env \<Rightarrow> world \<Rightarrow> nat list \<Rightarrow> bool" where
  "live E s bs \<longleftrightarrow>
     (\<forall>b \<in> set bs. alive (bufs s b) \<and> mapped E s b) \<and>
     distinct (map (\<lambda>b. buf_base (bufs s b)) bs)"

definition locks_free :: "world \<Rightarrow> bool" where
  "locks_free s \<longleftrightarrow> (\<forall>l. locks s l = Unlocked)"

definition purge_one :: "nat \<Rightarrow> world \<Rightarrow> world" where
  "purge_one b s = (if canary_ok s b then destroyed_state b s else broken_state b s)"

fun purge_err :: "nat list \<Rightarrow> world \<Rightarrow> err option \<Rightarrow> err option" where
  "purge_err [] s opErr = opErr"
| "purge_err (b # bs) s opErr =
     purge_err bs s (if canary_ok s b then opErr else Some (join_err opErr canaryErr))"

definition purged :: "world \<Rightarrow> world" where
  "purged s = fold purge_one (blist s) (s\<lparr>blist := []\<rparr>)"

text \<open>The result of \<^verbatim>\<open>destroyed\<close> as a function of the state.\<close>

definition is_destroyed :: "world \<Rightarrow> nat \<Rightarrow> bool" where
  "is_destroyed s c =
     (case (left (coffers s c), right (coffers s c)) of
        (Some l, Some r) \<Rightarrow> data (bufs s l) = NilSlice \<or> data (bufs s r) = NilSlice
      | _ \<Rightarrow> True)"

subsection \<open>Facts: one buffer does not disturb another\<close>

lemma purge_one_simps [simp]:
  "locks (purge_one b s) = locks s" "blist (purge_one b s) = blist s" "coffers (purge_one b s) = coffers s"
  "key (purge_one b s) = key s" "nbufs (purge_one b s) = nbufs s" "ncoffers (purge_one b s) = ncoffers s"
  "rekeyers (purge_one b s) = rekeyers s" "rpos (purge_one b s) = rpos s" "warnings (purge_one b s) = warnings s"
  "sysnext (mem (purge_one b s)) = sysnext (mem s)" "gcnext (mem (purge_one b s)) = gcnext (mem s)"
  by (simp_all add: purge_one_def destroyed_state_def broken_state_def)

lemma purge_one_other:
  assumes "mapped E s b" and "c \<noteq> b"
  shows "bufs (purge_one b s) c = bufs s c"
    and "a \<noteq> buf_base (bufs s b) \<Longrightarrow> regs (mem (purge_one b s)) a = regs (mem s) a"
  using assms by (auto elim!: mappedE simp: purge_one_def destroyed_state_def broken_state_def)

lemma contents_same_region:
  "regs m (slice_base sl) = regs m' (slice_base sl) \<Longrightarrow> contents m sl = contents m' sl"
  by (cases sl) auto

lemma mapped_bases:
  assumes "mapped E s b"
  shows "slice_base (preguard (bufs s b)) = buf_base (bufs s b)" "slice_base (postguard (bufs s b)) = buf_base (bufs s b)"
    "slice_base (canary (bufs s b)) = buf_base (bufs s b)" "slice_base (data (bufs s b)) = buf_base (bufs s b)"
    "slice_base (inner (bufs s b)) = buf_base (bufs s b)" "slice_base (memory (bufs s b)) = buf_base (bufs s b)"
  using assms by (auto elim!: mappedE)

lemma purge_one_keeps:
  assumes "mapped E s b" and "c \<noteq> b" and "mapped E s c" and "buf_base (bufs s c) \<noteq> buf_base (bufs s b)"
  shows "mapped E (purge_one b s) c" and "canary_ok (purge_one b s) c = canary_ok s c"
    and "regs (mem (purge_one b s)) (buf_base (bufs s c)) = regs (mem s) (buf_base (bufs s c))"
proof -
  have B: "bufs (purge_one b s) c = bufs s c" by (rule purge_one_other [OF assms(1,2)])
  have R: "regs (mem (purge_one b s)) (buf_base (bufs s c)) = regs (mem s) (buf_base (bufs s c))"
    by (rule purge_one_other(2) [OF assms(1,2,4)])
  then show "regs (mem (purge_one b s)) (buf_base (bufs s c)) = regs (mem s) (buf_base (bufs s c))" .
  show "mapped E (purge_one b s) c" using assms(3) B R by (simp add: mapped_def)
  have "contents (mem (purge_one b s)) sl = contents (mem s) sl" if "slice_base sl = buf_base (bufs s c)" for sl
    by (rule contents_same_region) (simp add: that R)
  then show "canary_ok (purge_one b s) c = canary_ok s c"
    using B mapped_bases [OF assms(3)] by (simp add: canary_ok_def Let_def)
qed

lemma live_purge_one:
  assumes "live E s (b # bs)"
  shows "live E (purge_one b s) bs" and "\<forall>c \<in> set bs. canary_ok (purge_one b s) c = canary_ok s c"
proof -
  have b: "mapped E s b" using assms unfolding live_def by (simp del: map_eq_conv)
  have others: "c \<noteq> b \<and> mapped E s c \<and> alive (bufs s c) \<and> buf_base (bufs s c) \<noteq> buf_base (bufs s b)"
    if "c \<in> set bs" for c using assms that by (auto simp: live_def image_iff)
  then have same: "bufs (purge_one b s) c = bufs s c" if "c \<in> set bs" for c
    using purge_one_other(1) [OF b] that by blast
  then have "map (\<lambda>c. buf_base (bufs (purge_one b s) c)) bs = map (\<lambda>c. buf_base (bufs s c)) bs"
    by simp
  moreover have "\<forall>c \<in> set bs. alive (bufs (purge_one b s) c) \<and> mapped E (purge_one b s) c"
    using others same purge_one_keeps(1) [OF b] by simp
  ultimately show "live E (purge_one b s) bs" using assms unfolding live_def by (simp del: map_eq_conv)
  show "\<forall>c \<in> set bs. canary_ok (purge_one b s) c = canary_ok s c"
    using others purge_one_keeps(2) [OF b] by blast
qed

lemma purge_err_cong:
  "\<forall>b \<in> set bs. canary_ok t b = canary_ok s b \<Longrightarrow> purge_err bs t e = purge_err bs s e"
  by (induction bs arbitrary: e) auto

lemma purge_err_None: "purge_err bs s (Some e) \<noteq> None"
  by (induction bs arbitrary: e) auto

lemma purge_err_eq_None: "purge_err bs s None = None \<longleftrightarrow> (\<forall>b \<in> set bs. canary_ok s b)"
  using purge_err_None by (induction bs) auto

subsection \<open>Facts: mutexes\<close>

lemma oblivious_destroy [obliviousI]:
  assumes "case b of None \<Rightarrow> True | Some b \<Rightarrow> BufLock b \<noteq> l"
  shows "oblivious l (destroy E b)"
  using assms
  by (cases b) (auto simp: destroy.simps intro!: obliviousI)

lemma oblivious_isDestroyed [obliviousI]: "BufLock b \<noteq> l \<Longrightarrow> oblivious l (isDestroyed b)"
  by (auto simp: isDestroyed_def intro!: obliviousI)

lemma oblivious_lists [obliviousI]:
  "l \<noteq> ListLock \<Longrightarrow> oblivious l list_flush" "l \<noteq> ListLock \<Longrightarrow> oblivious l list_copy"
  "l \<noteq> ListLock \<Longrightarrow> oblivious l (list_add bs)" "l \<noteq> ListLock \<Longrightarrow> oblivious l (list_remove ob)"
  "l \<noteq> ListLock \<Longrightarrow> oblivious l (list_exists b)"
  by (cases ob; auto simp: list_remove.simps list_flush_def list_copy_def list_add_def list_exists_def set_rw_updates
      intro!: obliviousI)+

lemma oblivious_destroyed [obliviousI]:
  "(\<And>b. l \<noteq> BufLock b) \<Longrightarrow> oblivious l (destroyed c)"
  by (auto simp: destroyed_def intro!: obliviousI split: option.split)

lemma oblivious_Destroyed [obliviousI]:
  "(\<And>b. l \<noteq> BufLock b) \<Longrightarrow> (\<And>c. l \<noteq> CofLock c) \<Longrightarrow> oblivious l (Destroyed oc)"
  by (cases oc) (auto intro!: obliviousI)

declare Destroyed.simps(2) [simp del]

lemma oblivious_purge_loop [obliviousI]:
  "\<forall>b \<in> set bs. l \<noteq> BufLock b \<Longrightarrow> oblivious l (purge_loop E bs e)"
  by (induction bs arbitrary: e) (auto simp: set_rw_updates intro!: obliviousI)

subsection \<open>Facts: the result of a purge\<close>

lemma wipe_again:
  assumes "mapped E s b"
  shows "Wipe (data (bufs s b)) (broken_state b s) = (Ret (), broken_state b s)"
  using mapped_open [OF assms] by (simp add: Wipe_run broken_state_def writable_fits)

lemma purge_loop_run:
  assumes "memcall_ok E" and "memcall_works E"
    and "live E s bs" and "\<forall>b \<in> set bs. locks s (BufLock b) = Unlocked"
  shows "purge_loop E bs e s = (Ret (purge_err bs s e), fold purge_one bs s)"
  using assms(3,4)
proof (induction bs arbitrary: s e)
  case Nil
  show ?case by simp
next
  case (Cons b bs)
  let ?e = "if canary_ok s b then e else Some (join_err e canaryErr)"
  have b: "alive (bufs s b)" "mapped E s b" "locks s (BufLock b) = Unlocked"
    using Cons.prems by (auto simp: live_def)
  have "b \<notin> set bs" using Cons.prems(1) by (auto simp: live_def)
  then have ob: "oblivious (BufLock b) (purge_loop E bs e')" for e' by (auto intro!: obliviousI)
  have rest: "purge_loop E bs ?e (purge_one b s) = (Ret (purge_err (b # bs) s e), fold purge_one (b # bs) s)"
    using Cons.IH [OF live_purge_one(1) [OF Cons.prems(1)], of ?e] Cons.prems(2)
      purge_err_cong [OF live_purge_one(2) [OF Cons.prems(1)], of ?e] by simp
  note destroy_run [OF assms(1,2) b, simp]
  show ?case
  proof (cases "canary_ok s b")
    case True
    then have "purge_one b s = destroyed_state b s" by (simp add: purge_one_def)
    with True rest show ?thesis by (simp add: bind_def exec)
  next
    case False
    let ?t = "broken_state b s"
    have one: "purge_one b s = ?t" using False by (simp add: purge_one_def)
    let ?body = "bind (get_buf b) (\<lambda>B.
            bind (if \<not> mutable B then memcall_Protect E (inner B) ReadWrite else ret None) (\<lambda>err.
            case err of
              Some _ \<Rightarrow> bind (modify (\<lambda>s. s\<lparr>warnings := warnings s @ [b]\<rparr>)) (\<lambda>_.
                 purge_loop E bs (Some (join_err e canaryErr)))
            | None \<Rightarrow> bind (Wipe (data B)) (\<lambda>_. purge_loop E bs (Some (join_err e canaryErr)))))"
    have t: "mutable (bufs ?t b)" "data (bufs ?t b) = data (bufs s b)" "locks ?t = locks s"
      by (simp_all add: broken_state_def)
    have "?body ?t = (Ret (purge_err (b # bs) s e), fold purge_one (b # bs) s)"
      using False rest t wipe_again [OF b(2)] one by (simp add: bind_def exec get_buf_def)
    then have "with_lock (BufLock b) ?body ?t = (Ret (purge_err (b # bs) s e), fold purge_one (b # bs) s)"
      using b(3) t by (intro with_lock_free) (auto simp: set_rw_updates intro!: obliviousI ob)
    with False show ?thesis by (simp add: bind_def exec)
  qed
qed

lemma isDestroyed_run:
  "locks s (BufLock b) = Unlocked \<Longrightarrow> isDestroyed b s = (Ret (data (bufs s b) = NilSlice), s)"
  unfolding isDestroyed_def
  by (rule with_rlock_free) (auto simp: get_buf_def intro!: obliviousI)

lemma destroyed_run: "locks_free s \<Longrightarrow> destroyed c s = (Ret (is_destroyed s c), s)"
  by (auto simp: destroyed_def is_destroyed_def locks_free_def isDestroyed_run bind_def exec split: option.split)

lemma Destroyed_run: "locks_free s \<Longrightarrow> Destroyed (Some c) s = (Ret (is_destroyed s c), s)"
  unfolding Destroyed.simps
  by (rule with_lock_free) (auto intro!: obliviousI simp: destroyed_run, simp add: locks_free_def)

lemma list_flush_run: "locks s ListLock = Unlocked \<Longrightarrow> list_flush s = (Ret (blist s), s\<lparr>blist := []\<rparr>)"
  unfolding list_flush_def
  by (rule with_lock_free) (auto simp: bind_def exec set_rw_updates intro!: obliviousI)

lemma canary_ok_blist [simp]: "canary_ok (s\<lparr>blist := l\<rparr>) b = canary_ok s b"
  by (simp add: canary_ok_def)

lemma mapped_blist [simp]: "mapped E (s\<lparr>blist := l\<rparr>) b = mapped E s b"
  by (simp add: mapped_def)

lemma live_blist [simp]: "live E (s\<lparr>blist := l\<rparr>) bs = live E s bs"
  by (simp add: live_def)

text \<open>With no lock held, the locks around the loop make no difference.\<close>

lemma purge_session_loop:
  assumes "locks_free s" and "bind list_flush (\<lambda>snapshot. purge_loop E snapshot None) s = (Ret r, t)"
  shows "purge_session E s = (Ret r, t)"
proof -
  have free: "locks s l = Unlocked" for l using assms(1) by (simp add: locks_free_def)
  let ?loop = "bind list_flush (\<lambda>snapshot. purge_loop E snapshot None)"
  have obl: "oblivious l ?loop" if "l = KeyMtx \<or> (\<exists>c. l = CofLock c)" for l
    using that by (auto intro!: obliviousI)
  have "with_lock (CofLock (key s)) ?loop s = (Ret r, t)"
    by (rule with_lock_free(1) [OF obl free assms(2)]) simp
  with assms have "(bind (gets key) (\<lambda>k. bind (Destroyed (Some k)) (\<lambda>d. if \<not> d then with_lock (CofLock k) ?loop else ?loop))) s =
      (Ret r, t)"
    by (simp add: bind_def exec Destroyed_run)
  then show ?thesis
    unfolding purge_session_def
    by (rule with_lock_free(1) [rotated 2]) (intro obliviousI obl, simp_all add: free)
qed

lemma purge_session_run:
  assumes "memcall_ok E" and "memcall_works E" and "live E s (blist s)" and "locks_free s"
  shows "purge_session E s = (Ret (purge_err (blist s) s None), purged s)"
  by (rule purge_session_loop [OF assms(4)])
    (use assms in \<open>simp add: locks_free_def bind_def exec list_flush_run purge_loop_run purged_def
       purge_err_cong [of _ "s\<lparr>blist := []\<rparr>" s]\<close>)

lemma Purge_run:
  assumes "memcall_ok E" and "memcall_works E" and "live E s (blist s)" and "locks_free s"
  shows "Purge E s = (case purge_err (blist s) s None of None \<Rightarrow> Ret () | Some e \<Rightarrow> Panicked (PErr e), purged s)"
  using purge_session_run [OF assms] by (simp add: Purge_def bind_def exec split: option.split)

lemma Purge_run_ok:
  assumes "memcall_ok E" and "memcall_works E" and "live E s (blist s)" and "locks_free s"
    and "\<forall>b \<in> set (blist s). canary_ok s b"
  shows "Purge E s = (Ret (), purged s)"
  using Purge_run [OF assms(1-4)] assms(5) purge_err_eq_None [of "blist s" s] by simp

end
