(* ===== verification/Interfaces.thy ===== *)
theory Interfaces
  imports Prelude
begin

text \<open>
  The contracts between the components, as locales over computations: the list of active buffers
  (\<open>registry\<close>), a key that is re-keyed while it is in use (\<open>keystore\<close>), and sealed containers under such a
  key (\<open>vault\<close>). Each is interpreted on the model of the component that provides it; what a client can
  conclude from the contract alone is proved here.
\<close>

subsection \<open>The list of active objects\<close>

locale registry =
  fixes ok :: "'s \<Rightarrow> bool" and items :: "'s \<Rightarrow> 'b list"
    and add :: "'b list \<Rightarrow> ('s, unit) comp" and del :: "'b \<Rightarrow> ('s, unit) comp"
    and has :: "'b \<Rightarrow> ('s, bool) comp" and flush :: "('s, 'b list) comp"
  assumes add: "ok s \<Longrightarrow> \<exists>t. add bs s = (Ret (), t) \<and> ok t \<and> items t = items s @ bs"
    and del: "ok s \<Longrightarrow> \<exists>t. del b s = (Ret (), t) \<and> ok t \<and> items t = remove1 b (items s)"
    and has: "ok s \<Longrightarrow> has b s = (Ret (b \<in> set (items s)), s)"
    and flush: "ok s \<Longrightarrow> \<exists>t. flush s = (Ret (items s), t) \<and> ok t \<and> items t = []"
begin

lemma has_after_add:
  assumes "ok s"
  shows "\<exists>t. bind (add bs) (\<lambda>_. has b) s = (Ret (b \<in> set (items s) \<or> b \<in> set bs), t) \<and> ok t"
  using add [OF assms, of bs] has by (auto simp: bind_def)

lemma has_after_del:
  assumes "ok s" and "distinct (items s)"
  shows "\<exists>t. bind (del b) (\<lambda>_. has c) s = (Ret (c \<in> set (items s) \<and> c \<noteq> b), t) \<and> ok t"
  using del [OF assms(1), of b] has assms(2) by (fastforce simp: bind_def)

lemma del_after_add:
  assumes "ok s" and "b \<notin> set (items s)"
  shows "\<exists>t. bind (add [b]) (\<lambda>_. del b) s = (Ret (), t) \<and> ok t \<and> items t = items s"
proof -
  obtain t where t: "add [b] s = (Ret (), t)" "ok t" "items t = items s @ [b]" using add [OF assms(1)] by blast
  with del [OF t(2), of b] assms(2) show ?thesis by (auto simp: bind_def remove1_append)
qed

lemma has_after_flush:
  assumes "ok s"
  shows "\<exists>t. bind flush (\<lambda>_. has b) s = (Ret False, t) \<and> ok t"
  using flush [OF assms] has by (auto simp: bind_def)

text \<open>Emptying the list twice: the second snapshot is empty.\<close>

lemma flush_once:
  assumes "ok s"
  shows "\<exists>t. bind flush (\<lambda>_. flush) s = (Ret [], t) \<and> ok t \<and> items t = []"
proof -
  obtain t where t: "flush s = (Ret (items s), t)" "ok t" "items t = []" using flush [OF assms] by blast
  with flush [OF t(2)] show ?thesis by (auto simp: bind_def)
qed

end

subsection \<open>A key under re-keying\<close>

text \<open>
  \<open>tick\<close> is one period of the re-key cycle, \<open>view\<close> hands out a copy of the value; \<open>bytes\<close> reads a copy.
\<close>

locale keystore =
  fixes ok :: "'s \<Rightarrow> bool" and val :: "'s \<Rightarrow> byte list" and tick :: "('s, unit) comp"
    and view :: "('s, 'k) comp" and bytes :: "'s \<Rightarrow> 'k \<Rightarrow> byte list"
  assumes tick: "ok s \<Longrightarrow> \<exists>t. tick s = (Ret (), t) \<and> ok t \<and> val t = val s"
    and view: "ok s \<Longrightarrow> \<exists>k t. view s = (Ret k, t) \<and> ok t \<and> val t = val s \<and> bytes t k = val s"
begin

lemma ticks:
  assumes "ok s"
  shows "\<exists>t. for_each [0..<n] (\<lambda>_. tick) s = (Ret (), t) \<and> ok t \<and> val t = val s"
proof (induction n)
  case 0
  then show ?case using assms by (simp add: exec)
next
  case (Suc n)
  then obtain t where t: "for_each [0..<n] (\<lambda>_. tick) s = (Ret (), t)" "ok t" "val t = val s" by blast
  with tick [OF t(2)] show ?case by (auto simp: for_each_append bind_def exec)
qed

text \<open>However often the key was re-keyed, a view gives the value it had.\<close>

lemma view_after_ticks:
  assumes "ok s"
  shows "\<exists>k t. bind (for_each [0..<n] (\<lambda>_. tick)) (\<lambda>_. view) s = (Ret k, t) \<and> ok t \<and> bytes t k = val s"
proof -
  obtain t where t: "for_each [0..<n] (\<lambda>_. tick) s = (Ret (), t)" "ok t" "val t = val s" using ticks [OF assms] by blast
  with view [OF t(2)] show ?thesis by (auto simp: bind_def)
qed

end

subsection \<open>Containers sealed under the key\<close>

locale vault = keystore +
  fixes content :: "'s \<Rightarrow> 'e \<Rightarrow> byte list \<Rightarrow> bool" and open_box :: "'e \<Rightarrow> ('s, 'k) comp"
  assumes tick_content: "ok s \<Longrightarrow> tick s = (Ret (), t) \<Longrightarrow> content s e m \<Longrightarrow> content t e m"
    and open_box: "ok s \<Longrightarrow> content s e m \<Longrightarrow>
      \<exists>k t. open_box e s = (Ret k, t) \<and> ok t \<and> val t = val s \<and> bytes t k = m \<and> content t e m"
begin

lemma ticks_content:
  assumes "ok s" and "content s e m"
  shows "\<exists>t. for_each [0..<n] (\<lambda>_. tick) s = (Ret (), t) \<and> ok t \<and> content t e m"
proof (induction n)
  case 0
  then show ?case using assms by (simp add: exec)
next
  case (Suc n)
  then obtain t where t: "for_each [0..<n] (\<lambda>_. tick) s = (Ret (), t)" "ok t" "content t e m" by blast
  obtain u where u: "tick t = (Ret (), u)" "ok u" using tick [OF t(2)] by blast
  with tick_content [OF t(2) u(1) t(3)] t show ?case by (auto simp: for_each_append bind_def exec)
qed

text \<open>A container opens after any number of re-key periods, and it can be opened again.\<close>

lemma open_after_ticks:
  assumes "ok s" and "content s e m"
  shows "\<exists>k t. bind (for_each [0..<n] (\<lambda>_. tick)) (\<lambda>_. open_box e) s = (Ret k, t) \<and> ok t \<and> bytes t k = m \<and> content t e m"
proof -
  obtain t where t: "for_each [0..<n] (\<lambda>_. tick) s = (Ret (), t)" "ok t" "content t e m" using ticks_content [OF assms] by blast
  with open_box [OF t(2,3)] show ?thesis by (auto simp: bind_def)
qed

lemma open_twice:
  assumes "ok s" and "content s e m"
  shows "\<exists>k t. bind (open_box e) (\<lambda>_. open_box e) s = (Ret k, t) \<and> ok t \<and> bytes t k = m \<and> content t e m"
proof -
  obtain k t where t: "open_box e s = (Ret k, t)" "ok t" "content t e m" using open_box [OF assms] by blast
  with open_box [OF t(2,3)] show ?thesis by (auto simp: bind_def)
qed

end

end
