(* ===== verification/Buffer.thy ===== *)
theory Buffer
  imports Purge Interfaces
begin

text \<open>
  The exported part of \<^verbatim>\<open>core/buffer.go\<close>: the constructor \<^verbatim>\<open>NewBuffer\<close> and the operations that purge
  the session and panic when the operating system refuses a request. \<open>newbuf_state\<close> is the exact
  state after a successful construction.
\<close>

subsection \<open>core/buffer.go\<close>

text \<open>\<^verbatim>\<open>if err := m; err != nil { Panic(err) }\<close>\<close>

definition or_panic :: "env \<Rightarrow> err option go \<Rightarrow> unit go" where
  "or_panic E m = bind m (\<lambda>err. case err of Some e \<Rightarrow> Panic E (PErr e) | None \<Rightarrow> ret ())"

text \<open>Construct the slice references into a new allocation.\<close>

definition make_slices :: "env \<Rightarrow> slice \<Rightarrow> int \<Rightarrow> int \<Rightarrow> Buffer go" where
  "make_slices E m innerLen sz =
     bind (unsafe_slice m (go_int (int (pageSize E) + innerLen - sz)) sz) (\<lambda>d.
     bind (unsafe_slice m 0 (int (pageSize E))) (\<lambda>pre.
     bind (unsafe_slice m (int (pageSize E)) innerLen) (\<lambda>inr.
     bind (unsafe_slice m (go_int (int (pageSize E) + innerLen)) (int (pageSize E))) (\<lambda>post.
     bind (unsafe_slice m (int (pageSize E)) (int (slen inr) - int (slen d))) (\<lambda>can.
     ret \<lparr>alive = False, mutable = False, data = d, memory = m, preguard = pre, inner = inr,
          postguard = post, canary = can\<rparr>)))))"

text \<open>Lock the inner pages, initialise the canary and the guard pages, and protect the latter.\<close>

definition arm :: "env \<Rightarrow> Buffer \<Rightarrow> unit go" where
  "arm E B =
     bind (or_panic E (memcall_Lock E (inner B))) (\<lambda>_.
     bind (or_panic E (Scramble E (canary B))) (\<lambda>_.
     bind (Copy (preguard B) (canary B)) (\<lambda>_.
     bind (Copy (postguard B) (canary B)) (\<lambda>_.
     bind (or_panic E (memcall_Protect E (preguard B) NoAccess)) (\<lambda>_.
     or_panic E (memcall_Protect E (postguard B) NoAccess))))))"

definition NewBuffer :: "env \<Rightarrow> int \<Rightarrow> (err + nat) go" where
  "NewBuffer E sz =
     (if sz < 1 then ret (Inl ErrNullBuffer)
      else
        bind new_Buffer (\<lambda>b.
        bind (memcall_Alloc E (go_int (2 * int (pageSize E) + roundToPageSize E sz))) (\<lambda>r.
        case r of
          Inl e \<Rightarrow> Panic E (PErr e)
        | Inr m \<Rightarrow>
            bind (make_slices E m (roundToPageSize E sz) sz) (\<lambda>B.
            bind (upd_buf b (\<lambda>_. B)) (\<lambda>_.
            bind (arm E B) (\<lambda>_.
            bind (upd_buf b (\<lambda>B. B\<lparr>alive := True, mutable := True\<rparr>)) (\<lambda>_.
            bind (list_add [b]) (\<lambda>_.
            ret (Inr b)))))))))"

definition Freeze :: "env \<Rightarrow> nat \<Rightarrow> unit go" where
  "Freeze E b = or_panic E (freeze E b)"

definition Melt :: "env \<Rightarrow> nat \<Rightarrow> unit go" where
  "Melt E b = or_panic E (melt E b)"

definition Buffer_Scramble :: "env \<Rightarrow> nat \<Rightarrow> unit go" where
  "Buffer_Scramble E b = or_panic E (scramble E b)"

definition Destroy :: "env \<Rightarrow> nat \<Rightarrow> unit go" where
  "Destroy E b = bind (or_panic E (destroy E (Some b))) (\<lambda>_. list_remove (Some b))"

subsection \<open>The state after a construction\<close>

definition buffer_at :: "env \<Rightarrow> nat \<Rightarrow> nat \<Rightarrow> base \<Rightarrow> Buffer" where
  "buffer_at E n il a =
     (let ps = pageSize E in
      \<lparr>alive = True, mutable = True, data = Slice a (ps + (il - n)) n n,
       memory = Slice a 0 (2 * ps + il) (2 * ps + il), preguard = Slice a 0 ps ps, inner = Slice a ps il il,
       postguard = Slice a (ps + il) ps ps, canary = Slice a ps (il - n) (il - n)\<rparr>)"

definition new_region :: "env \<Rightarrow> nat \<Rightarrow> nat \<Rightarrow> byte list \<Rightarrow> region" where
  "new_region E n il cs =
     (let ps = pageSize E; guard = cs @ replicate (ps - length cs) 0 in
      \<lparr>rbytes = guard @ (cs @ replicate n 0) @ guard,
       rprot = (\<lambda>j. if j < ps \<or> (ps + il \<le> j \<and> j < ps + il + ps) then NoAccess else ReadWrite),
       rlock = (\<lambda>j. ps \<le> j \<and> j < ps + il)\<rparr>)"

definition newbuf_state :: "env \<Rightarrow> nat \<Rightarrow> world \<Rightarrow> world" where
  "newbuf_state E n s =
     (let il = nat (roundToPageSize E (int n)); a = Sys (sysnext (mem s)) in
      s\<lparr>mem := (mem s)\<lparr>regs := (regs (mem s))(a := new_region E n il (rand_bytes E (rpos s) (il - n))),
                      sysnext := Suc (sysnext (mem s))\<rparr>,
        bufs := (bufs s)(nbufs s := buffer_at E n il a), nbufs := Suc (nbufs s), blist := blist s @ [nbufs s],
        rpos := rpos s + (il - n), mcalls := mcalls s + 4\<rparr>)"

subsection \<open>Facts: construction\<close>

lemma or_panic_None: "m s = (Ret None, t) \<Longrightarrow> or_panic E m s = (Ret (), t)"
  by (simp add: or_panic_def bind_def)

lemma make_slices_run:
  assumes "page_ok E" and "0 < n" and "n \<le> il" and "int il < 2 ^ 62 + 2 ^ 60"
  shows "make_slices E (Slice a 0 (2 * pageSize E + il) c) (int il) (int n) s =
     (Ret ((buffer_at E n il a)\<lparr>alive := False, mutable := False, memory := Slice a 0 (2 * pageSize E + il) c\<rparr>), s)"
proof -
  obtain k where k: "k < 60" "pageSize E = 2 ^ k" using assms(1) by (auto simp: page_ok_def)
  have p: "0 < pageSize E" "int (pageSize E) \<le> 2 ^ 59"
    using k power_increasing [of k 59 "2 :: int"] by simp_all
  have "go_int (int (pageSize E) + int il - int n) = int (pageSize E + (il - n))"
    and "go_int (int (pageSize E) + int il) = int (pageSize E + il)"
    using p assms by (subst go_int_id; simp add: of_nat_diff)+
  with assms p show ?thesis
    by (simp add: make_slices_def bind_def buffer_at_def Let_def nat_add_distrib nat_diff_distrib)
qed

lemma list_add_run: "locks s ListLock = Unlocked \<Longrightarrow> list_add bs s = (Ret (), s\<lparr>blist := blist s @ bs\<rparr>)"
  unfolding list_add_def
  by (rule with_lock_free) (auto simp: exec set_rw_updates intro!: obliviousI)

lemma list_remove_run:
  "locks s ListLock = Unlocked \<Longrightarrow>
   list_remove ob s = (Ret (), case ob of None \<Rightarrow> s | Some b \<Rightarrow> s\<lparr>blist := remove_first b (blist s)\<rparr>)"
  by (cases ob; simp add: list_remove.simps; rule with_lock_free)
    (auto simp: exec set_rw_updates intro!: obliviousI)

text \<open>The bytes of a new allocation once the canary and the guard pages are written.\<close>

lemma new_bytes:
  assumes "length cs = c" and "c \<le> ps"
  defines "g \<equiv> cs @ replicate (ps - c) (0 :: byte)"
  shows "overwrite (ps + (n + c)) g (overwrite 0 g (overwrite ps cs (replicate (2 * ps + (n + c)) 0))) =
     g @ (cs @ replicate n 0) @ g"
proof -
  have "replicate (2 * ps + (n + c)) (0 :: byte) = replicate ps 0 @ replicate c 0 @ replicate n 0 @ replicate ps 0"
    by (simp add: replicate_add [symmetric] mult_2 add_ac)
  then have "overwrite ps cs (replicate (2 * ps + (n + c)) 0) = [] @ replicate ps 0 @ (cs @ replicate n 0 @ replicate ps 0)"
    using assms(1) by (simp add: overwrite_append)
  then have "overwrite 0 g (overwrite ps cs (replicate (2 * ps + (n + c)) 0)) = (g @ cs @ replicate n 0) @ replicate ps 0 @ []"
    using assms by (simp only: overwrite_append) (simp add: overwrite_append [where xs = "[]", simplified])
  then show ?thesis
    using assms by (simp only:) (subst overwrite_append; simp)
qed

lemma copied_zero:
  "length cs \<le> ps \<Longrightarrow> copied (replicate ps (0 :: byte)) cs = cs @ replicate (ps - length cs) 0"
  by (simp add: copied_def)

lemma wf_slice_buffer_at [simp]:
  "wf_slice (preguard (buffer_at E n il a))" "wf_slice (postguard (buffer_at E n il a))"
  "wf_slice (canary (buffer_at E n il a))" "wf_slice (data (buffer_at E n il a))"
  by (simp_all add: buffer_at_def wf_slice_def Let_def)

lemma arm_run:
  assumes "memcall_ok E" and "memcall_works E" and "rand_ok E" and "c < pageSize E"
    and r: "regs (mem s) a = fresh_region (2 * pageSize E + (n + c))"
  shows "arm E ((buffer_at E n (n + c) a)\<lparr>alive := x, mutable := y\<rparr>) s =
     (Ret (), s\<lparr>mem := (mem s)\<lparr>regs := (regs (mem s))(a := new_region E n (n + c) (rand_bytes E (rpos s) c))\<rparr>,
              rpos := rpos s + c, mcalls := mcalls s + 3\<rparr>)"
proof -
  let ?ps = "pageSize E" and ?cs = "rand_bytes E (rpos s) c"
  let ?g = "?cs @ replicate (?ps - c) 0"
  let ?pre = "Slice a 0 ?ps ?ps" and ?post = "Slice a (?ps + (n + c)) ?ps ?ps" and ?can = "Slice a ?ps c c"
  let ?st = "\<lambda>r' k i. s\<lparr>mem := (mem s)\<lparr>regs := (regs (mem s))(a := r')\<rparr>, rpos := i, mcalls := k\<rparr>"
  let ?r1 = "(fresh_region (2 * ?ps + (n + c)))\<lparr>rlock := (\<lambda>j. ?ps \<le> j \<and> j < ?ps + (n + c))\<rparr>"
  let ?r2 = "?r1\<lparr>rbytes := overwrite ?ps ?cs (replicate (2 * ?ps + (n + c)) 0)\<rparr>"
  let ?r3 = "?r1\<lparr>rbytes := overwrite 0 ?g (overwrite ?ps ?cs (replicate (2 * ?ps + (n + c)) 0))\<rparr>"
  let ?r4 = "?r1\<lparr>rbytes := ?g @ (?cs @ replicate n 0) @ ?g\<rparr>"
  define t1 where "t1 = ?st ?r1 (Suc (mcalls s)) (rpos s)"
  define t2 where "t2 = ?st ?r2 (Suc (mcalls s)) (rpos s + c)"
  define t3 where "t3 = ?st ?r3 (Suc (mcalls s)) (rpos s + c)"
  define t4 where "t4 = ?st ?r4 (Suc (mcalls s)) (rpos s + c)"
  define t5 where "t5 = t4\<lparr>mem := set_prot ?pre NoAccess (mem t4), mcalls := Suc (mcalls t4)\<rparr>"
  have s1: "memcall_Lock E (Slice a ?ps (n + c) (n + c)) s = (Ret None, t1)"
    by (simp add: t1_def memcall_runs [OF assms(1,2)] r fresh_region_def state_order)
  have s2: "Scramble E ?can t1 = (Ret None, t2)"
    by (simp add: t1_def t2_def Scramble_run [OF assms(3)] fresh_region_def state_order)
  have c3: "contents (mem t2) ?pre = replicate ?ps 0" "contents (mem t2) ?can = ?cs"
    by (simp_all add: t2_def sub_overwrite_disjoint)
  have s3: "Copy ?pre ?can t2 = (Ret (), t3)"
    using assms(4)
    by (subst Copy_run) (simp_all only: c3, simp_all add: t2_def t3_def wf_slice_def fresh_region_def copied_zero state_order)
  have c4: "contents (mem t3) ?post = replicate ?ps 0" "contents (mem t3) ?can = ?cs"
    using assms(4) by (simp_all add: t3_def sub_overwrite_disjoint)
  have s4: "Copy ?post ?can t3 = (Ret (), t4)"
    using assms(4) new_bytes [of ?cs c ?ps n]
    by (subst Copy_run) (simp_all only: c4, simp_all add: t3_def t4_def wf_slice_def fresh_region_def copied_zero)
  have s5: "memcall_Protect E ?pre NoAccess t4 = (Ret None, t5)"
    by (simp add: memcall_runs [OF assms(1,2)] t5_def)
  have s6: "memcall_Protect E ?post NoAccess t5 =
      (Ret None, ?st (new_region E n (n + c) ?cs) (mcalls s + 3) (rpos s + c))"
    by (auto simp: memcall_runs [OF assms(1,2)] t5_def t4_def new_region_def Let_def fresh_region_def state_order fun_eq_iff)
  show ?thesis
    by (simp add: arm_def buffer_at_def Let_def bind_def or_panic_def s1 s2 s3 s4 s5 s6)
qed

text \<open>The exact effect of \<^verbatim>\<open>NewBuffer\<close> when the operating system grants every request.\<close>

lemma round_nat:
  assumes "page_ok E" and "0 < n" and "int n \<le> 2 ^ 62"
  obtains c where "roundToPageSize E (int n) = int (n + c)" and "c < pageSize E" and "pageSize E dvd (n + c)"
    and "int (pageSize E) < 2 ^ 60"
proof -
  obtain il where il: "roundToPageSize E (int n) = int il" "pageSize E dvd il" "int n \<le> int il"
      "int il < int n + int (pageSize E)" "pageSize E < 2 ^ 60"
    using round_facts [OF assms(1), of "int n"] assms(2,3) by auto
  show ?thesis
    by (rule that [of "il - n"]) (use il in auto)
qed

lemma NewBuffer_run:
  assumes "env_works E" and "0 < n" and "int n \<le> 2 ^ 62" and "locks s ListLock = Unlocked"
  shows "NewBuffer E (int n) s = (Ret (Inr (nbufs s)), newbuf_state E n s)"
proof -
  note ok = env_works_D(1,2,3) [OF assms(1)]
  have page: "page_ok E" using assms(1) by auto
  obtain c where c: "roundToPageSize E (int n) = int (n + c)" "c < pageSize E" "int (pageSize E) < 2 ^ 60"
    using round_nat [OF page assms(2,3)] by blast
  let ?a = "Sys (sysnext (mem s))" and ?len = "2 * pageSize E + (n + c)"
  have len: "go_int (2 * int (pageSize E) + int (n + c)) = int ?len"
    using c assms(3) by (subst go_int_id) auto
  define t1 where "t1 = s\<lparr>bufs := (bufs s)(nbufs s := zero_Buffer), nbufs := Suc (nbufs s)\<rparr>"
  define t2 where "t2 = t1\<lparr>mem := map_region ?len (mem s), mcalls := Suc (mcalls s)\<rparr>"
  define B where "B = (buffer_at E n (n + c) ?a)\<lparr>alive := False, mutable := False\<rparr>"
  define t3 where "t3 = t2\<lparr>bufs := (bufs s)(nbufs s := B)\<rparr>"
  define t4 where "t4 = t3\<lparr>mem := (mem t3)\<lparr>regs := (regs (mem t3))(?a := new_region E n (n + c) (rand_bytes E (rpos s) c))\<rparr>,
              rpos := rpos s + c, mcalls := mcalls s + 4\<rparr>"
  have s1: "new_Buffer s = (Ret (nbufs s), t1)" by (simp add: new_Buffer_def t1_def)
  have s2: "memcall_Alloc E (int ?len) t1 = (Ret (Inr (Slice ?a 0 ?len ?len)), t2)"
    using memcall_runs(1) [OF ok(1,2), of "int ?len" t1, unfolded nat_int] assms(2)
    by (simp add: t1_def t2_def del: of_nat_add of_nat_mult)
  have s3: "make_slices E (Slice ?a 0 ?len ?len) (int (n + c)) (int n) t2 = (Ret B, t2)"
    using c assms by (subst make_slices_run [OF page]) (simp_all add: B_def buffer_at_def Let_def)
  have s4: "upd_buf (nbufs s) (\<lambda>_. B) t2 = (Ret (), t3)"
    by (simp add: upd_buf_def t3_def t2_def t1_def exec)
  have s5: "arm E B t3 = (Ret (), t4)"
    unfolding B_def using c
    by (subst arm_run [OF ok]) (simp_all add: t4_def t3_def t2_def t1_def map_region_def)
  have s6: "upd_buf (nbufs s) (\<lambda>B. B\<lparr>alive := True, mutable := True\<rparr>) t4 =
      (Ret (), t4\<lparr>bufs := (bufs s)(nbufs s := buffer_at E n (n + c) ?a)\<rparr>)"
    by (simp add: upd_buf_def t4_def t3_def t2_def t1_def B_def buffer_at_def Let_def exec)
  have s7: "list_add [nbufs s] (t4\<lparr>bufs := (bufs s)(nbufs s := buffer_at E n (n + c) ?a)\<rparr>) = (Ret (), newbuf_state E n s)"
    using assms(4) c(1)
    by (subst list_add_run)
      (simp_all add: t4_def t3_def t2_def t1_def newbuf_state_def Let_def map_region_def state_order nat_int_add)
  show ?thesis
    using assms(2) by (simp add: NewBuffer_def c(1) len [simplified] bind_def s1 s2 [simplified] s3 [simplified] s4 s5 s6 s7)
qed

subsection \<open>The list of buffers as a registry\<close>

lemma list_exists_run:
  "locks s ListLock = Unlocked \<Longrightarrow> list_exists b s = (Ret (b \<in> set (blist s)), s)"
  unfolding list_exists_def
  by (rule with_rlock_free) (auto simp: exec intro!: obliviousI)

lemma remove_first_eq: "remove_first b l = remove1 b l"
  by (induction l) auto

interpretation active: registry "\<lambda>s. locks s ListLock = Unlocked" blist list_add "\<lambda>b. list_remove (Some b)" list_exists list_flush
  by unfold_locales (auto simp: list_add_run list_remove_run list_exists_run list_flush_run remove_first_eq)

end
