(* ===== verification/Session.thy ===== *)
theory Session
  imports Buffer
begin

text \<open>
  The invariant of a session, \<open>session\<close>: no mutex is held, every buffer in the list of active
  buffers is guarded, no two of them share memory, and the global key is destroyed or complete.
  \<open>keep\<close> says that an operation leaves a buffer and its memory alone. The lemmas show what each buffer
  operation does in a session.
\<close>

definition keep :: "world \<Rightarrow> world \<Rightarrow> nat \<Rightarrow> bool" where
  "keep s t b \<longleftrightarrow>
     bufs t b = bufs s b \<and> regs (mem t) (buf_base (bufs s b)) = regs (mem s) (buf_base (bufs s b)) \<and>
     sysnext (mem s) \<le> sysnext (mem t)"

text \<open>The buffers of a coffer that is in use.\<close>

definition part_ok :: "world \<Rightarrow> nat option \<Rightarrow> bool" where
  "part_ok s p \<longleftrightarrow>
     (case p of None \<Rightarrow> False
      | Some b \<Rightarrow> b \<in> set (blist s) \<and> mutable (bufs s b) \<and> slen (data (bufs s b)) = 32)"

definition coffer_ok :: "world \<Rightarrow> nat \<Rightarrow> bool" where
  "coffer_ok s c \<longleftrightarrow>
     (let C = coffers s c in
      part_ok s (left C) \<and> part_ok s (right C) \<and> part_ok s (rand C) \<and>
      left C \<noteq> right C \<and> left C \<noteq> rand C \<and> right C \<noteq> rand C)"

text \<open>The buffers a coffer points to.\<close>

definition refs :: "world \<Rightarrow> nat \<Rightarrow> nat set" where
  "refs s c = {b. Some b \<in> {left (coffers s c), right (coffers s c), rand (coffers s c)}}"

definition session :: "env \<Rightarrow> world \<Rightarrow> bool" where
  "session E s \<longleftrightarrow>
     locks_free s \<and>
     (\<forall>b \<in> set (blist s). b < nbufs s \<and> guarded E s b) \<and>
     distinct (map (\<lambda>b. buf_base (bufs s b)) (blist s)) \<and>
     key s < ncoffers s \<and> (\<forall>b \<in> refs s (key s). b < nbufs s) \<and>
     (is_destroyed s (key s) \<or> coffer_ok s (key s))"

text \<open>
  \<open>extends s t\<close>: everything that exists in \<open>s\<close> is unchanged in \<open>t\<close>, the listed buffers and their
  memory, the coffers and the garbage-collected heap; \<open>t\<close> may have more.
\<close>

definition extends :: "world \<Rightarrow> world \<Rightarrow> bool" where
  "extends s t \<longleftrightarrow>
     (\<forall>b \<in> set (blist s). b \<in> set (blist t) \<and> keep s t b) \<and>
     (\<forall>b < nbufs s. bufs t b = bufs s b) \<and> nbufs s \<le> nbufs t \<and>
     (\<forall>c < ncoffers s. coffers t c = coffers s c) \<and> ncoffers s \<le> ncoffers t \<and>
     (\<forall>j < gcnext (mem s). regs (mem t) (GC j) = regs (mem s) (GC j)) \<and> gcnext (mem s) \<le> gcnext (mem t) \<and>
     sysnext (mem s) \<le> sysnext (mem t)"

definition frozen_state :: "nat \<Rightarrow> world \<Rightarrow> world" where
  "frozen_state b s =
     (if alive (bufs s b) \<and> mutable (bufs s b)
      then s\<lparr>mem := set_prot (inner (bufs s b)) ReadOnly (mem s),
             bufs := (bufs s)(b := (bufs s b)\<lparr>mutable := False\<rparr>), mcalls := Suc (mcalls s)\<rparr>
      else s)"

definition melted_state :: "nat \<Rightarrow> world \<Rightarrow> world" where
  "melted_state b s =
     (if alive (bufs s b) \<and> \<not> mutable (bufs s b)
      then s\<lparr>mem := set_prot (inner (bufs s b)) ReadWrite (mem s),
             bufs := (bufs s)(b := (bufs s b)\<lparr>mutable := True\<rparr>), mcalls := Suc (mcalls s)\<rparr>
      else s)"

definition removed_state :: "nat \<Rightarrow> world \<Rightarrow> world" where
  "removed_state b s = (destroyed_state b s)\<lparr>blist := remove1 b (blist s)\<rparr>"

subsection \<open>Facts: guarded buffers\<close>

lemma guarded_mapped: "guarded E s b \<Longrightarrow> mapped E s b" "guarded E s b \<Longrightarrow> alive (bufs s b)"
  by (auto simp: guarded_def Let_def)

lemma guarded_data:
  assumes "guarded E s b"
  shows "readable (mem s) (data (bufs s b))" and "mutable (bufs s b) \<Longrightarrow> writable (mem s) (data (bufs s b))"
    and "wf_slice (data (bufs s b))" and "is_Sys (slice_base (data (bufs s b)))" and "0 < slen (data (bufs s b))"
    and "data (bufs s b) \<noteq> NilSlice" and "fits (mem s) (data (bufs s b))"
proof -
  from assms have m: "mapped E s b" by (rule guarded_mapped)
  from m show "wf_slice (data (bufs s b))" "is_Sys (slice_base (data (bufs s b)))" "0 < slen (data (bufs s b))"
      "data (bufs s b) \<noteq> NilSlice" "fits (mem s) (data (bufs s b))"
    by (auto elim!: mappedE simp: wf_slice_def)
  from m show "readable (mem s) (data (bufs s b))"
  proof (rule mappedE)
    fix i n c
    assume B: "buf_base (bufs s b) = Sys i" "inner (bufs s b) = Slice (Sys i) (pageSize E) (n + c) (n + c)"
      "data (bufs s b) = Slice (Sys i) (pageSize E + c) n n"
      "length (rbytes (regs (mem s) (Sys i))) = 2 * pageSize E + (n + c)"
    have "rprot (regs (mem s) (Sys i)) (pageSize E + (c + j)) \<noteq> NoAccess" if "j < n" for j
      using assms that B by (simp add: guarded_def Let_def)
    with B show ?thesis by (simp add: add.assoc)
  qed
  assume mut: "mutable (bufs s b)"
  from m show "writable (mem s) (data (bufs s b))"
  proof (rule mappedE)
    fix i n c
    assume B: "buf_base (bufs s b) = Sys i" "inner (bufs s b) = Slice (Sys i) (pageSize E) (n + c) (n + c)"
      "data (bufs s b) = Slice (Sys i) (pageSize E + c) n n"
      "length (rbytes (regs (mem s) (Sys i))) = 2 * pageSize E + (n + c)"
    have "rprot (regs (mem s) (Sys i)) (pageSize E + (c + j)) = ReadWrite" if "j < n" for j
      using assms that B mut by (simp add: guarded_def Let_def)
    with B show ?thesis by (simp add: add.assoc)
  qed
qed

lemma keep_refl: "keep s s b"
  by (simp add: keep_def)

lemma keep_trans: "keep s t b \<Longrightarrow> keep t u b \<Longrightarrow> keep s u b"
  by (simp add: keep_def)

lemma keep_mapped: "keep s t b \<Longrightarrow> mapped E s b \<Longrightarrow> mapped E t b"
  by (auto simp: keep_def mapped_def)

lemma keep_guarded: "keep s t b \<Longrightarrow> guarded E s b \<Longrightarrow> guarded E t b"
  using keep_mapped [of s t b E] by (auto simp: guarded_def Let_def keep_def)

lemma keep_contents:
  assumes "keep s t b" and "mapped E s b"
  shows "contents (mem t) (data (bufs s b)) = contents (mem s) (data (bufs s b))"
    and "canary_ok t b = canary_ok s b"
proof -
  have same: "contents (mem t) sl = contents (mem s) sl" if "slice_base sl = buf_base (bufs s b)" for sl
    by (rule contents_same_region) (use assms(1) that in \<open>simp add: keep_def\<close>)
  show "contents (mem t) (data (bufs s b)) = contents (mem s) (data (bufs s b))"
    and "canary_ok t b = canary_ok s b"
    using mapped_bases [OF assms(2)] assms(1) by (simp_all add: same canary_ok_def Let_def keep_def)
qed

lemma session_D:
  assumes "session E s"
  shows "locks_free s" and "b \<in> set (blist s) \<Longrightarrow> guarded E s b" and "b \<in> set (blist s) \<Longrightarrow> b < nbufs s"
    and "live E s (blist s)" and "distinct (blist s)"
    and "b \<in> set (blist s) \<Longrightarrow> c \<in> set (blist s) \<Longrightarrow> b \<noteq> c \<Longrightarrow> buf_base (bufs s b) \<noteq> buf_base (bufs s c)"
  using assms
  by (auto simp: session_def live_def guarded_mapped distinct_map inj_on_def)

lemma session_refs: "session E s \<Longrightarrow> b \<in> refs s (key s) \<Longrightarrow> b < nbufs s"
  by (simp add: session_def)

lemma locks_free_D: "locks_free s \<Longrightarrow> locks s l = Unlocked"
  by (simp add: locks_free_def)

lemma coffer_ok_D:
  assumes "coffer_ok s c"
  obtains l r x where "left (coffers s c) = Some l" and "right (coffers s c) = Some r" and "rand (coffers s c) = Some x"
    and "l \<in> set (blist s)" and "r \<in> set (blist s)" and "x \<in> set (blist s)"
    and "mutable (bufs s l)" and "mutable (bufs s r)" and "mutable (bufs s x)"
    and "slen (data (bufs s l)) = 32" and "slen (data (bufs s r)) = 32" and "slen (data (bufs s x)) = 32"
    and "l \<noteq> r" and "l \<noteq> x" and "r \<noteq> x"
  using assms by (auto simp: coffer_ok_def part_ok_def Let_def split: option.splits)

text \<open>
  The key of a session survives when the coffer object is the same and its buffers are, as far as
  they are still listed.
\<close>

lemma key_keep:
  assumes "is_destroyed s c \<or> coffer_ok s c" and "coffers t c = coffers s c"
    and "\<And>b. b \<in> refs s c \<Longrightarrow> b \<in> set (blist s) \<Longrightarrow> b \<in> set (blist t)"
    and "\<And>b. b \<in> refs s c \<Longrightarrow> mutable (bufs t b) = mutable (bufs s b) \<and> data (bufs t b) = data (bufs s b)"
  shows "is_destroyed t c \<or> coffer_ok t c"
  using assms(1)
proof
  assume "is_destroyed s c"
  then show ?thesis
    using assms(2,4) by (auto simp: is_destroyed_def refs_def split: option.splits)
next
  assume "coffer_ok s c"
  then show ?thesis
    using assms(2-4) by (auto simp: coffer_ok_def part_ok_def refs_def Let_def split: option.splits)
qed

lemma session_intro:
  assumes "session E s" and "locks t = locks s" and "nbufs s \<le> nbufs t" and "key t = key s" and "ncoffers s \<le> ncoffers t"
    and "coffers t (key s) = coffers s (key s)"
    and "\<And>b. b \<in> refs s (key s) \<Longrightarrow> mutable (bufs t b) = mutable (bufs s b) \<and> data (bufs t b) = data (bufs s b)"
    and "\<And>b. b \<in> refs s (key s) \<Longrightarrow> b \<in> set (blist s) \<Longrightarrow> b \<in> set (blist t)"
    and "\<And>b. b \<in> set (blist t) \<Longrightarrow> b < nbufs t \<and> guarded E t b"
    and "distinct (map (\<lambda>b. buf_base (bufs t b)) (blist t))"
  shows "session E t"
proof -
  have "is_destroyed t (key s) \<or> coffer_ok t (key s)"
    using key_keep [of s "key s" t] assms by (simp add: session_def)
  moreover have "refs t (key s) = refs s (key s)" using assms(6) by (simp add: refs_def)
  ultimately show ?thesis
    using assms by (auto simp: session_def locks_free_def)
qed

text \<open>An operation that lists the same buffers.\<close>

lemma session_same_list:
  assumes "session E s" and "locks t = locks s" and "nbufs s \<le> nbufs t" and "key t = key s" and "ncoffers s \<le> ncoffers t"
    and "coffers t (key s) = coffers s (key s)" and "blist t = blist s"
    and "\<And>b. b \<in> refs s (key s) \<Longrightarrow> mutable (bufs t b) = mutable (bufs s b) \<and> data (bufs t b) = data (bufs s b)"
    and "\<And>b. b \<in> set (blist s) \<Longrightarrow> guarded E t b \<and> buf_base (bufs t b) = buf_base (bufs s b)"
  shows "session E t"
proof (rule session_intro [OF assms(1-6,8)])
  have "map (\<lambda>b. buf_base (bufs t b)) (blist t) = map (\<lambda>b. buf_base (bufs s b)) (blist s)"
    using assms(7,9) by simp
  then show "distinct (map (\<lambda>b. buf_base (bufs t b)) (blist t))" using assms(1) by (simp add: session_def del: map_eq_conv)
  show "b < nbufs t \<and> guarded E t b" if "b \<in> set (blist t)" for b
    using that assms(3,7,9) session_D(3) [OF assms(1), of b] by simp
qed (use assms(7) in auto)

subsection \<open>Facts: construction\<close>

lemma newbuf_simps [simp]:
  "locks (newbuf_state E n s) = locks s" "nbufs (newbuf_state E n s) = Suc (nbufs s)"
  "blist (newbuf_state E n s) = blist s @ [nbufs s]" "coffers (newbuf_state E n s) = coffers s"
  "key (newbuf_state E n s) = key s" "ncoffers (newbuf_state E n s) = ncoffers s"
  "rekeyers (newbuf_state E n s) = rekeyers s" "warnings (newbuf_state E n s) = warnings s"
  "sysnext (mem (newbuf_state E n s)) = Suc (sysnext (mem s))" "gcnext (mem (newbuf_state E n s)) = gcnext (mem s)"
  by (simp_all add: newbuf_state_def Let_def)

lemma newbuf_other:
  "b \<noteq> nbufs s \<Longrightarrow> bufs (newbuf_state E n s) b = bufs s b"
  "a \<noteq> Sys (sysnext (mem s)) \<Longrightarrow> regs (mem (newbuf_state E n s)) a = regs (mem s) a"
  by (simp_all add: newbuf_state_def Let_def)

lemma newbuf_keep:
  assumes "mapped E s b" and "b < nbufs s"
  shows "keep s (newbuf_state E n s) b"
  using assms by (auto elim!: mappedE simp: keep_def newbuf_other)

lemma newbuf_facts:
  assumes "page_ok E" and "0 < n" and "int n \<le> 2 ^ 62"
  shows "guarded E (newbuf_state E n s) (nbufs s)"
    and "canary_ok (newbuf_state E n s) (nbufs s)"
    and "contents (mem (newbuf_state E n s)) (data (bufs (newbuf_state E n s) (nbufs s))) = replicate n 0"
    and "mutable (bufs (newbuf_state E n s) (nbufs s))"
    and "slen (data (bufs (newbuf_state E n s) (nbufs s))) = n"
    and "buf_base (bufs (newbuf_state E n s) (nbufs s)) = Sys (sysnext (mem s))"
proof -
  obtain c where c: "roundToPageSize E (int n) = int (n + c)" "c < pageSize E" "pageSize E dvd (n + c)"
    using round_nat [OF assms] by blast
  let ?t = "newbuf_state E n s" and ?a = "Sys (sysnext (mem s))"
  let ?cs = "rand_bytes E (rpos s) c"
  let ?g = "?cs @ replicate (pageSize E - c) 0"
  have B: "bufs ?t (nbufs s) = buffer_at E n (n + c) ?a"
    and R: "regs (mem ?t) ?a = new_region E n (n + c) ?cs"
    using c(1) by (simp_all add: newbuf_state_def Let_def nat_int_add)
  have bytes: "rbytes (new_region E n (n + c) ?cs) = ?g @ (?cs @ replicate n 0) @ ?g"
    by (simp add: new_region_def Let_def)
  show "guarded E ?t (nbufs s)"
    using c assms(2)
    by (simp add: guarded_def mapped_def laid_out_def B R buf_base_def buffer_at_def Let_def)
      (simp add: new_region_def Let_def)
  show "canary_ok ?t (nbufs s)"
    using c(2) by (simp add: canary_ok_def B buffer_at_def Let_def R bytes) (simp add: sub_def)
  show "contents (mem ?t) (data (bufs ?t (nbufs s))) = replicate n 0"
    using c(2) by (simp add: B buffer_at_def Let_def R bytes) (simp add: sub_def)
  show "mutable (bufs ?t (nbufs s))" "slen (data (bufs ?t (nbufs s))) = n" "buf_base (bufs ?t (nbufs s)) = ?a"
    by (simp_all add: B buffer_at_def buf_base_def Let_def)
qed

lemma newbuf_session:
  assumes "session E s" and "page_ok E" and "0 < n" and "int n \<le> 2 ^ 62"
  shows "session E (newbuf_state E n s)"
proof (rule session_intro [OF assms(1)])
  let ?t = "newbuf_state E n s"
  have old: "b \<noteq> nbufs s \<and> keep s ?t b \<and> guarded E ?t b" if "b \<in> set (blist s)" for b
    using session_D(2,3) [OF assms(1) that] newbuf_keep guarded_mapped keep_guarded by (metis less_irrefl)
  then show "b < nbufs ?t \<and> guarded E ?t b" if "b \<in> set (blist ?t)" for b
    using that newbuf_facts(1) [OF assms(2-4)] session_D(3) [OF assms(1)] by (auto simp: less_Suc_eq)
  have "buf_base (bufs s b) \<noteq> Sys (sysnext (mem s))" if "b \<in> set (blist s)" for b
    using guarded_mapped(1) [OF session_D(2) [OF assms(1) that]] by (auto elim!: mappedE)
  then have "Sys (sysnext (mem s)) \<notin> set (map (\<lambda>b. buf_base (bufs s b)) (blist s))"
    unfolding set_map image_iff by metis
  moreover have "map (\<lambda>b. buf_base (bufs ?t b)) (blist s) = map (\<lambda>b. buf_base (bufs s b)) (blist s)"
    using old by (auto simp: newbuf_other)
  ultimately show "distinct (map (\<lambda>b. buf_base (bufs ?t b)) (blist ?t))"
    using assms(1) newbuf_facts(6) [OF assms(2-4), of s]
    by (simp add: session_def del: map_eq_conv set_map)
  show "mutable (bufs ?t b) = mutable (bufs s b) \<and> data (bufs ?t b) = data (bufs s b)" if "b \<in> refs s (key s)" for b
    using session_refs [OF assms(1) that] by (simp add: newbuf_other)
qed auto

subsection \<open>Facts: writing\<close>

text \<open>A step that only touches the garbage-collected heap, or counters, keeps everything.\<close>

lemma session_gc:
  assumes "session E s" and "\<And>i. regs (mem t) (Sys i) = regs (mem s) (Sys i)" and "sysnext (mem t) = sysnext (mem s)"
    and "bufs t = bufs s" and "nbufs t = nbufs s" and "blist t = blist s" and "coffers t = coffers s"
    and "ncoffers t = ncoffers s" and "key t = key s" and "locks t = locks s"
  shows "session E t" and "b \<in> set (blist s) \<Longrightarrow> keep s t b"
proof -
  have keep: "keep s t b" if "b \<in> set (blist s)" for b
    using guarded_mapped(1) [OF session_D(2) [OF assms(1) that]] assms(2-4)
    by (auto elim!: mappedE simp: keep_def)
  then show "b \<in> set (blist s) \<Longrightarrow> keep s t b" .
  have "guarded E t b" if "b \<in> set (blist s)" for b
    by (rule keep_guarded [OF keep [OF that] session_D(2) [OF assms(1) that]])
  then show "session E t"
    by (intro session_same_list [OF assms(1)]) (use assms in auto)
qed

lemma write_other:
  assumes "session E s" and "b \<in> set (blist s)" and "c \<in> set (blist s)" and "c \<noteq> b"
  shows "keep s (s\<lparr>mem := put (mem s) (data (bufs s b)) bs\<rparr>) c"
proof -
  have "buf_base (bufs s c) \<noteq> slice_base (data (bufs s b))"
    using session_D(6) [OF assms(1,3,2,4)] mapped_bases(4) [OF guarded_mapped(1) [OF session_D(2) [OF assms(1,2)]]]
    by simp
  then show ?thesis by (cases "data (bufs s b)") (auto simp: keep_def)
qed

lemma write_self:
  assumes "guarded E s b" and "length bs = slen (data (bufs s b))"
  shows "guarded E (s\<lparr>mem := put (mem s) (data (bufs s b)) bs\<rparr>) b"
    and "canary_ok (s\<lparr>mem := put (mem s) (data (bufs s b)) bs\<rparr>) b = canary_ok s b"
proof -
  have m: "mapped E s b" by (rule guarded_mapped [OF assms(1)])
  then have lo: "laid_out E (bufs s b)" by (simp add: mapped_def)
  have fit: "fits (mem s) (data (bufs s b))" by (rule guarded_data [OF assms(1)])
  show "guarded E (s\<lparr>mem := put (mem s) (data (bufs s b)) bs\<rparr>) b"
    using m assms by (elim mappedE) (simp add: guarded_def mapped_def Let_def)
  show "canary_ok (s\<lparr>mem := put (mem s) (data (bufs s b)) bs\<rparr>) b = canary_ok s b"
    using apart_guards [OF lo] fit assms(2) by (simp add: canary_ok_def Let_def contents_put_apart)
qed

lemma write_session:
  assumes "session E s" and "b \<in> set (blist s)" and "length bs = slen (data (bufs s b))"
  shows "session E (s\<lparr>mem := put (mem s) (data (bufs s b)) bs\<rparr>)"
proof (rule session_same_list [OF assms(1)])
  fix c assume "c \<in> set (blist s)"
  then show "guarded E (s\<lparr>mem := put (mem s) (data (bufs s b)) bs\<rparr>) c \<and>
      buf_base (bufs (s\<lparr>mem := put (mem s) (data (bufs s b)) bs\<rparr>) c) = buf_base (bufs s c)"
    using write_self(1) [OF session_D(2) [OF assms(1,2)] assms(3)] write_other [OF assms(1,2)]
      keep_guarded [of s _ c E] session_D(2) [OF assms(1)] by (cases "c = b") auto
qed auto

subsection \<open>Facts: freezing and melting\<close>

lemma Freeze_run:
  assumes "memcall_ok E" and "memcall_works E" and "locks s (BufLock b) = Unlocked"
  shows "Freeze E b s = (Ret (), frozen_state b s)"
  using freeze_run [OF assms(1,2) _ assms(3)] dead_runs(1) [OF _ assms(3)]
  by (cases "alive (bufs s b)") (auto simp: Freeze_def frozen_state_def intro!: or_panic_None)

lemma Melt_run:
  assumes "memcall_ok E" and "memcall_works E" and "locks s (BufLock b) = Unlocked"
  shows "Melt E b s = (Ret (), melted_state b s)"
  using melt_run [OF assms(1,2) _ assms(3)] dead_runs(2) [OF _ assms(3)]
  by (cases "alive (bufs s b)") (auto simp: Melt_def melted_state_def intro!: or_panic_None)

lemma set_prot_guarded:
  assumes "guarded E s b"
  shows "guarded E (s\<lparr>mem := set_prot (inner (bufs s b)) (if v then ReadWrite else ReadOnly) (mem s),
      bufs := (bufs s)(b := (bufs s b)\<lparr>mutable := v\<rparr>), mcalls := k\<rparr>) b"
  using assms guarded_mapped(1) [OF assms]
  by (elim mappedE) (simp add: guarded_def mapped_def Let_def)

lemma frozen_guarded: "guarded E s b \<Longrightarrow> guarded E (frozen_state b s) b"
  using set_prot_guarded [where v = False] by (simp add: frozen_state_def)

lemma melted_guarded: "guarded E s b \<Longrightarrow> guarded E (melted_state b s) b"
  using set_prot_guarded [where v = True] by (simp add: melted_state_def)

lemma frozen_melted_simps [simp]:
  "locks (frozen_state b s) = locks s" "blist (frozen_state b s) = blist s" "nbufs (frozen_state b s) = nbufs s"
  "coffers (frozen_state b s) = coffers s" "ncoffers (frozen_state b s) = ncoffers s" "key (frozen_state b s) = key s"
  "contents (mem (frozen_state b s)) sl = contents (mem s) sl" "data (bufs (frozen_state b s) c) = data (bufs s c)"
  "locks (melted_state b s) = locks s" "blist (melted_state b s) = blist s" "nbufs (melted_state b s) = nbufs s"
  "coffers (melted_state b s) = coffers s" "ncoffers (melted_state b s) = ncoffers s" "key (melted_state b s) = key s"
  "contents (mem (melted_state b s)) sl = contents (mem s) sl" "data (bufs (melted_state b s) c) = data (bufs s c)"
  by (auto simp: frozen_state_def melted_state_def)

lemma frozen_other:
  assumes "session E s" and "b \<in> set (blist s)" and "c \<in> set (blist s)" and "c \<noteq> b"
  shows "keep s (frozen_state b s) c" and "keep s (melted_state b s) c"
proof -
  have "buf_base (bufs s c) \<noteq> slice_base (inner (bufs s b))"
    using session_D(6) [OF assms(1,3,2,4)] mapped_bases(5) [OF guarded_mapped(1) [OF session_D(2) [OF assms(1,2)]]]
    by simp
  then show "keep s (frozen_state b s) c" and "keep s (melted_state b s) c"
    using assms(4) by (cases "inner (bufs s b)"; auto simp: keep_def frozen_state_def melted_state_def)+
qed

lemma frozen_session:
  assumes "session E s" and "b \<in> set (blist s)" and "b \<notin> refs s (key s)"
  shows "session E (frozen_state b s)" and "session E (melted_state b s)"
proof -
  have g: "guarded E (frozen_state b s) c" "guarded E (melted_state b s) c" if "c \<in> set (blist s)" for c
    using frozen_other [OF assms(1,2) that] that session_D(2) [OF assms(1)] frozen_guarded melted_guarded keep_guarded
    by (cases "c = b"; blast)+
  have same: "bufs (frozen_state b s) c = bufs s c" "bufs (melted_state b s) c = bufs s c" if "c \<in> refs s (key s)" for c
    using that assms(3) by (cases "c = b"; simp add: frozen_state_def melted_state_def)+
  have base: "buf_base (bufs (frozen_state b s) c) = buf_base (bufs s c)"
      "buf_base (bufs (melted_state b s) c) = buf_base (bufs s c)" for c
    by (simp_all add: frozen_state_def melted_state_def)
  show "session E (frozen_state b s)"
    by (rule session_same_list [OF assms(1)]) (use g base same in auto)
  show "session E (melted_state b s)"
    by (rule session_same_list [OF assms(1)]) (use g base same in auto)
qed

subsection \<open>Facts: destruction\<close>

lemma Destroy_run:
  assumes "memcall_ok E" and "memcall_works E" and "guarded E s b" and "canary_ok s b"
    and "locks s (BufLock b) = Unlocked" and "locks s ListLock = Unlocked"
  shows "Destroy E b s = (Ret (), removed_state b s)"
proof -
  have "destroy E (Some b) s = (Ret None, destroyed_state b s)"
    using destroy_run [OF assms(1,2) guarded_mapped(2,1) [OF assms(3)] assms(5)] assms(4) by simp
  then show ?thesis
    using assms(6)
    by (simp add: Destroy_def bind_def or_panic_None list_remove_run destroyed_state_def remove_first_eq removed_state_def)
qed

lemma destroyed_other:
  assumes "session E s" and "b \<in> set (blist s)" and "c \<in> set (blist s)" and "c \<noteq> b"
  shows "keep s (removed_state b s) c"
  using session_D(6) [OF assms(1,3,2,4)] assms(4) by (simp add: keep_def destroyed_state_def removed_state_def)

lemma removed_session:
  assumes "session E s" and "b \<in> set (blist s)" and "b \<notin> refs s (key s)"
  shows "session E (removed_state b s)"
proof (rule session_intro [OF assms(1)])
  have dist: "distinct (blist s)" by (rule session_D [OF assms(1)])
  have old: "c \<noteq> b \<and> keep s (removed_state b s) c" if "c \<in> set (remove1 b (blist s))" for c
    using that dist destroyed_other [OF assms(1,2)] by (auto simp: set_remove1_eq)
  show "c < nbufs (removed_state b s) \<and> guarded E (removed_state b s) c" if "c \<in> set (blist (removed_state b s))" for c
    using that old [of c] session_D(2,3) [OF assms(1)] keep_guarded notin_set_remove1
    by (fastforce simp: removed_state_def destroyed_state_def)
  show "distinct (map (\<lambda>c. buf_base (bufs (removed_state b s) c)) (blist (removed_state b s)))"
    using assms(1) dist old
    by (auto simp: removed_state_def destroyed_state_def session_def distinct_map inj_on_def set_remove1_eq)
qed (use assms(3) in \<open>auto simp: removed_state_def destroyed_state_def session_D(5) [OF assms(1)]\<close>)

subsection \<open>Facts: extensions\<close>

lemma extends_refl: "extends s s"
  by (simp add: extends_def keep_refl)

lemma extends_trans:
  assumes "extends s t" and "extends t u"
  shows "extends s u"
  using assms unfolding extends_def by (auto intro: keep_trans)

lemma extends_D:
  assumes "extends s t"
  shows "b \<in> set (blist s) \<Longrightarrow> keep s t b" and "b \<in> set (blist s) \<Longrightarrow> b \<in> set (blist t)"
    and "b < nbufs s \<Longrightarrow> bufs t b = bufs s b" and "c < ncoffers s \<Longrightarrow> coffers t c = coffers s c"
    and "j < gcnext (mem s) \<Longrightarrow> regs (mem t) (GC j) = regs (mem s) (GC j)"
    and "nbufs s \<le> nbufs t" and "gcnext (mem s) \<le> gcnext (mem t)" and "sysnext (mem s) \<le> sysnext (mem t)"
    and "ncoffers s \<le> ncoffers t"
  using assms by (auto simp: extends_def)

lemma newbuf_extends: "session E s \<Longrightarrow> extends s (newbuf_state E n s)"
  using session_D(2,3) newbuf_keep guarded_mapped(1)
  by (fastforce simp: extends_def newbuf_other)

lemma gc_new_extends:
  assumes "session E s" and "gc_new bs s = (Ret sl, t)"
  shows "extends s t" and "session E t"
proof -
  note gc = gc_new_access [OF assms(2)]
  have t: "bufs t = bufs s" "nbufs t = nbufs s" "blist t = blist s" "coffers t = coffers s"
      "ncoffers t = ncoffers s" "key t = key s" "locks t = locks s"
    by (subst gc(8); simp)+
  show "session E t" by (rule session_gc(1) [OF assms(1) gc(5) gc(4) t])
  show "extends s t"
    using session_gc(2) [OF assms(1) gc(5) gc(4) t] t gc(4,6,7) by (simp add: extends_def)
qed

text \<open>The same write in both states.\<close>

lemma put_extends:
  assumes "extends s t"
  shows "extends (s\<lparr>mem := put (mem s) p bs\<rparr>) (t\<lparr>mem := put (mem t) p bs\<rparr>)"
proof -
  have "regs (put (mem t) p bs) a = regs (put (mem s) p bs) a" if "regs (mem t) a = regs (mem s) a" for a
    using that by (cases p) auto
  then show ?thesis using assms by (auto simp: extends_def keep_def)
qed

text \<open>Writing to a slice of the garbage-collected heap that is new since \<open>s\<close>.\<close>

lemma put_gc_extends:
  assumes "extends s t" and "session E s" and "session E t" and "gcnext (mem s) \<le> j"
  shows "extends s (t\<lparr>mem := put (mem t) (Slice (GC j) i n c) bs\<rparr>)"
    and "session E (t\<lparr>mem := put (mem t) (Slice (GC j) i n c) bs\<rparr>)"
proof -
  let ?u = "t\<lparr>mem := put (mem t) (Slice (GC j) i n c) bs\<rparr>"
  show "session E ?u" by (rule session_gc(1) [OF assms(3)]) auto
  have "keep s ?u b" if "b \<in> set (blist s)" for b
    using guarded_mapped(1) [OF session_D(2) [OF assms(2) that]] extends_D(1) [OF assms(1) that]
    by (auto elim!: mappedE simp: keep_def)
  with assms(1,4) show "extends s ?u" by (auto simp: extends_def)
qed

text \<open>Writing to the data of a buffer that is new since \<open>s\<close>.\<close>

lemma put_new_extends:
  assumes "extends s t" and "session E s" and "session E t" and "b \<in> set (blist t)" and "b \<notin> set (blist s)"
    and "length bs = slen (data (bufs t b))"
  shows "extends s (t\<lparr>mem := put (mem t) (data (bufs t b)) bs\<rparr>)"
    and "session E (t\<lparr>mem := put (mem t) (data (bufs t b)) bs\<rparr>)"
proof -
  let ?u = "t\<lparr>mem := put (mem t) (data (bufs t b)) bs\<rparr>"
  show "session E ?u" by (rule write_session [OF assms(3,4,6)])
  have "keep s ?u c" if "c \<in> set (blist s)" for c
    using keep_trans [OF extends_D(1) [OF assms(1) that] write_other [OF assms(3,4) extends_D(2) [OF assms(1) that]]]
      that assms(5) by blast
  moreover have "regs (mem ?u) (GC j) = regs (mem t) (GC j)" for j
    using guarded_data(4) [OF session_D(2) [OF assms(3,4)]] by (cases "data (bufs t b)") auto
  ultimately show "extends s ?u" using assms(1) by (auto simp: extends_def)
qed

text \<open>Destroying a buffer that is new since \<open>s\<close>.\<close>

lemma removed_extends:
  assumes "extends s t" and "session E s" and "session E t" and "b \<in> set (blist t)" and "nbufs s \<le> b"
    and "b \<notin> refs t (key t)"
  shows "extends s (removed_state b t)" and "session E (removed_state b t)"
proof -
  show "session E (removed_state b t)" by (rule removed_session [OF assms(3,4,6)])
  have new: "c \<noteq> b" if "c \<in> set (blist s)" for c using session_D(3) [OF assms(2) that] assms(5) by auto
  have "keep s (removed_state b t) c" if "c \<in> set (blist s)" for c
    using keep_trans [OF extends_D(1) [OF assms(1) that] destroyed_other [OF assms(3,4) extends_D(2) [OF assms(1) that] new [OF that]]] .
  moreover obtain i where "buf_base (bufs t b) = Sys i"
    using guarded_mapped(1) [OF session_D(2) [OF assms(3,4)]] by (auto elim!: mappedE)
  ultimately show "extends s (removed_state b t)"
    using assms(1,5) new by (auto simp: extends_def removed_state_def destroyed_state_def)
qed

text \<open>Freezing and melting a buffer that is new since \<open>s\<close>.\<close>

lemma frozen_extends:
  assumes "extends s t" and "session E s" and "session E t" and "b \<in> set (blist t)" and "nbufs s \<le> b"
  shows "extends s (frozen_state b t)" and "extends s (melted_state b t)"
proof -
  have new: "c \<noteq> b" if "c \<in> set (blist s)" for c using session_D(3) [OF assms(2) that] assms(5) by auto
  have keep: "keep s (frozen_state b t) c" "keep s (melted_state b t) c" if "c \<in> set (blist s)" for c
    using keep_trans [OF extends_D(1) [OF assms(1) that]] frozen_other [OF assms(3,4) extends_D(2) [OF assms(1) that] new [OF that]]
    by auto
  have heap: "regs (mem (frozen_state b t)) (GC j) = regs (mem t) (GC j)" "regs (mem (melted_state b t)) (GC j) = regs (mem t) (GC j)"
      "gcnext (mem (frozen_state b t)) = gcnext (mem t)" "gcnext (mem (melted_state b t)) = gcnext (mem t)"
      "sysnext (mem (frozen_state b t)) = sysnext (mem t)" "sysnext (mem (melted_state b t)) = sysnext (mem t)" for j
    using guarded_mapped(1) [OF session_D(2) [OF assms(3,4)]]
    by (auto elim!: mappedE simp: frozen_state_def melted_state_def)
  have objs: "bufs (frozen_state b t) c = bufs t c" "bufs (melted_state b t) c = bufs t c" if "c < nbufs s" for c
    using that assms(5) by (auto simp: frozen_state_def melted_state_def)
  show "extends s (frozen_state b t)" "extends s (melted_state b t)"
    using assms(1) keep heap objs by (auto simp: extends_def)
qed

end
