(* ===== verification/Coffer.thy ===== *)
theory Coffer
  imports Session
begin

text \<open>
  \<^verbatim>\<open>core/coffer.go\<close>: the 32 byte key split over two buffers, \<open>value = left XOR hash(right)\<close>. The
  operations are modelled with their locks and their loops; the lemmas show that \<^verbatim>\<open>View\<close> returns
  the value, that \<^verbatim>\<open>Rekey\<close> changes both partitions and keeps the value, that \<^verbatim>\<open>Init\<close> stores a new
  one, and that a destroyed coffer refuses all of them.
\<close>

subsection \<open>core/coffer.go\<close>

definition upd_cof :: "nat \<Rightarrow> (Coffer \<Rightarrow> Coffer) \<Rightarrow> unit go" where
  "upd_cof c f = modify (\<lambda>s. s\<lparr>coffers := (coffers s)(c := f (coffers s c))\<rparr>)"

definition new_Coffer :: "nat go" where
  "new_Coffer s = (Ret (ncoffers s), s\<lparr>coffers := (coffers s)(ncoffers s := zero_Coffer), ncoffers := Suc (ncoffers s)\<rparr>)"

text \<open>\<^verbatim>\<open>s.left.Data()\<close> and its siblings: a \<^verbatim>\<open>nil\<close> partition is dereferenced.\<close>

definition part_data :: "nat \<Rightarrow> (Coffer \<Rightarrow> nat option) \<Rightarrow> slice go" where
  "part_data c f =
     bind (gets (\<lambda>s. f (coffers s c))) (\<lambda>p.
     case p of
       None \<Rightarrow> go_panic (PRuntime ''invalid memory address or nil pointer dereference'')
     | Some b \<Rightarrow> Data b)"

text \<open>\<^verbatim>\<open>s.part.Data()[i] ^= v\<close>\<close>

definition part_xor :: "nat \<Rightarrow> (Coffer \<Rightarrow> nat option) \<Rightarrow> nat \<Rightarrow> byte \<Rightarrow> unit go" where
  "part_xor c f i v = bind (part_data c f) (\<lambda>d. bind (idx_get d i) (\<lambda>a. idx_set d i (a XOR v)))"

text \<open>The loop of \<^verbatim>\<open>Init\<close>: \<^verbatim>\<open>left = left XOR hr\<close>, and then \<^verbatim>\<open>hr\<close> is wiped.\<close>

definition init_mask :: "nat \<Rightarrow> slice \<Rightarrow> unit go" where
  "init_mask c hr =
     bind (for_each [0..<slen hr] (\<lambda>i. bind (idx_get hr i) (\<lambda>v. part_xor c left i v))) (\<lambda>_. Wipe hr)"

definition Init :: "env \<Rightarrow> nat \<Rightarrow> err option go" where
  "Init E c = with_lock (CofLock c)
     (bind (destroyed c) (\<lambda>dead.
      if dead then ret (Some ErrCofferExpired) else
      bind (part_data c left) (\<lambda>l.
      bind (Scramble E l) (\<lambda>err.
      case err of Some e \<Rightarrow> ret (Some e) | None \<Rightarrow>
      bind (part_data c right) (\<lambda>r.
      bind (Scramble E r) (\<lambda>err.
      case err of Some e \<Rightarrow> ret (Some e) | None \<Rightarrow>
      bind (part_data c right) (\<lambda>r.
      bind (Hash E r) (\<lambda>hr.
      bind (init_mask c hr) (\<lambda>_.
      ret None)))))))))"

text \<open>\<^verbatim>\<open>View\<close> after the new buffer \<open>b\<close> was made: \<^verbatim>\<open>data = hash(right) XOR left\<close>.\<close>

definition view_fill :: "env \<Rightarrow> nat \<Rightarrow> nat \<Rightarrow> (err + nat) go" where
  "view_fill E c b =
     bind (part_data c right) (\<lambda>r.
     bind (Hash E r) (\<lambda>h.
     bind (Data b) (\<lambda>d.
     bind (for_each [0..<slen d] (\<lambda>i.
        bind (Data b) (\<lambda>d.
        bind (idx_get h i) (\<lambda>x.
        bind (part_data c left) (\<lambda>l.
        bind (idx_get l i) (\<lambda>y.
        idx_set d i (x XOR y))))))) (\<lambda>_.
     bind (Wipe h) (\<lambda>_.
     ret (Inr b))))))"

definition View :: "env \<Rightarrow> nat \<Rightarrow> (err + nat) go" where
  "View E c = with_lock (CofLock c)
     (bind (destroyed c) (\<lambda>dead.
      if dead then ret (Inl ErrCofferExpired) else
      bind (NewBuffer E 32) (\<lambda>res.
      case res of
        Inl _ \<Rightarrow> go_panic (PRuntime ''invalid memory address or nil pointer dereference'')
      | Inr b \<Rightarrow> view_fill E c b)))"

text \<open>\<^verbatim>\<open>new_right = current_right XOR buf32\<close>\<close>

definition rekey_right :: "nat \<Rightarrow> slice \<Rightarrow> unit go" where
  "rekey_right c r =
     for_each [0..<slen r] (\<lambda>i.
       bind (part_data c rand) (\<lambda>x. bind (idx_get x i) (\<lambda>v. part_xor c right i v)))"

text \<open>\<^verbatim>\<open>new_left = current_left XOR hash(current_right) XOR hash(new_right)\<close>\<close>

definition rekey_left :: "nat \<Rightarrow> slice \<Rightarrow> slice \<Rightarrow> slice \<Rightarrow> unit go" where
  "rekey_left c l hashRightCurrent hashRightNew =
     for_each [0..<slen l] (\<lambda>i.
       bind (idx_get hashRightCurrent i) (\<lambda>u.
       bind (idx_get hashRightNew i) (\<lambda>v.
       part_xor c left i (u XOR v))))"

text \<open>Hash the current right partition for later and re-key it; returns the hash.\<close>

definition rekey_first :: "env \<Rightarrow> nat \<Rightarrow> slice go" where
  "rekey_first E c =
     bind (part_data c right) (\<lambda>r.
     bind (Hash E r) (\<lambda>hashRightCurrent.
     bind (rekey_right c r) (\<lambda>_.
     ret hashRightCurrent)))"

text \<open>Re-key the left partition with both hashes; only the new hash is wiped.\<close>

definition rekey_second :: "env \<Rightarrow> nat \<Rightarrow> slice \<Rightarrow> unit go" where
  "rekey_second E c hashRightCurrent =
     bind (part_data c right) (\<lambda>r.
     bind (Hash E r) (\<lambda>hashRightNew.
     bind (part_data c left) (\<lambda>l.
     bind (rekey_left c l hashRightCurrent hashRightNew) (\<lambda>_.
     Wipe hashRightNew))))"

definition Rekey :: "env \<Rightarrow> nat \<Rightarrow> err option go" where
  "Rekey E c = with_lock (CofLock c)
     (bind (destroyed c) (\<lambda>dead.
      if dead then ret (Some ErrCofferExpired) else
      bind (part_data c rand) (\<lambda>x.
      bind (Scramble E x) (\<lambda>err.
      case err of Some e \<Rightarrow> ret (Some e) | None \<Rightarrow>
      bind (rekey_first E c) (\<lambda>hashRightCurrent.
      bind (rekey_second E c hashRightCurrent) (\<lambda>_.
      ret None))))))"

text \<open>\<^verbatim>\<open>b, _ := NewBuffer(32)\<close> stored in a field: an error leaves the field \<^verbatim>\<open>nil\<close>.\<close>

fun buffer_or_nil :: "err + nat \<Rightarrow> nat option" where
  "buffer_or_nil (Inl _) = None"
| "buffer_or_nil (Inr b) = Some b"

definition NewCoffer :: "env \<Rightarrow> nat go" where
  "NewCoffer E =
     bind new_Coffer (\<lambda>c.
     bind (NewBuffer E 32) (\<lambda>l. bind (upd_cof c (\<lambda>C. C\<lparr>left := buffer_or_nil l\<rparr>)) (\<lambda>_.
     bind (NewBuffer E 32) (\<lambda>r. bind (upd_cof c (\<lambda>C. C\<lparr>right := buffer_or_nil r\<rparr>)) (\<lambda>_.
     bind (NewBuffer E 32) (\<lambda>x. bind (upd_cof c (\<lambda>C. C\<lparr>rand := buffer_or_nil x\<rparr>)) (\<lambda>_.
     bind (Init E c) (\<lambda>_.
     bind (modify (\<lambda>s. s\<lparr>rekeyers := rekeyers s @ [c]\<rparr>)) (\<lambda>_.
     ret c)))))))))"

text \<open>One tick of the re-key goroutine: it ends at the first error.\<close>

definition rekey_tick :: "env \<Rightarrow> nat \<Rightarrow> unit go" where
  "rekey_tick E c =
     bind (Rekey E c) (\<lambda>err.
     case err of
       Some _ \<Rightarrow> modify (\<lambda>s. s\<lparr>rekeyers := remove1 c (rekeyers s)\<rparr>)
     | None \<Rightarrow> ret ())"

text \<open>Destroying one partition: on success it leaves the list of buffers.\<close>

definition destroy_part :: "env \<Rightarrow> nat option \<Rightarrow> err option go" where
  "destroy_part E p =
     bind (destroy E p) (\<lambda>err.
     case err of
       None \<Rightarrow> bind (list_remove p) (\<lambda>_. ret None)
     | Some e \<Rightarrow> ret (Some e))"

fun err_lines :: "err option list \<Rightarrow> string" where
  "err_lines [] = ''''"
| "err_lines (None # es) = err_lines es"
| "err_lines (Some e # es) = err_text e @ ''\<newline>'' @ err_lines es"

definition Coffer_Destroy :: "env \<Rightarrow> nat \<Rightarrow> err option go" where
  "Coffer_Destroy E c = with_lock (CofLock c)
     (bind (gets (\<lambda>s. coffers s c)) (\<lambda>C.
      bind (destroy_part E (left C)) (\<lambda>err1.
      bind (destroy_part E (right C)) (\<lambda>err2.
      bind (destroy_part E (rand C)) (\<lambda>err3.
      let errS = err_lines [err1, err2, err3] in
      if errS = '''' then ret None else ret (Some (ErrText errS)))))))"

subsection \<open>The value of a coffer\<close>

definition part :: "world \<Rightarrow> nat option \<Rightarrow> byte list" where
  "part s p = (case p of None \<Rightarrow> [] | Some b \<Rightarrow> contents (mem s) (data (bufs s b)))"

definition coffer_value :: "env \<Rightarrow> world \<Rightarrow> nat \<Rightarrow> byte list" where
  "coffer_value E s c = xorl (blake2b E (part s (right (coffers s c)))) (part s (left (coffers s c)))"

subsection \<open>Facts: partitions\<close>

lemma newbuf_set_rw: "newbuf_state E n (set_rw l x s) = set_rw l x (newbuf_state E n s)"
  by (simp add: newbuf_state_def Let_def set_rw_updates)

lemma newbuf_set_rws: "newbuf_state E n (set_rws ls h s) = set_rws ls h (newbuf_state E n s)"
  by (rule set_rws_commute) (rule newbuf_set_rw)

lemma NewBuffer_oblivious_at:
  assumes "env_works E" and "0 < n" and "int n \<le> 2 ^ 62" and "locks s ListLock = Unlocked" and "ListLock \<notin> set ls"
  shows "oblivious_at ls (NewBuffer E (int n)) s"
  using assms NewBuffer_run [OF assms(1-3)] by (simp add: oblivious_at_def newbuf_set_rws)

lemma part_data_run: "f (coffers s c) = Some b \<Longrightarrow> part_data c f s = (Ret (data (bufs s b)), s)"
  by (simp add: part_data_def)

lemma part_xor_run:
  "f (coffers s c) = Some b \<Longrightarrow> readable (mem s) (data (bufs s b)) \<Longrightarrow> i < slen (data (bufs s b)) \<Longrightarrow>
   part_xor c f i v s =
     idx_set (data (bufs s b)) i (contents (mem s) (data (bufs s b)) ! i XOR v) s"
  by (simp add: part_xor_def bind_def part_data_run idx_get_run)

lemma oblivious_part [obliviousI]: "oblivious l (part_data c f)" "oblivious l (part_xor c f i v)"
  by (auto simp: part_data_def part_xor_def split: option.split intro!: obliviousI)

lemma session_bases:
  assumes "session E s" and "b \<in> set (blist s)"
  obtains i k n where "data (bufs s b) = Slice (Sys i) k n n" and "buf_base (bufs s b) = Sys i" and "0 < n"
  using guarded_mapped(1) [OF session_D(2) [OF assms]] by (auto elim!: mappedE)

lemma apart_buffers:
  assumes "session E s" and "b \<in> set (blist s)" and "c \<in> set (blist s)" and "b \<noteq> c"
  shows "apart (data (bufs s b)) (data (bufs s c))"
  using session_D(6) [OF assms] session_bases [OF assms(1,2)] session_bases [OF assms(1,3)]
  by (metis apart.simps(1))

lemma apart_gc:
  "session E s \<Longrightarrow> b \<in> set (blist s) \<Longrightarrow> apart (data (bufs s b)) (Slice (GC j) i n c)"
  "session E s \<Longrightarrow> b \<in> set (blist s) \<Longrightarrow> apart (Slice (GC j) i n c) (data (bufs s b))"
  by (erule (1) session_bases; simp)+

lemma coffer_not_destroyed:
  assumes "session E s" and "coffer_ok s c"
  shows "\<not> is_destroyed s c"
  using assms(2) guarded_data(6) [OF session_D(2) [OF assms(1)]]
  by (elim coffer_ok_D) (auto simp: is_destroyed_def)

lemma xorl_map: "length xs = n \<Longrightarrow> length ys = n \<Longrightarrow> map (\<lambda>i. xs ! i XOR ys ! i) [0..<n] = xorl xs ys"
  by (rule nth_equalityI) auto

text \<open>A loop that xors a list of values into a slice.\<close>

lemma for_each_xorl:
  assumes "writable (mem s) sl" and "length ws = slen sl"
    and "\<And>i bs. i < slen sl \<Longrightarrow> length bs = slen sl \<Longrightarrow>
        f i (s\<lparr>mem := put (mem s) sl bs\<rparr>) = idx_set sl i (bs ! i XOR ws ! i) (s\<lparr>mem := put (mem s) sl bs\<rparr>)"
  shows "for_each [0..<slen sl] f s = (Ret (), s\<lparr>mem := put (mem s) sl (xorl (contents (mem s) sl) ws)\<rparr>)"
  using for_each_upd [of s sl f "\<lambda>i v. v XOR ws ! i"] assms
  by (simp add: xorl_map writable_fits)

text \<open>Steps that change only memory and counters.\<close>

definition same_objs :: "world \<Rightarrow> world \<Rightarrow> bool" where
  "same_objs s t \<longleftrightarrow> bufs t = bufs s \<and> nbufs t = nbufs s \<and> blist t = blist s \<and> coffers t = coffers s \<and>
     ncoffers t = ncoffers s \<and> key t = key s \<and> locks t = locks s \<and> rekeyers t = rekeyers s"

lemma same_objs_trans: "same_objs s t \<Longrightarrow> same_objs t u \<Longrightarrow> same_objs s u"
  by (simp add: same_objs_def)

lemma same_objs_mem [simp]: "same_objs s (s\<lparr>mem := m\<rparr>)"
  by (simp add: same_objs_def)

text \<open>What was on the garbage-collected heap is unchanged, and no mapping was given up.\<close>

definition heap_kept :: "world \<Rightarrow> world \<Rightarrow> bool" where
  "heap_kept s t \<longleftrightarrow>
     (\<forall>j < gcnext (mem s). regs (mem t) (GC j) = regs (mem s) (GC j)) \<and> gcnext (mem s) \<le> gcnext (mem t) \<and>
     sysnext (mem s) \<le> sysnext (mem t)"

lemma heap_kept_trans: "heap_kept s t \<Longrightarrow> heap_kept t u \<Longrightarrow> heap_kept s u"
  by (simp add: heap_kept_def)

lemma heap_kept_extends: "extends s t \<Longrightarrow> heap_kept s t"
  by (simp add: heap_kept_def extends_def)

lemma heap_kept_put_sys: "is_Sys (slice_base sl) \<Longrightarrow> heap_kept s (s\<lparr>mem := put (mem s) sl bs\<rparr>)"
  by (cases sl) (auto simp: heap_kept_def)

lemma heap_kept_put: "heap_kept s t \<Longrightarrow> gcnext (mem s) \<le> j \<Longrightarrow>
    heap_kept s (t\<lparr>mem := put (mem t) (Slice (GC j) i n c) bs\<rparr>)"
  by (simp add: heap_kept_def)

text \<open>Hashing the data of a listed buffer puts the digest into a new slice.\<close>

lemma Hash_session:
  assumes "hash_ok E" and "session E s" and "b \<in> set (blist s)"
  obtains t where "Hash E (data (bufs s b)) s = (Ret (Slice (GC (gcnext (mem s))) 0 32 32), t)"
    and "extends s t" and "session E t" and "same_objs s t" and "sysnext (mem t) = sysnext (mem s)"
    and "gcnext (mem t) = Suc (gcnext (mem s))"
    and "contents (mem t) (Slice (GC (gcnext (mem s))) 0 32 32) = blake2b E (contents (mem s) (data (bufs s b)))"
    and "writable (mem t) (Slice (GC (gcnext (mem s))) 0 32 32)"
    and "\<And>c. c \<in> set (blist s) \<Longrightarrow> keep s t c"
proof -
  let ?H = "blake2b E (contents (mem s) (data (bufs s b)))"
  have len: "length ?H = 32" using assms(1) by (simp add: hash_ok_def)
  obtain h t where t: "gc_new ?H s = (Ret h, t)" by (simp add: gc_new_def)
  note gc = gc_new_access [OF t, unfolded len]
  have "Hash E (data (bufs s b)) s = (Ret h, t)"
    using Hash_run [OF guarded_data(1) [OF session_D(2) [OF assms(2,3)]]] t by simp
  moreover have "same_objs s t" by (subst gc(8)) simp
  ultimately show ?thesis
    using that [of t] gc(1-4,6) gc_new_extends [OF assms(2) t] extends_D(1) by simp
qed

lemma kept_data:
  assumes "keep s t b" and "session E s" and "b \<in> set (blist s)"
  shows "contents (mem t) (data (bufs t b)) = contents (mem s) (data (bufs s b))" and "bufs t b = bufs s b"
proof -
  show b: "bufs t b = bufs s b" using assms(1) by (simp add: keep_def)
  show "contents (mem t) (data (bufs t b)) = contents (mem s) (data (bufs s b))"
    using keep_contents(1) [OF assms(1) guarded_mapped(1) [OF session_D(2) [OF assms(2,3)]]] b by simp
qed

subsection \<open>Facts: viewing the value\<close>

text \<open>The loop of \<^verbatim>\<open>View\<close>.\<close>

lemma view_loop:
  assumes "session E s" and "b \<in> set (blist s)" and "mutable (bufs s b)" and "slen (data (bufs s b)) = 32"
    and "left (coffers s c) = Some l" and "l \<in> set (blist s)" and "l \<noteq> b" and "slen (data (bufs s l)) = 32"
    and "writable (mem s) (Slice (GC j) 0 32 32)"
  defines "h \<equiv> Slice (GC j) 0 32 32"
  shows "for_each [0..<slen (data (bufs s b))] (\<lambda>i. bind (Data b) (\<lambda>d. bind (idx_get h i) (\<lambda>x.
      bind (part_data c left) (\<lambda>l. bind (idx_get l i) (\<lambda>y. idx_set d i (x XOR y)))))) s =
    (Ret (), s\<lparr>mem := put (mem s) (data (bufs s b)) (xorl (contents (mem s) h) (contents (mem s) (data (bufs s l))))\<rparr>)"
    (is "for_each _ ?body s = _")
proof -
  let ?d = "data (bufs s b)" and ?l = "data (bufs s l)"
  let ?H = "contents (mem s) h" and ?L = "contents (mem s) ?l"
  have w: "writable (mem s) ?d" using guarded_data(2) [OF session_D(2) [OF assms(1,2)]] assms(3) .
  have rl: "readable (mem s) ?l" using guarded_data(1) [OF session_D(2) [OF assms(1,6)]] .
  have slen_h: "slen h = 32" by (simp add: h_def)
  have len: "length ?H = 32" "length ?L = 32"
    using assms(8,9) rl by (simp_all add: h_def readable_fits)
  have step: "?body i (s\<lparr>mem := put (mem s) ?d bs\<rparr>) = idx_set ?d i (?H ! i XOR ?L ! i) (s\<lparr>mem := put (mem s) ?d bs\<rparr>)"
    if "i < slen ?d" "length bs = slen ?d" for i bs
  proof -
    let ?u = "s\<lparr>mem := put (mem s) ?d bs\<rparr>"
    have fit: "fits (mem s) ?d" using w by (rule writable_fits)
    have "contents (mem ?u) h = ?H" "contents (mem ?u) ?l = ?L"
      using fit that(2) apart_gc(1) [OF assms(1,2)] apart_buffers [OF assms(1,2,6)] assms(7)
      by (simp_all add: contents_put_apart h_def del: contents.simps)
    moreover have "readable (mem ?u) h" "readable (mem ?u) ?l"
      using fit that(2) rl writable_readable [OF assms(9)] by (simp_all add: h_def del: readable.simps)
    ultimately have "idx_get h i ?u = (Ret (?H ! i), ?u)" "idx_get ?l i ?u = (Ret (?L ! i), ?u)"
      using that(1) assms(4,8) by (simp_all only: idx_get_run slen_h)
    then show ?thesis using assms(5) by (simp add: bind_def part_data_run)
  qed
  from for_each_upd [OF w, of ?body "\<lambda>i _. ?H ! i XOR ?L ! i", OF step]
  show ?thesis using xorl_map [OF len] assms(4) by simp
qed

lemma put_gc_keep:
  assumes "session E t" and "b \<in> set (blist t)"
  shows "keep t (t\<lparr>mem := put (mem t) (Slice (GC j) i n c) bs\<rparr>) b"
  using guarded_mapped(1) [OF session_D(2) [OF assms]] by (auto elim!: mappedE simp: keep_def)

text \<open>Filling the new buffer of a view; \<open>s\<close> is any earlier state the result extends.\<close>

lemma view_fill_run:
  assumes "hash_ok E" and "session E s" and "extends s t1" and "session E t1"
    and "b \<in> set (blist t1)" and "b \<notin> set (blist s)" and "mutable (bufs t1 b)" and "slen (data (bufs t1 b)) = 32"
    and "canary_ok t1 b" and "left (coffers t1 c) = Some l" and "right (coffers t1 c) = Some r"
    and "l \<in> set (blist t1)" and "r \<in> set (blist t1)" and "l \<noteq> b" and "slen (data (bufs t1 l)) = 32"
  obtains t where "view_fill E c b t1 = (Ret (Inr b), t)" and "extends s t" and "session E t" and "same_objs t1 t"
    and "contents (mem t) (data (bufs t b)) = coffer_value E t1 c" and "canary_ok t b"
proof -
  let ?h = "Slice (GC (gcnext (mem t1))) 0 32 32" and ?d = "data (bufs t1 b)"
  obtain t2 where t2: "Hash E (data (bufs t1 r)) t1 = (Ret ?h, t2)" "extends t1 t2" "session E t2" "same_objs t1 t2"
      "contents (mem t2) ?h = blake2b E (contents (mem t1) (data (bufs t1 r)))" "writable (mem t2) ?h"
      and keep2: "\<And>c. c \<in> set (blist t1) \<Longrightarrow> keep t1 t2 c"
    using Hash_session [OF assms(1,4,13)] by metis
  have obj2: "bufs t2 = bufs t1" "blist t2 = blist t1" "coffers t2 = coffers t1" using t2(4) by (simp_all add: same_objs_def)
  define v where "v = coffer_value E t1 c"
  have v: "v = xorl (contents (mem t2) ?h) (contents (mem t2) (data (bufs t2 l)))"
    using assms(10,11) t2(5) kept_data(1) [OF keep2 assms(4), OF assms(12) assms(12)]
    by (simp add: v_def coffer_value_def part_def del: contents.simps)
  have loop: "for_each [0..<slen ?d] (\<lambda>i. bind (Data b) (\<lambda>d. bind (idx_get ?h i) (\<lambda>x.
      bind (part_data c left) (\<lambda>l. bind (idx_get l i) (\<lambda>y. idx_set d i (x XOR y)))))) t2 =
    (Ret (), t2\<lparr>mem := put (mem t2) ?d v\<rparr>)"
    using view_loop [OF t2(3), of b c l "gcnext (mem t1)"] assms obj2 t2(6) v by simp
  define t3 where "t3 = t2\<lparr>mem := put (mem t2) ?d v\<rparr>"
  have lenv: "length v = slen (data (bufs t2 b))"
    using v t2(6) assms(8,15) obj2 guarded_data(7) [OF session_D(2) [OF t2(3)], of l] assms(12) by simp
  have b2: "b \<in> set (blist t2)" using assms(5) obj2 by simp
  have t3: "extends s t3" "session E t3"
    using put_new_extends [OF extends_trans [OF assms(3) t2(2)] assms(2) t2(3) b2 assms(6) lenv] obj2
    by (simp_all add: t3_def)
  have fit: "fits (mem t2) ?d" using guarded_data(7) [OF session_D(2) [OF t2(3) b2]] obj2 by simp
  have w3: "writable (mem t3) ?h" using t2(6) fit lenv obj2 by (simp add: t3_def del: writable.simps)
  define t4 where "t4 = t3\<lparr>mem := put (mem t3) ?h (replicate 32 0)\<rparr>"
  have wipe: "Wipe ?h t3 = (Ret (), t4)" using Wipe_run [OF w3] by (simp add: t4_def)
  have gcs: "gcnext (mem s) \<le> gcnext (mem t1)" using extends_D(7) [OF assms(3)] .
  have t4: "extends s t4" "session E t4" using put_gc_extends [OF t3(1) assms(2) t3(2) gcs] by (simp_all add: t4_def)
  have obj4: "same_objs t1 t4" using t2(4) by (simp add: t4_def t3_def same_objs_def)
  have b3: "b \<in> set (blist t3)" using b2 by (simp add: t3_def)
  have keep4: "keep t3 t4 b" unfolding t4_def by (rule put_gc_keep [OF t3(2) b3])
  have "canary_ok t2 b"
    using keep_contents(2) [OF keep2 [OF assms(5)] guarded_mapped(1) [OF session_D(2) [OF assms(4,5)]]] assms(9) by simp
  then have "canary_ok t3 b" using write_self(2) [OF session_D(2) [OF t2(3) b2] lenv] obj2 by (simp add: t3_def)
  then have can: "canary_ok t4 b"
    using keep_contents(2) [OF keep4 guarded_mapped(1) [OF session_D(2) [OF t3(2) b3]]] by simp
  have "contents (mem t4) (data (bufs t4 b)) = contents (mem t3) (data (bufs t3 b))"
    by (rule kept_data [OF keep4 t3(2) b3])
  also have "\<dots> = v" using fit lenv obj2 by (simp add: t3_def)
  finally have val: "contents (mem t4) (data (bufs t4 b)) = coffer_value E t1 c" by (simp add: v_def)
  have "view_fill E c b t1 = (Ret (Inr b), t4)"
    using assms(11) obj2 loop wipe by (simp add: view_fill_def bind_def part_data_run t2(1) t3_def)
  then show ?thesis by (rule that [OF _ t4 obj4 val can])
qed

lemma oblivious_view_fill [obliviousI]: "oblivious l (view_fill E c b)"
  unfolding view_fill_def by (intro obliviousI)

lemma extends_value:
  assumes "extends s t" and "session E s" and "coffer_ok s c" and "c < ncoffers s"
  shows "coffer_value E t c = coffer_value E s c" and "coffer_ok t c"
proof -
  have C: "coffers t c = coffers s c" by (rule extends_D(4) [OF assms(1,4)])
  have same: "bufs t b = bufs s b" "contents (mem t) (data (bufs s b)) = contents (mem s) (data (bufs s b))"
      "b \<in> set (blist t)" if "b \<in> set (blist s)" for b
    using kept_data [OF extends_D(1) [OF assms(1) that] assms(2) that] extends_D(2) [OF assms(1) that] by auto
  show "coffer_value E t c = coffer_value E s c"
    using assms(3) C same by (elim coffer_ok_D) (simp add: coffer_value_def part_def)
  show "coffer_ok t c"
    using assms(3) C same by (elim coffer_ok_D) (simp add: coffer_ok_def part_ok_def Let_def)
qed

lemma View_run:
  assumes "env_works E" and "session E s" and "coffer_ok s c"
  obtains t where "View E c s = (Ret (Inr (nbufs s)), t)" and "extends s t" and "session E t"
    and "blist t = blist s @ [nbufs s]" and "nbufs t = Suc (nbufs s)" and "key t = key s"
    and "coffers t = coffers s" and "ncoffers t = ncoffers s"
    and "contents (mem t) (data (bufs t (nbufs s))) = coffer_value E s c"
    and "slen (data (bufs t (nbufs s))) = 32" and "canary_ok t (nbufs s)"
proof -
  note ok = env_works_D [OF assms(1)]
  have free: "locks_free s" by (rule session_D [OF assms(2)])
  obtain l r x where C: "left (coffers s c) = Some l" "right (coffers s c) = Some r"
      "l \<in> set (blist s)" "r \<in> set (blist s)" "slen (data (bufs s l)) = 32"
    using assms(3) by (rule coffer_ok_D)
  let ?b = "nbufs s"
  define t1 where "t1 = newbuf_state E 32 s"
  have n1: "NewBuffer E 32 s = (Ret (Inr ?b), t1)"
    using NewBuffer_run [OF assms(1), of 32 s] free by (simp add: t1_def locks_free_D)
  have sess1: "session E t1" unfolding t1_def by (rule newbuf_session [OF assms(2) ok(7)]) simp_all
  have ext1: "extends s t1" unfolding t1_def by (rule newbuf_extends [OF assms(2)])
  have obj1: "blist t1 = blist s @ [?b]" "coffers t1 = coffers s" "key t1 = key s" "nbufs t1 = Suc ?b" "ncoffers t1 = ncoffers s"
    by (simp_all add: t1_def)
  have new: "mutable (bufs t1 ?b)" "slen (data (bufs t1 ?b)) = 32" "canary_ok t1 ?b"
    using newbuf_facts [OF ok(7), of 32 s] by (simp_all add: t1_def)
  have fresh: "?b \<notin> set (blist s)" "l \<noteq> ?b" using session_D(3) [OF assms(2)] C(3) by auto
  have old: "bufs t1 b = bufs s b" if "b \<in> set (blist s)" for b
    using kept_data(2) [OF extends_D(1) [OF ext1 that] assms(2) that] .
  have same: "part t1 (Some b) = part s (Some b)" if "b \<in> set (blist s)" for b
    using kept_data(1) [OF extends_D(1) [OF ext1 that] assms(2) that] by (simp add: part_def)
  obtain t where t: "view_fill E c ?b t1 = (Ret (Inr ?b), t)" "extends s t" "session E t" "same_objs t1 t"
      "contents (mem t) (data (bufs t ?b)) = coffer_value E t1 c" "canary_ok t ?b"
    by (rule view_fill_run [OF ok(5) assms(2) ext1 sess1, of ?b c l r]) (use obj1 new fresh C old in auto)
  have val: "coffer_value E t1 c = coffer_value E s c"
    using same C obj1 by (simp add: coffer_value_def)
  have obl: "oblivious_at [CofLock c] (NewBuffer E 32) s"
    using NewBuffer_oblivious_at [OF assms(1), of 32 s "[CofLock c]"] free by (simp add: locks_free_D)
  have run: "View E c s = (Ret (Inr ?b), t)"
    unfolding View_def
  proof (rule with_lock_free_at(1))
    show "oblivious_at [CofLock c] (bind (destroyed c) (\<lambda>dead. if dead then ret (Inl ErrCofferExpired) else
        bind (NewBuffer E 32) (\<lambda>res. case res of
          Inl _ \<Rightarrow> go_panic (PRuntime ''invalid memory address or nil pointer dereference'')
        | Inr b \<Rightarrow> view_fill E c b))) s"
    proof (rule oblivious_at_bind)
      show "oblivious_at [CofLock c] (destroyed c) s" by (intro oblivious_atI obliviousI) auto
      fix dead u assume "destroyed c s = (Ret dead, u)"
      then have "\<not> dead" "u = s" using coffer_not_destroyed [OF assms(2,3)] by (simp_all add: destroyed_run [OF free])
      then show "oblivious_at [CofLock c] (if dead then ret (Inl ErrCofferExpired) else
          bind (NewBuffer E 32) (\<lambda>res. case res of
            Inl _ \<Rightarrow> go_panic (PRuntime ''invalid memory address or nil pointer dereference'')
          | Inr b \<Rightarrow> view_fill E c b)) u"
        by simp (rule oblivious_at_bind [OF obl], rule oblivious_atI, intro obliviousI)
    qed
  qed (use free n1 t(1) coffer_not_destroyed [OF assms(2,3)] in
        \<open>simp_all add: bind_def destroyed_run [OF free] locks_free_D\<close>)
  show ?thesis
    by (rule that [OF run t(2,3)]) (use t(4-6) obj1 val new(2) in \<open>simp_all add: same_objs_def\<close>)
qed

subsection \<open>Facts: re-keying\<close>

text \<open>The garbage-collected heap is kept and no canary of a listed buffer is damaged.\<close>

definition intact :: "world \<Rightarrow> world \<Rightarrow> bool" where
  "intact s t \<longleftrightarrow>
     heap_kept s t \<and> (\<forall>b \<in> set (blist s). b \<in> set (blist t) \<and> (canary_ok s b \<longrightarrow> canary_ok t b))"

lemma intact_trans: "intact s t \<Longrightarrow> intact t u \<Longrightarrow> intact s u"
  unfolding intact_def by (meson heap_kept_trans)

lemma keep_canary:
  assumes "keep s t b" and "session E s" and "b \<in> set (blist s)"
  shows "canary_ok t b = canary_ok s b"
  by (rule keep_contents(2) [OF assms(1) guarded_mapped(1) [OF session_D(2) [OF assms(2,3)]]])

lemma intact_extends: "extends s t \<Longrightarrow> session E s \<Longrightarrow> intact s t"
  using keep_canary [OF extends_D(1)] extends_D(2) heap_kept_extends by (auto simp: intact_def)

lemma intact_put:
  assumes "intact s t" and "session E t" and "gcnext (mem s) \<le> j"
  shows "intact s (t\<lparr>mem := put (mem t) (Slice (GC j) i n c) bs\<rparr>)"
  using assms(1) heap_kept_put [OF _ assms(3)] keep_canary [OF put_gc_keep [OF assms(2)] assms(2)]
  by (auto simp: intact_def)

text \<open>A write to the data of a listed buffer, seen from a session.\<close>

lemma write_facts:
  assumes "session E s" and "b \<in> set (blist s)" and "length bs = slen (data (bufs s b))"
  defines "t \<equiv> s\<lparr>mem := put (mem s) (data (bufs s b)) bs\<rparr>"
  shows "session E t" and "same_objs s t" and "contents (mem t) (data (bufs t b)) = bs"
    and "\<And>c. c \<in> set (blist s) \<Longrightarrow> c \<noteq> b \<Longrightarrow> keep s t c"
    and "contents (mem t) (Slice (GC j) i n k) = contents (mem s) (Slice (GC j) i n k)"
    and "writable (mem t) (Slice (GC j) i n k) = writable (mem s) (Slice (GC j) i n k)"
    and "gcnext (mem t) = gcnext (mem s)" and "sysnext (mem t) = sysnext (mem s)"
    and "canary_ok t b = canary_ok s b" and "intact s t"
proof -
  show keep: "\<And>c. c \<in> set (blist s) \<Longrightarrow> c \<noteq> b \<Longrightarrow> keep s t c"
    using write_other [OF assms(1,2)] by (simp add: t_def)
  show can: "canary_ok t b = canary_ok s b"
    using write_self(2) [OF session_D(2) [OF assms(1,2)] assms(3)] by (simp add: t_def)
  have "heap_kept s t"
    unfolding t_def by (rule heap_kept_put_sys) (rule guarded_data(4) [OF session_D(2) [OF assms(1,2)]])
  moreover have "canary_ok t c = canary_ok s c" if "c \<in> set (blist s)" for c
    using can keep_canary [OF keep assms(1), OF that _ that] by (cases "c = b") auto
  ultimately show "intact s t" by (simp add: intact_def) (simp add: t_def)
qed (use write_session [OF assms(1-3)] guarded_data(7) [OF session_D(2) [OF assms(1,2)]] apart_gc(1) [OF assms(1,2)] assms(3) in
  \<open>simp_all add: t_def contents_put_apart same_objs_def del: contents.simps writable.simps\<close>)

lemma Scramble_session:
  assumes "rand_ok E" and "session E s" and "b \<in> set (blist s)" and "mutable (bufs s b)"
  obtains t where "Scramble E (data (bufs s b)) s = (Ret None, t)" and "session E t" and "same_objs s t"
    and "contents (mem t) (data (bufs t b)) = rand_bytes E (rpos s) (slen (data (bufs s b)))"
    and "\<And>c. c \<in> set (blist s) \<Longrightarrow> c \<noteq> b \<Longrightarrow> keep s t c" and "gcnext (mem t) = gcnext (mem s)"
    and "rpos t = rpos s + slen (data (bufs s b))" and "intact s t"
proof -
  let ?bs = "rand_bytes E (rpos s) (slen (data (bufs s b)))"
  define u where "u = s\<lparr>mem := put (mem s) (data (bufs s b)) ?bs\<rparr>"
  define t where "t = u\<lparr>rpos := rpos s + slen (data (bufs s b))\<rparr>"
  note w = write_facts [OF assms(2,3), of ?bs, folded u_def, simplified]
  have "Scramble E (data (bufs s b)) s = (Ret None, t)"
    using guarded_data(2) [OF session_D(2) [OF assms(2,3)] assms(4)] by (simp add: Scramble_run [OF assms(1)] t_def u_def)
  moreover have "session E t" unfolding t_def by (rule session_gc(1) [OF w(1)]) simp_all
  moreover have "same_objs s t" "keep s t c" if "c \<in> set (blist s)" "c \<noteq> b" for c
    using w(2) w(4) [OF that] by (simp_all add: t_def same_objs_def keep_def)
  moreover have "same_objs s t" using w(2) by (simp add: t_def same_objs_def)
  ultimately show ?thesis
    by (intro that [of t]) (use w(3,7,10) in \<open>simp_all add: t_def intact_def heap_kept_def canary_ok_def\<close>)
qed

lemma rekey_right_run:
  assumes "session E s" and "right (coffers s c) = Some r" and "rand (coffers s c) = Some x"
    and "r \<in> set (blist s)" and "x \<in> set (blist s)" and "r \<noteq> x" and "mutable (bufs s r)"
    and "slen (data (bufs s r)) = slen (data (bufs s x))"
  shows "rekey_right c (data (bufs s r)) s = (Ret (), s\<lparr>mem := put (mem s) (data (bufs s r))
      (xorl (contents (mem s) (data (bufs s r))) (contents (mem s) (data (bufs s x))))\<rparr>)"
  unfolding rekey_right_def
proof (rule for_each_xorl)
  let ?r = "data (bufs s r)" and ?x = "data (bufs s x)"
  have rx: "readable (mem s) ?x" and fx: "fits (mem s) ?x"
    using guarded_data(1,7) [OF session_D(2) [OF assms(1,5)]] by auto
  show w: "writable (mem s) ?r" using guarded_data(2) [OF session_D(2) [OF assms(1,4)]] assms(7) .
  show "length (contents (mem s) ?x) = slen ?r" using fx assms(8) by simp
  fix i and bs :: "byte list" assume i: "i < slen ?r" and len: "length bs = slen ?r"
  let ?u = "s\<lparr>mem := put (mem s) ?r bs\<rparr>"
  have fr: "fits (mem s) ?r" using w by (rule writable_fits)
  have "idx_get ?x i ?u = (Ret (contents (mem s) ?x ! i), ?u)"
    using i len fr rx assms(8) apart_buffers [OF assms(1,4,5,6)] by (subst idx_get_run) (simp_all add: contents_put_apart)
  then show "bind (part_data c rand) (\<lambda>x. bind (idx_get x i) (\<lambda>v. part_xor c right i v)) ?u =
      idx_set ?r i (bs ! i XOR contents (mem s) ?x ! i) ?u"
    using assms(2,3) i len fr w by (simp add: bind_def part_data_run part_xor_run writable_readable)
qed

lemma rekey_left_run:
  assumes "session E s" and "left (coffers s c) = Some l" and "l \<in> set (blist s)" and "mutable (bufs s l)"
    and "slen (data (bufs s l)) = 32"
    and "writable (mem s) (Slice (GC j) 0 32 32)" and "writable (mem s) (Slice (GC k) 0 32 32)"
  defines "h \<equiv> Slice (GC j) 0 32 32" and "h' \<equiv> Slice (GC k) 0 32 32"
  shows "rekey_left c (data (bufs s l)) h h' s = (Ret (), s\<lparr>mem := put (mem s) (data (bufs s l))
      (xorl (contents (mem s) (data (bufs s l))) (xorl (contents (mem s) h) (contents (mem s) h')))\<rparr>)"
  unfolding rekey_left_def
proof (rule for_each_xorl)
  let ?l = "data (bufs s l)" and ?H = "contents (mem s) h" and ?H' = "contents (mem s) h'"
  have sl: "slen h = 32" "slen h' = 32" by (simp_all add: h_def h'_def)
  have rd: "readable (mem s) h" "readable (mem s) h'"
    unfolding h_def h'_def by (rule writable_readable, rule assms(6,7))+
  show w: "writable (mem s) ?l" using guarded_data(2) [OF session_D(2) [OF assms(1,3)]] assms(4) .
  show "length (xorl ?H ?H') = slen ?l" using rd sl assms(5) by (simp add: readable_fits)
  fix i and bs :: "byte list" assume i: "i < slen ?l" and len: "length bs = slen ?l"
  let ?u = "s\<lparr>mem := put (mem s) ?l bs\<rparr>"
  have fl: "fits (mem s) ?l" using w by (rule writable_fits)
  have same: "contents (mem ?u) h = ?H" "contents (mem ?u) h' = ?H'"
    using fl len apart_gc(1) [OF assms(1,3)] by (simp_all add: contents_put_apart h_def h'_def del: contents.simps)
  have "idx_get h i ?u = (Ret (?H ! i), ?u)" "idx_get h' i ?u = (Ret (?H' ! i), ?u)"
    using i assms(5) rd sl fl len same by (simp_all add: idx_get_run)
  then show "bind (idx_get h i) (\<lambda>u. bind (idx_get h' i) (\<lambda>v. part_xor c left i (u XOR v))) ?u =
      idx_set ?l i (bs ! i XOR xorl ?H ?H' ! i) ?u"
    using assms(2,5) i len fl w rd sl by (simp add: bind_def part_xor_run writable_readable readable_fits)
qed

lemma xorl_rekey:
  "length h = n \<Longrightarrow> length h' = n \<Longrightarrow> length l = n \<Longrightarrow> xorl h' (xorl l (xorl h h')) = xorl h l"
  by (rule nth_equalityI) (auto simp: xor.assoc xor.commute xor.left_commute)

lemma same_objs_coffer_ok: "same_objs s t \<Longrightarrow> coffer_ok t c = coffer_ok s c"
  by (simp add: same_objs_def coffer_ok_def part_ok_def Let_def split: option.split)

lemma keep_part:
  assumes "keep s t b" and "session E s" and "b \<in> set (blist s)"
  shows "part t (Some b) = part s (Some b)"
  using kept_data(1) [OF assms] by (simp add: part_def)

text \<open>The right partition.\<close>

lemma rekey_first_run:
  assumes "hash_ok E" and "session E s" and "right (coffers s c) = Some r" and "rand (coffers s c) = Some x"
    and "r \<in> set (blist s)" and "x \<in> set (blist s)" and "r \<noteq> x" and "mutable (bufs s r)"
    and "slen (data (bufs s r)) = 32" and "slen (data (bufs s x)) = 32"
  obtains t where "rekey_first E c s = (Ret (Slice (GC (gcnext (mem s))) 0 32 32), t)" and "session E t" and "same_objs s t"
    and "part t (Some r) = xorl (part s (Some r)) (part s (Some x))"
    and "\<And>b. b \<in> set (blist s) \<Longrightarrow> b \<noteq> r \<Longrightarrow> keep s t b"
    and "contents (mem t) (Slice (GC (gcnext (mem s))) 0 32 32) = blake2b E (part s (Some r))"
    and "writable (mem t) (Slice (GC (gcnext (mem s))) 0 32 32)" and "gcnext (mem t) = Suc (gcnext (mem s))"
    and "intact s t"
proof -
  let ?hc = "Slice (GC (gcnext (mem s))) 0 32 32"
  define R' where "R' = xorl (part s (Some r)) (part s (Some x))"
  obtain t2 where t2: "Hash E (data (bufs s r)) s = (Ret ?hc, t2)" "session E t2" "same_objs s t2"
      "gcnext (mem t2) = Suc (gcnext (mem s))" "contents (mem t2) ?hc = blake2b E (contents (mem s) (data (bufs s r)))"
      "writable (mem t2) ?hc" "\<And>b. b \<in> set (blist s) \<Longrightarrow> keep s t2 b" "intact s t2"
    using Hash_session [OF assms(1,2,5)] intact_extends [OF _ assms(2)] by metis
  have o2: "bufs t2 = bufs s" "blist t2 = blist s" "coffers t2 = coffers s" using t2(3) by (simp_all add: same_objs_def)
  have p2: "part t2 (Some b) = part s (Some b)" if "b \<in> set (blist s)" for b
    using keep_part [OF t2(7) [OF that] assms(2) that] .
  define t3 where "t3 = t2\<lparr>mem := put (mem t2) (data (bufs t2 r)) R'\<rparr>"
  have right: "rekey_right c (data (bufs s r)) t2 = (Ret (), t3)"
    using rekey_right_run [OF t2(2), of c r x] assms(3-10) o2 p2 [OF assms(5)] p2 [OF assms(6)]
    by (simp add: t3_def R'_def part_def)
  have r2: "r \<in> set (blist t2)" and len2: "length R' = slen (data (bufs t2 r))"
    using assms(5,6,9,10) o2 guarded_data(7) [OF session_D(2) [OF assms(2)]] by (simp_all add: R'_def part_def)
  note w3 = write_facts [OF t2(2) r2 len2, folded t3_def]
  show ?thesis
  proof (rule that [of t3])
    show "rekey_first E c s = (Ret ?hc, t3)"
      using assms(3) t2(1) right by (simp add: rekey_first_def bind_def part_data_run)
    show "keep s t3 b" if "b \<in> set (blist s)" "b \<noteq> r" for b
      using keep_trans [OF t2(7) w3(4)] that o2 by simp
    show "same_objs s t3" by (rule same_objs_trans [OF t2(3) w3(2)])
    show "part t3 (Some r) = xorl (part s (Some r)) (part s (Some x))" using w3(3) by (simp add: part_def R'_def)
    show "contents (mem t3) ?hc = blake2b E (part s (Some r))" using t2(5) w3(5) by (simp add: part_def del: contents.simps)
    show "writable (mem t3) ?hc" using t2(6) w3(6) by (simp del: writable.simps)
    show "intact s t3" by (rule intact_trans [OF t2(8) w3(10)])
  qed (use w3(1,7) t2(4) in simp_all)
qed

text \<open>The left partition.\<close>

lemma rekey_second_run:
  assumes "hash_ok E" and "session E s" and "left (coffers s c) = Some l" and "right (coffers s c) = Some r"
    and "l \<in> set (blist s)" and "r \<in> set (blist s)" and "l \<noteq> r" and "mutable (bufs s l)" and "slen (data (bufs s l)) = 32"
    and "j < gcnext (mem s)" and "writable (mem s) (Slice (GC j) 0 32 32)"
  defines "hc \<equiv> Slice (GC j) 0 32 32"
  obtains t where "rekey_second E c hc s = (Ret (), t)" and "session E t" and "same_objs s t"
    and "part t (Some l) = xorl (part s (Some l)) (xorl (contents (mem s) hc) (blake2b E (part s (Some r))))"
    and "\<And>b. b \<in> set (blist s) \<Longrightarrow> b \<noteq> l \<Longrightarrow> keep s t b"
    and "contents (mem t) hc = contents (mem s) hc" and "intact s t"
proof -
  let ?hn = "Slice (GC (gcnext (mem s))) 0 32 32"
  obtain t4 where t4: "Hash E (data (bufs s r)) s = (Ret ?hn, t4)" "session E t4" "same_objs s t4" "extends s t4"
      "contents (mem t4) ?hn = blake2b E (contents (mem s) (data (bufs s r)))" "writable (mem t4) ?hn"
      "\<And>b. b \<in> set (blist s) \<Longrightarrow> keep s t4 b"
    using Hash_session [OF assms(1,2,6)] by metis
  have o4: "bufs t4 = bufs s" "blist t4 = blist s" "coffers t4 = coffers s" using t4(3) by (simp_all add: same_objs_def)
  have hc: "contents (mem t4) hc = contents (mem s) hc" "writable (mem t4) hc"
    using extends_D(5) [OF t4(4) assms(10)] assms(11) by (simp_all add: hc_def)
  define L' where "L' = xorl (part s (Some l)) (xorl (contents (mem s) hc) (blake2b E (part s (Some r))))"
  have l4: "l \<in> set (blist t4)" using assms(5) o4 by simp
  have pl: "contents (mem t4) (data (bufs t4 l)) = part s (Some l)"
    using keep_part [OF t4(7) assms(2), OF assms(5,5)] by (simp add: part_def)
  define t5 where "t5 = t4\<lparr>mem := put (mem t4) (data (bufs t4 l)) L'\<rparr>"
  have left: "rekey_left c (data (bufs t4 l)) hc ?hn t4 = (Ret (), t5)"
    using rekey_left_run [OF t4(2) _ l4 _ _ hc(2) [unfolded hc_def] t4(6), of c] assms(3,8,9) o4 pl t4(5) hc(1)
    by (simp add: t5_def L'_def hc_def part_def del: contents.simps)
  have "length (part s (Some l)) = 32"
    using assms(9) guarded_data(7) [OF session_D(2) [OF assms(2,5)]] by (simp add: part_def)
  then have len4: "length L' = slen (data (bufs t4 l))"
    using assms(1,9,11) o4 by (simp add: L'_def hc_def hash_ok_def)
  note w5 = write_facts [OF t4(2) l4 len4, folded t5_def]
  have o5: "blist t5 = blist s" "same_objs s t5" using o4 w5(2) t4(3) by (auto simp: same_objs_def)
  define t6 where "t6 = t5\<lparr>mem := put (mem t5) ?hn (replicate 32 0)\<rparr>"
  have wipe: "Wipe ?hn t5 = (Ret (), t6)"
    using Wipe_run [of t5 ?hn] t4(6) w5(6) by (simp add: t6_def del: writable.simps)
  have k6: "keep t5 t6 b" if "b \<in> set (blist s)" for b
    unfolding t6_def by (rule put_gc_keep [OF w5(1)]) (simp add: o5 that)
  show ?thesis
  proof (rule that [of t6])
    show "rekey_second E c hc s = (Ret (), t6)"
      using assms(3,4) o4 left wipe t4(1) by (simp add: rekey_second_def bind_def part_data_run)
    show "session E t6" unfolding t6_def by (rule session_gc(1) [OF w5(1)]) simp_all
    show "same_objs s t6" using o5 by (simp add: t6_def same_objs_def)
    show "part t6 (Some l) = xorl (part s (Some l)) (xorl (contents (mem s) hc) (blake2b E (part s (Some r))))"
      using keep_part [OF k6 w5(1)] assms(5) w5(3) o5 by (simp add: part_def L'_def)
    show "keep s t6 b" if "b \<in> set (blist s)" "b \<noteq> l" for b
      using keep_trans [OF t4(7) keep_trans [OF w5(4) k6]] that o4 by simp
    show "intact s t6"
      unfolding t6_def by (rule intact_put [OF intact_trans [OF intact_extends [OF t4(4) assms(2)] w5(10)] w5(1)]) simp
    show "contents (mem t6) hc = contents (mem s) hc"
      using w5(5) [of j 0 32 32] hc(1) assms(10) by (simp add: t6_def hc_def)
  qed
qed

lemma oblivious_rekey [obliviousI]:
  "oblivious l (rekey_first E c)" "oblivious l (rekey_second E c h)"
  unfolding rekey_first_def rekey_second_def rekey_right_def rekey_left_def
  by (intro obliviousI)+

text \<open>\<^verbatim>\<open>Rekey\<close> changes both partitions and keeps the value they stand for.\<close>

lemma Rekey_run:
  assumes "env_works E" and "session E s" and "coffer_ok s c"
  obtains t l r where "Rekey E c s = (Ret None, t)" and "session E t" and "same_objs s t"
    and "left (coffers s c) = Some l" and "right (coffers s c) = Some r"
    and "coffer_value E t c = coffer_value E s c"
    and "part t (Some r) = xorl (part s (Some r)) (rand_bytes E (rpos s) 32)"
    and "part t (Some l) = xorl (part s (Some l)) (xorl (blake2b E (part s (Some r))) (blake2b E (part t (Some r))))"
    and "\<And>b. b \<in> set (blist s) \<Longrightarrow> b \<notin> refs s c \<Longrightarrow> keep s t b"
    and "contents (mem t) (Slice (GC (gcnext (mem s))) 0 32 32) = blake2b E (part s (Some r))"
    and "intact s t"
proof -
  note ok = env_works_D [OF assms(1)]
  have free: "locks_free s" by (rule session_D [OF assms(2)])
  obtain l r x where C: "left (coffers s c) = Some l" "right (coffers s c) = Some r" "rand (coffers s c) = Some x"
      "l \<in> set (blist s)" "r \<in> set (blist s)" "x \<in> set (blist s)"
      "mutable (bufs s l)" "mutable (bufs s r)" "mutable (bufs s x)"
      "slen (data (bufs s l)) = 32" "slen (data (bufs s r)) = 32" "slen (data (bufs s x)) = 32"
      "l \<noteq> r" "l \<noteq> x" "r \<noteq> x"
    using assms(3) by (rule coffer_ok_D)
  obtain t1 where t1: "Scramble E (data (bufs s x)) s = (Ret None, t1)" "session E t1" "same_objs s t1"
      "contents (mem t1) (data (bufs t1 x)) = rand_bytes E (rpos s) (slen (data (bufs s x)))"
      "\<And>b. b \<in> set (blist s) \<Longrightarrow> b \<noteq> x \<Longrightarrow> keep s t1 b" "gcnext (mem t1) = gcnext (mem s)" "intact s t1"
    by (rule Scramble_session [OF ok(3) assms(2) C(6,9)]) (rule that)
  have o1: "bufs t1 = bufs s" "blist t1 = blist s" "coffers t1 = coffers s" using t1(3) by (simp_all add: same_objs_def)
  let ?h = "Slice (GC (gcnext (mem s))) 0 32 32"
  obtain t2 where t2: "rekey_first E c t1 = (Ret ?h, t2)" "session E t2" "same_objs t1 t2"
      "part t2 (Some r) = xorl (part t1 (Some r)) (part t1 (Some x))"
      "\<And>b. b \<in> set (blist t1) \<Longrightarrow> b \<noteq> r \<Longrightarrow> keep t1 t2 b"
      "contents (mem t2) ?h = blake2b E (part t1 (Some r))" "writable (mem t2) ?h" "gcnext (mem t2) = Suc (gcnext (mem s))"
      "intact t1 t2"
    by (rule rekey_first_run [OF ok(5) t1(2), of c r x]) (use C o1 t1(6) in auto)
  have o2: "bufs t2 = bufs s" "blist t2 = blist s" "coffers t2 = coffers s" "same_objs s t2"
    using t2(3) t1(3) by (simp_all add: same_objs_def)
  have j: "gcnext (mem s) < gcnext (mem t2)" using t2(8) by simp
  obtain t3 where t3: "rekey_second E c ?h t2 = (Ret (), t3)" "session E t3" "same_objs t2 t3"
      "part t3 (Some l) = xorl (part t2 (Some l)) (xorl (contents (mem t2) ?h) (blake2b E (part t2 (Some r))))"
      "\<And>b. b \<in> set (blist t2) \<Longrightarrow> b \<noteq> l \<Longrightarrow> keep t2 t3 b" "contents (mem t3) ?h = contents (mem t2) ?h"
      "intact t2 t3"
    by (rule rekey_second_run [OF ok(5) t2(2), of c l r "gcnext (mem s)"]) (use C o2 j t2(7) in auto)
  have r1: "part t1 (Some r) = part s (Some r)" using keep_part [OF t1(5) assms(2)] C by simp
  have r3: "part t3 (Some r) = part t2 (Some r)" using keep_part [OF t3(5) t2(2)] C o2 by simp
  have "part t1 (Some l) = part s (Some l)" using keep_part [OF t1(5) assms(2)] C by simp
  moreover have "part t2 (Some l) = part t1 (Some l)" using keep_part [OF t2(5) t1(2)] C o1 by simp
  ultimately have l3: "part t3 (Some l) = xorl (part s (Some l)) (xorl (blake2b E (part s (Some r))) (blake2b E (part t3 (Some r))))"
    using t3(4) t2(6) r1 r3 by simp
  have r: "part t3 (Some r) = xorl (part s (Some r)) (rand_bytes E (rpos s) 32)"
    using r3 t2(4) r1 t1(4) C(12) by (simp add: part_def)
  have o3: "same_objs s t3" by (rule same_objs_trans [OF o2(4) t3(3)])
  have "length (part s (Some l)) = 32"
    using C(10) guarded_data(7) [OF session_D(2) [OF assms(2) C(4)]] by (simp add: part_def)
  then have val: "coffer_value E t3 c = coffer_value E s c"
    using o3 C(1,2) l3 ok(5) by (simp add: coffer_value_def same_objs_def xorl_rekey hash_ok_def)
  have k: "keep s t3 b" if "b \<in> set (blist s)" "b \<notin> refs s c" for b
  proof -
    have "b \<noteq> l" "b \<noteq> r" "b \<noteq> x" using that(2) C by (auto simp: refs_def)
    then show ?thesis using keep_trans [OF t1(5) keep_trans [OF t2(5) t3(5)]] that(1) o1 o2 by simp
  qed
  have body: "bind (destroyed c) (\<lambda>dead. if dead then ret (Some ErrCofferExpired) else
      bind (part_data c rand) (\<lambda>x. bind (Scramble E x) (\<lambda>err.
      case err of Some e \<Rightarrow> ret (Some e) | None \<Rightarrow>
      bind (rekey_first E c) (\<lambda>h. bind (rekey_second E c h) (\<lambda>_. ret None))))) s = (Ret None, t3)"
    using coffer_not_destroyed [OF assms(2,3)] C(3) t1(1) t2(1) t3(1)
    by (simp add: bind_def destroyed_run [OF free] part_data_run)
  have run: "Rekey E c s = (Ret None, t3)"
    unfolding Rekey_def
    by (rule with_lock_free; (rule body locks_free_D [OF free])?) (intro obliviousI; simp)
  have res: "contents (mem t3) ?h = blake2b E (part s (Some r))" unfolding t3(6) t2(6) r1 ..
  show ?thesis
    by (rule that [OF run t3(2) o3 C(1,2) val r l3 k res intact_trans [OF t1(7) intact_trans [OF t2(9) t3(7)]]])
qed

subsection \<open>Facts: initialising\<close>

lemma init_loop:
  assumes "session E s" and "left (coffers s c) = Some l" and "l \<in> set (blist s)" and "mutable (bufs s l)"
    and "slen (data (bufs s l)) = 32" and "writable (mem s) (Slice (GC j) 0 32 32)"
  defines "h \<equiv> Slice (GC j) 0 32 32"
  shows "for_each [0..<32] (\<lambda>i. bind (idx_get h i) (\<lambda>v. part_xor c left i v)) s = (Ret (), s\<lparr>mem := put (mem s) (data (bufs s l))
      (xorl (contents (mem s) (data (bufs s l))) (contents (mem s) h))\<rparr>)"
  unfolding assms(5) [symmetric]
proof (rule for_each_xorl)
  let ?l = "data (bufs s l)" and ?H = "contents (mem s) h"
  have sl: "slen h = 32" by (simp add: h_def)
  have rd: "readable (mem s) h" unfolding h_def by (rule writable_readable, rule assms(6))
  show w: "writable (mem s) ?l" using guarded_data(2) [OF session_D(2) [OF assms(1,3)]] assms(4) .
  show "length ?H = slen ?l" using rd sl assms(5) by (simp add: readable_fits)
  fix i and bs :: "byte list" assume i: "i < slen ?l" and len: "length bs = slen ?l"
  let ?u = "s\<lparr>mem := put (mem s) ?l bs\<rparr>"
  have fl: "fits (mem s) ?l" using w by (rule writable_fits)
  have "contents (mem ?u) h = ?H"
    using fl len apart_gc(1) [OF assms(1,3)] by (simp add: contents_put_apart h_def del: contents.simps)
  then have "idx_get h i ?u = (Ret (?H ! i), ?u)"
    using i assms(5) rd sl fl len by (simp add: idx_get_run)
  then show "bind (idx_get h i) (\<lambda>v. part_xor c left i v) ?u = idx_set ?l i (bs ! i XOR ?H ! i) ?u"
    using assms(2,5) i len fl w rd sl by (simp add: bind_def part_xor_run writable_readable readable_fits)
qed

lemma init_mask_run:
  assumes "session E s" and "left (coffers s c) = Some l" and "l \<in> set (blist s)" and "mutable (bufs s l)"
    and "slen (data (bufs s l)) = 32" and "writable (mem s) (Slice (GC j) 0 32 32)"
  defines "h \<equiv> Slice (GC j) 0 32 32"
  obtains t where "init_mask c h s = (Ret (), t)" and "session E t" and "same_objs s t"
    and "part t (Some l) = xorl (part s (Some l)) (contents (mem s) h)"
    and "\<And>b. b \<in> set (blist s) \<Longrightarrow> b \<noteq> l \<Longrightarrow> keep s t b" and "contents (mem t) h = replicate 32 0"
    and "\<And>u. intact u s \<Longrightarrow> gcnext (mem u) \<le> j \<Longrightarrow> intact u t"
proof -
  define L where "L = xorl (part s (Some l)) (contents (mem s) h)"
  define t1 where "t1 = s\<lparr>mem := put (mem s) (data (bufs s l)) L\<rparr>"
  define t2 where "t2 = t1\<lparr>mem := put (mem t1) h (replicate 32 0)\<rparr>"
  have h: "slen h = 32" by (simp add: h_def)
  have "length L = slen (data (bufs s l))"
    using assms(5,6) guarded_data(7) [OF session_D(2) [OF assms(1,3)]] by (simp add: L_def part_def h_def)
  note w = write_facts [OF assms(1,3) this, folded t1_def]
  have wr: "writable (mem t1) h" using assms(6) w(6) by (simp add: h_def del: writable.simps)
  have wipe: "Wipe h t1 = (Ret (), t2)" using Wipe_run [OF wr] by (simp add: t2_def h)
  have loop: "for_each [0..<slen h] (\<lambda>i. bind (idx_get h i) (\<lambda>v. part_xor c left i v)) s = (Ret (), t1)"
    using init_loop [OF assms(1-6)] by (simp add: h t1_def L_def part_def) (simp add: h_def)
  have o1: "blist t1 = blist s" by (simp add: t1_def)
  have k2: "keep t1 t2 b" if "b \<in> set (blist s)" for b
    unfolding t2_def h_def by (rule put_gc_keep [OF w(1)]) (simp add: o1 that)
  show ?thesis
  proof (rule that [of t2])
    show "init_mask c h s = (Ret (), t2)" using loop wipe by (simp add: init_mask_def bind_def)
    show "session E t2" unfolding t2_def h_def by (rule session_gc(1) [OF w(1)]) simp_all
    show "same_objs s t2" by (simp add: same_objs_def t2_def t1_def)
    show "part t2 (Some l) = xorl (part s (Some l)) (contents (mem s) h)"
      using keep_part [OF k2 w(1)] assms(3) w(3) o1 by (simp add: part_def L_def)
    show "keep s t2 b" if "b \<in> set (blist s)" "b \<noteq> l" for b
      using keep_trans [OF w(4) k2] that by simp
    show "intact u t2" if "intact u s" "gcnext (mem u) \<le> j" for u
      unfolding t2_def h_def by (rule intact_put [OF intact_trans [OF that(1) w(10)] w(1) that(2)])
    show "contents (mem t2) h = replicate 32 0" using writable_fits [OF wr] by (simp add: t2_def h)
  qed
qed

lemma xorl_init: "length h = n \<Longrightarrow> length l = n \<Longrightarrow> xorl h (xorl l h) = l"
  by (rule nth_equalityI) (auto simp: xor.assoc xor.commute xor.left_commute)

lemma oblivious_init_mask [obliviousI]: "oblivious l (init_mask c h)"
  unfolding init_mask_def by (intro obliviousI)

text \<open>The value of a freshly initialised coffer is the random bytes drawn for its left partition.\<close>

lemma Init_run:
  assumes "env_works E" and "session E s" and "coffer_ok s c"
  obtains t where "Init E c s = (Ret None, t)" and "session E t" and "same_objs s t"
    and "coffer_value E t c = rand_bytes E (rpos s) 32"
    and "part t (right (coffers s c)) = rand_bytes E (rpos s + 32) 32"
    and "\<And>b. b \<in> set (blist s) \<Longrightarrow> b \<notin> refs s c \<Longrightarrow> keep s t b"
    and "contents (mem t) (Slice (GC (gcnext (mem s))) 0 32 32) = replicate 32 0" and "intact s t"
proof -
  note ok = env_works_D [OF assms(1)]
  have free: "locks_free s" by (rule session_D [OF assms(2)])
  obtain l r x where C: "left (coffers s c) = Some l" "right (coffers s c) = Some r"
      "l \<in> set (blist s)" "r \<in> set (blist s)" "mutable (bufs s l)" "mutable (bufs s r)"
      "slen (data (bufs s l)) = 32" "slen (data (bufs s r)) = 32" "l \<noteq> r"
    using assms(3) by (rule coffer_ok_D)
  obtain t1 where t1: "Scramble E (data (bufs s l)) s = (Ret None, t1)" "session E t1" "same_objs s t1"
      "contents (mem t1) (data (bufs t1 l)) = rand_bytes E (rpos s) (slen (data (bufs s l)))"
      "\<And>b. b \<in> set (blist s) \<Longrightarrow> b \<noteq> l \<Longrightarrow> keep s t1 b" "gcnext (mem t1) = gcnext (mem s)"
      "rpos t1 = rpos s + slen (data (bufs s l))" "intact s t1"
    by (rule Scramble_session [OF ok(3) assms(2) C(3,5)]) (rule that)
  have o1: "bufs t1 = bufs s" "blist t1 = blist s" "coffers t1 = coffers s" using t1(3) by (simp_all add: same_objs_def)
  have r1: "r \<in> set (blist t1)" "mutable (bufs t1 r)" using C o1 by simp_all
  obtain t2 where t2: "Scramble E (data (bufs t1 r)) t1 = (Ret None, t2)" "session E t2" "same_objs t1 t2"
      "contents (mem t2) (data (bufs t2 r)) = rand_bytes E (rpos t1) (slen (data (bufs t1 r)))"
      "\<And>b. b \<in> set (blist t1) \<Longrightarrow> b \<noteq> r \<Longrightarrow> keep t1 t2 b" "gcnext (mem t2) = gcnext (mem t1)"
      "intact t1 t2"
    by (rule Scramble_session [OF ok(3) t1(2) r1]) (rule that)
  have o2: "bufs t2 = bufs s" "blist t2 = blist s" "coffers t2 = coffers s" "same_objs s t2"
    using t2(3) t1(3) by (simp_all add: same_objs_def)
  let ?h = "Slice (GC (gcnext (mem s))) 0 32 32"
  have r2: "r \<in> set (blist t2)" using C o2 by simp
  obtain t3 where t3: "Hash E (data (bufs t2 r)) t2 = (Ret ?h, t3)" "session E t3" "same_objs t2 t3"
      "contents (mem t3) ?h = blake2b E (contents (mem t2) (data (bufs t2 r)))" "writable (mem t3) ?h"
      "\<And>b. b \<in> set (blist t2) \<Longrightarrow> keep t2 t3 b" "intact t2 t3"
    using Hash_session [OF ok(5) t2(2) r2] t1(6) t2(6) intact_extends [OF _ t2(2)] by metis
  have o3: "bufs t3 = bufs s" "blist t3 = blist s" "coffers t3 = coffers s" "same_objs s t3"
    using t3(3) o2 by (simp_all add: same_objs_def)
  obtain t4 where t4: "init_mask c ?h t3 = (Ret (), t4)" "session E t4" "same_objs t3 t4"
      "part t4 (Some l) = xorl (part t3 (Some l)) (contents (mem t3) ?h)"
      "\<And>b. b \<in> set (blist t3) \<Longrightarrow> b \<noteq> l \<Longrightarrow> keep t3 t4 b" "contents (mem t4) ?h = replicate 32 0"
      "\<And>u. intact u t3 \<Longrightarrow> gcnext (mem u) \<le> gcnext (mem s) \<Longrightarrow> intact u t4"
    by (rule init_mask_run [OF t3(2), of c l "gcnext (mem s)"]) (use C o3 t3(5) in auto)
  have o4: "same_objs s t4" by (rule same_objs_trans [OF o3(4) t4(3)])
  have r: "part t2 (Some r) = rand_bytes E (rpos s + 32) 32" using t2(4) t1(7) o1 C by (simp add: part_def)
  have r4: "part t4 (Some r) = part t2 (Some r)"
    using keep_part [OF keep_trans [OF t3(6) t4(5)] t2(2)] C(4,9) o2 o3 by simp
  have l3: "part t3 (Some l) = rand_bytes E (rpos s) 32"
    using keep_part [OF keep_trans [OF t2(5) t3(6)] t1(2)] C(3,7,9) o1 o2 t1(4) by (simp add: part_def)
  have h: "contents (mem t3) ?h = blake2b E (part t2 (Some r))" using t3(4) by (simp add: part_def del: contents.simps)
  have val: "coffer_value E t4 c = rand_bytes E (rpos s) 32"
    using o4 C(1,2) t4(4) h l3 r4 ok(5) by (simp add: coffer_value_def same_objs_def xorl_init hash_ok_def del: contents.simps)
  have k: "keep s t4 b" if "b \<in> set (blist s)" "b \<notin> refs s c" for b
  proof -
    have "b \<noteq> l" "b \<noteq> r" using that(2) C by (auto simp: refs_def)
    then show ?thesis
      using keep_trans [OF t1(5) keep_trans [OF t2(5) keep_trans [OF t3(6) t4(5)]]] that(1) o1 o2 o3 by simp
  qed
  have body: "bind (destroyed c) (\<lambda>dead. if dead then ret (Some ErrCofferExpired) else
      bind (part_data c left) (\<lambda>l. bind (Scramble E l) (\<lambda>err.
      case err of Some e \<Rightarrow> ret (Some e) | None \<Rightarrow>
      bind (part_data c right) (\<lambda>r. bind (Scramble E r) (\<lambda>err.
      case err of Some e \<Rightarrow> ret (Some e) | None \<Rightarrow>
      bind (part_data c right) (\<lambda>r. bind (Hash E r) (\<lambda>hr. bind (init_mask c hr) (\<lambda>_. ret None)))))))) s = (Ret None, t4)"
    using coffer_not_destroyed [OF assms(2,3)] C t1(1) t2(1) t3(1) t4(1) o1 o2
    by (simp add: bind_def destroyed_run [OF free] part_data_run)
  have "Init E c s = (Ret None, t4)"
    unfolding Init_def
    by (rule with_lock_free; (rule body locks_free_D [OF free])?) (intro obliviousI; simp)
  then show ?thesis
    by (rule that [OF _ t4(2) o4 val _ k t4(6) t4(7) [OF intact_trans [OF t1(8) intact_trans [OF t2(7) t3(7)]]]])
      (simp_all add: C(2) r4 r)
qed

end
