(* ===== verification/Coffer_Life.thy ===== *)
theory Coffer_Life
  imports Coffer
begin

text \<open>
  The life of a coffer: \<^verbatim>\<open>NewCoffer\<close> makes three buffers and initialises them, a destroyed coffer
  refuses every operation, \<^verbatim>\<open>Destroy\<close> removes the three buffers.
\<close>

subsection \<open>Facts: destroyed coffers\<close>

lemma expired_runs:
  assumes "locks_free s" and "is_destroyed s c"
  shows "Init E c s = (Ret (Some ErrCofferExpired), s)" and "View E c s = (Ret (Inl ErrCofferExpired), s)"
    and "Rekey E c s = (Ret (Some ErrCofferExpired), s)"
proof -
  have "with_lock (CofLock c) (bind (destroyed c) (\<lambda>d. if d then ret v else f)) s = (Ret v, s)"
    for v :: 'a and f :: "'a go"
  proof -
    let ?u = "set_rw (CofLock c) WLocked s"
    have "destroyed c ?u = (Ret True, ?u)"
      using oblivious_destroyed [of "CofLock c" c] destroyed_run [OF assms(1), of c] assms(2)
      by (auto simp: oblivious_def)
    then show ?thesis
      using locks_free_D [OF assms(1)]
      by (intro with_lock_Ret) (simp_all add: bind_def exec)
  qed
  note dead = this
  show "Init E c s = (Ret (Some ErrCofferExpired), s)" unfolding Init_def by (rule dead)
  show "View E c s = (Ret (Inl ErrCofferExpired), s)" unfolding View_def by (rule dead)
  show "Rekey E c s = (Ret (Some ErrCofferExpired), s)" unfolding Rekey_def by (rule dead)
qed

text \<open>A re-key goroutine keeps running while its coffer is in use and ends once it is destroyed.\<close>

lemma rekey_tick_expired:
  assumes "locks_free s" and "is_destroyed s c"
  shows "rekey_tick E c s = (Ret (), s\<lparr>rekeyers := remove1 c (rekeyers s)\<rparr>)"
  using expired_runs(3) [OF assms] by (simp add: rekey_tick_def bind_def exec)

subsection \<open>Facts: canaries\<close>

text \<open>No listed buffer has a damaged canary.\<close>

definition clean :: "world \<Rightarrow> bool" where
  "clean s \<longleftrightarrow> (\<forall>b \<in> set (blist s). canary_ok s b)"

lemma clean_D: "clean s \<Longrightarrow> b \<in> set (blist s) \<Longrightarrow> canary_ok s b"
  by (simp add: clean_def)

lemma clean_intact: "clean s \<Longrightarrow> intact s t \<Longrightarrow> blist t = blist s \<Longrightarrow> clean t"
  by (simp add: clean_def intact_def)

lemma clean_keep:
  assumes "clean s" and "session E s"
    and "\<And>b. b \<in> set (blist t) \<Longrightarrow> b \<in> set (blist s) \<and> keep s t b \<or> canary_ok t b"
  shows "clean t"
  using assms(1,3) keep_canary [OF _ assms(2)] unfolding clean_def by blast

lemma clean_newbuf:
  assumes "clean s" and "session E s" and "page_ok E" and "0 < n" and "int n \<le> 2 ^ 62"
  shows "clean (newbuf_state E n s)"
  by (rule clean_keep [OF assms(1,2)])
    (use newbuf_facts(2) [OF assms(3-5), of s] extends_D(1) [OF newbuf_extends [OF assms(2)]] in auto)

lemma clean_objs [simp]: "clean (s\<lparr>coffers := C\<rparr>) = clean s" "clean (s\<lparr>ncoffers := n\<rparr>) = clean s"
  "clean (s\<lparr>key := k\<rparr>) = clean s" "clean (s\<lparr>rekeyers := r\<rparr>) = clean s"
  by (simp_all add: clean_def canary_ok_def)

subsection \<open>Facts: construction\<close>

text \<open>Changing a coffer that is not the key.\<close>

lemma other_coffer_session:
  assumes "session E s" and "c \<noteq> key s"
  shows "session E (s\<lparr>coffers := (coffers s)(c := C)\<rparr>)"
    and "session E (s\<lparr>coffers := (coffers s)(c := C), ncoffers := Suc (ncoffers s)\<rparr>)"
  by (rule session_same_list [OF assms(1)];
      use assms(2) session_D(2) [OF assms(1)] in \<open>simp add: guarded_def mapped_def\<close>)+

text \<open>Giving a new buffer to a coffer that is not the key; \<open>s0\<close> is a state before the coffer existed.\<close>

definition given :: "env \<Rightarrow> nat \<Rightarrow> (Coffer \<Rightarrow> Coffer) \<Rightarrow> world \<Rightarrow> world" where
  "given E c f s = (newbuf_state E 32 s)\<lparr>coffers := (coffers s)(c := f (coffers s c))\<rparr>"

lemma given_simps [simp]:
  "locks (given E c f s) = locks s" "nbufs (given E c f s) = Suc (nbufs s)" "blist (given E c f s) = blist s @ [nbufs s]"
  "key (given E c f s) = key s" "ncoffers (given E c f s) = ncoffers s" "rekeyers (given E c f s) = rekeyers s"
  "coffers (given E c f s) = (coffers s)(c := f (coffers s c))"
  "b \<noteq> nbufs s \<Longrightarrow> bufs (given E c f s) b = bufs s b" "gcnext (mem (given E c f s)) = gcnext (mem s)"
  by (simp_all add: given_def newbuf_other)

lemma NewBuffer_32:
  "env_works E \<Longrightarrow> session E s \<Longrightarrow> NewBuffer E 32 s = (Ret (Inr (nbufs s)), newbuf_state E 32 s)"
  using NewBuffer_run [of E 32 s] locks_free_D [OF session_D(1)] by simp

lemma given_facts:
  assumes "env_works E" and "session E s" and "extends s0 s" and "ncoffers s0 \<le> c" and "c \<noteq> key s"
  shows "session E (given E c f s)" and "extends s0 (given E c f s)"
    and "mutable (bufs (given E c f s) (nbufs s))" and "slen (data (bufs (given E c f s) (nbufs s))) = 32"
    and "upd_cof c f (newbuf_state E 32 s) = (Ret (), given E c f s)" and "clean s \<Longrightarrow> clean (given E c f s)"
proof -
  have page: "page_ok E" using assms(1) by (rule env_works_D)
  show "session E (given E c f s)"
    using other_coffer_session(1) [OF newbuf_session [OF assms(2) page, of 32]] assms(5) by (simp add: given_def)
  show "extends s0 (given E c f s)"
    using extends_trans [OF assms(3) newbuf_extends [OF assms(2), of 32]] assms(4)
    by (simp add: extends_def given_def keep_def)
  show "mutable (bufs (given E c f s) (nbufs s))" "slen (data (bufs (given E c f s) (nbufs s))) = 32"
    using newbuf_facts(4,5) [OF page, of 32 s] by (simp_all add: given_def)
  show "clean (given E c f s)" if "clean s" using clean_newbuf [OF that assms(2) page, of 32] by (simp add: given_def)
  show "upd_cof c f (newbuf_state E 32 s) = (Ret (), given E c f s)"
    by (simp add: upd_cof_def exec given_def)
qed

text \<open>A re-initialised coffer seen from a state before it existed.\<close>

lemma extends_but:
  assumes "extends s0 s" and "session E s0" and "same_objs s t" and "intact s t"
    and "\<And>b. b \<in> set (blist s) \<Longrightarrow> b \<notin> R \<Longrightarrow> keep s t b" and "\<And>b. b \<in> R \<Longrightarrow> nbufs s0 \<le> b"
  shows "extends s0 t"
proof -
  have "keep s0 t b" "b \<in> set (blist t)" if "b \<in> set (blist s0)" for b
  proof -
    have "b \<notin> R" using assms(6) session_D(3) [OF assms(2) that] by fastforce
    then show "keep s0 t b"
      using keep_trans [OF extends_D(1) [OF assms(1) that] assms(5)] extends_D(2) [OF assms(1) that] by simp
    show "b \<in> set (blist t)" using extends_D(2) [OF assms(1) that] assms(3) by (simp add: same_objs_def)
  qed
  then show ?thesis
    using assms(1,3,4) by (simp add: extends_def same_objs_def intact_def heap_kept_def)
qed

lemma NewCoffer_run:
  assumes "env_works E" and "session E s"
  obtains t where "NewCoffer E s = (Ret (ncoffers s), t)" and "session E t" and "extends s t"
    and "coffer_ok t (ncoffers s)" and "ncoffers t = Suc (ncoffers s)" and "key t = key s"
    and "rekeyers t = rekeyers s @ [ncoffers s]" and "nbufs t = nbufs s + 3"
    and "blist t = blist s @ [nbufs s, Suc (nbufs s), Suc (Suc (nbufs s))]"
    and "\<exists>i. coffer_value E t (ncoffers s) = rand_bytes E i 32" and "\<forall>b \<in> refs t (ncoffers s). nbufs s \<le> b"
    and "clean s \<Longrightarrow> clean t"
proof -
  let ?c = "ncoffers s" and ?n = "nbufs s"
  have ck: "?c \<noteq> key s" using assms(2) by (simp add: session_def)
  define t0 where "t0 = s\<lparr>coffers := (coffers s)(?c := zero_Coffer), ncoffers := Suc ?c\<rparr>"
  define t1 where "t1 = given E ?c (\<lambda>C. C\<lparr>left := Some ?n\<rparr>) t0"
  define t2 where "t2 = given E ?c (\<lambda>C. C\<lparr>right := Some (Suc ?n)\<rparr>) t1"
  define t3 where "t3 = given E ?c (\<lambda>C. C\<lparr>rand := Some (Suc (Suc ?n))\<rparr>) t2"
  have n: "nbufs t0 = ?n" "nbufs t1 = Suc ?n" "nbufs t2 = Suc (Suc ?n)" "key t0 = key s" "key t1 = key s" "key t2 = key s"
    by (simp_all add: t0_def t1_def t2_def)
  have s0: "session E t0" unfolding t0_def by (rule other_coffer_session(2) [OF assms(2) ck])
  have e0: "extends s t0" using extends_refl [of s] by (simp add: t0_def extends_def keep_def)
  note g1 = given_facts [OF assms(1) s0 e0 order_refl, of "\<lambda>C. C\<lparr>left := Some ?n\<rparr>", folded t1_def, unfolded n, OF ck]
  note g2 = given_facts [OF assms(1) g1(1,2) order_refl, of "\<lambda>C. C\<lparr>right := Some (Suc ?n)\<rparr>", folded t2_def, unfolded n, OF ck]
  note g3 = given_facts [OF assms(1) g2(1,2) order_refl, of "\<lambda>C. C\<lparr>rand := Some (Suc (Suc ?n))\<rparr>", folded t3_def, unfolded n, OF ck]
  have C: "coffers t3 ?c = \<lparr>left = Some ?n, right = Some (Suc ?n), rand = Some (Suc (Suc ?n))\<rparr>"
    by (simp add: t3_def t2_def t1_def t0_def zero_Coffer_def)
  have bl: "blist t3 = blist s @ [?n, Suc ?n, Suc (Suc ?n)]" by (simp add: t3_def t2_def t1_def t0_def)
  have b: "bufs t3 ?n = bufs t1 ?n" "bufs t3 (Suc ?n) = bufs t2 (Suc ?n)" by (simp_all add: t3_def t2_def n)
  have ok3: "coffer_ok t3 ?c"
    using g1(3,4) g2(3,4) g3(3,4) by (simp add: coffer_ok_def part_ok_def C bl b)
  obtain t4 where t4: "Init E ?c t3 = (Ret None, t4)" "session E t4" "same_objs t3 t4"
      "coffer_value E t4 ?c = rand_bytes E (rpos t3) 32"
      "\<And>b. b \<in> set (blist t3) \<Longrightarrow> b \<notin> refs t3 ?c \<Longrightarrow> keep t3 t4 b" "intact t3 t4"
    by (rule Init_run [OF assms(1) g3(1) ok3]) (rule that)
  have e4: "extends s t4"
    by (rule extends_but [OF g3(2) assms(2) t4(3,6), where R = "refs t3 ?c"]; (rule t4(5))?) (auto simp: refs_def C)
  define t where "t = t4\<lparr>rekeyers := rekeyers t4 @ [?c]\<rparr>"
  have o3: "ncoffers t3 = Suc ?c" "key t3 = key s" "rekeyers t3 = rekeyers s" "nbufs t3 = ?n + 3"
    by (simp_all add: t3_def t2_def t1_def t0_def)
  have st: "new_Coffer s = (Ret ?c, t0)" by (simp add: new_Coffer_def t0_def)
  have nb: "NewBuffer E 32 t0 = (Ret (Inr ?n), newbuf_state E 32 t0)"
      "NewBuffer E 32 t1 = (Ret (Inr (Suc ?n)), newbuf_state E 32 t1)"
      "NewBuffer E 32 t2 = (Ret (Inr (Suc (Suc ?n))), newbuf_state E 32 t2)"
    using NewBuffer_32 [OF assms(1) s0] NewBuffer_32 [OF assms(1) g1(1)] NewBuffer_32 [OF assms(1) g2(1)] by (simp_all only: n)
  have "NewCoffer E s = (Ret ?c, t)"
    unfolding NewCoffer_def bind_def
    by (simp only: st nb run_then.simps buffer_or_nil.simps g1(5) g2(5) g3(5) t4(1) exec t_def)
  moreover have "session E t" unfolding t_def by (rule session_gc(1) [OF t4(2)]) simp_all
  moreover have "extends s t" using e4 by (simp add: t_def extends_def keep_def)
  moreover have "coffer_ok t ?c" using ok3 same_objs_coffer_ok [of t3 t ?c] t4(3)
    by (simp add: t_def coffer_ok_def part_ok_def same_objs_def cong: option.case_cong)
  moreover have "coffer_value E t ?c = rand_bytes E (rpos t3) 32"
    using t4(4) by (simp add: t_def coffer_value_def part_def cong: option.case_cong)
  moreover have "ncoffers t = Suc ?c" "key t = key s" "rekeyers t = rekeyers s @ [?c]" "nbufs t = ?n + 3" "blist t = blist t3"
    using t4(3) o3 by (simp_all add: same_objs_def t_def)
  moreover have "\<forall>b \<in> refs t ?c. ?n \<le> b"
    using t4(3) by (auto simp: t_def refs_def same_objs_def C)
  moreover have "clean t" if "clean s"
  proof -
    have "clean t3" using g3(6) [OF g2(6) [OF g1(6)]] that by (simp add: t0_def)
    then show ?thesis using clean_intact [OF _ t4(6)] t4(3) by (simp add: t_def same_objs_def)
  qed
  ultimately show ?thesis
    using that [of t] bl by metis
qed

subsection \<open>Facts: destruction\<close>

lemma removed_simps [simp]:
  "locks (removed_state b s) = locks s" "blist (removed_state b s) = remove1 b (blist s)" "key (removed_state b s) = key s"
  "coffers (removed_state b s) = coffers s" "ncoffers (removed_state b s) = ncoffers s" "nbufs (removed_state b s) = nbufs s"
  "bufs (removed_state b s) = (bufs s)(b := zero_Buffer)" "rekeyers (removed_state b s) = rekeyers s"
  "rpos (removed_state b s) = rpos s" "gcnext (mem (removed_state b s)) = gcnext (mem s)"
  "sysnext (mem (removed_state b s)) = sysnext (mem s)"
  by (simp_all add: removed_state_def destroyed_state_def)

lemma removed_keep:
  "c \<noteq> b \<Longrightarrow> buf_base (bufs s c) \<noteq> buf_base (bufs s b) \<Longrightarrow> keep s (removed_state b s) c"
  by (simp add: keep_def destroyed_state_def removed_state_def)

text \<open>The invariant without its part on the global key; it is what destroying the key keeps.\<close>

definition tidy :: "env \<Rightarrow> world \<Rightarrow> bool" where
  "tidy E s \<longleftrightarrow>
     locks_free s \<and> (\<forall>b \<in> set (blist s). b < nbufs s \<and> guarded E s b) \<and>
     distinct (map (\<lambda>b. buf_base (bufs s b)) (blist s))"

lemma session_tidy: "session E s \<Longrightarrow> tidy E s"
  by (simp add: session_def tidy_def)

lemma tidy_D:
  assumes "tidy E s"
  shows "locks_free s" and "b \<in> set (blist s) \<Longrightarrow> guarded E s b" and "b \<in> set (blist s) \<Longrightarrow> b < nbufs s"
    and "distinct (blist s)"
    and "b \<in> set (blist s) \<Longrightarrow> c \<in> set (blist s) \<Longrightarrow> b \<noteq> c \<Longrightarrow> buf_base (bufs s b) \<noteq> buf_base (bufs s c)"
  using assms by (auto simp: tidy_def distinct_map inj_on_def)

lemma removed_tidy:
  assumes "tidy E s" and "b \<in> set (blist s)"
  shows "tidy E (removed_state b s)" and "\<And>c. c \<in> set (remove1 b (blist s)) \<Longrightarrow> keep s (removed_state b s) c"
    and "\<And>c. c \<in> set (remove1 b (blist s)) \<Longrightarrow> canary_ok (removed_state b s) c = canary_ok s c"
proof -
  note D = tidy_D [OF assms(1)]
  have new: "c \<noteq> b \<and> c \<in> set (blist s)" if "c \<in> set (remove1 b (blist s))" for c
    using that D(4) by (simp add: set_remove1_eq)
  show keep: "keep s (removed_state b s) c" if "c \<in> set (remove1 b (blist s))" for c
    using removed_keep [OF conjunct1 [OF new [OF that]] D(5) [OF conjunct2 [OF new [OF that]] assms(2) conjunct1 [OF new [OF that]]]] .
  show "canary_ok (removed_state b s) c = canary_ok s c" if "c \<in> set (remove1 b (blist s))" for c
    using keep_contents(2) [OF keep [OF that] guarded_mapped(1) [OF D(2)]] new [OF that] by simp
  have "distinct (map (\<lambda>c. buf_base (bufs s c)) (remove1 b (blist s)))"
    using assms(1) by (simp add: tidy_def distinct_map inj_on_def set_remove1_eq)
  moreover have "map (\<lambda>c. buf_base (bufs (removed_state b s) c)) (remove1 b (blist s)) =
      map (\<lambda>c. buf_base (bufs s c)) (remove1 b (blist s))"
    by (rule map_cong [OF refl], drule new) simp
  ultimately show "tidy E (removed_state b s)"
    using D(1) D(3) [OF conjunct2 [OF new]] keep_guarded [OF keep D(2) [OF conjunct2 [OF new]]]
    by (simp add: tidy_def locks_free_def del: map_eq_conv)
qed

lemma destroy_part_run:
  assumes "memcall_ok E" and "memcall_works E" and "tidy E s" and "b \<in> set (blist s)" and "canary_ok s b"
  shows "destroy_part E (Some b) s = (Ret None, removed_state b s)"
proof -
  note D = tidy_D [OF assms(3)]
  have "destroy E (Some b) s = (Ret None, destroyed_state b s)"
    using destroy_run [OF assms(1,2) guarded_mapped(2,1) [OF D(2)]] assms(4,5) locks_free_D [OF D(1)] by simp
  moreover have "list_remove (Some b) (destroyed_state b s) = (Ret (), removed_state b s)"
    using locks_free_D [OF D(1)]
    by (simp add: list_remove_run destroyed_state_def removed_state_def remove_first_eq)
  ultimately show ?thesis by (simp add: destroy_part_def bind_def exec)
qed

lemma destroy_part_gone:
  assumes "locks_free s" and "\<And>b. p = Some b \<Longrightarrow> \<not> alive (bufs s b) \<and> b \<notin> set (blist s)"
  shows "destroy_part E p s = (Ret None, s)"
  using assms(2) dead_runs(3) [of s _ E] locks_free_D [OF assms(1)]
  by (cases p) (simp_all add: destroy_part_def bind_def exec list_remove_run remove_first_eq remove1_idem)

lemma oblivious_destroy_part [obliviousI]:
  "l \<noteq> ListLock \<Longrightarrow> (\<And>b. l \<noteq> BufLock b) \<Longrightarrow> oblivious l (destroy_part E p)"
  unfolding destroy_part_def by (intro obliviousI) (auto split: option.split)

lemma Coffer_Destroy_run:
  assumes "env_works E" and "tidy E s" and "coffer_ok s c" and "\<forall>b \<in> refs s c. canary_ok s b"
  obtains l r x where "left (coffers s c) = Some l" and "right (coffers s c) = Some r" and "rand (coffers s c) = Some x"
    and "Coffer_Destroy E c s = (Ret None, removed_state x (removed_state r (removed_state l s)))"
    and "tidy E (removed_state x (removed_state r (removed_state l s)))"
    and "\<And>b. b \<in> set (blist s) \<Longrightarrow> b \<notin> refs s c \<Longrightarrow>
      canary_ok (removed_state x (removed_state r (removed_state l s))) b = canary_ok s b"
proof -
  note ok = env_works_D [OF assms(1)]
  have free: "locks_free s" by (rule tidy_D [OF assms(2)])
  obtain l r x where C: "left (coffers s c) = Some l" "right (coffers s c) = Some r" "rand (coffers s c) = Some x"
      "l \<in> set (blist s)" "r \<in> set (blist s)" "x \<in> set (blist s)" "l \<noteq> r" "l \<noteq> x" "r \<noteq> x"
    using assms(3) by (rule coffer_ok_D)
  have can: "canary_ok s l" "canary_ok s r" "canary_ok s x" using assms(4) C by (simp_all add: refs_def)
  define t1 where "t1 = removed_state l s"
  define t2 where "t2 = removed_state r t1"
  define t3 where "t3 = removed_state x t2"
  note R1 = removed_tidy [OF assms(2) C(4), folded t1_def]
  have r1: "r \<in> set (blist t1)" "canary_ok t1 r" "canary_ok t1 x" "x \<in> set (blist t1)"
    using C can R1(3) by (simp_all add: t1_def in_set_remove1)
  note R2 = removed_tidy [OF R1(1) r1(1), folded t2_def]
  have x2: "x \<in> set (blist t2)" "canary_ok t2 x"
    using C r1 R2(3) by (simp_all add: t2_def in_set_remove1)
  note R3 = removed_tidy [OF R2(1) x2(1), folded t3_def]
  have d: "destroy_part E (Some l) s = (Ret None, t1)" "destroy_part E (Some r) t1 = (Ret None, t2)"
      "destroy_part E (Some x) t2 = (Ret None, t3)"
    using destroy_part_run [OF ok(1,2) assms(2) C(4) can(1)] destroy_part_run [OF ok(1,2) R1(1) r1(1,2)]
      destroy_part_run [OF ok(1,2) R2(1) x2] by (simp_all add: t1_def t2_def t3_def)
  have "Coffer_Destroy E c s = (Ret None, t3)"
    unfolding Coffer_Destroy_def
  proof (rule with_lock_free)
    show "oblivious (CofLock c) (bind (gets (\<lambda>s. coffers s c)) (\<lambda>C.
      bind (destroy_part E (left C)) (\<lambda>err1. bind (destroy_part E (right C)) (\<lambda>err2.
      bind (destroy_part E (rand C)) (\<lambda>err3. let errS = err_lines [err1, err2, err3] in
      if errS = '''' then ret None else ret (Some (ErrText errS)))))))"
      unfolding Let_def by (intro obliviousI) simp_all
  qed (use C d in \<open>simp_all add: locks_free_D [OF free] bind_def exec\<close>)
  moreover have "canary_ok t3 b = canary_ok s b" if "b \<in> set (blist s)" "b \<notin> refs s c" for b
  proof -
    have "b \<noteq> l" "b \<noteq> r" "b \<noteq> x" using that(2) C by (auto simp: refs_def)
    then show ?thesis using that(1) R1(3) R2(3) R3(3) by (simp add: t1_def t2_def in_set_remove1)
  qed
  ultimately show ?thesis
    using that [OF C(1-3)] R3(1) by (simp add: t1_def t2_def t3_def)
qed

end
