(* ===== verification/Cipher.thy ===== *)
theory Cipher
  imports Coffer
begin

text \<open>
  \<^verbatim>\<open>Encrypt\<close> and \<^verbatim>\<open>Decrypt\<close> of \<^verbatim>\<open>core/crypto.go\<close>: the ciphertext is a random nonce of 24 bytes
  followed by a \<^verbatim>\<open>secretbox\<close> of the plaintext. They are apart from theory \<open>Crypto\<close> because \<^verbatim>\<open>Encrypt\<close>
  purges the session when the random source fails. \<open>gc_step\<close> says that a computation only adds to the
  garbage-collected heap.
\<close>

subsection \<open>core/crypto.go\<close>

definition Encrypt :: "env \<Rightarrow> slice \<Rightarrow> slice \<Rightarrow> (err + slice) go" where
  "Encrypt E plaintext k =
     (if slen k \<noteq> 32 then ret (Inl ErrInvalidKeyLength)
      else
        bind (gc_new (replicate 24 0)) (\<lambda>nonce.
        bind (or_panic E (Scramble E nonce)) (\<lambda>_.
        bind (read_all nonce) (\<lambda>n.
        bind (read_all plaintext) (\<lambda>m.
        bind (read_all k) (\<lambda>kb.
        bind (gc_new (n @ sbSeal E m n kb)) (\<lambda>c.
        ret (Inr c))))))))"

definition Decrypt :: "env \<Rightarrow> slice \<Rightarrow> slice \<Rightarrow> slice \<Rightarrow> (err + int) go" where
  "Decrypt E ciphertext k output =
     (if slen k \<noteq> 32 then ret (Inl ErrInvalidKeyLength)
      else if int (scap output) < int (slen ciphertext) - Overhead E then ret (Inl ErrBufferTooSmall)
      else
        bind (gc_new (replicate 24 0)) (\<lambda>nonce.
        bind (slice_upto ciphertext 24) (\<lambda>head.
        bind (Copy nonce head) (\<lambda>_.
        bind (slice_from ciphertext 24) (\<lambda>box.
        bind (read_all box) (\<lambda>bb.
        bind (read_all nonce) (\<lambda>n.
        bind (read_all k) (\<lambda>kb.
        case sbOpen E bb n kb of
          None \<Rightarrow> ret (Inl ErrDecryptionFailed)
        | Some m \<Rightarrow>
            bind (gc_new m) (\<lambda>msl.
            bind (slice_upto output (int (scap output))) (\<lambda>out.
            bind (Move out msl) (\<lambda>_.
            ret (Inr (int (slen msl))))))))))))))"

subsection \<open>Additions to the garbage-collected heap\<close>

text \<open>The slice existed before.\<close>

fun old :: "mem \<Rightarrow> slice \<Rightarrow> bool" where
  "old m NilSlice = True"
| "old m (Slice (Sys i) j n c) = True"
| "old m (Slice (GC i) j n c) = (i < gcnext m)"

definition gc_step :: "world \<Rightarrow> world \<Rightarrow> bool" where
  "gc_step s t \<longleftrightarrow>
     same_objs s t \<and> (\<forall>i. regs (mem t) (Sys i) = regs (mem s) (Sys i)) \<and> sysnext (mem t) = sysnext (mem s) \<and> heap_kept s t"

lemma gc_step_refl [simp]: "gc_step s s"
  by (simp add: gc_step_def same_objs_def heap_kept_def)

lemma gc_step_trans: "gc_step s t \<Longrightarrow> gc_step t u \<Longrightarrow> gc_step s u"
  unfolding gc_step_def using same_objs_trans heap_kept_trans by (metis (no_types, lifting))

lemma gc_step_new: "gc_new bs s = (r, t) \<Longrightarrow> gc_step s t"
  by (auto simp: gc_new_def gc_step_def same_objs_def heap_kept_def)

lemma gc_step_put:
  "gc_step s t \<Longrightarrow> gcnext (mem s) \<le> j \<Longrightarrow> gc_step s (t\<lparr>mem := put (mem t) (Slice (GC j) i n c) bs\<rparr>)"
  by (simp add: gc_step_def same_objs_def heap_kept_def)

lemma gc_step_rpos: "gc_step s (t\<lparr>rpos := i\<rparr>) = gc_step s t"
  by (simp add: gc_step_def same_objs_def heap_kept_def)

lemma gc_step_old:
  assumes "gc_step s t" and "old (mem s) sl"
  shows "contents (mem t) sl = contents (mem s) sl" and "readable (mem t) sl = readable (mem s) sl"
    and "writable (mem t) sl = writable (mem s) sl" and "old (mem t) sl"
  using assms by (cases "(mem s, sl)" rule: old.cases; simp add: gc_step_def heap_kept_def)+

text \<open>A write to an old slice may as well have happened first.\<close>

lemma gc_step_first:
  assumes "gc_step s t" and "old (mem s) sl"
  shows "gc_step (s\<lparr>mem := put (mem s) sl bs\<rparr>) (t\<lparr>mem := put (mem t) sl bs\<rparr>)"
  using assms by (cases "(mem s, sl)" rule: old.cases) (auto simp: gc_step_def heap_kept_def same_objs_def)

lemma gc_step_session: "gc_step s t \<Longrightarrow> session E s \<Longrightarrow> session E t"
  by (rule session_gc(1)) (auto simp: gc_step_def same_objs_def)

lemma gc_step_keep: "gc_step s t \<Longrightarrow> session E s \<Longrightarrow> b \<in> set (blist s) \<Longrightarrow> keep s t b"
  by (rule session_gc(2)) (auto simp: gc_step_def same_objs_def)

lemma gc_step_extends: "gc_step s t \<Longrightarrow> session E s \<Longrightarrow> extends s t"
  using gc_step_keep [of s t E] by (auto simp: extends_def gc_step_def same_objs_def heap_kept_def)

lemma old_data: "session E s \<Longrightarrow> b \<in> set (blist s) \<Longrightarrow> old m (data (bufs s b))"
  by (erule (1) session_bases) simp

subsection \<open>Facts: encryption\<close>

lemma Encrypt_run:
  assumes "rand_ok E" and "slen k = 32" and "readable (mem s) p" and "readable (mem s) k"
    and "old (mem s) p" and "old (mem s) k"
  defines "n \<equiv> rand_bytes E (rpos s) 24"
  obtains c t where "Encrypt E p k s = (Ret (Inr c), t)" and "gc_step s t" and "\<not> old (mem s) c" and "wf_slice c"
    and "contents (mem t) c = n @ sbSeal E (contents (mem s) p) n (contents (mem s) k)" and "readable (mem t) c" and "old (mem t) c"
    and "slen c = length (n @ sbSeal E (contents (mem s) p) n (contents (mem s) k))"
proof -
  obtain N t1 where t1: "gc_new (replicate 24 0) s = (Ret N, t1)" by (simp add: gc_new_def)
  note g1 = gc_new_access [OF t1]
  have N: "N = Slice (GC (gcnext (mem s))) 0 24 24" using g1(1) by simp
  have N24: "slen N = 24" by (simp add: N)
  have rp: "rpos t1 = rpos s" by (subst g1(8)) simp
  define t2 where "t2 = t1\<lparr>mem := put (mem t1) N n, rpos := rpos s + 24\<rparr>"
  have scr: "Scramble E N t1 = (Ret None, t2)"
    using g1(3) by (simp add: Scramble_run [OF assms(1)] rp n_def t2_def N)
  have "gc_step s (t1\<lparr>mem := put (mem t1) N n\<rparr>)" unfolding N by (rule gc_step_put [OF gc_step_new [OF t1] order_refl])
  then have g2: "gc_step s t2" by (simp add: t2_def gc_step_rpos)
  have r2: "readable (mem t2) N" "contents (mem t2) N = n"
    using g1(3) writable_fits [OF g1(3)] N24 by (simp_all add: t2_def n_def writable_readable)
  obtain c t where t: "gc_new (n @ sbSeal E (contents (mem s) p) n (contents (mem s) k)) t2 = (Ret c, t)" by (simp add: gc_new_def)
  note g3 = gc_new_access [OF t]
  have "Encrypt E p k s = (Ret (Inr c), t)"
    using assms(2) t1 or_panic_None [of "Scramble E N" t1 t2 E] scr r2 t gc_step_old [OF g2 assms(5)] gc_step_old [OF g2 assms(6)] assms(3,4)
    by (simp add: Encrypt_def bind_def read_all_def)
  moreover have "gc_step s t" by (rule gc_step_trans [OF g2 gc_step_new [OF t]])
  moreover have "gcnext (mem s) \<le> gcnext (mem t2)" using g2 by (simp add: gc_step_def heap_kept_def)
  ultimately show ?thesis
    by (intro that [of c t]) (use g3 in \<open>simp_all add: writable_readable wf_slice_def\<close>)
qed

text \<open>Taking the nonce and the box out of a ciphertext.\<close>

lemma split_ciphertext:
  assumes "wf_slice c" and "24 \<le> slen c" and "readable (mem s) c" and "old (mem s) c"
  obtains h b where "slice_upto c 24 = ret h" and "slice_from c 24 = ret b"
    and "contents (mem s) h = take 24 (contents (mem s) c)" and "contents (mem s) b = drop 24 (contents (mem s) c)"
    and "readable (mem s) h" and "readable (mem s) b" and "old (mem s) h" and "old (mem s) b" and "wf_slice h" and "slen h = 24"
proof -
  obtain a i n k where c: "c = Slice a i n k" using assms(2) by (cases c) auto
  have n: "24 \<le> n" "24 \<le> k" using assms(1,2) by (simp_all add: c wf_slice_def)
  have "rprot (regs (mem s) a) (i + 24 + j) \<noteq> NoAccess" if "j < n - 24" for j
  proof -
    have "24 + j < n" using that n by simp
    then show ?thesis using assms(3) unfolding c readable.simps by (metis add.assoc)
  qed
  with n assms(3,4) show ?thesis
    by (intro that [of "Slice a i 24 k" "Slice a (i + 24) (n - 24) (k - 24)"])
      (cases a; auto simp: c wf_slice_def sub_def add.commute min_absorb1 drop_take)+
qed

lemma Decrypt_run:
  assumes "slen k = 32" and "int (slen c) - Overhead E \<le> int (scap out)" and "wf_slice c" and "24 \<le> slen c"
    and "readable (mem s) c" and "old (mem s) c" and "readable (mem s) k" and "old (mem s) k"
    and "writable (mem s) out" and "old (mem s) out" and "slen out = scap out"
  defines "r \<equiv> sbOpen E (drop 24 (contents (mem s) c)) (take 24 (contents (mem s) c)) (contents (mem s) k)"
  shows "r = None \<Longrightarrow> \<exists>t. Decrypt E c k out s = (Ret (Inl ErrDecryptionFailed), t) \<and> gc_step s t"
    and "r = Some m \<Longrightarrow> \<exists>t. Decrypt E c k out s = (Ret (Inr (int (length m))), t) \<and>
       gc_step (s\<lparr>mem := put (mem s) out (copied (contents (mem s) out) m)\<rparr>) t"
proof -
  obtain h b where hb: "slice_upto c 24 = ret h" "slice_from c 24 = ret b"
      "contents (mem s) h = take 24 (contents (mem s) c)" "contents (mem s) b = drop 24 (contents (mem s) c)"
      "readable (mem s) h" "readable (mem s) b" "old (mem s) h" "old (mem s) b" "wf_slice h" "slen h = 24"
    by (rule split_ciphertext [OF assms(3-6)])
  obtain N t1 where t1: "gc_new (replicate 24 0) s = (Ret N, t1)" by (simp add: gc_new_def)
  note g1 = gc_new_access [OF t1] and s1 = gc_step_new [OF t1]
  have N: "N = Slice (GC (gcnext (mem s))) 0 24 24" using g1(1) by simp
  have N24: "slen N = 24" "wf_slice N" by (simp_all add: N wf_slice_def)
  have "apart N h" using hb(7) by (cases "(mem s, h)" rule: old.cases) (auto simp: N)
  then have "Copy N h t1 = (Ret (), t1\<lparr>mem := put (mem t1) N (copied (contents (mem t1) N) (contents (mem t1) h))\<rparr>)"
    using Copy_run [OF N24(2) hb(9) g1(3)] gc_step_old [OF s1 hb(7)] hb(5) by simp
  define n where "n = take 24 (contents (mem s) c)"
  define t2 where "t2 = t1\<lparr>mem := put (mem t1) N n\<rparr>"
  have "length (contents (mem s) c) = slen c" using assms(5) by (simp add: readable_fits)
  then have n24: "length n = 24" using assms(4) by (simp add: n_def)
  then have copy: "Copy N h t1 = (Ret (), t2)"
    using \<open>Copy N h t1 = _\<close> gc_step_old(1) [OF s1 hb(7)] hb(3) writable_fits [OF g1(3)] N24
    by (simp add: t2_def n_def)
  have g2: "gc_step s t2" unfolding t2_def N by (rule gc_step_put [OF s1 order_refl])
  have r2: "readable (mem t2) N" "contents (mem t2) N = n"
    using g1(3) writable_fits [OF g1(3)] N24 n24 by (simp_all add: t2_def writable_readable)
  have upto: "Decrypt E c k out s = (case r of None \<Rightarrow> ret (Inl ErrDecryptionFailed)
        | Some m \<Rightarrow> bind (gc_new m) (\<lambda>msl. bind (slice_upto out (int (scap out))) (\<lambda>out.
            bind (Move out msl) (\<lambda>_. ret (Inr (int (slen msl))))))) t2"
    using assms(1,2,7) t1 hb(1,2,4,6) copy r2 gc_step_old [OF g2 hb(8)] gc_step_old [OF g2 assms(8)]
    by (simp add: Decrypt_def bind_def read_all_def exec r_def n_def)
  show "\<exists>t. Decrypt E c k out s = (Ret (Inl ErrDecryptionFailed), t) \<and> gc_step s t" if "r = None"
    using upto that g2 by (simp add: exec)
  show "\<exists>t. Decrypt E c k out s = (Ret (Inr (int (length m))), t) \<and>
       gc_step (s\<lparr>mem := put (mem s) out (copied (contents (mem s) out) m)\<rparr>) t" if m: "r = Some m"
  proof -
    obtain M t3 where t3: "gc_new m t2 = (Ret M, t3)" by (simp add: gc_new_def)
    note g3 = gc_new_access [OF t3] and s3 = gc_step_trans [OF g2 gc_step_new [OF t3]]
    have M: "M = Slice (GC (gcnext (mem t2))) 0 (length m) (length m)" using g3(1) .
    have gg: "gcnext (mem s) \<le> gcnext (mem t2)" using g2 by (simp add: gc_step_def heap_kept_def)
    have ap: "apart out M" using assms(10) gg by (cases "(mem s, out)" rule: old.cases) (auto simp: M)
    let ?u = "t3\<lparr>mem := put (mem t3) out (copied (contents (mem s) out) m)\<rparr>"
    let ?t = "?u\<lparr>mem := put (mem ?u) M (replicate (length m) 0)\<rparr>"
    have same: "slice_upto out (int (scap out)) t3 = (Ret out, t3)"
      using assms(11) by (cases out) (simp_all add: exec)
    have "Move out M t3 = (Ret (), ?t)"
      using Move_run [OF _ _ _ g3(3) ap] assms(9,11) gc_step_old [OF s3 assms(10)] g3(2)
      by (simp add: wf_slice_def M del: contents.simps put.simps)
    then have "Decrypt E c k out s = (Ret (Inr (int (length m))), ?t)"
      using upto m t3 same by (simp add: bind_def exec M)
    moreover have "gc_step (s\<lparr>mem := put (mem s) out (copied (contents (mem s) out) m)\<rparr>) ?t"
      unfolding M by (rule gc_step_put [OF gc_step_first [OF s3 assms(10)]]) (simp add: gg)
    ultimately show ?thesis by blast
  qed
qed

end
