(* ===== verification/Enclave.thy ===== *)
theory Enclave
  imports Coffer_Life Cipher
begin

text \<open>
  \<^verbatim>\<open>core/enclave.go\<close>: the global key and the sealed containers. \<^verbatim>\<open>NewEnclave\<close> encrypts data with a view
  of the global key, \<^verbatim>\<open>Seal\<close> does so with the data of a buffer and destroys it, \<^verbatim>\<open>Open\<close> decrypts into a
  new buffer. An \<^verbatim>\<open>Enclave\<close> is never changed once it is made, so it is modelled as a value.
\<close>

subsection \<open>core/enclave.go\<close>

definition getOrCreateKey :: "env \<Rightarrow> nat go" where
  "getOrCreateKey E = with_lock KeyMtx
     (bind (gets key) (\<lambda>k.
      bind (Destroyed (Some k)) (\<lambda>d.
      bind (if d then bind (NewCoffer E) (\<lambda>c. modify (\<lambda>s. s\<lparr>key := c\<rparr>)) else ret ()) (\<lambda>_.
      gets key))))"

definition getKey :: "nat go" where
  "getKey = with_lock KeyMtx (gets key)"

record Enclave =
  ciphertext :: slice

text \<open>\<^verbatim>\<open>getOrCreateKey().View()\<close>\<close>

definition view_key :: "env \<Rightarrow> (err + nat) go" where
  "view_key E = bind (getOrCreateKey E) (View E)"

definition NewEnclave :: "env \<Rightarrow> slice \<Rightarrow> (err + Enclave) go" where
  "NewEnclave E buf =
     (if slen buf < 1 then ret (Inl ErrNullEnclave)
      else
        bind (view_key E) (\<lambda>r.
        case r of
          Inl e \<Rightarrow> ret (Inl e)
        | Inr k \<Rightarrow>
            bind (Data k) (\<lambda>kd.
            bind (Encrypt E buf kd) (\<lambda>r.
            case r of
              Inl e \<Rightarrow> Panic E (PErr e)
            | Inr c \<Rightarrow>
                bind (Destroy E k) (\<lambda>_.
                bind (Wipe buf) (\<lambda>_.
                ret (Inr \<lparr>ciphertext = c\<rparr>)))))))"

definition Seal :: "env \<Rightarrow> nat \<Rightarrow> (err + Enclave) go" where
  "Seal E b =
     bind (Alive b) (\<lambda>a.
     if \<not> a then ret (Inl ErrBufferExpired)
     else
       bind (Melt E b) (\<lambda>_.
       bind (with_rlock (BufLock b) (bind (Data b) (NewEnclave E))) (\<lambda>r.
       case r of
         Inl e \<Rightarrow> ret (Inl e)
       | Inr e \<Rightarrow> bind (Destroy E b) (\<lambda>_. ret (Inr e)))))"

definition Open :: "env \<Rightarrow> Enclave \<Rightarrow> (err + nat) go" where
  "Open E e =
     bind (NewBuffer E (int (slen (ciphertext e)) - Overhead E)) (\<lambda>r.
     case r of
       Inl _ \<Rightarrow> Panic E (PStr ''<memguard:core> ciphertext has invalid length'')
     | Inr b \<Rightarrow>
         bind (view_key E) (\<lambda>r.
         case r of
           Inl err \<Rightarrow> ret (Inl err)
         | Inr k \<Rightarrow>
             bind (Data k) (\<lambda>kd.
             bind (Data b) (\<lambda>bd.
             bind (Decrypt E (ciphertext e) kd bd) (\<lambda>r.
             case r of
               Inl err \<Rightarrow> ret (Inl err)
             | Inr _ \<Rightarrow> bind (Destroy E k) (\<lambda>_. ret (Inr b)))))))"

definition EnclaveSize :: "env \<Rightarrow> Enclave \<Rightarrow> int" where
  "EnclaveSize E e = int (slen (ciphertext e)) - Overhead E"

subsection \<open>Facts: runs under one more lock\<close>

text \<open>
  A call made while a lock \<open>l\<close> is held runs as if the lock were free when it does not reach for
  \<open>l\<close>. Where the code could purge the session this depends on the run.
\<close>

lemma oblivious_at_with_lock:
  assumes "k \<notin> set ls" and "oblivious_at ls m (set_rw k WLocked s)"
  shows "oblivious_at ls (with_lock k m) s"
  using assms
  by (auto simp: oblivious_at_def with_lock_def deferred_def release_def set_rws_set_rw
      split: prod.splits outcome.splits)

lemma oblivious_at_or_panic:
  "oblivious_at ls m s \<Longrightarrow> m s = (Ret None, t) \<Longrightarrow> oblivious_at ls (or_panic E m) s"
  unfolding or_panic_def by (rule oblivious_at_bind) (auto intro: oblivious_atI obliviousI)

lemma oblivious_at_destroyed:
  assumes "\<forall>b \<in> refs s c. BufLock b \<notin> set ls"
  shows "oblivious_at ls (destroyed c) s"
  unfolding destroyed_def
proof (rule oblivious_at_bind)
  show "oblivious_at ls (gets (\<lambda>s. coffers s c)) s" by (rule oblivious_atI, intro obliviousI) simp
  fix C t assume "gets (\<lambda>s. coffers s c) s = (Ret C, t)"
  then have "C = coffers s c" by (auto simp: exec)
  then have "oblivious l (case (left C, right C) of
      (Some a, Some b) \<Rightarrow> bind (isDestroyed a) (\<lambda>d. if d then ret True else isDestroyed b) | _ \<Rightarrow> ret True)" if "l \<in> set ls" for l
    using assms that by (auto simp: refs_def split: option.split intro!: obliviousI)
  then show "oblivious_at ls (case (left C, right C) of
      (Some a, Some b) \<Rightarrow> bind (isDestroyed a) (\<lambda>d. if d then ret True else isDestroyed b) | _ \<Rightarrow> ret True) t"
    by (rule oblivious_atI)
qed

lemma oblivious_at_Init:
  assumes "\<forall>b \<in> refs s c. BufLock b \<notin> set ls" and "CofLock c \<notin> set ls"
  shows "oblivious_at ls (Init E c) s"
  unfolding Init_def
proof (rule oblivious_at_with_lock [OF assms(2)], rule oblivious_at_bind)
  show "oblivious_at ls (destroyed c) (set_rw (CofLock c) WLocked s)"
    by (rule oblivious_at_destroyed) (use assms(1) in \<open>simp add: refs_def set_rw_def\<close>)
qed (rule oblivious_atI, intro obliviousI)

lemma oblivious_at_NewBuffer:
  assumes "env_works E" and "locks s ListLock = Unlocked" and "ListLock \<notin> set ls"
    and "oblivious_at ls (f (Inr (nbufs s))) (newbuf_state E 32 s)"
  shows "oblivious_at ls (bind (NewBuffer E 32) f) s"
proof (rule oblivious_at_bind)
  show "oblivious_at ls (NewBuffer E 32) s" using NewBuffer_oblivious_at [OF assms(1), of 32 s ls] assms(2,3) by simp
  fix v t assume "NewBuffer E 32 s = (Ret v, t)"
  then have "v = Inr (nbufs s)" "t = newbuf_state E 32 s"
    using NewBuffer_run [OF assms(1), of 32 s] assms(2) by auto
  then show "oblivious_at ls (f v) t" using assms(4) by simp
qed

text \<open>Binding after a step whose result is known.\<close>

lemma oblivious_at_step:
  "m s = (Ret v, t) \<Longrightarrow> oblivious_at ls m s \<Longrightarrow> oblivious_at ls (f v) t \<Longrightarrow> oblivious_at ls (bind m f) s"
  by (rule oblivious_at_bind) auto

lemma oblivious_at_View:
  assumes "env_works E" and "session E s" and "coffer_ok s c"
    and "\<forall>b \<in> refs s c. BufLock b \<notin> set ls" and "CofLock c \<notin> set ls" and "ListLock \<notin> set ls"
  shows "oblivious_at ls (View E c) s"
  unfolding View_def
proof (rule oblivious_at_with_lock [OF assms(5)], rule oblivious_at_step)
  let ?u = "set_rw (CofLock c) WLocked s"
  have free: "locks_free s" by (rule session_D [OF assms(2)])
  show "destroyed c ?u = (Ret False, ?u)"
    using oblivious_run [OF oblivious_destroyed, of "CofLock c" c s] destroyed_run [OF free, of c]
      coffer_not_destroyed [OF assms(2,3)] by simp
  show "oblivious_at ls (destroyed c) ?u"
    by (rule oblivious_at_destroyed) (use assms(4) in \<open>simp add: refs_def set_rw_def\<close>)
  show "oblivious_at ls (if False then ret (Inl ErrCofferExpired) else bind (NewBuffer E 32) (\<lambda>res. case res of
      Inl _ \<Rightarrow> go_panic (PRuntime ''invalid memory address or nil pointer dereference'') | Inr b \<Rightarrow> view_fill E c b)) ?u"
    unfolding if_False
    by (rule oblivious_at_NewBuffer [OF assms(1) _ assms(6)])
      (simp add: set_rw_def locks_free_D [OF free], rule oblivious_atI, intro obliviousI)
qed

lemma oblivious_upd_cof [obliviousI]: "oblivious l (upd_cof c f)" "oblivious l new_Coffer"
  by (auto simp: upd_cof_def new_Coffer_def oblivious_def exec set_rw_updates)

lemma oblivious_at_NewCoffer:
  assumes "env_works E" and "locks s ListLock = Unlocked"
    and "ListLock \<notin> set ls" and "CofLock (ncoffers s) \<notin> set ls" and "\<forall>b \<ge> nbufs s. BufLock b \<notin> set ls"
  shows "oblivious_at ls (NewCoffer E) s"
proof -
  let ?c = "ncoffers s" and ?n = "nbufs s"
  define t0 where "t0 = s\<lparr>coffers := (coffers s)(?c := zero_Coffer), ncoffers := Suc ?c\<rparr>"
  define t1 where "t1 = given E ?c (\<lambda>C. C\<lparr>left := Some ?n\<rparr>) t0"
  define t2 where "t2 = given E ?c (\<lambda>C. C\<lparr>right := Some (Suc ?n)\<rparr>) t1"
  define t3 where "t3 = given E ?c (\<lambda>C. C\<lparr>rand := Some (Suc (Suc ?n))\<rparr>) t2"
  have lk: "locks t0 ListLock = Unlocked" "locks t1 ListLock = Unlocked" "locks t2 ListLock = Unlocked"
    using assms(2) by (simp_all add: t0_def t1_def t2_def)
  have n: "nbufs t0 = ?n" "nbufs t1 = Suc ?n" "nbufs t2 = Suc (Suc ?n)" by (simp_all add: t0_def t1_def t2_def)
  have up: "upd_cof ?c (\<lambda>C. C\<lparr>left := buffer_or_nil (Inr ?n)\<rparr>) (newbuf_state E 32 t0) = (Ret (), t1)"
      "upd_cof ?c (\<lambda>C. C\<lparr>right := buffer_or_nil (Inr (Suc ?n))\<rparr>) (newbuf_state E 32 t1) = (Ret (), t2)"
      "upd_cof ?c (\<lambda>C. C\<lparr>rand := buffer_or_nil (Inr (Suc (Suc ?n)))\<rparr>) (newbuf_state E 32 t2) = (Ret (), t3)"
    by (simp_all add: upd_cof_def exec t3_def t2_def t1_def given_def)
  have C: "coffers t3 ?c = \<lparr>left = Some ?n, right = Some (Suc ?n), rand = Some (Suc (Suc ?n))\<rparr>"
    by (simp add: t3_def t2_def t1_def t0_def zero_Coffer_def)
  have ob: "oblivious_at ls new_Coffer s" "oblivious_at ls (upd_cof ?c f) u" for f u
    by (rule oblivious_atI, rule obliviousI)+
  have init: "oblivious_at ls (Init E ?c) t3"
    by (rule oblivious_at_Init) (use assms(4,5) in \<open>auto simp: refs_def C\<close>)
  show ?thesis
    unfolding NewCoffer_def
    by (rule oblivious_at_step [of _ _ ?c t0, OF _ ob(1)], simp add: new_Coffer_def t0_def,
        rule oblivious_at_NewBuffer [OF assms(1) lk(1) assms(3)], unfold n, rule oblivious_at_step [OF up(1) ob(2)],
        rule oblivious_at_NewBuffer [OF assms(1) lk(2) assms(3)], unfold n, rule oblivious_at_step [OF up(2) ob(2)],
        rule oblivious_at_NewBuffer [OF assms(1) lk(3) assms(3)], unfold n, rule oblivious_at_step [OF up(3) ob(2)],
        rule oblivious_at_bind [OF init], rule oblivious_atI, intro obliviousI, simp add: set_rw_updates)
qed

subsection \<open>Facts: the global key\<close>

lemma new_key_session:
  assumes "session E t" and "coffer_ok t c" and "c < ncoffers t"
  shows "session E (t\<lparr>key := c\<rparr>)"
proof -
  have "coffer_ok (t\<lparr>key := c\<rparr>) c" using assms(2) by (simp add: coffer_ok_def part_ok_def cong: option.case_cong)
  moreover have "b < nbufs t" if "b \<in> refs t c" for b
    using that assms(2) session_D(3) [OF assms(1)] by (elim coffer_ok_D) (auto simp: refs_def)
  moreover have "refs (t\<lparr>key := c\<rparr>) c = refs t c" by (simp add: refs_def)
  ultimately show ?thesis
    using assms(1,3) by (simp add: session_def locks_free_def guarded_def mapped_def)
qed

lemma oblivious_at_key_body:
  assumes "env_works E" and "locks s ListLock = Unlocked" and "Destroyed (Some (key s)) s = (Ret d, s)"
    and "ListLock \<notin> set ls" and "\<forall>c. CofLock c \<notin> set ls" and "\<forall>b \<ge> nbufs s. BufLock b \<notin> set ls" and "\<forall>b \<in> refs s (key s). BufLock b \<notin> set ls"
  shows "oblivious_at ls (bind (gets key) (\<lambda>k. bind (Destroyed (Some k)) (\<lambda>d.
      bind (if d then bind (NewCoffer E) (\<lambda>c. modify (\<lambda>s. s\<lparr>key := c\<rparr>)) else ret ()) (\<lambda>_. gets key)))) s"
proof (rule oblivious_at_step [of _ _ "key s" s])
  show "gets key s = (Ret (key s), s)" by (simp add: exec)
  show "oblivious_at ls (gets key) s" by (rule oblivious_atI, intro obliviousI) simp
  have D: "oblivious_at ls (Destroyed (Some (key s))) s"
    unfolding Destroyed.simps
    by (rule oblivious_at_with_lock)
      (use assms(5,7) in \<open>auto simp: refs_def set_rw_def intro!: oblivious_at_destroyed\<close>)
  have key: "oblivious_at ls (gets key) u" for u by (rule oblivious_atI, intro obliviousI) simp
  have put: "oblivious_at ls (modify (\<lambda>s. s\<lparr>key := c\<rparr>)) u" for c u
    by (rule oblivious_atI, intro obliviousI) (simp add: set_rw_updates)
  have new: "oblivious_at ls (bind (NewCoffer E) (\<lambda>c. modify (\<lambda>s. s\<lparr>key := c\<rparr>))) s"
    by (rule oblivious_at_bind [OF oblivious_at_NewCoffer [OF assms(1,2,4)] put]) (use assms(5,6) in auto)
  show "oblivious_at ls (bind (Destroyed (Some (key s))) (\<lambda>d.
      bind (if d then bind (NewCoffer E) (\<lambda>c. modify (\<lambda>s. s\<lparr>key := c\<rparr>)) else ret ()) (\<lambda>_. gets key))) s"
    by (rule oblivious_at_step [OF assms(3) D], cases d)
      (use new in \<open>auto intro!: oblivious_at_bind [OF _ key] oblivious_atI [OF oblivious_prim(1)]\<close>)
qed

text \<open>Locks of buffers that exist and do not belong to the key.\<close>

definition foreign :: "world \<Rightarrow> lockid list \<Rightarrow> bool" where
  "foreign s ls \<longleftrightarrow> (\<forall>l \<in> set ls. \<exists>b. l = BufLock b \<and> b < nbufs s \<and> b \<notin> refs s (key s))"

lemma foreign_one [simp]: "foreign s [BufLock b] \<longleftrightarrow> b < nbufs s \<and> b \<notin> refs s (key s)"
  by (simp add: foreign_def)

lemma oblivious_at_getOrCreateKey:
  assumes "env_works E" and "session E s" and "foreign s ls"
  shows "oblivious_at ls (getOrCreateKey E) s"
  unfolding getOrCreateKey_def
proof (rule oblivious_at_with_lock)
  let ?u = "set_rw KeyMtx WLocked s"
  have free: "locks_free s" by (rule session_D [OF assms(2)])
  have u: "key ?u = key s" "nbufs ?u = nbufs s" "refs ?u = refs s" "locks ?u ListLock = Unlocked"
    by (simp_all add: set_rw_def refs_def fun_eq_iff locks_free_D [OF free])
  have "Destroyed (Some (key ?u)) ?u = (Ret (is_destroyed s (key s)), ?u)"
    using oblivious_run [OF oblivious_Destroyed Destroyed_run [OF free]] u by simp
  then show "oblivious_at ls (bind (gets key) (\<lambda>k. bind (Destroyed (Some k)) (\<lambda>d.
      bind (if d then bind (NewCoffer E) (\<lambda>c. modify (\<lambda>s. s\<lparr>key := c\<rparr>)) else ret ()) (\<lambda>_. gets key)))) ?u"
    by (rule oblivious_at_key_body [OF assms(1) u(4)]) (use assms(3) u in \<open>auto simp: foreign_def\<close>)
qed (use assms(3) in \<open>auto simp: foreign_def\<close>)

lemma getOrCreateKey_run:
  assumes "env_works E" and "session E s"
  obtains t where "getOrCreateKey E s = (Ret (key t), t)" and "session E t" and "extends s t" and "coffer_ok t (key t)"
    and "coffer_ok s (key s) \<Longrightarrow> t = s" and "\<And>b. b < nbufs s \<Longrightarrow> b \<notin> refs s (key s) \<Longrightarrow> b \<notin> refs t (key t)"
    and "clean s \<Longrightarrow> clean t"
    and "is_destroyed s (key s) \<Longrightarrow> key t = ncoffers s \<and> (\<exists>i. coffer_value E t (key t) = rand_bytes E i 32)"
proof -
  have free: "locks_free s" by (rule session_D [OF assms(2)])
  let ?d = "is_destroyed s (key s)"
  have D: "Destroyed (Some (key s)) s = (Ret ?d, s)" by (rule Destroyed_run [OF free])
  note body = with_lock_free_at(1) [OF oblivious_at_key_body [OF assms(1) locks_free_D [OF free] D, of "[KeyMtx]"] locks_free_D [OF free]]
  show ?thesis
  proof (cases ?d)
    case False
    from False assms(2) have "coffer_ok s (key s)" by (simp add: session_def)
    moreover have "getOrCreateKey E s = (Ret (key s), s)"
      unfolding getOrCreateKey_def by (rule body) (use D False in \<open>simp_all add: bind_def exec\<close>)
    ultimately show ?thesis using assms(2) extends_refl False by (intro that [of s]) simp_all
  next
    case True
    obtain t where t: "NewCoffer E s = (Ret (ncoffers s), t)" "session E t" "extends s t"
        "coffer_ok t (ncoffers s)" "ncoffers t = Suc (ncoffers s)" "\<forall>b \<in> refs t (ncoffers s). nbufs s \<le> b"
        "clean s \<Longrightarrow> clean t" "\<exists>i. coffer_value E t (ncoffers s) = rand_bytes E i 32"
      by (rule NewCoffer_run [OF assms]) (rule that)
    let ?t = "t\<lparr>key := ncoffers s\<rparr>"
    have "getOrCreateKey E s = (Ret (ncoffers s), ?t)"
      unfolding getOrCreateKey_def by (rule body) (use D True t(1) in \<open>simp_all add: bind_def exec\<close>)
    moreover have "session E ?t" by (rule new_key_session [OF t(2,4)]) (simp add: t(5))
    moreover have "extends s ?t" using t(3) by (simp add: extends_def keep_def)
    moreover have "coffer_ok ?t (ncoffers s)" using t(4) by (simp add: coffer_ok_def part_ok_def cong: option.case_cong)
    moreover have "\<not> coffer_ok s (key s)" using coffer_not_destroyed [OF assms(2)] True by blast
    moreover have "\<exists>i. coffer_value E ?t (ncoffers s) = rand_bytes E i 32"
      using t(8) by (simp add: coffer_value_def part_def cong: option.case_cong)
    ultimately show ?thesis using t(6,7) by (intro that [of ?t]) (fastforce simp: refs_def)+
  qed
qed

lemma view_key_run:
  assumes "env_works E" and "session E s"
  obtains t k where "view_key E s = (Ret (Inr k), t)" and "session E t" and "extends s t" and "coffer_ok t (key t)"
    and "k \<in> set (blist t)" and "nbufs s \<le> k" and "k \<notin> refs t (key t)"
    and "contents (mem t) (data (bufs t k)) = coffer_value E t (key t)" and "slen (data (bufs t k)) = 32" and "canary_ok t k"
    and "coffer_ok s (key s) \<Longrightarrow> key t = key s \<and> coffer_value E t (key t) = coffer_value E s (key s)"
    and "coffer_ok s (key s) \<Longrightarrow> blist t = blist s @ [nbufs s]"
    and "\<And>b. b < nbufs s \<Longrightarrow> b \<notin> refs s (key s) \<Longrightarrow> b \<notin> refs t (key t)"
    and "clean s \<Longrightarrow> clean t"
    and "is_destroyed s (key s) \<Longrightarrow> key t = ncoffers s \<and> (\<exists>i. coffer_value E t (key t) = rand_bytes E i 32)"
proof -
  obtain t1 where t1: "getOrCreateKey E s = (Ret (key t1), t1)" "session E t1" "extends s t1" "coffer_ok t1 (key t1)"
      "coffer_ok s (key s) \<Longrightarrow> t1 = s" "\<And>b. b < nbufs s \<Longrightarrow> b \<notin> refs s (key s) \<Longrightarrow> b \<notin> refs t1 (key t1)"
      "clean s \<Longrightarrow> clean t1"
      "is_destroyed s (key s) \<Longrightarrow> key t1 = ncoffers s \<and> (\<exists>i. coffer_value E t1 (key t1) = rand_bytes E i 32)"
    by (rule getOrCreateKey_run [OF assms]) (rule that)
  let ?k = "nbufs t1"
  obtain t where t: "View E (key t1) t1 = (Ret (Inr ?k), t)" "extends t1 t" "session E t" "blist t = blist t1 @ [?k]"
      "key t = key t1" "coffers t = coffers t1" "contents (mem t) (data (bufs t ?k)) = coffer_value E t1 (key t1)"
      "slen (data (bufs t ?k)) = 32" "canary_ok t ?k"
    by (rule View_run [OF assms(1) t1(2,4)]) (rule that)
  have kc: "key t1 < ncoffers t1" using t1(2) by (simp add: session_def)
  note val = extends_value [OF t(2) t1(2,4) kc]
  have "?k \<notin> refs t1 (key t1)" using session_refs [OF t1(2)] by blast
  then have "?k \<notin> refs t (key t)" using t(5,6) by (simp add: refs_def)
  moreover have "view_key E s = (Ret (Inr ?k), t)" using t1(1) t(1) by (simp add: view_key_def bind_def)
  moreover have "b \<notin> refs t (key t)" if "b < nbufs s" "b \<notin> refs s (key s)" for b
    using t1(6) [OF that] t(5,6) by (simp add: refs_def)
  moreover have "clean t" if "clean s"
    by (rule clean_keep [OF t1(7) [OF that] t1(2)]) (use t(4,9) extends_D(1) [OF t(2)] in auto)
  ultimately show ?thesis
    by (intro that [of ?k t]) (use t val t1(5,8) extends_D(6) [OF t1(3)] extends_trans [OF t1(3) t(2)] in auto)
qed

lemma removed_value:
  assumes "session E t" and "coffer_ok t c" and "k \<in> set (blist t)" and "k \<notin> refs t c"
  shows "coffer_value E (removed_state k t) c = coffer_value E t c" and "coffer_ok (removed_state k t) c"
proof -
  obtain l r x where C: "left (coffers t c) = Some l" "right (coffers t c) = Some r" "rand (coffers t c) = Some x"
      "l \<in> set (blist t)" "r \<in> set (blist t)" "x \<in> set (blist t)"
      "mutable (bufs t l)" "mutable (bufs t r)" "mutable (bufs t x)"
      "slen (data (bufs t l)) = 32" "slen (data (bufs t r)) = 32" "slen (data (bufs t x)) = 32"
      "l \<noteq> r" "l \<noteq> x" "r \<noteq> x"
    using assms(2) by (rule coffer_ok_D)
  have ne: "l \<noteq> k" "r \<noteq> k" "x \<noteq> k" using assms(4) C by (auto simp: refs_def)
  show "coffer_ok (removed_state k t) c" using C ne by (simp add: coffer_ok_def part_ok_def in_set_remove1)
  have "part (removed_state k t) (Some b) = part t (Some b)" if "b \<in> set (blist t)" "b \<noteq> k" for b
    by (rule keep_part [OF destroyed_other [OF assms(1,3) that] assms(1) that(1)])
  then show "coffer_value E (removed_state k t) c = coffer_value E t c"
    using C ne by (simp add: coffer_value_def)
qed

lemma removed_gc: "mapped E t k \<Longrightarrow> regs (mem (removed_state k t)) (GC j) = regs (mem t) (GC j)"
  by (auto elim!: mappedE simp: removed_state_def destroyed_state_def)

text \<open>A slice whose bytes later additions do not change.\<close>

definition stable :: "world \<Rightarrow> slice \<Rightarrow> bool" where
  "stable s sl \<longleftrightarrow> old (mem s) sl \<and> (\<forall>t. extends s t \<longrightarrow>
     contents (mem t) sl = contents (mem s) sl \<and> readable (mem t) sl = readable (mem s) sl \<and>
     writable (mem t) sl = writable (mem s) sl \<and> old (mem t) sl)"

lemma stable_gc: "j < gcnext (mem s) \<Longrightarrow> stable s (Slice (GC j) i n c)"
  using extends_D(5,7) [of s] by (fastforce simp: stable_def)

lemma stable_data:
  assumes "session E s" and "b \<in> set (blist s)"
  shows "stable s (data (bufs s b))"
  using session_bases [OF assms]
proof cases
  case (1 i k n)
  have "regs (mem t) (Sys i) = regs (mem s) (Sys i)" if "extends s t" for t
    using extends_D(1) [OF that assms(2)] 1 by (simp add: keep_def)
  then show ?thesis using 1 by (simp add: stable_def)
qed

lemma stable_D:
  assumes "stable s sl" and "extends s t"
  shows "contents (mem t) sl = contents (mem s) sl" and "readable (mem t) sl = readable (mem s) sl"
    and "writable (mem t) sl = writable (mem s) sl" and "old (mem t) sl"
  using assms by (auto simp: stable_def)

end
