(* ===== verification/Enclave_Ops.thy ===== *)
theory Enclave_Ops
  imports Enclave
begin

text \<open>
  What \<^verbatim>\<open>NewEnclave\<close>, \<^verbatim>\<open>Seal\<close> and \<^verbatim>\<open>Open\<close> do in a session: the ciphertext they make, the buffers they
  leave, and that opening gives the sealed bytes back.
\<close>

subsection \<open>The contents of an enclave\<close>

text \<open>\<open>e\<close> is an enclave that holds the bytes \<open>m\<close> under the global key.\<close>

definition holds :: "env \<Rightarrow> world \<Rightarrow> Enclave \<Rightarrow> byte list \<Rightarrow> bool" where
  "holds E s e m \<longleftrightarrow>
     readable (mem s) (ciphertext e) \<and> wf_slice (ciphertext e) \<and> old (mem s) (ciphertext e) \<and>
     \<not> is_Sys (slice_base (ciphertext e)) \<and>
     (\<exists>n. length n = 24 \<and> contents (mem s) (ciphertext e) = n @ sbSeal E m n (coffer_value E s (key s)))"

lemma holdsI:
  "readable (mem s) (ciphertext e) \<Longrightarrow> wf_slice (ciphertext e) \<Longrightarrow> old (mem s) (ciphertext e) \<Longrightarrow>
   \<not> is_Sys (slice_base (ciphertext e)) \<Longrightarrow> length n = 24 \<Longrightarrow>
   contents (mem s) (ciphertext e) = n @ sbSeal E m n (coffer_value E s (key s)) \<Longrightarrow> holds E s e m"
  by (auto simp: holds_def)

text \<open>An enclave keeps its contents while its array and the value of the key stay the same.\<close>

lemma holds_cong:
  assumes "holds E s e m" and "regs (mem t) (slice_base (ciphertext e)) = regs (mem s) (slice_base (ciphertext e))"
    and "gcnext (mem s) \<le> gcnext (mem t)" and "coffer_value E t (key t) = coffer_value E s (key s)"
  shows "holds E t e m"
proof -
  have "contents (mem t) (ciphertext e) = contents (mem s) (ciphertext e)"
      "readable (mem t) (ciphertext e) = readable (mem s) (ciphertext e)"
    using assms(2) by (cases "ciphertext e"; simp)+
  moreover have "old (mem t) (ciphertext e)" if "old (mem s) (ciphertext e)"
    using that assms(3) by (cases "(mem s, ciphertext e)" rule: old.cases) auto
  ultimately show ?thesis using assms(1,4) by (auto simp: holds_def)
qed

subsection \<open>Facts: NewEnclave\<close>

lemma clean_removed:
  assumes "clean s" and "session E s" and "b \<in> set (blist s)"
  shows "clean (removed_state b s)"
  by (rule clean_keep [OF assms(1,2)])
    (use removed_tidy(2) [OF session_tidy [OF assms(2)] assms(3)] in \<open>auto dest: notin_set_remove1 intro: set_remove1_subset [THEN subsetD]\<close>)

text \<open>The run of \<^verbatim>\<open>NewEnclave\<close> up to the final wipe of the argument.\<close>

lemma NewEnclave_upto:
  assumes "env_works E" and "session E s" and "0 < slen buf" and "stable s buf" and "readable (mem s) buf"
  obtains t c where "NewEnclave E buf s = bind (Wipe buf) (\<lambda>_. ret (Inr \<lparr>ciphertext = c\<rparr>)) t"
    and "session E t" and "extends s t" and "coffer_ok t (key t)"
    and "holds E t \<lparr>ciphertext = c\<rparr> (contents (mem s) buf)" and "\<not> old (mem s) c"
    and "coffer_ok s (key s) \<Longrightarrow> key t = key s \<and> coffer_value E t (key t) = coffer_value E s (key s) \<and> blist t = blist s"
    and "\<And>b. b < nbufs s \<Longrightarrow> b \<notin> refs s (key s) \<Longrightarrow> b \<notin> refs t (key t)"
    and "clean s \<Longrightarrow> clean t"
proof -
  note ok = env_works_D [OF assms(1)]
  obtain t1 k where t1: "view_key E s = (Ret (Inr k), t1)" "session E t1" "extends s t1" "coffer_ok t1 (key t1)"
      "k \<in> set (blist t1)" "nbufs s \<le> k" "k \<notin> refs t1 (key t1)"
      "contents (mem t1) (data (bufs t1 k)) = coffer_value E t1 (key t1)" "slen (data (bufs t1 k)) = 32" "canary_ok t1 k"
      "coffer_ok s (key s) \<Longrightarrow> key t1 = key s \<and> coffer_value E t1 (key t1) = coffer_value E s (key s)"
      "coffer_ok s (key s) \<Longrightarrow> blist t1 = blist s @ [nbufs s]"
      "\<And>b. b < nbufs s \<Longrightarrow> b \<notin> refs s (key s) \<Longrightarrow> b \<notin> refs t1 (key t1)"
      "clean s \<Longrightarrow> clean t1"
    by (rule view_key_run [OF assms(1,2)]) (rule that)
  let ?kd = "data (bufs t1 k)"
  note st = stable_D [OF assms(4) t1(3)]
  have rk: "readable (mem t1) ?kd" by (rule guarded_data(1) [OF session_D(2) [OF t1(2,5)]])
  have rb: "readable (mem t1) buf" using st(2) assms(5) by simp
  obtain c t2 where t2: "Encrypt E buf ?kd t1 = (Ret (Inr c), t2)" "gc_step t1 t2" "\<not> old (mem t1) c" "wf_slice c"
      "contents (mem t2) c = rand_bytes E (rpos t1) 24 @
         sbSeal E (contents (mem t1) buf) (rand_bytes E (rpos t1) 24) (contents (mem t1) ?kd)" "readable (mem t2) c" "old (mem t2) c"
    by (rule Encrypt_run [OF ok(3) t1(9) rb rk st(4) old_data [OF t1(2,5)]]) (rule that)
  have o2: "bufs t2 = bufs t1" "blist t2 = blist t1" "key t2 = key t1" "coffers t2 = coffers t1"
    using t2(2) by (simp_all add: gc_step_def same_objs_def)
  have s2: "session E t2" by (rule gc_step_session [OF t2(2) t1(2)])
  have e12: "extends t1 t2" by (rule gc_step_extends [OF t2(2) t1(2)])
  have k2: "k \<in> set (blist t2)" "k \<notin> refs t2 (key t2)" using t1(5,7) o2 by (simp_all add: refs_def)
  have can: "canary_ok t2 k"
    using keep_contents(2) [OF gc_step_keep [OF t2(2) t1(2,5)] guarded_mapped(1) [OF session_D(2) [OF t1(2,5)]]] t1(10) by simp
  have free: "locks_free t2" by (rule session_D [OF s2])
  define t3 where "t3 = removed_state k t2"
  have d: "Destroy E k t2 = (Ret (), t3)"
    unfolding t3_def by (rule Destroy_run [OF ok(1,2) session_D(2) [OF s2 k2(1)] can]) (simp_all add: locks_free_D [OF free])
  note e3 = removed_extends [OF extends_trans [OF t1(3) e12] assms(2) s2 k2(1) t1(6) k2(2), folded t3_def]
  have kc: "key t1 < ncoffers t1" using t1(2) by (simp add: session_def)
  note v2 = extends_value [OF e12 t1(2,4) kc, folded o2(3)]
  note v3 = removed_value [OF s2 v2(2) k2, folded t3_def]
  have key3: "key t3 = key t1" using o2 by (simp add: t3_def)
  obtain j i n k' where cs: "c = Slice (GC j) i n k'" using t2(3) by (cases "(mem t1, c)" rule: old.cases) auto
  have same: "contents (mem t3) c = contents (mem t2) c" "readable (mem t3) c = readable (mem t2) c" "old (mem t3) c = old (mem t2) c"
    using removed_gc [OF guarded_mapped(1) [OF session_D(2) [OF s2 k2(1)]]] by (simp_all add: cs t3_def)
  show ?thesis
  proof (rule that [of c t3])
    show "NewEnclave E buf s = bind (Wipe buf) (\<lambda>_. ret (Inr \<lparr>ciphertext = c\<rparr>)) t3"
      using assms(3) t1(1) t2(1) d by (simp add: NewEnclave_def bind_def)
    show "holds E t3 \<lparr>ciphertext = c\<rparr> (contents (mem s) buf)"
      by (rule holdsI [where n = "rand_bytes E (rpos t1) 24"], unfold Enclave.simps same t2(5))
        (use t2(4-7) st(1) t1(8) v3(1) v2(1) key3 o2(3) in \<open>simp_all add: cs del: contents.simps readable.simps\<close>)
    show "b \<notin> refs t3 (key t3)" if "b < nbufs s" "b \<notin> refs s (key s)" for b
      using t1(13) [OF that] key3 o2(4) by (simp add: refs_def t3_def)
    show "clean t3" if "clean s"
      unfolding t3_def by (rule clean_removed [OF _ s2 k2(1)], rule clean_intact [OF t1(14) [OF that] intact_extends [OF e12 t1(2)] o2(2)])
    show "\<not> old (mem s) c" using t2(3) extends_D(7) [OF t1(3)] by (auto simp: cs)
    show "key t3 = key s \<and> coffer_value E t3 (key t3) = coffer_value E s (key s) \<and> blist t3 = blist s"
      if "coffer_ok s (key s)"
    proof -
      have "k \<notin> set (blist s)" using session_D(3) [OF assms(2), of k] t1(6) by fastforce
      then have "blist t3 = blist s" using t1(5,12) that o2(2) by (auto simp: t3_def remove1_append)
      then show ?thesis using t1(11) [OF that] v2(1) v3(1) key3 o2(3) by auto
    qed
  qed (use e3 v3(2) key3 o2(3) in simp_all)
qed

lemma put_gc_value:
  assumes "session E t" and "coffer_ok t c"
  shows "coffer_value E (t\<lparr>mem := put (mem t) (Slice (GC j) i n k) bs\<rparr>) c = coffer_value E t c"
  using assms(2)
proof (rule coffer_ok_D)
  fix l r assume C: "left (coffers t c) = Some l" "right (coffers t c) = Some r" "l \<in> set (blist t)" "r \<in> set (blist t)"
  let ?u = "t\<lparr>mem := put (mem t) (Slice (GC j) i n k) bs\<rparr>"
  have "part ?u (Some b) = part t (Some b)" if "b \<in> set (blist t)" for b
    by (rule keep_part [OF put_gc_keep [OF assms(1) that] assms(1) that])
  then show ?thesis using C by (simp add: coffer_value_def)
qed

lemma NewEnclave_run:
  assumes "env_works E" and "session E s" and "j < gcnext (mem s)" and "0 < n" and "writable (mem s) (Slice (GC j) i n k)"
  defines "buf \<equiv> Slice (GC j) i n k"
  obtains t e where "NewEnclave E buf s = (Ret (Inr e), t)" and "session E t" and "holds E t e (contents (mem s) buf)"
    and "contents (mem t) buf = replicate n 0" and "coffer_ok t (key t)"
    and "\<And>b. b \<in> set (blist s) \<Longrightarrow> b \<in> set (blist t) \<and> keep s t b"
    and "coffer_ok s (key s) \<Longrightarrow> key t = key s \<and> coffer_value E t (key t) = coffer_value E s (key s) \<and> blist t = blist s"
    and "clean s \<Longrightarrow> clean t" and "extends (s\<lparr>mem := put (mem s) buf (replicate n 0)\<rparr>) t"
    and "slice_base (ciphertext e) \<noteq> slice_base buf"
proof -
  have st: "stable s buf" unfolding buf_def by (rule stable_gc [OF assms(3)])
  have pos: "0 < slen buf" using assms(4) by (simp add: buf_def)
  have r: "readable (mem s) buf" unfolding buf_def by (rule writable_readable [OF assms(5)])
  obtain t1 c where t1: "NewEnclave E buf s = bind (Wipe buf) (\<lambda>_. ret (Inr \<lparr>ciphertext = c\<rparr>)) t1"
      "session E t1" "extends s t1" "coffer_ok t1 (key t1)"
      "holds E t1 \<lparr>ciphertext = c\<rparr> (contents (mem s) buf)" "\<not> old (mem s) c"
      "coffer_ok s (key s) \<Longrightarrow> key t1 = key s \<and> coffer_value E t1 (key t1) = coffer_value E s (key s) \<and> blist t1 = blist s"
      "clean s \<Longrightarrow> clean t1"
    by (rule NewEnclave_upto [OF assms(1,2) pos st r]) (rule that)
  have w: "writable (mem t1) buf" using stable_D(3) [OF st t1(3)] assms(5) by (simp add: buf_def)
  define t where "t = t1\<lparr>mem := put (mem t1) buf (replicate n 0)\<rparr>"
  have len: "slen buf = n" by (simp add: buf_def)
  have run: "NewEnclave E buf s = (Ret (Inr \<lparr>ciphertext = c\<rparr>), t)"
    using t1(1) Wipe_run [OF w] by (simp add: bind_def exec t_def len)
  have val: "coffer_value E t (key t) = coffer_value E t1 (key t1)"
    unfolding t_def buf_def using put_gc_value [OF t1(2,4)] by simp
  have "slice_base c \<noteq> GC j" using t1(6) t1(5) assms(3) by (cases "(mem s, c)" rule: old.cases) (auto simp: holds_def)
  then have ne: "slice_base c \<noteq> slice_base buf" by (simp add: buf_def)
  then have h: "holds E t \<lparr>ciphertext = c\<rparr> (contents (mem s) buf)"
    by (intro holds_cong [OF t1(5) _ _ val]) (simp_all add: t_def buf_def)
  show ?thesis
  proof (rule that [OF run _ h])
    show "extends (s\<lparr>mem := put (mem s) buf (replicate n 0)\<rparr>) t" unfolding t_def by (rule put_extends [OF t1(3)])
    show "session E t" unfolding t_def buf_def by (rule session_gc(1) [OF t1(2)]) simp_all
    show "clean t" if "clean s"
      by (rule clean_keep [OF t1(8) [OF that] t1(2)]) (use put_gc_keep [OF t1(2)] in \<open>simp add: t_def buf_def\<close>)
    show "contents (mem t) buf = replicate n 0" using writable_fits [OF w] by (simp add: t_def len)
    show "coffer_ok t (key t)" using t1(4) by (simp add: t_def coffer_ok_def part_ok_def cong: option.case_cong)
    show "b \<in> set (blist t) \<and> keep s t b" if "b \<in> set (blist s)" for b
      using keep_trans [OF extends_D(1) [OF t1(3) that] put_gc_keep [OF t1(2) extends_D(2) [OF t1(3) that]]]
        extends_D(2) [OF t1(3) that] by (simp add: t_def buf_def)
  qed (use t1(7) val ne in \<open>auto simp: t_def\<close>)
qed

subsection \<open>Facts: Open\<close>

lemma coffer_value_length:
  assumes "hash_ok E" and "session E s" and "coffer_ok s c"
  shows "length (coffer_value E s c) = 32"
  using assms(3)
proof (rule coffer_ok_D)
  fix l r assume C: "left (coffers s c) = Some l" "right (coffers s c) = Some r" "l \<in> set (blist s)" "slen (data (bufs s l)) = 32"
  then show ?thesis
    using assms(1) guarded_data(7) [OF session_D(2) [OF assms(2) C(3)]]
    by (simp add: coffer_value_def part_def hash_ok_def)
qed

text \<open>
  The common part of every call of \<^verbatim>\<open>Open\<close> with a ciphertext of a possible length: a new buffer \<open>b\<close>, a
  view \<open>k\<close> of the key, and then the decryption.
\<close>

lemma Open_upto:
  assumes "env_works E" and "session E s" and "stable s (ciphertext e)" and "Overhead E < int (slen (ciphertext e))"
    and "int (slen (ciphertext e)) \<le> 2 ^ 62"
  obtains b k t where "Open E e s = bind (Decrypt E (ciphertext e) (data (bufs t k)) (data (bufs t b))) (\<lambda>r.
       case r of Inl err \<Rightarrow> ret (Inl err) | Inr _ \<Rightarrow> bind (Destroy E k) (\<lambda>_. ret (Inr b))) t"
    and "session E t" and "extends s t" and "coffer_ok t (key t)"
    and "b = nbufs s" and "b \<in> set (blist t)" and "k \<in> set (blist t)" and "nbufs s < k" and "b \<notin> refs t (key t)" and "k \<notin> refs t (key t)"
    and "contents (mem t) (data (bufs t k)) = coffer_value E t (key t)" and "slen (data (bufs t k)) = 32"
    and "canary_ok t k" and "canary_ok t b" and "mutable (bufs t b)" and "int (slen (data (bufs t b))) = EnclaveSize E e"
    and "coffer_ok s (key s) \<Longrightarrow> key t = key s \<and> coffer_value E t (key t) = coffer_value E s (key s)"
    and "coffer_ok s (key s) \<Longrightarrow> blist t = blist s @ [b, k]"
proof -
  note ok = env_works_D [OF assms(1)]
  have free: "locks_free s" by (rule session_D [OF assms(2)])
  let ?b = "nbufs s"
  obtain n where n: "EnclaveSize E e = int n" "0 < n" "int n \<le> 2 ^ 62"
    using assms(4,5) zero_le_imp_eq_int [of "EnclaveSize E e"] by (auto simp: EnclaveSize_def Overhead_def)
  define t1 where "t1 = newbuf_state E n s"
  have nb: "NewBuffer E (EnclaveSize E e) s = (Ret (Inr ?b), t1)"
    unfolding n(1) t1_def by (rule NewBuffer_run [OF assms(1) n(2,3) locks_free_D [OF free]])
  note f = newbuf_facts [OF ok(7) n(2,3), of s, folded t1_def]
  have s1: "session E t1" unfolding t1_def by (rule newbuf_session [OF assms(2) ok(7) n(2,3)])
  have e1: "extends s t1" unfolding t1_def by (rule newbuf_extends [OF assms(2)])
  have o1: "key t1 = key s" "coffers t1 = coffers s" "blist t1 = blist s @ [?b]" "nbufs t1 = Suc ?b" by (simp_all add: t1_def)
  have b1: "?b \<in> set (blist t1)" by (simp add: o1)
  obtain t k where t: "view_key E t1 = (Ret (Inr k), t)" "session E t" "extends t1 t" "coffer_ok t (key t)"
      "k \<in> set (blist t)" "nbufs t1 \<le> k" "k \<notin> refs t (key t)"
      "contents (mem t) (data (bufs t k)) = coffer_value E t (key t)" "slen (data (bufs t k)) = 32" "canary_ok t k"
      "coffer_ok t1 (key t1) \<Longrightarrow> key t = key t1 \<and> coffer_value E t (key t) = coffer_value E t1 (key t1)"
      "coffer_ok t1 (key t1) \<Longrightarrow> blist t = blist t1 @ [nbufs t1]" 
      "\<And>b. b < nbufs t1 \<Longrightarrow> b \<notin> refs t1 (key t1) \<Longrightarrow> b \<notin> refs t (key t)"
    by (rule view_key_run [OF assms(1) s1]) (rule that)
  have "?b \<notin> refs t1 (key t1)" using session_refs [OF assms(2)] o1 by (auto simp: refs_def)
  then have br: "?b \<notin> refs t (key t)" using t(13) [of ?b] o1 by simp
  have kb: "keep t1 t ?b" by (rule extends_D(1) [OF t(3) b1])
  have "bufs t ?b = bufs t1 ?b" by (rule kept_data [OF kb s1 b1])
  moreover have "canary_ok t ?b"
    using keep_contents(2) [OF kb guarded_mapped(1) [OF f(1)]] f(2) by simp
  moreover have "Open E e s = bind (Decrypt E (ciphertext e) (data (bufs t k)) (data (bufs t ?b))) (\<lambda>r.
       case r of Inl err \<Rightarrow> ret (Inl err) | Inr _ \<Rightarrow> bind (Destroy E k) (\<lambda>_. ret (Inr ?b))) t"
    using nb t(1) by (simp add: Open_def EnclaveSize_def bind_def)
  moreover have "coffer_ok t1 (key t1) \<and> coffer_value E t1 (key t1) = coffer_value E s (key s)" if "coffer_ok s (key s)"
    using extends_value [OF e1 assms(2) that] assms(2) o1 by (simp add: session_def)
  moreover have "k = nbufs t1" if "coffer_ok t1 (key t1)"
    using t(5,6) t(12) [OF that] session_D(3) [OF s1, of k] by auto
  ultimately show ?thesis
    using f(4,5) t(2-12) br n(1) o1 b1 extends_trans [OF e1 t(3)] extends_D(2) [OF t(3) b1]
    by (intro that [of t k ?b]) (simp_all add: n(1), (auto)?)
qed

lemma holds_stable:
  assumes "holds E s e bs"
  shows "stable s (ciphertext e)"
proof (cases "(mem s, ciphertext e)" rule: old.cases)
  case (3 m i j n c)
  then show ?thesis using assms stable_gc [of i s] by (simp add: holds_def)
qed (use assms in \<open>auto simp: holds_def stable_def\<close>)

lemma holds_slen:
  assumes "secretbox_ok E" and "holds E s e m"
  shows "slen (ciphertext e) = 24 + length m + sbOverhead E" and "EnclaveSize E e = int (length m)"
proof -
  have "length (contents (mem s) (ciphertext e)) = 24 + length m + sbOverhead E"
    using assms by (auto simp: holds_def secretbox_ok_def)
  moreover have "fits (mem s) (ciphertext e)" using assms(2) by (auto simp: holds_def readable_fits)
  ultimately show "slen (ciphertext e) = 24 + length m + sbOverhead E" by simp
  then show "EnclaveSize E e = int (length m)" by (simp add: EnclaveSize_def Overhead_def)
qed

text \<open>What the buffers and the key are after the view was destroyed.\<close>

lemma drop_view:
  assumes "env_works E" and "session E s" and "session E t" and "extends s t" and "k \<in> set (blist t)" and "nbufs s \<le> k"
    and "k \<notin> refs t (key t)" and "canary_ok t k" and "coffer_ok t (key t)"
  shows "Destroy E k t = (Ret (), removed_state k t)" and "session E (removed_state k t)" and "extends s (removed_state k t)"
    and "coffer_value E (removed_state k t) (key t) = coffer_value E t (key t)" and "coffer_ok (removed_state k t) (key t)"
    and "\<And>b. b \<in> set (blist t) \<Longrightarrow> b \<noteq> k \<Longrightarrow> keep t (removed_state k t) b"
proof -
  note ok = env_works_D [OF assms(1)]
  have free: "locks_free t" by (rule session_D [OF assms(3)])
  show "Destroy E k t = (Ret (), removed_state k t)"
    by (rule Destroy_run [OF ok(1,2) session_D(2) [OF assms(3,5)] assms(8)]) (simp_all add: locks_free_D [OF free])
  show "session E (removed_state k t)" "extends s (removed_state k t)"
    using removed_extends [OF assms(4,2,3,5,6,7)] by auto
  show "coffer_value E (removed_state k t) (key t) = coffer_value E t (key t)" "coffer_ok (removed_state k t) (key t)"
    using removed_value [OF assms(3,9,5,7)] by auto
  show "keep t (removed_state k t) b" if "b \<in> set (blist t)" "b \<noteq> k" for b
    by (rule destroyed_other [OF assms(3,5) that])
qed

lemma keep_value:
  assumes "session E s" and "coffer_ok s c" and "coffers t c = coffers s c"
    and "\<And>b. b \<in> set (blist s) \<Longrightarrow> b \<in> refs s c \<Longrightarrow> keep s t b \<and> b \<in> set (blist t)"
  shows "coffer_value E t c = coffer_value E s c" and "coffer_ok t c"
proof -
  obtain l r x where C: "left (coffers s c) = Some l" "right (coffers s c) = Some r" "rand (coffers s c) = Some x"
      "l \<in> set (blist s)" "r \<in> set (blist s)" "x \<in> set (blist s)"
      "mutable (bufs s l)" "mutable (bufs s r)" "mutable (bufs s x)"
      "slen (data (bufs s l)) = 32" "slen (data (bufs s r)) = 32" "slen (data (bufs s x)) = 32"
      "l \<noteq> r" "l \<noteq> x" "r \<noteq> x"
    using assms(2) by (rule coffer_ok_D)
  have k: "keep s t l \<and> l \<in> set (blist t)" "keep s t r \<and> r \<in> set (blist t)" "keep s t x \<and> x \<in> set (blist t)"
    using assms(4) C by (simp_all add: refs_def)
  then show "coffer_value E t c = coffer_value E s c"
    using keep_part [OF _ assms(1)] C assms(3) by (simp add: coffer_value_def)
  show "coffer_ok t c"
    using k kept_data(2) [OF _ assms(1)] C assms(3) by (simp add: coffer_ok_def part_ok_def)
qed

lemma Open_run:
  assumes "env_works E" and "session E s" and "coffer_ok s (key s)" and "holds E s e m" and "m \<noteq> []"
    and "int (slen (ciphertext e)) \<le> 2 ^ 62"
  obtains t where "Open E e s = (Ret (Inr (nbufs s)), t)" and "session E t" and "extends s t"
    and "contents (mem t) (data (bufs t (nbufs s))) = m" and "blist t = blist s @ [nbufs s]" and "canary_ok t (nbufs s)"
    and "key t = key s" and "coffer_ok t (key t)" and "coffer_value E t (key t) = coffer_value E s (key s)"
    and "mutable (bufs t (nbufs s))" and "clean s \<Longrightarrow> clean t"
proof -
  note ok = env_works_D [OF assms(1)]
  let ?b = "nbufs s" and ?c = "ciphertext e"
  note st = holds_stable [OF assms(4)] and len = holds_slen [OF ok(6) assms(4)]
  have long: "Overhead E < int (slen ?c)" using len(1) assms(5) by (simp add: Overhead_def)
  obtain k t where u: "Open E e s = bind (Decrypt E ?c (data (bufs t k)) (data (bufs t ?b))) (\<lambda>r.
       case r of Inl err \<Rightarrow> ret (Inl err) | Inr _ \<Rightarrow> bind (Destroy E k) (\<lambda>_. ret (Inr ?b))) t"
      "session E t" "extends s t" "coffer_ok t (key t)" "?b \<in> set (blist t)" "k \<in> set (blist t)" "nbufs s < k"
      "?b \<notin> refs t (key t)" "k \<notin> refs t (key t)" "contents (mem t) (data (bufs t k)) = coffer_value E t (key t)"
      "slen (data (bufs t k)) = 32" "canary_ok t k" "canary_ok t ?b" "mutable (bufs t ?b)" "int (slen (data (bufs t ?b))) = EnclaveSize E e"
      "coffer_ok s (key s) \<Longrightarrow> key t = key s \<and> coffer_value E t (key t) = coffer_value E s (key s)"
      "coffer_ok s (key s) \<Longrightarrow> blist t = blist s @ [?b, k]"
    using Open_upto [OF assms(1,2) st long assms(6)] by metis
  let ?d = "data (bufs t ?b)"
  have d: "slen ?d = length m" using u(15) len(2) by simp
  have cap: "slen ?d = scap ?d" by (rule session_bases [OF u(2,5)]) simp
  have wd: "writable (mem t) ?d" using guarded_data(2) [OF session_D(2) [OF u(2,5)]] u(14) .
  obtain n where n: "length n = 24" "contents (mem t) ?c = n @ sbSeal E m n (coffer_value E t (key t))"
    using assms(4) stable_D(1) [OF st u(3)] u(16) [OF assms(3)] by (auto simp: holds_def)
  have "sbOpen E (drop 24 (contents (mem t) ?c)) (take 24 (contents (mem t) ?c)) (contents (mem t) (data (bufs t k))) = Some m"
    using n u(10) ok(6) by (simp add: secretbox_ok_def)
  then obtain t1 where t1: "Decrypt E ?c (data (bufs t k)) ?d t = (Ret (Inr (int (length m))), t1)"
      "gc_step (t\<lparr>mem := put (mem t) ?d (copied (contents (mem t) ?d) m)\<rparr>) t1"
    using Decrypt_run(2) [OF u(11), of ?c E ?d t m] stable_D [OF st u(3)] assms(4) len(1) d cap wd
      guarded_data(1) [OF session_D(2) [OF u(2,6)]] old_data [OF u(2,6)] old_data [OF u(2,5)]
    by (auto simp: holds_def Overhead_def)
  have "copied (contents (mem t) ?d) m = m" using d writable_fits [OF wd] by simp
  define t0 where "t0 = t\<lparr>mem := put (mem t) ?d m\<rparr>"
  have g: "gc_step t0 t1" using t1(2) \<open>copied _ m = m\<close> by (simp add: t0_def)
  note w = write_facts [OF u(2,5) d [symmetric], folded t0_def]
  have s1: "session E t1" by (rule gc_step_session [OF g w(1)])
  have b0: "?b \<notin> set (blist s)" using session_D(3) [OF assms(2)] by blast
  have e0: "extends s t0" unfolding t0_def by (rule put_new_extends [OF u(3) assms(2) u(2,5) b0 d [symmetric]])
  have e1: "extends s t1" by (rule extends_trans [OF e0 gc_step_extends [OF g w(1)]])
  have o1: "bufs t1 = bufs t" "blist t1 = blist t" "key t1 = key t" "coffers t1 = coffers t"
    using g by (simp_all add: gc_step_def same_objs_def t0_def)
  have kp: "keep t t1 b" if "b \<in> set (blist t)" "b \<noteq> ?b" for b
    using keep_trans [OF w(4) [OF that] gc_step_keep [OF g w(1)]] that(1) by (simp add: t0_def)
  have kb: "keep t0 t1 ?b" using gc_step_keep [OF g w(1)] u(5) by (simp add: t0_def)
  have kn: "k \<noteq> ?b" "nbufs s \<le> k" using u(7) by auto
  have ck: "canary_ok t1 k"
    using keep_contents(2) [OF kp [OF u(6) kn(1)] guarded_mapped(1) [OF session_D(2) [OF u(2,6)]]] u(12) by simp
  have v1: "coffer_value E t1 (key t1) = coffer_value E t (key t)" "coffer_ok t1 (key t1)"
    using keep_value [OF u(2,4), of t1] kp u(8) o1 by auto
  have k1: "k \<in> set (blist t1)" "k \<notin> refs t1 (key t1)" using u(6,9) o1 by (simp_all add: refs_def)
  note D = drop_view [OF assms(1,2) s1 e1 k1(1) kn(2) k1(2) ck v1(2)]
  let ?t = "removed_state k t1"
  have b1: "?b \<in> set (blist t1)" "?b \<in> set (blist t0)" using u(5) o1 by (simp_all add: t0_def)
  have kb2: "keep t0 ?t ?b" by (rule keep_trans [OF kb D(6) [OF b1(1) kn(1) [symmetric]]])
  have "contents (mem ?t) (data (bufs ?t ?b)) = contents (mem t0) (data (bufs t0 ?b))" by (rule kept_data [OF kb2 w(1) b1(2)])
  then have m: "contents (mem ?t) (data (bufs ?t ?b)) = m" using w(3) by simp
  have cb: "canary_ok ?t ?b"
    using keep_contents(2) [OF kb2 guarded_mapped(1) [OF session_D(2) [OF w(1) b1(2)]]] w(9) u(13) by simp
  have run: "Open E e s = (Ret (Inr ?b), ?t)" using u(1) t1(1) D(1) by (simp add: bind_def exec)
  have key: "key ?t = key s" "coffer_ok ?t (key ?t)" "coffer_value E ?t (key ?t) = coffer_value E s (key s)"
    using D(4,5) v1 o1 u(16) [OF assms(3)] by auto
  have "k \<notin> set (blist s)" using session_D(3) [OF assms(2), of k] kn(2) by fastforce
  then have bl: "blist ?t = blist s @ [?b]" using u(17) [OF assms(3)] o1 kn(1) by (simp add: remove1_append)
  have cl: "clean ?t" if "clean s"
    by (rule clean_keep [OF that assms(2)]) (use bl cb extends_D(1) [OF D(3)] in auto)
  show ?thesis
    by (rule that [OF run D(2,3) m bl cb key _ cl]) (use u(14) o1 kn(1) in simp_all)
qed

text \<open>When the decryption fails, neither the new buffer nor the view of the key is destroyed.\<close>

lemma Open_fail:
  assumes "env_works E" and "session E s" and "coffer_ok s (key s)" and "stable s (ciphertext e)" and "wf_slice (ciphertext e)"
    and "readable (mem s) (ciphertext e)" and "Overhead E < int (slen (ciphertext e))" and "int (slen (ciphertext e)) \<le> 2 ^ 62"
    and "sbOpen E (drop 24 (contents (mem s) (ciphertext e))) (take 24 (contents (mem s) (ciphertext e))) (coffer_value E s (key s)) = None"
  obtains t k where "Open E e s = (Ret (Inl ErrDecryptionFailed), t)" and "session E t" and "extends s t"
    and "blist t = blist s @ [nbufs s, k]" and "contents (mem t) (data (bufs t k)) = coffer_value E s (key s)"
proof -
  let ?b = "nbufs s" and ?c = "ciphertext e"
  obtain k t where u: "Open E e s = bind (Decrypt E ?c (data (bufs t k)) (data (bufs t ?b))) (\<lambda>r.
       case r of Inl err \<Rightarrow> ret (Inl err) | Inr _ \<Rightarrow> bind (Destroy E k) (\<lambda>_. ret (Inr ?b))) t"
      "session E t" "extends s t" "?b \<in> set (blist t)" "k \<in> set (blist t)"
      "contents (mem t) (data (bufs t k)) = coffer_value E t (key t)"
      "slen (data (bufs t k)) = 32" "mutable (bufs t ?b)" "int (slen (data (bufs t ?b))) = EnclaveSize E e"
      "coffer_ok s (key s) \<Longrightarrow> key t = key s \<and> coffer_value E t (key t) = coffer_value E s (key s)"
      "coffer_ok s (key s) \<Longrightarrow> blist t = blist s @ [?b, k]"
    using Open_upto [OF assms(1,2,4,7,8)] by metis
  let ?d = "data (bufs t ?b)"
  have cap: "slen ?d = scap ?d" by (rule session_bases [OF u(2,4)]) simp
  have wd: "writable (mem t) ?d" using guarded_data(2) [OF session_D(2) [OF u(2,4)]] u(8) .
  note st = stable_D [OF assms(4) u(3)]
  have val: "contents (mem t) (data (bufs t k)) = coffer_value E s (key s)" using u(6) u(10) [OF assms(3)] by auto
  obtain t1 where t1: "Decrypt E ?c (data (bufs t k)) ?d t = (Ret (Inl ErrDecryptionFailed), t1)" "gc_step t t1"
    using Decrypt_run(1) [OF u(7), of ?c E ?d t] st assms(5-7,9) val cap wd u(9)
      guarded_data(1) [OF session_D(2) [OF u(2,5)]] old_data [OF u(2,5)] old_data [OF u(2,4)]
    by (auto simp: Overhead_def EnclaveSize_def)
  have run: "Open E e s = (Ret (Inl ErrDecryptionFailed), t1)" using u(1) t1(1) by (simp add: bind_def exec)
  have bl: "blist t1 = blist s @ [?b, k]" using t1(2) u(11) [OF assms(3)] by (simp add: gc_step_def same_objs_def)
  have "contents (mem t1) (data (bufs t1 k)) = contents (mem t) (data (bufs t k))"
    by (rule kept_data [OF gc_step_keep [OF t1(2) u(2,5)] u(2,5)])
  then have "contents (mem t1) (data (bufs t1 k)) = coffer_value E s (key s)" using val by simp
  with gc_step_session [OF t1(2) u(2)] extends_trans [OF u(3) gc_step_extends [OF t1(2) u(2)]] show ?thesis
    by (rule that [OF run _ _ bl])
qed

subsection \<open>Facts: Seal\<close>

lemma oblivious_at_view_key:
  assumes "env_works E" and "session E s" and "foreign s ls"
  shows "oblivious_at ls (view_key E) s"
proof -
  obtain t where t: "getOrCreateKey E s = (Ret (key t), t)" "session E t" "coffer_ok t (key t)"
      "\<And>b. b < nbufs s \<Longrightarrow> b \<notin> refs s (key s) \<Longrightarrow> b \<notin> refs t (key t)"
    using getOrCreateKey_run [OF assms(1,2)] by metis
  have "oblivious_at ls (View E (key t)) t"
    by (rule oblivious_at_View [OF assms(1) t(2,3)]) (use t(4) assms(3) in \<open>auto simp: foreign_def\<close>)
  then show ?thesis
    unfolding view_key_def by (rule oblivious_at_step [OF t(1) oblivious_at_getOrCreateKey [OF assms]])
qed

lemma oblivious_at_Encrypt:
  assumes "rand_ok E"
  shows "oblivious_at ls (Encrypt E p k) s"
proof -
  obtain N t where t: "gc_new (replicate 24 0) s = (Ret N, t)" by (simp add: gc_new_def)
  have "oblivious_at ls (or_panic E (Scramble E N)) t"
    by (rule oblivious_at_or_panic, rule oblivious_atI, rule obliviousI, rule Scramble_run [OF assms gc_new_access(3) [OF t]])
  then have "oblivious_at ls (bind (or_panic E (Scramble E N)) (\<lambda>_. bind (read_all N) (\<lambda>n. bind (read_all p) (\<lambda>m.
      bind (read_all k) (\<lambda>kb. bind (gc_new (n @ sbSeal E m n kb)) (\<lambda>c. ret (Inr c))))))) t"
    by (rule oblivious_at_bind) (rule oblivious_atI, intro obliviousI)
  then have "oblivious_at ls (bind (gc_new (replicate 24 0)) (\<lambda>N. bind (or_panic E (Scramble E N)) (\<lambda>_. bind (read_all N) (\<lambda>n.
      bind (read_all p) (\<lambda>m. bind (read_all k) (\<lambda>kb. bind (gc_new (n @ sbSeal E m n kb)) (\<lambda>c. ret (Inr c)))))))) s"
    by (rule oblivious_at_step [of "gc_new (replicate 24 0)", OF t oblivious_atI [OF oblivious_memory(5)]])
  then show ?thesis unfolding Encrypt_def by (auto intro: oblivious_atI obliviousI)
qed

lemma oblivious_at_Destroy:
  assumes "memcall_ok E" and "memcall_works E" and "guarded E s k" and "canary_ok s k" and "locks s (BufLock k) = Unlocked"
    and "BufLock k \<notin> set ls" and "ListLock \<notin> set ls"
  shows "oblivious_at ls (Destroy E k) s"
proof -
  have "destroy E (Some k) s = (Ret None, destroyed_state k s)"
    using destroy_run [OF assms(1,2) guarded_mapped(2,1) [OF assms(3)] assms(5)] assms(4) by simp
  moreover have "oblivious_at ls (destroy E (Some k)) s" by (rule oblivious_atI, rule obliviousI) (use assms(6) in auto)
  ultimately have "oblivious_at ls (or_panic E (destroy E (Some k))) s" by (rule oblivious_at_or_panic [rotated])
  then show ?thesis
    unfolding Destroy_def by (rule oblivious_at_bind) (rule oblivious_atI, rule obliviousI, use assms(7) in auto)
qed

lemma oblivious_at_NewEnclave:
  assumes "env_works E" and "session E s" and "b \<in> set (blist s)" and "foreign s ls"
  shows "oblivious_at ls (NewEnclave E (data (bufs s b))) s"
proof -
  note ok = env_works_D [OF assms(1)]
  let ?buf = "data (bufs s b)"
  obtain t k where t: "view_key E s = (Ret (Inr k), t)" "session E t" "extends s t"
      "k \<in> set (blist t)" "nbufs s \<le> k" "slen (data (bufs t k)) = 32" "canary_ok t k"
    using view_key_run [OF assms(1,2)] by metis
  note st = stable_D [OF stable_data [OF assms(2,3)] t(3)]
  have r: "readable (mem t) ?buf" "readable (mem t) (data (bufs t k))"
    using st(2) guarded_data(1) [OF session_D(2) [OF assms(2,3)]] guarded_data(1) [OF session_D(2) [OF t(2,4)]] by auto
  obtain c t2 where t2: "Encrypt E ?buf (data (bufs t k)) t = (Ret (Inr c), t2)" "gc_step t t2"
    by (rule Encrypt_run [OF ok(3) t(6) r st(4) old_data [OF t(2,4)]]) (rule that)
  have s2: "session E t2" by (rule gc_step_session [OF t2(2) t(2)])
  have k2: "k \<in> set (blist t2)" using t(4) t2(2) by (simp add: gc_step_def same_objs_def)
  have can: "canary_ok t2 k"
    using keep_contents(2) [OF gc_step_keep [OF t2(2) t(2,4)] guarded_mapped(1) [OF session_D(2) [OF t(2,4)]]] t(7) by simp
  have ob: "oblivious_at ls (Destroy E k) t2"
    by (rule oblivious_at_Destroy [OF ok(1,2) session_D(2) [OF s2 k2] can])
      (use locks_free_D [OF session_D(1) [OF s2]] assms(4) t(5) in \<open>auto simp: foreign_def\<close>)
  have rest: "oblivious_at ls (bind (Destroy E k) (\<lambda>_. bind (Wipe ?buf) (\<lambda>_. ret (Inr \<lparr>ciphertext = c\<rparr>)))) t2"
    by (rule oblivious_at_bind [OF ob]) (rule oblivious_atI, intro obliviousI)
  have "oblivious_at ls (bind (Encrypt E ?buf (data (bufs t k))) (\<lambda>r. case r of Inl e \<Rightarrow> Panic E (PErr e)
      | Inr c \<Rightarrow> bind (Destroy E k) (\<lambda>_. bind (Wipe ?buf) (\<lambda>_. ret (Inr \<lparr>ciphertext = c\<rparr>))))) t"
    by (rule oblivious_at_step [of "Encrypt E ?buf (data (bufs t k))", OF t2(1) oblivious_at_Encrypt [OF ok(3)]]) (simp only: sum.case rest)
  then have "oblivious_at ls (bind (Data k) (\<lambda>kd. bind (Encrypt E ?buf kd) (\<lambda>r. case r of Inl e \<Rightarrow> Panic E (PErr e)
      | Inr c \<Rightarrow> bind (Destroy E k) (\<lambda>_. bind (Wipe ?buf) (\<lambda>_. ret (Inr \<lparr>ciphertext = c\<rparr>)))))) t"
    by (rule oblivious_at_step [of "Data k", OF Data_run oblivious_atI [OF oblivious_Data(1)]])
  then have "oblivious_at ls (bind (view_key E) (\<lambda>r. case r of Inl e \<Rightarrow> ret (Inl e) | Inr k \<Rightarrow>
      bind (Data k) (\<lambda>kd. bind (Encrypt E ?buf kd) (\<lambda>r. case r of Inl e \<Rightarrow> Panic E (PErr e)
      | Inr c \<Rightarrow> bind (Destroy E k) (\<lambda>_. bind (Wipe ?buf) (\<lambda>_. ret (Inr \<lparr>ciphertext = c\<rparr>))))))) s"
    by (intro oblivious_at_step [of "view_key E", OF t(1) oblivious_at_view_key [OF assms(1,2,4)]]) simp
  then show ?thesis unfolding NewEnclave_def by (auto intro: oblivious_atI obliviousI)
qed

lemma with_rlock_free_at:
  assumes "oblivious_at [l] m s" and "locks s l = Unlocked" and "m s = (Ret v, t)"
  shows "with_rlock l m s = (Ret v, t)"
proof -
  have "m (set_rw l (RLocked 1) s) = (Ret v, set_rw l (RLocked 1) t)" by (rule oblivious_at_run [OF assms(1,3)])
  moreover have "locks t l = Unlocked" using oblivious_at_locks [OF assms(1,3)] assms(2) by simp
  then have "set_rw l Unlocked t = t" by (simp add: set_rw_def fun_upd_idem)
  ultimately show ?thesis using assms(2) by (simp add: with_rlock_def deferred_def release_def set_rw_def)
qed

lemma melted_canary: "canary_ok (melted_state b s) c = canary_ok s c"
proof -
  have same: "contents (mem (melted_state b s)) sl = contents (mem s) sl" for sl by simp
  have "preguard (bufs (melted_state b s) c) = preguard (bufs s c)" "postguard (bufs (melted_state b s) c) = postguard (bufs s c)"
      "canary (bufs (melted_state b s) c) = canary (bufs s c)"
    by (simp_all add: melted_state_def)
  then show ?thesis by (simp only: canary_ok_def Let_def same)
qed

text \<open>An enclave keeps its contents when a buffer that does not belong to the key is written or destroyed.\<close>

lemma holds_other:
  assumes "session E t" and "holds E t e m" and "coffer_ok t (key t)" and "b \<in> set (blist t)" and "b \<notin> refs t (key t)"
    and "length bs = slen (data (bufs t b))"
  shows "holds E (t\<lparr>mem := put (mem t) (data (bufs t b)) bs\<rparr>) e m"
    and "coffer_value E (t\<lparr>mem := put (mem t) (data (bufs t b)) bs\<rparr>) (key t) = coffer_value E t (key t)"
    and "coffer_ok (t\<lparr>mem := put (mem t) (data (bufs t b)) bs\<rparr>) (key t)"
    and "holds E (removed_state b t) e m"
proof -
  let ?u = "t\<lparr>mem := put (mem t) (data (bufs t b)) bs\<rparr>"
  note w = write_facts [OF assms(1,4,6)]
  show v: "coffer_value E ?u (key t) = coffer_value E t (key t)" and "coffer_ok ?u (key t)"
    using keep_value [OF assms(1,3), of ?u] w(4) assms(5) by auto
  have "\<not> is_Sys (slice_base (ciphertext e))" using assms(2) by (simp add: holds_def)
  then obtain j where j: "slice_base (ciphertext e) = GC j" by (cases "slice_base (ciphertext e)") auto
  obtain i k n where d: "data (bufs t b) = Slice (Sys i) k n n" using session_bases [OF assms(1,4)] by metis
  have "coffer_value E ?u (key ?u) = coffer_value E t (key t)" using v by simp
  then show "holds E ?u e m" by (intro holds_cong [OF assms(2)]) (simp_all add: j d)
  show "holds E (removed_state b t) e m"
    using removed_gc [OF guarded_mapped(1) [OF session_D(2) [OF assms(1,4)]]] removed_value [OF assms(1,3,4,5)]
    by (intro holds_cong [OF assms(2)]) (simp_all add: j)
qed

text \<open>
  Sealing up to the end of the closure that holds the read lock of the buffer: the bytes are in the enclave, the buffer is
  wiped but still there.
\<close>

lemma Seal_begin:
  assumes "env_works E" and "session E s" and "b \<in> set (blist s)"
  shows "Alive b s = (Ret True, s)" and "Melt E b s = (Ret (), melted_state b s)"
proof -
  note ok = env_works_D [OF assms(1)]
  have free: "locks_free s" by (rule session_D [OF assms(2)])
  show "Alive b s = (Ret True, s)"
    unfolding Alive_def
    by (rule with_rlock_free) (use guarded_mapped(2) [OF session_D(2) [OF assms(2,3)]] locks_free_D [OF free]
        in \<open>auto simp: get_buf_def bind_def exec intro!: obliviousI\<close>)
  show "Melt E b s = (Ret (), melted_state b s)" by (rule Melt_run [OF ok(1,2) locks_free_D [OF free]])
qed

lemma melted_facts:
  assumes "session E s" and "b \<in> set (blist s)"
  defines "u \<equiv> melted_state b s"
  shows "blist u = blist s" and "key u = key s" and "coffers u = coffers s" and "nbufs u = nbufs s" and "locks u = locks s"
    and "data (bufs u b) = data (bufs s b)" and "buf_base (bufs u b) = buf_base (bufs s b)" and "mutable (bufs u b)"
    and "contents (mem u) sl = contents (mem s) sl" and "refs u = refs s"
  using guarded_mapped(2) [OF session_D(2) [OF assms(1,2)]] by (simp_all add: u_def melted_state_def refs_def fun_eq_iff)

lemma melted_value:
  assumes "session E s" and "b \<in> set (blist s)" and "b \<notin> refs s (key s)" and "coffer_ok s (key s)"
  shows "coffer_value E (melted_state b s) (key s) = coffer_value E s (key s)" and "coffer_ok (melted_state b s) (key s)"
  using keep_value [OF assms(1,4), of "melted_state b s"] frozen_other(2) [OF assms(1,2)] assms(3) by auto

text \<open>The closure, on a buffer that is mutable.\<close>

lemma Seal_closure:
  assumes "env_works E" and "session E s" and "b \<in> set (blist s)" and "b \<notin> refs s (key s)" and "mutable (bufs s b)"
  obtains t e where "with_rlock (BufLock b) (bind (Data b) (NewEnclave E)) s = (Ret (Inr e), t)" and "session E t"
    and "coffer_ok t (key t)" and "holds E t e (contents (mem s) (data (bufs s b)))"
    and "b \<in> set (blist t)" and "b \<notin> refs t (key t)" and "bufs t b = bufs s b" and "canary_ok s b \<Longrightarrow> canary_ok t b"
    and "contents (mem t) (data (bufs s b)) = replicate (slen (data (bufs s b))) 0"
    and "\<And>c. c \<in> set (blist s) \<Longrightarrow> c \<noteq> b \<Longrightarrow> c \<in> set (blist t) \<and> keep s t c"
    and "coffer_ok s (key s) \<Longrightarrow> key t = key s \<and> coffer_value E t (key t) = coffer_value E s (key s) \<and> blist t = blist s"
    and "clean s \<Longrightarrow> clean t" and "nbufs s \<le> nbufs t" and "heap_kept s t"
    and "\<And>s0. extends s0 s \<Longrightarrow> session E s0 \<Longrightarrow> nbufs s0 \<le> b \<Longrightarrow> extends s0 t"
proof -
  have free: "locks_free s" by (rule session_D [OF assms(2)])
  have bn: "b < nbufs s" by (rule session_D(3) [OF assms(2,3)])
  let ?buf = "data (bufs s b)"
  note gd = guarded_data [OF session_D(2) [OF assms(2,3)]]
  obtain t c where t: "NewEnclave E ?buf s = bind (Wipe ?buf) (\<lambda>_. ret (Inr \<lparr>ciphertext = c\<rparr>)) t"
      "session E t" "extends s t" "coffer_ok t (key t)" "holds E t \<lparr>ciphertext = c\<rparr> (contents (mem s) ?buf)"
      "\<not> old (mem s) c"
      "coffer_ok s (key s) \<Longrightarrow> key t = key s \<and> coffer_value E t (key t) = coffer_value E s (key s) \<and> blist t = blist s"
      "\<And>b. b < nbufs s \<Longrightarrow> b \<notin> refs s (key s) \<Longrightarrow> b \<notin> refs t (key t)"
      "clean s \<Longrightarrow> clean t"
    by (rule NewEnclave_upto [OF assms(1,2) gd(5) stable_data [OF assms(2,3)] gd(1)]) (rule that)
  have bt: "b \<in> set (blist t)" "b \<notin> refs t (key t)" "bufs t b = bufs s b"
    using extends_D(2) [OF t(3) assms(3)] t(8) [OF bn assms(4)] extends_D(3) [OF t(3) bn] by auto
  have wt: "writable (mem t) ?buf" using stable_D(3) [OF stable_data [OF assms(2,3)] t(3)] gd(2) assms(5) by simp
  let ?z = "replicate (slen (data (bufs t b))) (0 :: byte)"
  have z: "length ?z = slen (data (bufs t b))" by simp
  define u where "u = t\<lparr>mem := put (mem t) (data (bufs t b)) ?z\<rparr>"
  note w = write_facts [OF t(2) bt(1) z, folded u_def]
  note h = holds_other [OF t(2,5,4) bt(1,2) z, folded u_def]
  have ne: "NewEnclave E ?buf s = (Ret (Inr \<lparr>ciphertext = c\<rparr>), u)"
    using t(1) Wipe_run [OF wt] bt(3) by (simp add: bind_def exec u_def)
  have "oblivious_at [BufLock b] (bind (Data b) (NewEnclave E)) s"
    by (rule oblivious_at_step [of "Data b", OF Data_run oblivious_atI [OF oblivious_Data(1)]])
      (rule oblivious_at_NewEnclave [OF assms(1-3)], simp add: bn assms(4))
  then have run: "with_rlock (BufLock b) (bind (Data b) (NewEnclave E)) s = (Ret (Inr \<lparr>ciphertext = c\<rparr>), u)"
    by (rule with_rlock_free_at) (use ne locks_free_D [OF free] in \<open>simp_all add: bind_def\<close>)
  have o: "blist u = blist t" "key u = key t" "bufs u = bufs t" "coffers u = coffers t" "nbufs u = nbufs t" by (simp_all add: u_def)
  show ?thesis
  proof (rule that [OF run w(1)])
    show "coffer_ok u (key u)" "holds E u \<lparr>ciphertext = c\<rparr> (contents (mem s) ?buf)" using h(1,3) o by simp_all
    show "b \<in> set (blist u)" "b \<notin> refs u (key u)" "bufs u b = bufs s b" using bt o by (simp_all add: refs_def)
    show "canary_ok u b" if "canary_ok s b"
      using w(9) keep_contents(2) [OF extends_D(1) [OF t(3) assms(3)] guarded_mapped(1) [OF session_D(2) [OF assms(2,3)]]] that by simp
    show "contents (mem u) ?buf = replicate (slen ?buf) 0" using writable_fits [OF wt] bt(3) by (simp add: u_def)
    show "c' \<in> set (blist u) \<and> keep s u c'" if "c' \<in> set (blist s)" "c' \<noteq> b" for c'
      using keep_trans [OF extends_D(1) [OF t(3) that(1)] w(4) [OF extends_D(2) [OF t(3) that(1)] that(2)]] extends_D(2) [OF t(3) that(1)] o by simp
    show "key u = key s \<and> coffer_value E u (key u) = coffer_value E s (key s) \<and> blist u = blist s" if "coffer_ok s (key s)"
      using t(7) [OF that] h(2) o by auto
    show "clean u" if "clean s" by (rule clean_intact [OF t(9) [OF that] w(10)]) (rule o)
    show "nbufs s \<le> nbufs u" using extends_D(6) [OF t(3)] o by simp
    show "heap_kept s u" using heap_kept_extends [OF t(3)] w(10) heap_kept_trans by (auto simp: intact_def)
    show "extends s0 u" if "extends s0 s" "session E s0" "nbufs s0 \<le> b" for s0
    proof -
      have "b \<notin> set (blist s0)" using session_D(3) [OF that(2), of b] that(3) by auto
      then show ?thesis unfolding u_def by (intro put_new_extends(1) [OF extends_trans [OF that(1) t(3)] that(2) t(2) bt(1)]) simp_all
    qed
  qed
qed

lemma Seal_run:
  assumes "env_works E" and "session E s" and "b \<in> set (blist s)" and "b \<notin> refs s (key s)" and "canary_ok s b"
  obtains t e where "Seal E b s = (Ret (Inr e), t)" and "session E t" and "coffer_ok t (key t)"
    and "holds E t e (contents (mem s) (data (bufs s b)))" and "bufs t b = zero_Buffer" and "b \<notin> set (blist t)"
    and "regs (mem t) (buf_base (bufs s b)) = no_region"
    and "\<And>c. c \<in> set (blist s) \<Longrightarrow> c \<noteq> b \<Longrightarrow> c \<in> set (blist t) \<and> keep s t c"
    and "coffer_ok s (key s) \<Longrightarrow> key t = key s \<and> coffer_value E t (key t) = coffer_value E s (key s) \<and> blist t = remove1 b (blist s)"
    and "clean s \<Longrightarrow> clean t"
    and "\<And>s0. extends s0 s \<Longrightarrow> session E s0 \<Longrightarrow> nbufs s0 \<le> b \<Longrightarrow> extends s0 t" and "nbufs s \<le> nbufs t" and "heap_kept s t"
proof -
  note ok = env_works_D [OF assms(1)]
  define m where "m = melted_state b s"
  have sm: "session E m" unfolding m_def by (rule frozen_session [OF assms(2-4)])
  note start = Seal_begin [OF assms(1-3), folded m_def] and o = melted_facts [OF assms(2,3), folded m_def]
  have bm: "b \<in> set (blist m)" "b \<notin> refs m (key m)" using assms(3,4) o by simp_all
  obtain u e where u: "with_rlock (BufLock b) (bind (Data b) (NewEnclave E)) m = (Ret (Inr e), u)" "session E u" "coffer_ok u (key u)"
      "holds E u e (contents (mem m) (data (bufs m b)))" "b \<in> set (blist u)" "b \<notin> refs u (key u)" "bufs u b = bufs m b"
      "canary_ok m b \<Longrightarrow> canary_ok u b" "\<And>c. c \<in> set (blist m) \<Longrightarrow> c \<noteq> b \<Longrightarrow> c \<in> set (blist u) \<and> keep m u c"
      "coffer_ok m (key m) \<Longrightarrow> key u = key m \<and> coffer_value E u (key u) = coffer_value E m (key m) \<and> blist u = blist m"
      "clean m \<Longrightarrow> clean u" "nbufs m \<le> nbufs u" "\<And>s0. extends s0 m \<Longrightarrow> session E s0 \<Longrightarrow> nbufs s0 \<le> b \<Longrightarrow> extends s0 u" "heap_kept m u"
    by (rule Seal_closure [OF assms(1) sm bm o(8)]) (rule that)
  let ?t = "removed_state b u"
  have can: "canary_ok u b" by (rule u(8)) (use assms(5) in \<open>simp add: m_def melted_canary\<close>)
  have "Destroy E b u = (Ret (), ?t)"
    by (rule Destroy_run [OF ok(1,2) session_D(2) [OF u(2,5)] can]) (use locks_free_D [OF session_D(1) [OF u(2)]] in simp_all)
  then have run: "Seal E b s = (Ret (Inr e), ?t)" using start u(1) by (simp add: Seal_def bind_def exec)
  note v = removed_value [OF u(2,3,5,6)]
  show ?thesis
  proof (rule that [OF run removed_session [OF u(2,5,6)]])
    show "coffer_ok ?t (key ?t)" using v(2) by simp
    show "holds E ?t e (contents (mem s) (data (bufs s b)))"
      using holds_other(4) [OF u(2,4,3,5,6), of "replicate (slen (data (bufs u b))) 0"] o by simp
    show "c \<in> set (blist ?t) \<and> keep s ?t c" if c: "c \<in> set (blist s)" "c \<noteq> b" for c
    proof -
      have m: "keep s m c" unfolding m_def by (rule frozen_other [OF assms(2,3) c])
      have cu: "c \<in> set (blist u)" "keep m u c" using u(9) [of c] c o(1) by simp_all
      have "keep u ?t c" using destroyed_other [OF u(2,5), of c] cu(1) c(2) by simp
      with m cu c(2) show ?thesis by (auto simp: in_set_remove1 intro: keep_trans)
    qed
    show "clean ?t" if "clean s"
    proof -
      have "clean m" using that o(1) by (simp add: clean_def m_def melted_canary)
      then show ?thesis by (intro clean_removed [OF u(11) u(2,5)]) simp_all
    qed
    show "extends s0 ?t" if "extends s0 s" "session E s0" "nbufs s0 \<le> b" for s0
    proof -
      have "extends s0 m" unfolding m_def by (rule frozen_extends(2) [OF that(1,2) assms(2,3) that(3)])
      from u(13) [OF this that(2,3)] show ?thesis using that(3) by (intro removed_extends(1) [OF _ that(2) u(2,5) _ u(6)])
    qed
    have "heap_kept s m" using guarded_mapped(1) [OF session_D(2) [OF assms(2,3)]]
      by (auto elim!: mappedE simp: heap_kept_def m_def melted_state_def)
    moreover have "heap_kept u ?t" using guarded_mapped(1) [OF session_D(2) [OF u(2,5)]]
      by (auto elim!: mappedE simp: heap_kept_def removed_state_def destroyed_state_def)
    ultimately show "heap_kept s ?t" using u(14) heap_kept_trans by blast
    show "nbufs s \<le> nbufs ?t" using u(12) o(4) by simp
    show "b \<notin> set (blist ?t)" using session_D(5) [OF u(2)] by simp
    show "regs (mem ?t) (buf_base (bufs s b)) = no_region" using u(7) o(7) by (simp add: removed_state_def destroyed_state_def)
    show "key ?t = key s \<and> coffer_value E ?t (key ?t) = coffer_value E s (key s) \<and> blist ?t = remove1 b (blist s)"
      if "coffer_ok s (key s)"
      using u(10) v(1) melted_value [OF assms(2-4) that] o by (auto simp: m_def)
  qed simp_all
qed

subsection \<open>The global key and the enclaves as a vault\<close>

text \<open>A session whose key is in use, in an environment that works.\<close>

definition keyed :: "env \<Rightarrow> world \<Rightarrow> bool" where
  "keyed E s \<longleftrightarrow> env_works E \<and> session E s \<and> clean s \<and> coffer_ok s (key s)"

definition key_value :: "env \<Rightarrow> world \<Rightarrow> byte list" where
  "key_value E s = coffer_value E s (key s)"

text \<open>One period of the re-key goroutine of the global key.\<close>

definition key_tick :: "env \<Rightarrow> unit go" where
  "key_tick E s = rekey_tick E (key s) s"

fun buffer_bytes :: "world \<Rightarrow> err + nat \<Rightarrow> byte list" where
  "buffer_bytes s (Inl _) = []"
| "buffer_bytes s (Inr b) = contents (mem s) (data (bufs s b))"

definition sealed :: "env \<Rightarrow> world \<Rightarrow> Enclave \<Rightarrow> byte list \<Rightarrow> bool" where
  "sealed E s e m \<longleftrightarrow> holds E s e m \<and> m \<noteq> [] \<and> int (slen (ciphertext e)) \<le> 2 ^ 62"

lemma key_tick_run:
  assumes "keyed E s"
  obtains t where "key_tick E s = (Ret (), t)" and "keyed E t" and "key_value E t = key_value E s" and "heap_kept s t"
    and "key t = key s"
proof -
  have ok: "env_works E" "session E s" "clean s" "coffer_ok s (key s)" using assms by (simp_all add: keyed_def)
  obtain t where t: "Rekey E (key s) s = (Ret None, t)" "session E t" "same_objs s t"
      "coffer_value E t (key s) = coffer_value E s (key s)" "intact s t"
    by (rule Rekey_run [OF ok(1,2,4)]) (rule that)
  have "key t = key s" "blist t = blist s" using t(3) by (simp_all add: same_objs_def)
  then show ?thesis
    using that [of t] t ok clean_intact [OF ok(3) t(5)] same_objs_coffer_ok [OF t(3)]
    by (simp add: key_tick_def rekey_tick_def bind_def exec keyed_def key_value_def intact_def)
qed

lemma holds_heap:
  assumes "holds E s e m" and "heap_kept s t" and "coffer_value E t (key t) = coffer_value E s (key s)"
  shows "holds E t e m"
proof -
  have "\<not> is_Sys (slice_base (ciphertext e))" and old: "old (mem s) (ciphertext e)" and "ciphertext e \<noteq> NilSlice"
    using assms(1) by (auto simp: holds_def)
  then obtain j i n c where j: "ciphertext e = Slice (GC j) i n c" "j < gcnext (mem s)"
    by (cases "(mem s, ciphertext e)" rule: old.cases) auto
  show ?thesis
    by (rule holds_cong [OF assms(1) _ _ assms(3)]) (use assms(2) j in \<open>simp_all add: heap_kept_def\<close>)
qed

interpretation ks: keystore "keyed E" "key_value E" "key_tick E" "view_key E" buffer_bytes for E
proof
  fix s assume s: "keyed E s"
  show "\<exists>t. key_tick E s = (Ret (), t) \<and> keyed E t \<and> key_value E t = key_value E s"
    using key_tick_run [OF s] by metis
  have ok: "env_works E" "session E s" "clean s" "coffer_ok s (key s)" using s by (simp_all add: keyed_def)
  obtain k t where "view_key E s = (Ret (Inr k), t)" "session E t" "coffer_ok t (key t)" "clean t"
      "contents (mem t) (data (bufs t k)) = coffer_value E t (key t)"
      "key t = key s \<and> coffer_value E t (key t) = coffer_value E s (key s)"
    using view_key_run [OF ok(1,2)] ok(3,4) by metis
  then show "\<exists>k t. view_key E s = (Ret k, t) \<and> keyed E t \<and> key_value E t = key_value E s \<and> buffer_bytes t k = key_value E s"
    using ok(1) by (intro exI [of _ "Inr k"] exI [of _ t]) (auto simp: keyed_def key_value_def)
qed

interpretation vt: vault "keyed E" "key_value E" "key_tick E" "view_key E" buffer_bytes "sealed E" "Open E" for E
proof
  fix s t e m assume s: "keyed E s" and "key_tick E s = (Ret (), t)" and m: "sealed E s e m"
  then show "sealed E t e m"
    using key_tick_run [OF s] holds_heap [of E s e m t] by (metis Pair_inject key_value_def sealed_def)
next
  fix s e m assume s: "keyed E s" and m: "sealed E s e m"
  have ok: "env_works E" "session E s" "clean s" "coffer_ok s (key s)" using s by (simp_all add: keyed_def)
  have h: "holds E s e m" "m \<noteq> []" "int (slen (ciphertext e)) \<le> 2 ^ 62" using m by (simp_all add: sealed_def)
  obtain t where t: "Open E e s = (Ret (Inr (nbufs s)), t)" "session E t" "extends s t"
      "contents (mem t) (data (bufs t (nbufs s))) = m" "coffer_ok t (key t)" "clean t"
      "coffer_value E t (key t) = coffer_value E s (key s)"
    using Open_run [OF ok(1,2,4) h] ok(3) by metis
  have "holds E t e m" by (rule holds_heap [OF h(1) heap_kept_extends [OF t(3)] t(7)])
  then show "\<exists>k t. Open E e s = (Ret k, t) \<and> keyed E t \<and> key_value E t = key_value E s \<and> buffer_bytes t k = m \<and> sealed E t e m"
    using t ok(1) h(2,3) by (intro exI [of _ "Inr (nbufs s)"] exI [of _ t]) (auto simp: keyed_def key_value_def sealed_def)
qed

end
