(* ===== verification/Exit.thy ===== *)
theory Exit
  imports Enclave
begin

text \<open>
  \<^verbatim>\<open>Exit\<close> of \<^verbatim>\<open>core/exit.go\<close>, and what is left in memory after \<^verbatim>\<open>Purge\<close>; what \<^verbatim>\<open>Exit\<close> leaves is in theory \<open>Exiting\<close>.
\<close>

subsection \<open>core/exit.go: Exit\<close>

definition os_Exit :: "int \<Rightarrow> unit go" where
  "os_Exit c s = (Exited c, s)"

definition Exit :: "env \<Rightarrow> int \<Rightarrow> unit go" where
  "Exit E c =
     bind getKey (\<lambda>k.
     bind (Coffer_Destroy E k) (\<lambda>_.
     bind list_copy (\<lambda>snapshot.
     bind (for_each snapshot (Destroy E)) (\<lambda>_.
     os_Exit c))))"

subsection \<open>Facts: after a purge\<close>

text \<open>A buffer whose memory no buffer of the list shares is left alone.\<close>

lemma live_step:
  assumes "live E s (c # bs)" and "d \<in> set bs"
  shows "bufs (purge_one c s) d = bufs s d" and "buf_base (bufs s d) \<noteq> buf_base (bufs s c)" and "d \<noteq> c" and "mapped E s d"
proof -
  show "d \<noteq> c" "mapped E s d" "buf_base (bufs s d) \<noteq> buf_base (bufs s c)"
    using assms by (auto simp: live_def image_iff)
  moreover have "mapped E s c" using assms(1) unfolding live_def by simp
  ultimately show "bufs (purge_one c s) d = bufs s d" using purge_one_other(1) by blast
qed

lemma fold_purge_other:
  assumes "live E s bs" and "b \<notin> set bs" and "\<forall>c \<in> set bs. a \<noteq> buf_base (bufs s c)"
  shows "bufs (fold purge_one bs s) b = bufs s b \<and> regs (mem (fold purge_one bs s)) a = regs (mem s) a"
  using assms
proof (induction bs arbitrary: s)
  case (Cons c bs)
  have c: "mapped E s c" using Cons.prems(1) unfolding live_def by simp
  have "bufs (fold purge_one bs (purge_one c s)) b = bufs (purge_one c s) b \<and>
      regs (mem (fold purge_one bs (purge_one c s))) a = regs (mem (purge_one c s)) a"
    by (rule Cons.IH [OF live_purge_one(1) [OF Cons.prems(1)]])
      (use Cons.prems live_step(1) [OF Cons.prems(1)] in auto)
  then show ?case
    using purge_one_other(1) [OF c, of b] purge_one_other(2) [OF c, of b a] Cons.prems(2,3) by simp
qed simp

lemma purge_one_self:
  assumes "mapped E s b"
  shows "canary_ok s b \<Longrightarrow> bufs (purge_one b s) b = zero_Buffer \<and> regs (mem (purge_one b s)) (buf_base (bufs s b)) = no_region"
    and "\<not> canary_ok s b \<Longrightarrow> bufs (purge_one b s) b = (bufs s b)\<lparr>mutable := True\<rparr> \<and>
      contents (mem (purge_one b s)) (data (bufs s b)) = replicate (slen (data (bufs s b))) 0"
  using mapped_open(2) [OF assms] by (auto simp: purge_one_def destroyed_state_def broken_state_def writable_fits)

lemma fold_purge_listed:
  assumes "live E s bs" and "b \<in> set bs"
  defines "t \<equiv> fold purge_one bs s"
  shows "if canary_ok s b then bufs t b = zero_Buffer \<and> regs (mem t) (buf_base (bufs s b)) = no_region
     else bufs t b = (bufs s b)\<lparr>mutable := True\<rparr> \<and> contents (mem t) (data (bufs s b)) = replicate (slen (data (bufs s b))) 0"
  unfolding t_def using assms(1,2)
proof (induction bs arbitrary: s)
  case (Cons c bs)
  have c: "mapped E s c" using Cons.prems(1) unfolding live_def by simp
  note L = live_purge_one [OF Cons.prems(1)]
  show ?case
  proof (cases "b = c")
    case False
    then have b: "b \<in> set bs" using Cons.prems(2) by simp
    note st = live_step [OF Cons.prems(1) b]
    show ?thesis using Cons.IH [OF L(1) b] L(2) b st(1) by (simp split: if_splits)
  next
    case True
    have "b \<notin> set bs" "\<forall>d \<in> set bs. buf_base (bufs s b) \<noteq> buf_base (bufs (purge_one c s) d)"
      using live_step(1,2,3) [OF Cons.prems(1)] True by metis+
    note o = fold_purge_other [OF L(1) this]
    have "contents (mem (fold purge_one bs (purge_one c s))) (data (bufs s b)) = contents (mem (purge_one c s)) (data (bufs s b))"
      by (rule contents_same_region) (use o mapped_bases(4) [OF c] True in simp)
    then show ?thesis using o purge_one_self [OF c] True by simp
  qed
qed simp

text \<open>
  After a purge no buffer is listed, and each that was is unmapped, or, if its canary was damaged, at
  least wiped.
\<close>

lemma purged_listed:
  assumes "session E s" and "b \<in> set (blist s)"
  shows "blist (purged s) = []"
    and "canary_ok s b \<Longrightarrow> bufs (purged s) b = zero_Buffer \<and> regs (mem (purged s)) (buf_base (bufs s b)) = no_region"
    and "\<not> canary_ok s b \<Longrightarrow> contents (mem (purged s)) (data (bufs s b)) = replicate (slen (data (bufs s b))) 0"
proof -
  have "live E (s\<lparr>blist := []\<rparr>) (blist s)" using session_D(4) [OF assms(1)] by (simp add: live_def)
  note p = fold_purge_listed [OF this assms(2), folded purged_def]
  show "canary_ok s b \<Longrightarrow> bufs (purged s) b = zero_Buffer \<and> regs (mem (purged s)) (buf_base (bufs s b)) = no_region"
    and "\<not> canary_ok s b \<Longrightarrow> contents (mem (purged s)) (data (bufs s b)) = replicate (slen (data (bufs s b))) 0"
    using p by (auto split: if_splits)
  have "blist (fold purge_one bs u) = blist u" for bs u by (induction bs arbitrary: u) auto
  then show "blist (purged s) = []" by (simp add: purged_def)
qed

text \<open>A purge that finds every canary intact leaves a session that is ready for a new key.\<close>

lemma purged_simps [simp]:
  "locks (purged s) = locks s" "key (purged s) = key s" "coffers (purged s) = coffers s" "ncoffers (purged s) = ncoffers s"
  "nbufs (purged s) = nbufs s" "blist (purged s) = []" "rekeyers (purged s) = rekeyers s"
proof -
  have "locks (fold purge_one bs u) = locks u" "key (fold purge_one bs u) = key u" "coffers (fold purge_one bs u) = coffers u"
    "ncoffers (fold purge_one bs u) = ncoffers u" "nbufs (fold purge_one bs u) = nbufs u" "blist (fold purge_one bs u) = blist u"
    "rekeyers (fold purge_one bs u) = rekeyers u" for bs u
    by (induction bs arbitrary: u) auto
  then show "locks (purged s) = locks s" "key (purged s) = key s" "coffers (purged s) = coffers s" "ncoffers (purged s) = ncoffers s"
    "nbufs (purged s) = nbufs s" "blist (purged s) = []" "rekeyers (purged s) = rekeyers s"
    by (simp_all add: purged_def)
qed

lemma purged_unlisted:
  assumes "session E s" and "b \<notin> set (blist s)"
  shows "bufs (purged s) b = bufs s b"
proof -
  have "live E (s\<lparr>blist := []\<rparr>) (blist s)" using session_D(4) [OF assms(1)] by (simp add: live_def)
  moreover have "GC 0 \<noteq> buf_base (bufs s c)" if "c \<in> set (blist s)" for c
    by (rule session_bases [OF assms(1) that]) simp
  ultimately show ?thesis using fold_purge_other [of E "s\<lparr>blist := []\<rparr>" "blist s" b "GC 0"] assms(2) by (simp add: purged_def)
qed

lemma purged_session:
  assumes "session E s" and "\<forall>b \<in> set (blist s). canary_ok s b"
  shows "session E (purged s)" and "is_destroyed (purged s) (key s)"
proof -
  have nil: "data (bufs (purged s) b) = NilSlice" if "b \<in> set (blist s) \<or> data (bufs s b) = NilSlice" for b
    using purged_listed(2) [OF assms(1)] purged_unlisted [OF assms(1)] assms(2) that by (cases "b \<in> set (blist s)") auto
  from assms(1) have "is_destroyed s (key s) \<or> coffer_ok s (key s)" by (simp add: session_def)
  then show d: "is_destroyed (purged s) (key s)"
  proof
    assume "is_destroyed s (key s)"
    then show ?thesis using nil by (auto simp: is_destroyed_def split: option.splits)
  next
    assume "coffer_ok s (key s)"
    then show ?thesis using nil by (elim coffer_ok_D) (auto simp: is_destroyed_def)
  qed
  show "session E (purged s)"
    using assms(1) d by (simp add: session_def locks_free_def refs_def)
qed

subsection \<open>Facts: Exit\<close>

lemma Destroy_tidy:
  assumes "memcall_ok E" and "memcall_works E" and "tidy E s" and "b \<in> set (blist s)" and "canary_ok s b"
  shows "Destroy E b s = (Ret (), removed_state b s)"
  by (rule Destroy_run [OF assms(1,2) tidy_D(2) [OF assms(3,4)] assms(5)])
    (use locks_free_D [OF tidy_D(1) [OF assms(3)]] in simp_all)

lemma getKey_run: "locks_free s \<Longrightarrow> getKey s = (Ret (key s), s)"
  unfolding getKey_def
  by (rule with_lock_free; (rule locks_free_D)?) (auto simp: exec intro!: obliviousI)

lemma list_copy_run: "locks_free s \<Longrightarrow> list_copy s = (Ret (blist s), s)"
  unfolding list_copy_def
  by (rule with_lock_free; (rule locks_free_D)?) (auto simp: exec intro!: obliviousI)

end
