(* ===== verification/Steps.thy ===== *)
theory Steps
  imports Enclave_Ops Exit
begin

text \<open>
  The package as a transition system: a step is one call of the package, a write of the program to a
  buffer it owns, an allocation on the garbage-collected heap, or one period of a re-key goroutine.
  Every state that can be reached from the start of the program is a session with intact canaries, so
  every call a program makes in such a state behaves as the run lemmas say.
\<close>

subsection \<open>Steps\<close>

text \<open>The buffers a program can refer to: the key's own buffers are never handed out.\<close>

definition own :: "world \<Rightarrow> nat \<Rightarrow> bool" where
  "own s b \<longleftrightarrow> b \<in> set (blist s) \<and> b \<notin> refs s (key s)"

inductive step :: "env \<Rightarrow> world \<Rightarrow> world \<Rightarrow> bool" for E where
  new: "int n \<le> 2 ^ 62 \<Longrightarrow> NewBuffer E (int n) s = (r, t) \<Longrightarrow> step E s t"
| freeze: "own s b \<Longrightarrow> Freeze E b s = (r, t) \<Longrightarrow> step E s t"
| melt: "own s b \<Longrightarrow> Melt E b s = (r, t) \<Longrightarrow> step E s t"
| poke: "own s b \<Longrightarrow> idx_set (data (bufs s b)) i v s = (r, t) \<Longrightarrow> step E s t"
| scramble: "own s b \<Longrightarrow> mutable (bufs s b) \<Longrightarrow> Buffer_Scramble E b s = (r, t) \<Longrightarrow> step E s t"
| destroy: "own s b \<Longrightarrow> Destroy E b s = (r, t) \<Longrightarrow> step E s t"
| alloc: "gc_new bs s = (r, t) \<Longrightarrow> step E s t"
| enclave: "j < gcnext (mem s) \<Longrightarrow> writable (mem s) (Slice (GC j) i n k) \<Longrightarrow>
    NewEnclave E (Slice (GC j) i n k) s = (r, t) \<Longrightarrow> step E s t"
| seal: "own s b \<Longrightarrow> Seal E b s = (r, t) \<Longrightarrow> step E s t"
| open_sealed: "coffer_ok s (key s) \<Longrightarrow> sealed E s e m \<Longrightarrow> Open E e s = (r, t) \<Longrightarrow> step E s t"
| tick: "c = key s \<or> is_destroyed s c \<Longrightarrow> rekey_tick E c s = (r, t) \<Longrightarrow> step E s t"
| purge: "Purge E s = (r, t) \<Longrightarrow> step E s t"

inductive reachable :: "env \<Rightarrow> world \<Rightarrow> bool" for E where
  start: "reachable E init_world"
| step: "reachable E s \<Longrightarrow> step E s t \<Longrightarrow> reachable E t"

subsection \<open>Facts: every step keeps the session\<close>

definition sane :: "env \<Rightarrow> world \<Rightarrow> bool" where
  "sane E s \<longleftrightarrow> session E s \<and> clean s"

lemma init_sane: "sane E init_world"
  by (simp add: sane_def session_def clean_def init_world_def locks_free_def refs_def zero_Coffer_def is_destroyed_def)

lemma sane_new:
  assumes "env_works E" and "sane E s" and "int n \<le> 2 ^ 62" and "NewBuffer E (int n) s = (r, t)"
  shows "sane E t"
proof (cases "n = 0")
  case True
  then show ?thesis using assms by (simp add: NewBuffer_def exec)
next
  case False
  have page: "page_ok E" using assms(1) by (rule env_works_D)
  have s: "session E s" "clean s" using assms(2) by (simp_all add: sane_def)
  have "t = newbuf_state E n s"
    using NewBuffer_run [OF assms(1) _ assms(3), of s] locks_free_D [OF session_D(1) [OF s(1)]] False assms(4) by simp
  then show ?thesis
    using newbuf_session [OF s(1) page _ assms(3)] clean_newbuf [OF s(2,1) page _ assms(3)] False by (simp add: sane_def)
qed

lemma frozen_canary: "canary_ok (frozen_state b s) c = canary_ok s c"
proof -
  have same: "contents (mem (frozen_state b s)) sl = contents (mem s) sl" for sl by simp
  have "preguard (bufs (frozen_state b s) c) = preguard (bufs s c)" "postguard (bufs (frozen_state b s) c) = postguard (bufs s c)"
      "canary (bufs (frozen_state b s) c) = canary (bufs s c)"
    by (simp_all add: frozen_state_def)
  then show ?thesis by (simp only: canary_ok_def Let_def same)
qed

lemma sane_buffer:
  assumes "env_works E" and "sane E s" and "own s b"
  shows "Freeze E b s = (Ret (), frozen_state b s)" and "sane E (frozen_state b s)"
    and "Melt E b s = (Ret (), melted_state b s)" and "sane E (melted_state b s)"
    and "Destroy E b s = (Ret (), removed_state b s)" and "sane E (removed_state b s)"
proof -
  note ok = env_works_D [OF assms(1)]
  have s: "session E s" "clean s" and b: "b \<in> set (blist s)" "b \<notin> refs s (key s)"
    using assms(2,3) by (simp_all add: sane_def own_def)
  have free: "locks_free s" by (rule session_D [OF s(1)])
  show "Freeze E b s = (Ret (), frozen_state b s)" "Melt E b s = (Ret (), melted_state b s)"
    by (rule Freeze_run [OF ok(1,2)] Melt_run [OF ok(1,2)], rule locks_free_D [OF free])+
  show "Destroy E b s = (Ret (), removed_state b s)"
    by (rule Destroy_tidy [OF ok(1,2) session_tidy [OF s(1)] b(1) clean_D [OF s(2) b(1)]])
  show "sane E (frozen_state b s)" "sane E (melted_state b s)"
    using frozen_session [OF s(1) b] s(2) by (simp_all add: sane_def clean_def frozen_canary melted_canary)
  show "sane E (removed_state b s)"
    using removed_session [OF s(1) b] clean_removed [OF s(2,1) b(1)] by (simp add: sane_def)
qed

lemma sane_scramble:
  assumes "env_works E" and "sane E s" and "own s b" and "mutable (bufs s b)"
  obtains t where "Buffer_Scramble E b s = (Ret (), t)" and "sane E t" and "same_objs s t"
    and "contents (mem t) (data (bufs t b)) = rand_bytes E (rpos s) (slen (data (bufs s b)))"
proof -
  note ok = env_works_D [OF assms(1)]
  have s: "session E s" "clean s" and b: "b \<in> set (blist s)" using assms(2,3) by (simp_all add: sane_def own_def)
  obtain t where t: "Scramble E (data (bufs s b)) s = (Ret None, t)" "session E t" "same_objs s t"
      "contents (mem t) (data (bufs t b)) = rand_bytes E (rpos s) (slen (data (bufs s b)))" "intact s t"
    by (rule Scramble_session [OF ok(3) s(1) b assms(4)]) (rule that)
  have "scramble E b s = (Ret None, t)"
    unfolding scramble_def
    by (rule with_lock_free; (rule locks_free_D [OF session_D(1) [OF s(1)]])?) (use t(1) in \<open>auto simp: bind_def intro!: obliviousI\<close>)
  then show ?thesis
    using that [of t] t clean_intact [OF s(2) t(5)] by (simp add: Buffer_Scramble_def or_panic_None sane_def same_objs_def)
qed

text \<open>A write of the program: inside the data of a mutable buffer it happens, everywhere else nothing changes.\<close>

lemma frozen_data:
  assumes "guarded E s b" and "\<not> mutable (bufs s b)" and "i < slen (data (bufs s b))"
  shows "idx_set (data (bufs s b)) i v s = (Crash, s)"
proof -
  from guarded_mapped(1) [OF assms(1)] obtain a n c where B: "buf_base (bufs s b) = Sys a"
      "inner (bufs s b) = Slice (Sys a) (pageSize E) (n + c) (n + c)" "data (bufs s b) = Slice (Sys a) (pageSize E + c) n n"
    by (rule mappedE) (rule that)
  have "c + i < n + c" using assms(3) B by simp
  then have "rprot (regs (mem s) (Sys a)) (pageSize E + (c + i)) = ReadOnly"
    using assms(1,2) B unfolding guarded_def Let_def by (simp del: add.assoc)
  then show ?thesis using assms(3) B by (simp add: add.assoc)
qed

lemma sane_write:
  assumes "sane E s" and "own s b" and "idx_set (data (bufs s b)) i v s = (r, t)"
  shows "sane E t"
proof -
  have s: "session E s" "clean s" and b: "b \<in> set (blist s)" using assms(1,2) by (simp_all add: sane_def own_def)
  note g = session_D(2) [OF s(1) b]
  consider (out) "slen (data (bufs s b)) \<le> i" | (frozen) "i < slen (data (bufs s b))" "\<not> mutable (bufs s b)"
    | (into) "i < slen (data (bufs s b))" "mutable (bufs s b)" by linarith
  then show ?thesis
  proof cases
    case out
    then show ?thesis using assms(1,3) by (cases "data (bufs s b)") auto
  next
    case frozen
    then show ?thesis using assms(1,3) frozen_data [OF g] by simp
  next
    case into
    let ?bs = "(contents (mem s) (data (bufs s b)))[i := v]"
    have len: "length ?bs = slen (data (bufs s b))" using guarded_data(7) [OF g] by simp
    have "t = s\<lparr>mem := put (mem s) (data (bufs s b)) ?bs\<rparr>"
      using idx_set_run [OF into(1) guarded_data(2) [OF g into(2)]] assms(3) by simp
    then show ?thesis
      using write_facts(1,10) [OF s(1) b len] clean_intact [OF s(2)] by (simp add: sane_def)
  qed
qed

lemma sane_alloc: "sane E s \<Longrightarrow> gc_new bs s = (r, t) \<Longrightarrow> sane E t"
  using gc_step_session [OF gc_step_new] gc_step_extends [OF gc_step_new] clean_intact intact_extends
  by (fastforce simp: sane_def gc_new_def)

lemma sane_enclave:
  assumes "env_works E" and "sane E s" and "j < gcnext (mem s)" and "writable (mem s) (Slice (GC j) i n k)"
    and "NewEnclave E (Slice (GC j) i n k) s = (r, t)"
  shows "sane E t"
proof (cases "n = 0")
  case True
  then show ?thesis using assms(2,5) by (simp add: NewEnclave_def exec)
next
  case False
  have s: "session E s" "clean s" using assms(2) by (simp_all add: sane_def)
  have n: "0 < n" using False by simp
  obtain u e where "NewEnclave E (Slice (GC j) i n k) s = (Ret (Inr e), u)" "session E u" "clean s \<Longrightarrow> clean u"
    by (rule NewEnclave_run [OF assms(1) s(1) assms(3) n assms(4)]) (rule that)
  then show ?thesis using assms(5) s(2) by (simp add: sane_def)
qed

lemma sane_tick:
  assumes "env_works E" and "sane E s" and "c = key s \<or> is_destroyed s c" and "rekey_tick E c s = (r, t)"
  shows "sane E t"
proof (cases "is_destroyed s c")
  case True
  have s: "session E s" "clean s" using assms(2) by (simp_all add: sane_def)
  have "t = s\<lparr>rekeyers := remove1 c (rekeyers s)\<rparr>"
    using rekey_tick_expired [OF session_D(1) [OF s(1)] True] assms(4) by simp
  moreover have "session E (s\<lparr>rekeyers := remove1 c (rekeyers s)\<rparr>)" by (rule session_gc(1) [OF s(1)]) simp_all
  ultimately show ?thesis using s(2) by (simp add: sane_def)
next
  case False
  then have "keyed E s" using assms(1-3) by (auto simp: keyed_def sane_def session_def)
  from key_tick_run [OF this] obtain u where "key_tick E s = (Ret (), u)" "keyed E u" by metis
  then show ?thesis using assms(3,4) False by (auto simp: keyed_def sane_def key_tick_def)
qed

theorem sane_step:
  assumes "step E s t" and "env_works E" and "sane E s"
  shows "sane E t"
  using assms(1)
proof cases
  case (new n r)
  show ?thesis by (rule sane_new [OF assms(2,3) new])
next
  case (freeze b r)
  then show ?thesis using sane_buffer(1,2) [OF assms(2,3)] by auto
next
  case (melt b r)
  then show ?thesis using sane_buffer(3,4) [OF assms(2,3)] by auto
next
  case (poke b i v r)
  show ?thesis by (rule sane_write [OF assms(3) poke])
next
  case (scramble b r)
  then show ?thesis using sane_scramble [OF assms(2,3) scramble(1,2)] by (metis prod.inject)
next
  case (destroy b r)
  then show ?thesis using sane_buffer(5,6) [OF assms(2,3)] by auto
next
  case (alloc bs r)
  show ?thesis by (rule sane_alloc [OF assms(3) alloc])
next
  case (enclave j i n k r)
  show ?thesis by (rule sane_enclave [OF assms(2,3) enclave])
next
  case (seal b r)
  have s: "session E s" "clean s" and b: "b \<in> set (blist s)" "b \<notin> refs s (key s)" using assms(3) seal(1) by (simp_all add: sane_def own_def)
  obtain u e where "Seal E b s = (Ret (Inr e), u)" "session E u" "clean s \<Longrightarrow> clean u"
    by (rule Seal_run [OF assms(2) s(1) b clean_D [OF s(2) b(1)]]) (rule that)
  then show ?thesis using seal(2) s(2) by (simp add: sane_def)
next
  case (open_sealed e m r)
  have "keyed E s" using assms(2,3) open_sealed(1) by (simp add: keyed_def sane_def)
  from vt.open_box [OF this open_sealed(2)] show ?thesis using open_sealed(3) by (auto simp: keyed_def sane_def)
next
  case (tick c r)
  show ?thesis by (rule sane_tick [OF assms(2,3) tick])
next
  case (purge r)
  note ok = env_works_D [OF assms(2)]
  have s: "session E s" "clean s" using assms(3) by (simp_all add: sane_def)
  have can: "\<forall>b \<in> set (blist s). canary_ok s b" using s(2) by (simp add: clean_def)
  then have "t = purged s" using Purge_run_ok [OF ok(1,2) session_D(4,1) [OF s(1)]] purge by simp
  then show ?thesis using purged_session(1) [OF s(1) can] by (simp add: sane_def clean_def)
qed

lemma reachable_sane: "reachable E s \<Longrightarrow> env_works E \<Longrightarrow> sane E s"
  by (induction rule: reachable.induct) (auto simp: init_sane intro: sane_step)

end
