(* ===== verification/Sim.thy ===== *)
theory Sim
  imports Steps
begin

text \<open>
  A concrete environment, \<open>simE\<close>: pages of eight bytes, an operating system that grants every request, a
  toy box with a one byte tag, a toy hash and a counter as the random source. It satisfies every
  hypothesis the development makes of the packages outside the repository, so these hypotheses are
  consistent, and it provides the states at which the properties are instantiated. \<open>brokeE\<close> is the same
  with an allocator that always fails.
\<close>

subsection \<open>The environment\<close>

definition sim_tag :: "byte list \<Rightarrow> byte list \<Rightarrow> byte list \<Rightarrow> byte" where
  "sim_tag m n k = sum_list m + sum_list n + sum_list k"

fun sim_open :: "byte list \<Rightarrow> byte list \<Rightarrow> byte list \<Rightarrow> byte list option" where
  "sim_open [] n k = None"
| "sim_open (c # m) n k = (if c = sim_tag m n k then Some m else None)"

definition simE :: env where
  "simE = \<lparr>pageSize = 8,
     mcAlloc = (\<lambda>i m n. if 0 < n then (Inr (Slice (Sys (sysnext m)) 0 (nat n) (nat n)), map_region (nat n) m)
                        else (Inl (OSErr ''EINVAL''), m)),
     mcFree = (\<lambda>i m sl. (None, unmap_region sl m)),
     mcProtect = (\<lambda>i m sl p. (None, set_prot sl p m)),
     mcLock = (\<lambda>i m sl. (None, set_lock sl True m)),
     mcUnlock = (\<lambda>i m sl. (None, set_lock sl False m)),
     sbOverhead = 1, sbSeal = (\<lambda>m n k. sim_tag m n k # m), sbOpen = sim_open,
     blake2b = (\<lambda>x. map (\<lambda>i. (if i < length x then x ! i else 0) + 1) [0..<32]),
     rnd = (\<lambda>i. word_of_nat (i + 1)), rnderr = (\<lambda>_. None)\<rparr>"

definition brokeE :: env where
  "brokeE = simE\<lparr>mcAlloc := (\<lambda>i m n. (Inl (OSErr ''ENOMEM''), m))\<rparr>"

lemma sim_open_len: "sim_open b n k = Some m \<Longrightarrow> length b = length m + 1"
  by (cases "(b, n, k)" rule: sim_open.cases) (auto split: if_splits)

lemma simE_ok:
  "memcall_ok simE" "memcall_works simE" "secretbox_ok simE" "hash_ok simE" "rand_ok simE" "page_ok simE"
proof -
  show "secretbox_ok simE" using sim_open_len by (simp add: secretbox_ok_def simE_def)
  show "page_ok simE" unfolding page_ok_def by (rule exI [of _ 3]) (simp add: simE_def)
qed (simp_all add: memcall_ok_def memcall_works_def hash_ok_def rand_ok_def simE_def)

lemma simE_works: "env_works simE"
  by (simp add: env_works_def env_ok_def simE_ok)

lemma brokeE_ok: "memcall_ok brokeE" "page_ok brokeE"
proof -
  show "page_ok brokeE" unfolding page_ok_def by (rule exI [of _ 3]) (simp add: brokeE_def simE_def)
qed (simp add: memcall_ok_def brokeE_def simE_def)

subsection \<open>States\<close>

text \<open>One buffer of five bytes; the same with a key; with a slice \<open>[1, 2, 3]\<close> on the heap; with that sealed.\<close>

definition w_buf :: world where "w_buf = newbuf_state simE 5 init_world"
definition w_key :: world where "w_key = snd (getOrCreateKey simE w_buf)"
definition w_sl :: slice where "w_sl = Slice (GC (gcnext (mem w_key))) 0 3 3"
definition w_user :: world where "w_user = snd (gc_new [1, 2, 3] w_key)"
definition w_enc :: world where "w_enc = snd (NewEnclave simE w_sl w_user)"
definition e_enc :: Enclave where
  "e_enc = (case fst (NewEnclave simE w_sl w_user) of Ret (Inr e) \<Rightarrow> e | _ \<Rightarrow> \<lparr>ciphertext = NilSlice\<rparr>)"

lemma w_buf_sane: "sane simE w_buf" "own w_buf 0" "clean w_buf" "session simE w_buf" "locks_free w_buf"
  "blist w_buf = [0]" "mutable (bufs w_buf 0)" "slen (data (bufs w_buf 0)) = 5" "canary_ok w_buf 0" "is_destroyed w_buf (key w_buf)"
  "contents (mem w_buf) (data (bufs w_buf 0)) = [0, 0, 0, 0, 0]" "nbufs w_buf = 1" "guarded simE w_buf 0"
proof -
  have i: "session simE init_world" "clean init_world" using init_sane [of simE] by (simp_all add: sane_def)
  show s: "session simE w_buf" unfolding w_buf_def by (rule newbuf_session [OF i(1) simE_ok(6)]) simp_all
  show c: "clean w_buf" unfolding w_buf_def by (rule clean_newbuf [OF i(2,1) simE_ok(6)]) simp_all
  show "sane simE w_buf" using s c by (simp add: sane_def)
  show "locks_free w_buf" by (rule session_D [OF s])
  have w: "blist w_buf = [0]" "key w_buf = 0" "coffers w_buf 0 = zero_Coffer" "nbufs w_buf = 1"
    by (simp_all add: w_buf_def init_world_def)
  then show "blist w_buf = [0]" "own w_buf 0" "is_destroyed w_buf (key w_buf)" "nbufs w_buf = 1"
    by (simp_all add: own_def refs_def zero_Coffer_def is_destroyed_def)
  show "mutable (bufs w_buf 0)" "slen (data (bufs w_buf 0)) = 5" "canary_ok w_buf 0" "guarded simE w_buf 0"
      "contents (mem w_buf) (data (bufs w_buf 0)) = [0, 0, 0, 0, 0]"
    using newbuf_facts [OF simE_ok(6), of 5 init_world] by (simp_all add: w_buf_def init_world_def eval_nat_numeral)
qed

lemma w_key_facts:
  shows "getOrCreateKey simE w_buf = (Ret (key w_key), w_key)" and "keyed simE w_key" and "session simE w_key" and "clean w_key"
    and "coffer_ok w_key (key w_key)" and "own w_key 0" and "sane simE w_key" and "locks_free w_key" and "extends w_buf w_key"
proof -
  obtain t where t: "getOrCreateKey simE w_buf = (Ret (key t), t)" "session simE t" "extends w_buf t" "coffer_ok t (key t)"
      "\<And>b. b < nbufs w_buf \<Longrightarrow> b \<notin> refs w_buf (key w_buf) \<Longrightarrow> b \<notin> refs t (key t)" "clean w_buf \<Longrightarrow> clean t"
    by (rule getOrCreateKey_run [OF simE_works w_buf_sane(4)]) (rule that)
  have w: "w_key = t" using t(1) by (simp add: w_key_def)
  have "0 \<in> set (blist t)" using extends_D(2) [OF t(3)] w_buf_sane(6) by simp
  then have own: "own t 0" using t(5) [of 0] w_buf_sane(2,12) by (simp add: own_def)
  show "getOrCreateKey simE w_buf = (Ret (key w_key), w_key)" "keyed simE w_key" "session simE w_key" "clean w_key"
      "coffer_ok w_key (key w_key)" "own w_key 0" "sane simE w_key" "locks_free w_key" "extends w_buf w_key"
    using t own w_buf_sane(3) simE_works session_D(1) [OF t(2)] by (simp_all add: w keyed_def sane_def)
qed

lemma w_key_data: "contents (mem w_key) (data (bufs w_key 0)) = [0, 0, 0, 0, 0]" "bufs w_key 0 = bufs w_buf 0"
  using kept_data [OF extends_D(1) [OF w_key_facts(9)] w_buf_sane(4), of 0] w_buf_sane(6,11) by simp_all

lemma w_user_facts:
  shows "session simE w_user" and "clean w_user" and "coffer_ok w_user (key w_user)" and "contents (mem w_user) w_sl = [1, 2, 3]"
    and "writable (mem w_user) w_sl" and "w_sl = Slice (GC (gcnext (mem w_key))) 0 3 3" and "gcnext (mem w_key) < gcnext (mem w_user)"
    and "keyed simE w_user" and "old (mem w_user) w_sl" and "stable w_user w_sl"
proof -
  have run: "gc_new [1, 2, 3] w_key = (Ret w_sl, w_user)" by (simp add: w_user_def w_sl_def gc_new_def)
  note gc = gc_new_access [OF run] and st = gc_step_new [OF run]
  have o: "coffers w_user = coffers w_key" "blist w_user = blist w_key" "key w_user = key w_key" "bufs w_user = bufs w_key"
    using st by (simp_all add: gc_step_def same_objs_def)
  show s: "session simE w_user" by (rule gc_step_session [OF st w_key_facts(3)])
  show c: "clean w_user"
    by (rule clean_intact [OF w_key_facts(4) intact_extends [OF gc_step_extends [OF st w_key_facts(3)] w_key_facts(3)] o(2)])
  show k: "coffer_ok w_user (key w_user)" using w_key_facts(5) o by (simp add: coffer_ok_def part_ok_def cong: option.case_cong)
  show "contents (mem w_user) w_sl = [1, 2, 3]" "writable (mem w_user) w_sl" by (rule gc)+
  show g: "gcnext (mem w_key) < gcnext (mem w_user)" using gc(6) by simp
  show sl: "w_sl = Slice (GC (gcnext (mem w_key))) 0 3 3" by (simp add: w_sl_def)
  show "keyed simE w_user" using s c k simE_works by (simp add: keyed_def)
  show "old (mem w_user) w_sl" using g by (simp add: sl)
  show "stable w_user w_sl" unfolding sl by (rule stable_gc [OF g])
qed

lemma w_enc_facts:
  shows "NewEnclave simE w_sl w_user = (Ret (Inr e_enc), w_enc)" and "keyed simE w_enc" and "sealed simE w_enc e_enc [1, 2, 3]"
    and "session simE w_enc" and "clean w_enc" and "coffer_ok w_enc (key w_enc)"
proof -
  note u = w_user_facts
  obtain t e where t: "NewEnclave simE w_sl w_user = (Ret (Inr e), t)" "session simE t" "holds simE t e (contents (mem w_user) w_sl)"
      "coffer_ok t (key t)" "clean w_user \<Longrightarrow> clean t"
    unfolding u(6) by (rule NewEnclave_run [OF simE_works u(1) u(7) _ u(5) [unfolded u(6)]]) (use that u(6) in simp_all)
  have w: "w_enc = t" "e_enc = e" using t(1) by (simp_all add: w_enc_def e_enc_def)
  have h: "holds simE t e [1, 2, 3]" using t(3) u(4) by simp
  have "int (slen (ciphertext e)) \<le> 2 ^ 62" using holds_slen(1) [OF simE_ok(3) h] by (simp add: simE_def)
  then show "NewEnclave simE w_sl w_user = (Ret (Inr e_enc), w_enc)" "keyed simE w_enc" "sealed simE w_enc e_enc [1, 2, 3]"
      "session simE w_enc" "clean w_enc" "coffer_ok w_enc (key w_enc)"
    using t h u(2) simE_works by (simp_all add: w keyed_def sealed_def)
qed

lemma w_user_buf:
  shows "0 \<in> set (blist w_user)" and "mutable (bufs w_user 0)" and "contents (mem w_user) (data (bufs w_user 0)) = [0, 0, 0, 0, 0]"
    and "slen (data (bufs w_user 0)) = 5" and "own w_user 0"
proof -
  have run: "gc_new [1, 2, 3] w_key = (Ret w_sl, w_user)" by (simp add: w_user_def w_sl_def gc_new_def)
  note st = gc_step_new [OF run]
  have b: "0 \<in> set (blist w_key)" using w_key_facts(6) by (simp add: own_def)
  note k = kept_data [OF gc_step_keep [OF st w_key_facts(3) b] w_key_facts(3) b]
  show "contents (mem w_user) (data (bufs w_user 0)) = [0, 0, 0, 0, 0]" "mutable (bufs w_user 0)" "slen (data (bufs w_user 0)) = 5"
    using k w_key_data w_buf_sane(7,8) by simp_all
  show "own w_user 0" "0 \<in> set (blist w_user)"
    using w_key_facts(6) st by (simp_all add: own_def refs_def gc_step_def same_objs_def)
qed

text \<open>An enclave that does not decrypt: a ciphertext of one byte with a tag that is off by one.\<close>

definition forged_bytes :: "byte list" where
  "forged_bytes = replicate 24 0 @ [sim_tag [5] (replicate 24 0) (coffer_value simE w_key (key w_key)) + 1, 5]"
definition w_forged :: world where "w_forged = snd (gc_new forged_bytes w_key)"
definition e_forged :: Enclave where "e_forged = \<lparr>ciphertext = Slice (GC (gcnext (mem w_key))) 0 26 26\<rparr>"

lemma w_forged_facts:
  shows "session simE w_forged" and "coffer_ok w_forged (key w_forged)" and "stable w_forged (ciphertext e_forged)" and "wf_slice (ciphertext e_forged)"
    and "readable (mem w_forged) (ciphertext e_forged)" and "Overhead simE < int (slen (ciphertext e_forged))"
    and "int (slen (ciphertext e_forged)) \<le> 2 ^ 62"
    and "sbOpen simE (drop 24 (contents (mem w_forged) (ciphertext e_forged))) (take 24 (contents (mem w_forged) (ciphertext e_forged)))
           (coffer_value simE w_forged (key w_forged)) = None"
    and "keyed simE w_forged"
proof -
  have len: "length forged_bytes = 26" by (simp add: forged_bytes_def)
  have run: "gc_new forged_bytes w_key = (Ret (ciphertext e_forged), w_forged)" by (simp add: w_forged_def e_forged_def gc_new_def len)
  note gc = gc_new_access [OF run] and st = gc_step_new [OF run]
  have ext: "extends w_key w_forged" by (rule gc_step_extends [OF st w_key_facts(3)])
  have o: "key w_forged = key w_key" "blist w_forged = blist w_key" using st by (simp_all add: gc_step_def same_objs_def)
  have kc: "key w_key < ncoffers w_key" using w_key_facts(3) by (simp add: session_def)
  note v = extends_value [OF ext w_key_facts(3,5) kc]
  show s: "session simE w_forged" by (rule gc_step_session [OF st w_key_facts(3)])
  show k: "coffer_ok w_forged (key w_forged)" using v(2) o by simp
  show "stable w_forged (ciphertext e_forged)" unfolding e_forged_def Enclave.simps by (rule stable_gc) (simp add: gc(6))
  show "wf_slice (ciphertext e_forged)" "Overhead simE < int (slen (ciphertext e_forged))" "int (slen (ciphertext e_forged)) \<le> 2 ^ 62"
    by (simp_all add: e_forged_def wf_slice_def Overhead_def simE_def)
  show "readable (mem w_forged) (ciphertext e_forged)" by (rule writable_readable [OF gc(3)])
  have "clean w_forged" by (rule clean_intact [OF w_key_facts(4) intact_extends [OF ext w_key_facts(3)] o(2)])
  then show "keyed simE w_forged" using s k simE_works by (simp add: keyed_def)
  have "sbOpen simE (drop 24 forged_bytes) (take 24 forged_bytes) (coffer_value simE w_key (key w_key)) = None"
    unfolding forged_bytes_def by (simp add: simE_def)
  then show "sbOpen simE (drop 24 (contents (mem w_forged) (ciphertext e_forged))) (take 24 (contents (mem w_forged) (ciphertext e_forged)))
      (coffer_value simE w_forged (key w_forged)) = None"
    using v(1) o(1) gc(2) by simp
qed

end
