(* ===== verification/Crypto_Props.thy ===== *)
theory Crypto_Props
  imports Sim
begin

text \<open>
  The properties of \<^verbatim>\<open>core/crypto.go\<close> and \<^verbatim>\<open>core/auxiliary.go\<close>, each followed by its instance at a
  concrete state.
\<close>

subsection \<open>Encryption\<close>

text \<open>
  C30. What \<^verbatim>\<open>Encrypt\<close> makes, \<^verbatim>\<open>Decrypt\<close> turns back: with the same 32 byte key and any output buffer that is
  large enough, decryption succeeds, reports the length of the plaintext, puts it at the start of the
  output and leaves the rest of the output as it was.
\<close>

theorem Decrypt_Encrypt:
  assumes "env_works E" and "slen k = 32" and "readable (mem s) p" and "readable (mem s) k" and "old (mem s) p" and "old (mem s) k"
    and "writable (mem s) out" and "old (mem s) out" and "slen out = scap out" and "slen p \<le> slen out"
  shows "\<exists>c t u. Encrypt E p k s = (Ret (Inr c), t) \<and> Decrypt E c k out t = (Ret (Inr (int (slen p))), u) \<and>
     contents (mem u) out = contents (mem s) p @ drop (slen p) (contents (mem s) out)"
proof -
  note ok = env_works_D [OF assms(1)]
  let ?n = "rand_bytes E (rpos s) 24" and ?P = "contents (mem s) p" and ?K = "contents (mem s) k" and ?O = "contents (mem s) out"
  obtain c t where t: "Encrypt E p k s = (Ret (Inr c), t)" "gc_step s t" "wf_slice c"
      "contents (mem t) c = ?n @ sbSeal E ?P ?n ?K" "readable (mem t) c" "old (mem t) c" "slen c = length (?n @ sbSeal E ?P ?n ?K)"
    by (rule Encrypt_run [OF ok(3) assms(2,3,4,5,6)]) (rule that)
  have len: "length ?P = slen p" "length ?O = slen out"
    using assms(3,7) by (simp_all add: readable_fits writable_fits)
  have sc: "slen c = 24 + slen p + sbOverhead E" using t(7) ok(6) len by (simp add: secretbox_ok_def)
  note k = gc_step_old [OF t(2) assms(6)] and o = gc_step_old [OF t(2) assms(8)]
  have "sbOpen E (drop 24 (contents (mem t) c)) (take 24 (contents (mem t) c)) (contents (mem t) k) = Some ?P"
    using t(4) k(1) ok(6) by (simp add: secretbox_ok_def)
  then obtain u where u: "Decrypt E c k out t = (Ret (Inr (int (slen p))), u)"
      "gc_step (t\<lparr>mem := put (mem t) out (copied (contents (mem t) out) ?P)\<rparr>) u"
    using Decrypt_run(2) [OF assms(2), of c E out t ?P] sc t(3,5,6) k(2,4) o(3,4) assms(4,7,9,10) len
    by (auto simp: Overhead_def)
  let ?t = "t\<lparr>mem := put (mem t) out (copied (contents (mem t) out) ?P)\<rparr>"
  have "old (mem ?t) out" using o(4) by (cases "(mem t, out)" rule: old.cases) auto
  then have "contents (mem u) out = contents (mem ?t) out" using gc_step_old(1) [OF u(2)] by simp
  also have "\<dots> = copied ?O ?P" using o(1,3) assms(7) len by (simp add: writable_fits)
  also have "\<dots> = ?P @ drop (slen p) ?O" using assms(10) len by (simp add: copied_def)
  finally show ?thesis using t(1) u(1) by blast
qed

theorem Decrypt_Encrypt_witness:
  "\<exists>s p k out c t u. env_works simE \<and> slen k = 32 \<and> contents (mem s) p = [1, 2, 3] \<and>
     Encrypt simE p k s = (Ret (Inr c), t) \<and> Decrypt simE c k out t = (Ret (Inr (int (slen p))), u) \<and>
     contents (mem u) out = contents (mem s) p @ drop (slen p) (contents (mem s) out)"
proof -
  obtain K s where ks: "gc_new (replicate 32 7) w_user = (Ret K, s)" by (simp add: gc_new_def)
  note gc = gc_new_access [OF ks] and st = gc_step_new [OF ks]
  note p = gc_step_old [OF st w_user_facts(9)]
  have sl: "slen w_sl = 3" by (simp add: w_sl_def)
  have K: "slen K = 32" "readable (mem s) K" "old (mem s) K" using gc(1,3,6) by (simp_all add: writable_readable)
  have "\<exists>c t u. Encrypt simE w_sl K s = (Ret (Inr c), t) \<and> Decrypt simE c K K t = (Ret (Inr (int (slen w_sl))), u) \<and>
     contents (mem u) K = contents (mem s) w_sl @ drop (slen w_sl) (contents (mem s) K)"
    by (rule Decrypt_Encrypt [OF simE_works K(1) _ K(2) p(4) K(3) gc(3) K(3)])
      (use p w_user_facts(5) gc(1) sl in \<open>simp_all add: writable_readable del: readable.simps\<close>)
  then show ?thesis using simE_works K(1) p(1) w_user_facts(4) by metis
qed

text \<open>
  A failed decryption changes nothing the program can see: the error is \<^verbatim>\<open>ErrDecryptionFailed\<close> and every
  slice that existed, the output included, has its bytes.
\<close>

theorem Decrypt_failure_untouched:
  assumes "slen k = 32" and "int (slen c) - Overhead E \<le> int (scap out)" and "wf_slice c" and "24 \<le> slen c"
    and "readable (mem s) c" and "old (mem s) c" and "readable (mem s) k" and "old (mem s) k"
    and "writable (mem s) out" and "old (mem s) out" and "slen out = scap out"
    and "sbOpen E (drop 24 (contents (mem s) c)) (take 24 (contents (mem s) c)) (contents (mem s) k) = None"
  shows "\<exists>t. Decrypt E c k out s = (Ret (Inl ErrDecryptionFailed), t) \<and>
     (\<forall>sl. old (mem s) sl \<longrightarrow> contents (mem t) sl = contents (mem s) sl)"
  using Decrypt_run(1) [OF assms(1-11)] assms(12) gc_step_old(1) by blast

theorem Decrypt_failure_untouched_witness:
  "\<exists>s c k out t. sbOpen simE (drop 24 (contents (mem s) c)) (take 24 (contents (mem s) c)) (contents (mem s) k) = None \<and>
     Decrypt simE c k out s = (Ret (Inl ErrDecryptionFailed), t) \<and> contents (mem t) out = contents (mem s) out"
proof -
  obtain K s where ks: "gc_new (replicate 32 7) init_world = (Ret K, s)" by (simp add: gc_new_def)
  note gc = gc_new_access [OF ks]
  have K: "K = Slice (GC 0) 0 32 32" "old (mem s) K" "readable (mem s) K"
    using gc(1,3,6) by (simp_all add: init_world_def init_mem_def writable_readable)
  have eight: "replicate 8 (7 :: byte) = 7 # replicate 7 7" by (simp add: eval_nat_numeral)
  have none: "sbOpen simE (drop 24 (contents (mem s) K)) (take 24 (contents (mem s) K)) (contents (mem s) K) = None"
    using gc(2) eight by (simp add: simE_def sim_tag_def sum_list_replicate)
  have "\<exists>t. Decrypt simE K K K s = (Ret (Inl ErrDecryptionFailed), t) \<and>
     (\<forall>sl. old (mem s) sl \<longrightarrow> contents (mem t) sl = contents (mem s) sl)"
    by (rule Decrypt_failure_untouched [OF _ _ _ _ K(3,2,3,2) gc(3) K(2) _ none])
      (simp_all add: K(1) wf_slice_def Overhead_def)
  then show ?thesis using none K(2) by blast
qed

text \<open>
  The checks of \<^verbatim>\<open>Decrypt\<close> come in this order: a key that is not 32 bytes long, then an output that is too
  small; neither changes anything. A ciphertext too short to hold the nonce is not an error value: slicing
  it panics in the caller.
\<close>

theorem Decrypt_checks:
  "(slen k \<noteq> 32 \<longrightarrow> Decrypt E c k out s = (Ret (Inl ErrInvalidKeyLength), s) \<and> Encrypt E c k s = (Ret (Inl ErrInvalidKeyLength), s)) \<and>
   (slen k = 32 \<and> int (scap out) < int (slen c) - Overhead E \<longrightarrow> Decrypt E c k out s = (Ret (Inl ErrBufferTooSmall), s)) \<and>
   (slen k = 32 \<and> int (slen c) - Overhead E \<le> int (scap out) \<and> scap c < 24 \<longrightarrow>
      fst (Decrypt E c k out s) = Panicked index_panic)"
  by (cases c) (simp_all add: Decrypt_def Encrypt_def bind_def gc_new_def exec)

theorem Decrypt_checks_witness:
  "Decrypt simE NilSlice NilSlice NilSlice w_buf = (Ret (Inl ErrInvalidKeyLength), w_buf) \<and>
   Decrypt simE (Slice (GC 0) 0 26 26) (Slice (GC 1) 0 32 32) NilSlice w_buf = (Ret (Inl ErrBufferTooSmall), w_buf) \<and>
   fst (Decrypt simE (Slice (GC 0) 0 3 3) (Slice (GC 1) 0 32 32) NilSlice w_buf) = Panicked index_panic"
  using Decrypt_checks [of NilSlice simE NilSlice NilSlice w_buf]
    Decrypt_checks [of "Slice (GC 1) 0 32 32" simE "Slice (GC 0) 0 26 26" NilSlice w_buf]
    Decrypt_checks [of "Slice (GC 1) 0 32 32" simE "Slice (GC 0) 0 3 3" NilSlice w_buf]
  by (simp add: Overhead_def simE_def)

subsection \<open>Constant-time routines\<close>

text \<open>
  C31. \<^verbatim>\<open>Equal\<close> is equality of contents: the constant-time loop over all bytes returns true exactly when the two
  slices hold the same bytes, and slices of different length are different whatever is in memory.
\<close>

theorem Equal_contents:
  assumes "slen x = slen y \<Longrightarrow> readable (mem s) x \<and> readable (mem s) y"
  shows "Equal x y s = (Ret (slen x = slen y \<and> contents (mem s) x = contents (mem s) y), s)"
  using assms Equal_run [of s x y] Equal_different_length [of x y s] by (cases "slen x = slen y") auto

theorem Equal_contents_witness:
  "Equal (data (bufs w_buf 0)) (data (bufs w_buf 0)) w_buf = (Ret True, w_buf) \<and>
   Equal (data (bufs w_buf 0)) NilSlice w_buf = (Ret False, w_buf)"
  using Equal_contents [of "data (bufs w_buf 0)" "data (bufs w_buf 0)" w_buf] Equal_contents [of "data (bufs w_buf 0)" NilSlice w_buf]
    guarded_data(1) [OF w_buf_sane(13)] w_buf_sane(8) by simp

text \<open>
  \<^verbatim>\<open>Copy\<close> copies as many bytes as fit, like the builtin: the rest of the destination and all of the
  source are as before.
\<close>

theorem Copy_prefix:
  assumes "wf_slice dst" and "wf_slice src" and "writable (mem s) dst" and "readable (mem s) src" and "apart dst src"
  shows "\<exists>t. Copy dst src s = (Ret (), t) \<and>
     contents (mem t) dst = take (slen dst) (contents (mem s) src) @ drop (slen src) (contents (mem s) dst) \<and>
     contents (mem t) src = contents (mem s) src"
proof -
  have fit: "fits (mem s) dst" "fits (mem s) src" using assms(3,4) by (auto simp: writable_fits readable_fits)
  then have "copied (contents (mem s) dst) (contents (mem s) src) = take (slen dst) (contents (mem s) src) @ drop (slen src) (contents (mem s) dst)"
    by (simp add: copied_def)
  then show ?thesis
    using Copy_run [OF assms] fit assms(5) length_copied [of "contents (mem s) dst"] by (simp add: contents_put_apart)
qed

theorem Copy_prefix_witness:
  "\<exists>t. Copy (data (bufs w_user 0)) w_sl w_user = (Ret (), t) \<and> contents (mem t) (data (bufs w_user 0)) = [1, 2, 3, 0, 0]"
proof -
  note b = w_user_buf and g = guarded_data [OF session_D(2) [OF w_user_facts(1) w_user_buf(1)]]
  have w: "wf_slice w_sl" "slen w_sl = 3" "apart (data (bufs w_user 0)) w_sl"
    using apart_gc(1) [OF w_user_facts(1) b(1)] by (simp_all add: w_sl_def wf_slice_def)
  show ?thesis
    using Copy_prefix [OF g(3) w(1) g(2) [OF b(2)] writable_readable [OF w_user_facts(5)] w(3)] w_user_facts(4) b(3,4) w(2)
    by auto
qed

text \<open>\<^verbatim>\<open>Move\<close> is \<^verbatim>\<open>Copy\<close> and then zeroes the whole source, also the part that did not fit.\<close>

theorem Move_wipes:
  assumes "wf_slice dst" and "wf_slice src" and "writable (mem s) dst" and "writable (mem s) src" and "apart dst src"
  shows "\<exists>t. Move dst src s = (Ret (), t) \<and>
     contents (mem t) dst = take (slen dst) (contents (mem s) src) @ drop (slen src) (contents (mem s) dst) \<and>
     contents (mem t) src = replicate (slen src) 0"
proof -
  have fit: "fits (mem s) dst" "fits (mem s) src" using assms(3,4) by (auto simp: writable_fits)
  then have "copied (contents (mem s) dst) (contents (mem s) src) = take (slen dst) (contents (mem s) src) @ drop (slen src) (contents (mem s) dst)"
    by (simp add: copied_def)
  then show ?thesis
    using Move_run [OF assms] fit assms(5) apart_sym [of dst src] length_copied [of "contents (mem s) dst"]
    by (simp add: contents_put_apart)
qed

theorem Move_wipes_witness:
  "\<exists>t. Move (data (bufs w_user 0)) w_sl w_user = (Ret (), t) \<and>
     contents (mem t) (data (bufs w_user 0)) = [1, 2, 3, 0, 0] \<and> contents (mem t) w_sl = [0, 0, 0]"
proof -
  note b = w_user_buf and g = guarded_data [OF session_D(2) [OF w_user_facts(1) w_user_buf(1)]]
  have w: "wf_slice w_sl" "slen w_sl = 3" "apart (data (bufs w_user 0)) w_sl"
    using apart_gc(1) [OF w_user_facts(1) b(1)] by (simp_all add: w_sl_def wf_slice_def)
  show ?thesis
    using Move_wipes [OF g(3) w(1) g(2) [OF b(2)] w_user_facts(5) w(3)] w_user_facts(4) b(3,4) w(2)
    by (auto simp: eval_nat_numeral)
qed

subsection \<open>core/auxiliary.go\<close>

text \<open>
  \<^verbatim>\<open>roundToPageSize\<close> computes with a mask the least multiple of the page size that is not smaller than
  its argument.
\<close>

theorem roundToPageSize_least:
  assumes "page_ok E" and "0 < n" and "n \<le> 2 ^ 62"
  shows "int (pageSize E) dvd roundToPageSize E n \<and> n \<le> roundToPageSize E n \<and>
     (\<forall>m. int (pageSize E) dvd m \<and> n \<le> m \<longrightarrow> roundToPageSize E n \<le> m)"
proof -
  obtain il where il: "roundToPageSize E n = int il" "pageSize E dvd il" "n \<le> int il" "int il < n + int (pageSize E)" "0 < pageSize E"
    using round_facts [OF assms] by blast
  have "int il \<le> m" if "int (pageSize E) dvd m" "n \<le> m" for m
  proof (rule ccontr)
    assume "\<not> int il \<le> m"
    moreover have "int (pageSize E) dvd int il - m" using that(1) il(2) by simp
    ultimately have "int (pageSize E) \<le> int il - m" by (intro zdvd_imp_le) simp_all
    then show False using that(2) il(4) by linarith
  qed
  then show ?thesis using il by simp
qed

theorem roundToPageSize_least_witness: "int (pageSize simE) dvd roundToPageSize simE 13 \<and> 13 \<le> roundToPageSize simE 13"
  using roundToPageSize_least [OF simE_ok(6), of 13] by simp

text \<open>
  There is no check for overflow: within a page of the largest \<^verbatim>\<open>int\<close> the sum wraps around, and the rounded
  length is the smallest \<^verbatim>\<open>int\<close>, which is negative.
\<close>

theorem roundToPageSize_overflow:
  assumes "page_ok E" and "2 ^ 63 - int (pageSize E) < n" and "n < 2 ^ 63"
  shows "roundToPageSize E n = - (2 ^ 63)"
proof -
  obtain k where k: "k < 60" "pageSize E = 2 ^ k" using assms(1) by (auto simp: page_ok_def)
  let ?x = "n + (2 ^ k - 1) :: int"
  define y where "y = n + (2 ^ k - 1) - 2 ^ 63"
  have y: "0 \<le> y" "y < 2 ^ k" using assms(2,3) k(2) by (simp_all add: y_def)
  have "(2 :: int) ^ 63 = 2 ^ (63 - k) * 2 ^ k" using k(1) by (simp only: power_add [symmetric]) simp
  then have "?x = y + 2 ^ (63 - k) * 2 ^ k" by (simp add: y_def)
  then have "?x mod 2 ^ k = y" using y by (simp only: mod_mult_self1 mod_pos_pos_trivial)
  then have "?x - ?x mod 2 ^ k = 2 ^ 63" by (simp add: y_def)
  then have "roundToPageSize E n = go_int (2 ^ 63)" by (simp only: roundToPageSize_wrap [OF k(2)])
  also have "\<dots> = - (2 ^ 63)" by (simp add: go_int_def)
  finally show ?thesis .
qed

theorem roundToPageSize_overflow_witness: "roundToPageSize simE (2 ^ 63 - 1) = - (2 ^ 63)"
  using roundToPageSize_overflow [OF simE_ok(6), of "2 ^ 63 - 1"] by (simp add: simE_def)

end
