(* ===== verification/Buffer_Props.thy ===== *)
theory Buffer_Props
  imports Sim
begin

text \<open>
  The properties of \<^verbatim>\<open>core/buffer.go\<close>, \<^verbatim>\<open>Purge\<close> and \<^verbatim>\<open>Panic\<close>, each followed by its instance at a concrete
  state.
\<close>

subsection \<open>Construction\<close>

text \<open>
  C14. \<^verbatim>\<open>NewBuffer(n)\<close> gives a new, listed, mutable buffer of \<open>n\<close> zero bytes that lies at the end of its inner pages
  between two inaccessible guard pages, is locked into memory and has an intact canary; no other buffer is
  touched. A size below one is the error \<^verbatim>\<open>ErrNullBuffer\<close> and has no effect.
\<close>

theorem NewBuffer_guarded:
  assumes "env_works E" and "session E s" and "n \<le> 2 ^ 62"
  shows "if n < 1 then NewBuffer E n s = (Ret (Inl ErrNullBuffer), s)
     else \<exists>t. NewBuffer E n s = (Ret (Inr (nbufs s)), t) \<and> session E t \<and> guarded E t (nbufs s) \<and> canary_ok t (nbufs s) \<and>
       mutable (bufs t (nbufs s)) \<and> contents (mem t) (data (bufs t (nbufs s))) = replicate (nat n) 0 \<and>
       blist t = blist s @ [nbufs s] \<and> (\<forall>b \<in> set (blist s). keep s t b)"
proof (cases "n < 1")
  case True
  then show ?thesis by (simp add: NewBuffer_def exec)
next
  case False
  then obtain k where k: "n = int k" "0 < k" "int k \<le> 2 ^ 62" using assms(3) zero_le_imp_eq_int [of n] by auto
  have page: "page_ok E" using assms(1) by (rule env_works_D)
  let ?t = "newbuf_state E k s"
  have "NewBuffer E n s = (Ret (Inr (nbufs s)), ?t)"
    unfolding k(1) by (rule NewBuffer_run [OF assms(1) k(2,3)]) (rule locks_free_D [OF session_D(1) [OF assms(2)]])
  moreover have "session E ?t" by (rule newbuf_session [OF assms(2) page k(2,3)])
  moreover have "\<forall>b \<in> set (blist s). keep s ?t b" using extends_D(1) [OF newbuf_extends [OF assms(2)]] by blast
  ultimately show ?thesis using newbuf_facts [OF page k(2,3), of s] False k(1) by (intro if_not_P [THEN iffD2] exI [of _ ?t]) auto
qed

theorem NewBuffer_guarded_witness:
  "session simE w_buf \<and> NewBuffer simE 0 w_buf = (Ret (Inl ErrNullBuffer), w_buf) \<and>
   (\<exists>t. NewBuffer simE 3 w_buf = (Ret (Inr 1), t) \<and> contents (mem t) (data (bufs t 1)) = [0, 0, 0] \<and> blist t = [0, 1])"
  using NewBuffer_guarded [OF simE_works w_buf_sane(4), of 0] NewBuffer_guarded [OF simE_works w_buf_sane(4), of 3]
    w_buf_sane(4,6,12) by (auto simp: eval_nat_numeral)

subsection \<open>Destruction\<close>

text \<open>
  C15. \<^verbatim>\<open>Destroy\<close> of a buffer with an intact canary always succeeds: its memory is unmapped, the object is reset to
  its zero value, it leaves the list, and every other buffer is untouched.
\<close>

theorem Destroy_releases:
  assumes "env_works E" and "session E s" and "own s b" and "canary_ok s b"
  shows "\<exists>t. Destroy E b s = (Ret (), t) \<and> session E t \<and> bufs t b = zero_Buffer \<and>
     regs (mem t) (buf_base (bufs s b)) = no_region \<and> b \<notin> set (blist t) \<and>
     (\<forall>c \<in> set (blist s) - {b}. c \<in> set (blist t) \<and> keep s t c)"
proof -
  note ok = env_works_D [OF assms(1)]
  have b: "b \<in> set (blist s)" "b \<notin> refs s (key s)" using assms(3) by (simp_all add: own_def)
  have "Destroy E b s = (Ret (), removed_state b s)"
    by (rule Destroy_tidy [OF ok(1,2) session_tidy [OF assms(2)] b(1) assms(4)])
  moreover have "regs (mem (removed_state b s)) (buf_base (bufs s b)) = no_region"
    by (simp add: removed_state_def destroyed_state_def)
  ultimately show ?thesis
    using removed_session [OF assms(2) b] session_D(5) [OF assms(2)] destroyed_other [OF assms(2) b(1)]
    by (intro exI [of _ "removed_state b s"]) (auto simp: in_set_remove1)
qed

theorem Destroy_releases_witness:
  "own w_buf 0 \<and> canary_ok w_buf 0 \<and> (\<exists>t. Destroy simE 0 w_buf = (Ret (), t) \<and> bufs t 0 = zero_Buffer \<and> 0 \<notin> set (blist t))"
  using Destroy_releases [OF simE_works w_buf_sane(4,2,9)] w_buf_sane(2,9) by auto

text \<open>A buffer whose canary was overwritten.\<close>

definition w_bad :: world where
  "w_bad = w_buf\<lparr>mem := put (mem w_buf) (canary (bufs w_buf 0)) [9, 9, 9]\<rparr>"

lemma sim_round: "roundToPageSize simE 5 = 8"
  by (simp add: roundToPageSize_def simE_def)

lemma w_buf_canary: "contents (mem w_buf) (canary (bufs w_buf 0)) = [1, 2, 3]"
  "canary (bufs w_buf 0) = Slice (Sys 0) 8 3 3" "preguard (bufs w_buf 0) = Slice (Sys 0) 0 8 8"
  "length (rbytes (regs (mem w_buf) (Sys 0))) = 24" "buf_base (bufs w_buf 0) = Sys 0"
proof -
  have ps: "pageSize simE = 8" by (simp add: simE_def)
  have cs: "rand_bytes simE 0 3 = [1, 2, 3]" by (simp add: rand_bytes_def simE_def upt_rec)
  have B: "bufs w_buf 0 = buffer_at simE 5 8 (Sys 0)" and R: "regs (mem w_buf) (Sys 0) = new_region simE 5 8 [1, 2, 3]"
    using cs by (simp_all add: w_buf_def newbuf_state_def sim_round init_world_def init_mem_def Let_def)
  show "canary (bufs w_buf 0) = Slice (Sys 0) 8 3 3" "preguard (bufs w_buf 0) = Slice (Sys 0) 0 8 8"
      "buf_base (bufs w_buf 0) = Sys 0"
    by (simp_all add: B buffer_at_def ps buf_base_def)
  then show "contents (mem w_buf) (canary (bufs w_buf 0)) = [1, 2, 3]"
    by (simp add: R new_region_def ps Let_def sub_def)
  show "length (rbytes (regs (mem w_buf) (Sys 0))) = 24" by (simp add: R new_region_def ps Let_def)
qed

lemma w_bad_facts: "session simE w_bad" "own w_bad 0" "\<not> canary_ok w_bad 0" "blist w_bad = [0]" "data (bufs w_bad 0) = data (bufs w_buf 0)"
  "slen (data (bufs w_bad 0)) = 5" "\<not> clean w_bad" "guarded simE w_bad 0"
proof -
  have o: "bufs w_bad = bufs w_buf" "blist w_bad = [0]" "key w_bad = key w_buf" "coffers w_bad = coffers w_buf"
      "ncoffers w_bad = ncoffers w_buf" "nbufs w_bad = nbufs w_buf" "locks w_bad = locks w_buf"
    using w_buf_sane(6) by (simp_all add: w_bad_def)
  have m: "mem w_bad = put (mem w_buf) (Slice (Sys 0) 8 3 3) [9, 9, 9]" by (simp add: w_bad_def w_buf_canary(2))
  show g: "guarded simE w_bad 0"
    using w_buf_sane(13) w_buf_canary(4,5) by (simp add: guarded_def mapped_def Let_def o m)
  show "session simE w_bad"
    by (rule session_same_list [OF w_buf_sane(4)]) (use o g w_buf_sane(6) in auto)
  show "blist w_bad = [0]" "own w_bad 0" "data (bufs w_bad 0) = data (bufs w_buf 0)" "slen (data (bufs w_bad 0)) = 5"
    using w_buf_sane(2,8) o w_buf_sane(6) by (simp_all add: own_def refs_def)
  have "contents (mem w_bad) (Slice (Sys 0) 8 3 3) = [9, 9, 9]" using w_buf_canary(4) by (simp add: m)
  moreover have "contents (mem w_bad) (Slice (Sys 0) 0 8 8) = contents (mem w_buf) (Slice (Sys 0) 0 8 8)"
    using w_buf_canary(4) unfolding m by (intro contents_put_apart) simp_all
  moreover have "take 3 (contents (mem w_buf) (Slice (Sys 0) 0 8 8)) = [1, 2, 3]"
    using w_buf_sane(9) w_buf_canary(1,2,3) by (auto simp: canary_ok_def Let_def simp del: contents.simps)
  ultimately show "\<not> canary_ok w_bad 0"
    using w_buf_canary(2,3) o by (simp add: canary_ok_def Let_def del: contents.simps)
  then show "\<not> clean w_bad" by (simp add: clean_def o)
qed

text \<open>
  C16. A buffer overflow is noticed: when the canary or a guard page was overwritten, \<^verbatim>\<open>destroy\<close> reports it, after it
  has wiped the data; the memory is not released, and the buffer stays alive.
\<close>

theorem destroy_detects_overflow:
  assumes "env_works E" and "guarded E s b" and "\<not> canary_ok s b" and "locks s (BufLock b) = Unlocked"
  shows "\<exists>t. destroy E (Some b) s = (Ret (Some canaryErr), t) \<and> alive (bufs t b) \<and> data (bufs t b) = data (bufs s b) \<and>
     contents (mem t) (data (bufs t b)) = replicate (slen (data (bufs s b))) 0 \<and> blist t = blist s"
proof -
  note ok = env_works_D [OF assms(1)]
  have "destroy E (Some b) s = (Ret (Some canaryErr), broken_state b s)"
    using destroy_run [OF ok(1,2) guarded_mapped(2,1) [OF assms(2)] assms(4)] assms(3) by simp
  moreover have "writable (set_prot (memory (bufs s b)) ReadWrite (mem s)) (data (bufs s b))"
    by (rule mapped_open [OF guarded_mapped(1) [OF assms(2)]])
  ultimately show ?thesis
    using guarded_mapped(2) [OF assms(2)] by (auto simp: broken_state_def writable_fits)
qed

theorem destroy_detects_overflow_witness:
  "\<not> canary_ok w_bad 0 \<and> (\<exists>t. destroy simE (Some 0) w_bad = (Ret (Some canaryErr), t) \<and> alive (bufs t 0) \<and>
     contents (mem t) (data (bufs t 0)) = [0, 0, 0, 0, 0])"
  using destroy_detects_overflow [OF simE_works w_bad_facts(8,3) locks_free_D [OF session_D(1) [OF w_bad_facts(1)]]] w_bad_facts(3,6)
  by (auto simp: eval_nat_numeral)

subsection \<open>Purge and Panic\<close>

text \<open>
  C17. \<^verbatim>\<open>Purge\<close> of a session with intact canaries returns, no buffer is listed any more, every buffer that was, the
  key's included, is unmapped and reset, the key counts as destroyed, and the session is ready for use.
\<close>

theorem Purge_destroys_all:
  assumes "env_works E" and "session E s" and "clean s"
  shows "\<exists>t. Purge E s = (Ret (), t) \<and> blist t = [] \<and> session E t \<and> is_destroyed t (key t) \<and>
     (\<forall>b \<in> set (blist s). bufs t b = zero_Buffer \<and> regs (mem t) (buf_base (bufs s b)) = no_region)"
proof -
  note ok = env_works_D [OF assms(1)]
  have can: "\<forall>b \<in> set (blist s). canary_ok s b" using assms(3) by (simp add: clean_def)
  show ?thesis
    using Purge_run_ok [OF ok(1,2) session_D(4,1) [OF assms(2)] can] purged_session [OF assms(2) can]
      purged_listed(2) [OF assms(2)] can by (intro exI [of _ "purged s"]) auto
qed

theorem Purge_destroys_all_witness:
  "clean w_key \<and> blist w_key \<noteq> [] \<and> (\<exists>t. Purge simE w_key = (Ret (), t) \<and> blist t = [] \<and> is_destroyed t (key t) \<and> bufs t 0 = zero_Buffer)"
proof -
  have "0 \<in> set (blist w_key)" using w_key_facts(6) by (simp add: own_def)
  then show ?thesis using Purge_destroys_all [OF simE_works w_key_facts(3,4)] w_key_facts(4) by fastforce
qed

text \<open>
  C18. \<^verbatim>\<open>Purge\<close> panics exactly when some canary is damaged, and even then every buffer with an intact canary is
  unmapped and the data of every other is wiped.
\<close>

theorem Purge_panics_iff:
  assumes "env_works E" and "session E s"
  shows "\<exists>r t. Purge E s = (r, t) \<and> (r = Ret () \<longleftrightarrow> clean s) \<and> (clean s \<or> (\<exists>e. r = Panicked (PErr e))) \<and> blist t = [] \<and>
     (\<forall>b \<in> set (blist s). if canary_ok s b then regs (mem t) (buf_base (bufs s b)) = no_region
        else contents (mem t) (data (bufs s b)) = replicate (slen (data (bufs s b))) 0)"
proof -
  note ok = env_works_D [OF assms(1)]
  let ?e = "purge_err (blist s) s None"
  have "?e = None \<longleftrightarrow> clean s" by (simp add: purge_err_eq_None clean_def)
  then show ?thesis
    using Purge_run [OF ok(1,2) session_D(4,1) [OF assms(2)]] purged_listed [OF assms(2)]
    by (cases ?e) (auto intro!: exI [of _ "purged s"])
qed

theorem Purge_panics_iff_witness:
  "\<not> clean w_bad \<and> (\<exists>e t. Purge simE w_bad = (Panicked (PErr e), t) \<and> contents (mem t) (data (bufs w_bad 0)) = [0, 0, 0, 0, 0])"
  using Purge_panics_iff [OF simE_works w_bad_facts(1)] w_bad_facts(3,4,6,7) by (auto simp: eval_nat_numeral)

text \<open>
  \<^verbatim>\<open>Panic(v)\<close> purges the session and panics with \<open>v\<close>, unless a canary is damaged: then the panic value is the
  error of the purge and \<open>v\<close> is lost.
\<close>

theorem Panic_value:
  assumes "env_works E" and "session E s"
  shows "\<exists>e. (Panic E v :: 'a go) s = (Panicked (if clean s then v else PErr e), purged s)"
proof -
  note ok = env_works_D [OF assms(1)]
  have "purge_err (blist s) s None = None \<longleftrightarrow> clean s" by (simp add: purge_err_eq_None clean_def)
  then show ?thesis
    using Purge_run [OF ok(1,2) session_D(4,1) [OF assms(2)]]
    by (cases "purge_err (blist s) s None") (auto simp: Panic_def bind_def exec)
qed

theorem Panic_value_witness:
  "(\<exists>e. (Panic simE (PStr ''boom'') :: unit go) w_bad = (Panicked (PErr e), purged w_bad)) \<and>
   (Panic simE (PStr ''boom'') :: unit go) w_buf = (Panicked (PStr ''boom''), purged w_buf)"
  using Panic_value [OF simE_works w_bad_facts(1), of "PStr ''boom''", where ?'a = unit]
    Panic_value [OF simE_works w_buf_sane(4), of "PStr ''boom''", where ?'a = unit] w_bad_facts(7) w_buf_sane(3) by auto

subsection \<open>Freezing and melting\<close>

text \<open>
  After \<^verbatim>\<open>Freeze\<close> the program can read every byte of a buffer and cannot write any: a write is a memory fault.
  The data is unchanged, and freezing again changes nothing.
\<close>

theorem Freeze_protects:
  assumes "env_works E" and "sane E s" and "own s b"
  shows "\<exists>t. Freeze E b s = (Ret (), t) \<and> sane E t \<and> contents (mem t) (data (bufs t b)) = contents (mem s) (data (bufs s b)) \<and>
     (\<forall>i < slen (data (bufs s b)). \<forall>v. idx_set (data (bufs t b)) i v t = (Crash, t) \<and>
        idx_get (data (bufs t b)) i t = (Ret (contents (mem s) (data (bufs s b)) ! i), t)) \<and>
     Freeze E b t = (Ret (), t)"
proof -
  note B = sane_buffer [OF assms]
  let ?t = "frozen_state b s"
  have s: "session E s" "b \<in> set (blist s)" using assms(2,3) by (simp_all add: sane_def own_def)
  have st: "session E ?t" "b \<in> set (blist ?t)" using B(2) s(2) by (simp_all add: sane_def)
  note g = session_D(2) [OF st]
  have al: "alive (bufs s b)" by (rule guarded_mapped [OF session_D(2) [OF s]])
  have im: "\<not> mutable (bufs ?t b)" using al by (simp add: frozen_state_def)
  have same: "data (bufs ?t b) = data (bufs s b)" by simp
  have "own ?t b" using assms(3) by (simp add: own_def refs_def)
  then have "Freeze E b ?t = (Ret (), frozen_state b ?t)" by (rule sane_buffer(1) [OF assms(1) B(2)])
  moreover have "frozen_state b ?t = ?t" using im by (simp add: frozen_state_def [of b ?t])
  ultimately show ?thesis
    using B(1,2) frozen_data [OF g im] idx_get_run [OF _ guarded_data(1) [OF g]] same
    by (intro exI [of _ ?t]) simp
qed

theorem Freeze_protects_witness:
  "\<exists>t. Freeze simE 0 w_buf = (Ret (), t) \<and> idx_set (data (bufs t 0)) 2 7 t = (Crash, t) \<and> idx_get (data (bufs t 0)) 2 t = (Ret 0, t)"
  using Freeze_protects [OF simE_works w_buf_sane(1,2)] w_buf_sane(8,11) by auto

text \<open>
  \<^verbatim>\<open>Melt\<close> after \<^verbatim>\<open>Freeze\<close> gives the buffer back as it was: mutable, with its data, and a write of the program
  takes effect.
\<close>

theorem Melt_Freeze:
  assumes "env_works E" and "sane E s" and "own s b"
  shows "\<exists>t u. Freeze E b s = (Ret (), t) \<and> Melt E b t = (Ret (), u) \<and> sane E u \<and> mutable (bufs u b) \<and>
     contents (mem u) (data (bufs u b)) = contents (mem s) (data (bufs s b)) \<and>
     (\<forall>i < slen (data (bufs s b)). \<forall>v. \<exists>w. idx_set (data (bufs u b)) i v u = (Ret (), w) \<and>
        contents (mem w) (data (bufs u b)) = (contents (mem s) (data (bufs s b)))[i := v])"
proof -
  note B = sane_buffer [OF assms]
  let ?t = "frozen_state b s"
  have ot: "own ?t b" using assms(3) by (simp add: own_def refs_def)
  note M = sane_buffer [OF assms(1) B(2) ot]
  let ?u = "melted_state b ?t"
  have s: "session E s" "b \<in> set (blist s)" using assms(2,3) by (simp_all add: sane_def own_def)
  have su: "session E ?u" "b \<in> set (blist ?u)" using M(4) s(2) by (simp_all add: sane_def)
  note g = session_D(2) [OF su]
  have al: "alive (bufs s b)" by (rule guarded_mapped [OF session_D(2) [OF s]])
  have mu: "mutable (bufs ?u b)" using al by (simp add: frozen_state_def melted_state_def)
  have same: "data (bufs ?u b) = data (bufs s b)" "contents (mem ?u) sl = contents (mem s) sl" for sl by simp_all
  note gd = guarded_data [OF g]
  have "\<exists>w. idx_set (data (bufs ?u b)) i v ?u = (Ret (), w) \<and>
      contents (mem w) (data (bufs ?u b)) = (contents (mem s) (data (bufs s b)))[i := v]" if "i < slen (data (bufs s b))" for i v
    using that idx_set_run [OF _ gd(2) [OF mu], of i v] gd(7) guarded_data(7) [OF session_D(2) [OF s]] same by simp
  then show ?thesis using B(1) M(3,4) mu same by (intro exI [of _ ?t] exI [of _ ?u]) simp
qed

theorem Melt_Freeze_witness:
  "\<exists>t u w. Freeze simE 0 w_buf = (Ret (), t) \<and> Melt simE 0 t = (Ret (), u) \<and> idx_set (data (bufs u 0)) 2 7 u = (Ret (), w) \<and>
     contents (mem w) (data (bufs u 0)) = [0, 0, 7, 0, 0]"
proof -
  obtain t u where tu: "Freeze simE 0 w_buf = (Ret (), t)" "Melt simE 0 t = (Ret (), u)"
      "\<forall>i < 5. \<forall>v. \<exists>w. idx_set (data (bufs u 0)) i v u = (Ret (), w) \<and> contents (mem w) (data (bufs u 0)) = [0, 0, 0, 0, 0][i := v]"
    using Melt_Freeze [OF simE_works w_buf_sane(1,2)] w_buf_sane(8,11) by auto
  have "2 < (5 :: nat)" by simp
  with tu(3) obtain w where "idx_set (data (bufs u 0)) 2 7 u = (Ret (), w)" "contents (mem w) (data (bufs u 0)) = [0, 0, 0, 0, 0][2 := 7]"
    by blast
  with tu(1,2) show ?thesis by (intro exI [of _ t] exI [of _ u] exI [of _ w]) (simp add: eval_nat_numeral)
qed

subsection \<open>The list of active buffers\<close>

text \<open>
  \<^verbatim>\<open>bufferList\<close> behaves as a registry: a buffer that was added is found, one that was added and removed leaves
  the list as it was, and after \<^verbatim>\<open>flush\<close> nothing is found.
\<close>

theorem bufferList_registry:
  assumes "locks s ListLock = Unlocked" and "b \<notin> set (blist s)"
  shows "(\<exists>t. bind (list_add [b]) (\<lambda>_. list_exists b) s = (Ret True, t)) \<and>
     (\<exists>t. bind (list_add [b]) (\<lambda>_. list_remove (Some b)) s = (Ret (), t) \<and> blist t = blist s) \<and>
     (\<exists>t. bind list_flush (\<lambda>_. list_exists c) s = (Ret False, t))"
  using active.has_after_add [OF assms(1), of "[b]" b] active.del_after_add [OF assms] active.has_after_flush [OF assms(1), of c]
  by auto

theorem bufferList_registry_witness:
  "5 \<notin> set (blist w_buf) \<and> (\<exists>t. bind (list_add [5]) (\<lambda>_. list_exists 5) w_buf = (Ret True, t)) \<and>
   (\<exists>t. bind list_flush (\<lambda>_. list_exists 0) w_buf = (Ret False, t))"
  using bufferList_registry [OF locks_free_D [OF w_buf_sane(5)], of 5 0] w_buf_sane(6) by simp

end
