(* ===== verification/Key_Props.thy ===== *)
theory Key_Props
  imports Sim
begin

text \<open>
  The properties of \<^verbatim>\<open>core/coffer.go\<close> and of the global key of \<^verbatim>\<open>core/enclave.go\<close>, each followed by its instance
  at a concrete state.
\<close>

subsection \<open>The value\<close>

text \<open>
  C9. \<^verbatim>\<open>Rekey\<close> keeps the value of a coffer and changes what is stored: the right partition is masked with 32 fresh
  random bytes, the left one with the hashes of the old and the new right partition; every other buffer is untouched.
\<close>

theorem Rekey_keeps_value:
  assumes "env_works E" and "session E s" and "coffer_ok s c"
  shows "\<exists>t. Rekey E c s = (Ret None, t) \<and> session E t \<and> coffer_ok t c \<and> coffer_value E t c = coffer_value E s c \<and>
     part t (right (coffers t c)) = xorl (part s (right (coffers s c))) (rand_bytes E (rpos s) 32) \<and>
     part t (left (coffers t c)) = xorl (part s (left (coffers s c)))
       (xorl (blake2b E (part s (right (coffers s c)))) (blake2b E (part t (right (coffers t c))))) \<and>
     (\<forall>b \<in> set (blist s) - refs s c. keep s t b)"
proof -
  obtain t l r where t: "Rekey E c s = (Ret None, t)" "session E t" "same_objs s t"
      "left (coffers s c) = Some l" "right (coffers s c) = Some r" "coffer_value E t c = coffer_value E s c"
      "part t (Some r) = xorl (part s (Some r)) (rand_bytes E (rpos s) 32)"
      "part t (Some l) = xorl (part s (Some l)) (xorl (blake2b E (part s (Some r))) (blake2b E (part t (Some r))))"
      "\<And>b. b \<in> set (blist s) \<Longrightarrow> b \<notin> refs s c \<Longrightarrow> keep s t b"
    by (rule Rekey_run [OF assms]) (rule that)
  have "coffers t = coffers s" using t(3) by (simp add: same_objs_def)
  then show ?thesis
    using t same_objs_coffer_ok [OF t(3)] assms(3) by (intro exI [of _ t]) simp
qed

theorem Rekey_keeps_value_witness:
  "coffer_ok w_key (key w_key) \<and> (\<exists>t. Rekey simE (key w_key) w_key = (Ret None, t) \<and>
     coffer_value simE t (key w_key) = coffer_value simE w_key (key w_key))"
  using Rekey_keeps_value [OF simE_works w_key_facts(3,5)] w_key_facts(5) by auto

text \<open>
  C10. \<^verbatim>\<open>View\<close> gives a new buffer that holds the 32 bytes of the value; nothing that existed changes.
\<close>

theorem View_gives_value:
  assumes "env_works E" and "session E s" and "coffer_ok s c"
  shows "\<exists>t. View E c s = (Ret (Inr (nbufs s)), t) \<and> session E t \<and> extends s t \<and> blist t = blist s @ [nbufs s] \<and>
     slen (data (bufs t (nbufs s))) = 32 \<and> contents (mem t) (data (bufs t (nbufs s))) = coffer_value E s c"
  using View_run [OF assms] by metis

theorem View_gives_value_witness:
  "\<exists>t. View simE (key w_key) w_key = (Ret (Inr (nbufs w_key)), t) \<and>
     contents (mem t) (data (bufs t (nbufs w_key))) = coffer_value simE w_key (key w_key)"
  using View_gives_value [OF simE_works w_key_facts(3,5)] by auto

text \<open>
  \<^verbatim>\<open>NewCoffer\<close> makes a coffer in use out of three new buffers, its value is 32 consecutive bytes of the random
  source, and it starts the re-key goroutine; nothing that existed changes.
\<close>

theorem NewCoffer_random_value:
  assumes "env_works E" and "session E s"
  shows "\<exists>t. NewCoffer E s = (Ret (ncoffers s), t) \<and> session E t \<and> extends s t \<and> coffer_ok t (ncoffers s) \<and>
     rekeyers t = rekeyers s @ [ncoffers s] \<and> nbufs t = nbufs s + 3 \<and> (\<exists>i. coffer_value E t (ncoffers s) = rand_bytes E i 32)"
  using NewCoffer_run [OF assms] by metis

theorem NewCoffer_random_value_witness:
  "\<exists>t. NewCoffer simE init_world = (Ret 1, t) \<and> coffer_ok t 1 \<and> rekeyers t = [1] \<and> nbufs t = 3"
  using NewCoffer_random_value [OF simE_works, of init_world] init_sane [of simE] by (auto simp: sane_def init_world_def)

subsection \<open>Destroyed coffers\<close>

text \<open>
  A destroyed coffer refuses every use: \<^verbatim>\<open>Init\<close>, \<^verbatim>\<open>View\<close> and \<^verbatim>\<open>Rekey\<close> return \<^verbatim>\<open>ErrCofferExpired\<close> and change nothing.
\<close>

theorem destroyed_coffer_expired:
  assumes "locks_free s" and "is_destroyed s c"
  shows "Init E c s = (Ret (Some ErrCofferExpired), s) \<and> View E c s = (Ret (Inl ErrCofferExpired), s) \<and>
     Rekey E c s = (Ret (Some ErrCofferExpired), s)"
  using expired_runs [OF assms] by simp

theorem destroyed_coffer_expired_witness:
  "is_destroyed w_buf (key w_buf) \<and> View simE (key w_buf) w_buf = (Ret (Inl ErrCofferExpired), w_buf)"
  using destroyed_coffer_expired [OF w_buf_sane(5,10)] w_buf_sane(10) by simp

text \<open>
  \<^verbatim>\<open>Destroy\<close> of a coffer in use removes its three buffers and ends its re-key cycle: the next period finds the
  coffer destroyed and the goroutine returns.
\<close>

theorem Coffer_Destroy_ends_cycle:
  assumes "env_works E" and "session E s" and "clean s" and "coffer_ok s c"
  shows "\<exists>t u. Coffer_Destroy E c s = (Ret None, t) \<and> is_destroyed t c \<and> set (blist t) = set (blist s) - refs s c \<and>
     (\<forall>b \<in> refs s c. bufs t b = zero_Buffer) \<and> rekey_tick E c t = (Ret (), u) \<and> rekeyers u = remove1 c (rekeyers s)"
proof -
  have can: "\<forall>b \<in> refs s c. canary_ok s b"
    using assms(3,4) by (elim coffer_ok_D) (auto simp: refs_def clean_def)
  obtain l r x where C: "left (coffers s c) = Some l" "right (coffers s c) = Some r" "rand (coffers s c) = Some x"
      and d: "Coffer_Destroy E c s = (Ret None, removed_state x (removed_state r (removed_state l s)))"
      "tidy E (removed_state x (removed_state r (removed_state l s)))"
    by (rule Coffer_Destroy_run [OF assms(1) session_tidy [OF assms(2)] assms(4) can]) (rule that)
  let ?t = "removed_state x (removed_state r (removed_state l s))"
  have refs: "refs s c = {l, r, x}" using C by (auto simp: refs_def)
  have gone: "is_destroyed ?t c" using C by (simp add: is_destroyed_def)
  have "set (blist ?t) = set (blist s) - refs s c" using session_D(5) [OF assms(2)] refs by (auto simp: set_remove1_eq)
  moreover have "\<forall>b \<in> refs s c. bufs ?t b = zero_Buffer" using refs by auto
  ultimately show ?thesis
    using d(1) gone rekey_tick_expired [OF tidy_D(1) [OF d(2)] gone, of E]
    by (intro exI [of _ ?t] exI [of _ "?t\<lparr>rekeyers := remove1 c (rekeyers s)\<rparr>"]) simp
qed

theorem Coffer_Destroy_ends_cycle_witness:
  "\<exists>t. Coffer_Destroy simE (key w_key) w_key = (Ret None, t) \<and> is_destroyed t (key w_key)"
  using Coffer_Destroy_ends_cycle [OF simE_works w_key_facts(3,4,5)] by auto

subsection \<open>What the locks and the hashes leave behind\<close>

text \<open>A failed allocation purges the session and panics with the error of the operating system.\<close>

lemma NewBuffer_alloc_fails:
  assumes "0 < n" and "fst (mcAlloc E (mcalls s) (mem s) (go_int (2 * int (pageSize E) + roundToPageSize E n))) = Inl e"
  obtains u where "NewBuffer E n s = Panic E (PErr e) u" and "locks u = locks s" and "key u = key s"
proof -
  obtain m where m: "mcAlloc E (mcalls s) (mem s) (go_int (2 * int (pageSize E) + roundToPageSize E n)) = (Inl e, m)"
    using assms(2) by (cases "mcAlloc E (mcalls s) (mem s) (go_int (2 * int (pageSize E) + roundToPageSize E n))") auto
  let ?u = "s\<lparr>bufs := (bufs s)(nbufs s := zero_Buffer), nbufs := Suc (nbufs s), mem := m, mcalls := Suc (mcalls s)\<rparr>"
  have "NewBuffer E n s = Panic E (PErr e) ?u"
    using assms(1) m by (simp add: NewBuffer_def bind_def new_Buffer_def memcall_Alloc_def)
  then show ?thesis by (rule that) simp_all
qed

text \<open>A purge blocks when the caller holds the lock of the key or of the key's coffer.\<close>

lemma Purge_blocks:
  assumes "locks s KeyMtx \<noteq> Unlocked \<or> locks s (CofLock (key s)) \<noteq> Unlocked"
  shows "\<exists>t. (Panic E v :: 'a go) s = (Blocked, t)"
proof -
  have "\<exists>t. purge_session E s = (Blocked, t)"
  proof (cases "locks s KeyMtx = Unlocked")
    case True
    let ?u = "set_rw KeyMtx WLocked s"
    have "Destroyed (Some (key ?u)) ?u = (Blocked, ?u)"
      using assms True unfolding Destroyed.simps by (intro with_lock_blocked) (simp add: set_rw_def)
    then show ?thesis using True by (simp add: purge_session_def with_lock_def deferred_def bind_def exec)
  next
    case False
    then show ?thesis by (simp add: purge_session_def with_lock_blocked)
  qed
  then show ?thesis by (auto simp: Panic_def Purge_def bind_def)
qed

text \<open>
  C32. \<^verbatim>\<open>View\<close> of the global key deadlocks when the operating system refuses the allocation of the new buffer:
  \<^verbatim>\<open>NewBuffer\<close> calls \<^verbatim>\<open>Panic\<close>, which purges the session, which waits for the lock of the key that \<^verbatim>\<open>View\<close> itself holds.
\<close>

theorem View_deadlock:
  assumes "session E s" and "coffer_ok s (key s)"
    and "\<And>k m n. fst (mcAlloc E k m n) = Inl err"
  shows "\<exists>t. View E (key s) s = (Blocked, t)"
proof -
  let ?c = "key s"
  let ?u = "set_rw (CofLock ?c) WLocked s"
  have free: "locks_free s" by (rule session_D [OF assms(1)])
  have d: "destroyed ?c ?u = (Ret False, ?u)"
    using oblivious_run [OF oblivious_destroyed destroyed_run [OF free]] coffer_not_destroyed [OF assms(1,2)] by simp
  obtain v where v: "NewBuffer E 32 ?u = Panic E (PErr err) v" "locks v = locks ?u" "key v = key ?u"
    using NewBuffer_alloc_fails [of 32 E ?u err] assms(3) by (metis zero_less_numeral)
  have "locks v (CofLock (key v)) \<noteq> Unlocked" using v(2,3) by (simp add: set_rw_def)
  then obtain t where "NewBuffer E 32 ?u = (Blocked, t)" using Purge_blocks [of v E "PErr err"] v(1) by auto
  then show ?thesis
    using d locks_free_D [OF free] by (simp add: View_def with_lock_def deferred_def bind_def)
qed

theorem View_deadlock_witness:
  "\<exists>s t. coffer_ok s (key s) \<and> View brokeE (key s) s = (Blocked, t)"
proof -
  have g: "guarded brokeE s b = guarded simE s b" for s b
    by (simp add: guarded_def mapped_def laid_out_def brokeE_def Let_def)
  have s: "session brokeE w_key" using w_key_facts(3) by (simp add: session_def g)
  show ?thesis
    using View_deadlock [OF s w_key_facts(5), of "OSErr ''ENOMEM''"] w_key_facts(5) by (auto simp: brokeE_def)
qed

text \<open>
  Creating the global key deadlocks in the same way: \<^verbatim>\<open>getOrCreateKey\<close> holds the key mutex while \<^verbatim>\<open>NewCoffer\<close>
  allocates, and the purge that a failed allocation starts waits for that mutex.
\<close>

theorem getOrCreateKey_deadlock:
  assumes "locks_free s" and "is_destroyed s (key s)" and "\<And>k m n. fst (mcAlloc E k m n) = Inl err"
  shows "\<exists>t. getOrCreateKey E s = (Blocked, t)"
proof -
  let ?u = "set_rw KeyMtx WLocked s"
  have d: "Destroyed (Some (key s)) ?u = (Ret True, ?u)"
    using oblivious_run [OF oblivious_Destroyed Destroyed_run [OF assms(1)], of KeyMtx] assms(2) by simp
  obtain w where w: "new_Coffer ?u = (Ret (ncoffers ?u), w)" "locks w = locks ?u" by (simp add: new_Coffer_def)
  obtain v where v: "NewBuffer E 32 w = Panic E (PErr err) v" "locks v = locks w"
    using NewBuffer_alloc_fails [of 32 E w err] assms(3) by (metis zero_less_numeral)
  have "locks v KeyMtx \<noteq> Unlocked" using v(2) w(2) by (simp add: set_rw_def)
  then obtain t where "NewBuffer E 32 w = (Blocked, t)" using Purge_blocks [of v E "PErr err"] v(1) by auto
  then have "NewCoffer E ?u = (Blocked, t)" using w(1) by (simp add: NewCoffer_def bind_def)
  then show ?thesis
    using d locks_free_D [OF assms(1)]
    by (simp add: getOrCreateKey_def with_lock_def deferred_def bind_def exec)
qed

theorem getOrCreateKey_deadlock_witness:
  "is_destroyed init_world (key init_world) \<and> (\<exists>t. getOrCreateKey brokeE init_world = (Blocked, t))"
proof -
  have "locks_free init_world" "is_destroyed init_world (key init_world)"
    by (simp_all add: locks_free_def init_world_def is_destroyed_def zero_Coffer_def)
  then show ?thesis
    using getOrCreateKey_deadlock [of init_world brokeE "OSErr ''ENOMEM''"] by (simp add: brokeE_def)
qed

text \<open>
  C34. \<^verbatim>\<open>Rekey\<close> wipes the hash of the new right partition but not that of the old one: it stays on the
  garbage-collected heap, and together with the left partition before the call it gives the key.
\<close>

theorem Rekey_leaves_hash:
  assumes "env_works E" and "session E s" and "coffer_ok s c"
  shows "\<exists>t h. Rekey E c s = (Ret None, t) \<and> \<not> old (mem s) h \<and>
     xorl (contents (mem t) h) (part s (left (coffers s c))) = coffer_value E s c"
proof -
  obtain t l r where t: "Rekey E c s = (Ret None, t)" "left (coffers s c) = Some l" "right (coffers s c) = Some r"
      "contents (mem t) (Slice (GC (gcnext (mem s))) 0 32 32) = blake2b E (part s (Some r))"
    by (rule Rekey_run [OF assms]) (rule that)
  then show ?thesis
    by (intro exI [of _ t] exI [of _ "Slice (GC (gcnext (mem s))) 0 32 32"])
      (simp add: coffer_value_def del: contents.simps)
qed

theorem Rekey_leaves_hash_witness:
  "\<exists>t h. Rekey simE (key w_key) w_key = (Ret None, t) \<and> \<not> old (mem w_key) h \<and>
     xorl (contents (mem t) h) (part w_key (left (coffers w_key (key w_key)))) = coffer_value simE w_key (key w_key)"
  by (rule Rekey_leaves_hash [OF simE_works w_key_facts(3,5)])

end
