(* ===== verification/Locked_Buffer.thy ===== *)
theory Locked_Buffer
  imports Steps
begin

text \<open>
  The exported package: \<^verbatim>\<open>LockedBuffer\<close> of \<^verbatim>\<open>buffer.go\<close>, \<^verbatim>\<open>Enclave\<close> of \<^verbatim>\<open>enclave.go\<close> and the functions of
  \<^verbatim>\<open>memguard.go\<close>. A \<^verbatim>\<open>LockedBuffer\<close> only embeds a pointer to a \<^verbatim>\<open>core.Buffer\<close> and is modelled by that pointer;
  \<^verbatim>\<open>Enclave\<close> likewise. The typed views of the memory are in theory \<open>Views\<close>, the constructors from readers in
  theory \<open>Readers\<close>.
\<close>

subsection \<open>buffer.go: constructors\<close>

definition newNullBuffer :: "nat go" where
  "newNullBuffer = new_Buffer"

definition memguard_NewBuffer :: "env \<Rightarrow> int \<Rightarrow> nat go" where
  "memguard_NewBuffer E n = bind (NewBuffer E n) (\<lambda>r. case r of Inl _ \<Rightarrow> newNullBuffer | Inr b \<Rightarrow> ret b)"

definition Bytes :: "nat \<Rightarrow> slice go" where
  "Bytes b = Data b"

definition Size :: "nat \<Rightarrow> int go" where
  "Size b = bind (Bytes b) (\<lambda>d. ret (int (slen d)))"

definition IsAlive :: "nat \<Rightarrow> bool go" where
  "IsAlive b = Alive b"

definition IsMutable :: "nat \<Rightarrow> bool go" where
  "IsMutable b = Mutable b"

subsection \<open>buffer.go: methods\<close>

definition LockedBuffer_Freeze :: "env \<Rightarrow> nat \<Rightarrow> unit go" where
  "LockedBuffer_Freeze E b = Freeze E b"

definition LockedBuffer_Melt :: "env \<Rightarrow> nat \<Rightarrow> unit go" where
  "LockedBuffer_Melt E b = Melt E b"

definition LockedBuffer_Destroy :: "env \<Rightarrow> nat \<Rightarrow> unit go" where
  "LockedBuffer_Destroy E b = Destroy E b"

text \<open>\<^verbatim>\<open>Seal\<close> returns \<open>None\<close> for a \<^verbatim>\<open>nil\<close> enclave.\<close>

definition LockedBuffer_Seal :: "env \<Rightarrow> nat \<Rightarrow> Enclave option go" where
  "LockedBuffer_Seal E b = bind (Seal E b) (\<lambda>r.
     case r of
       Inl e \<Rightarrow> if e = ErrBufferExpired then ret None else Panic E (PErr e)
     | Inr e \<Rightarrow> ret (Some e))"

definition CopyAt :: "nat \<Rightarrow> int \<Rightarrow> slice \<Rightarrow> unit go" where
  "CopyAt b offset src = bind (IsAlive b) (\<lambda>a.
     if \<not> a then ret ()
     else with_lock (BufLock b) (bind (Bytes b) (\<lambda>d. bind (slice_from d offset) (\<lambda>dst. Copy dst src))))"

definition LockedBuffer_Copy :: "nat \<Rightarrow> slice \<Rightarrow> unit go" where
  "LockedBuffer_Copy b src = CopyAt b 0 src"

definition MoveAt :: "nat \<Rightarrow> int \<Rightarrow> slice \<Rightarrow> unit go" where
  "MoveAt b offset src = bind (IsAlive b) (\<lambda>a.
     if \<not> a then ret ()
     else with_lock (BufLock b) (bind (Bytes b) (\<lambda>d. bind (slice_from d offset) (\<lambda>dst. Move dst src))))"

definition LockedBuffer_Move :: "nat \<Rightarrow> slice \<Rightarrow> unit go" where
  "LockedBuffer_Move b src = MoveAt b 0 src"

definition LockedBuffer_Scramble :: "env \<Rightarrow> nat \<Rightarrow> unit go" where
  "LockedBuffer_Scramble E b = bind (IsAlive b) (\<lambda>a. if \<not> a then ret () else Buffer_Scramble E b)"

definition LockedBuffer_Wipe :: "nat \<Rightarrow> unit go" where
  "LockedBuffer_Wipe b = bind (IsAlive b) (\<lambda>a.
     if \<not> a then ret () else with_lock (BufLock b) (bind (Bytes b) (\<lambda>d. Wipe d)))"

definition EqualTo :: "nat \<Rightarrow> slice \<Rightarrow> bool go" where
  "EqualTo b buf = with_rlock (BufLock b) (bind (Bytes b) (\<lambda>d. Equal d buf))"

definition NewBufferFromBytes :: "env \<Rightarrow> slice \<Rightarrow> nat go" where
  "NewBufferFromBytes E src =
     bind (memguard_NewBuffer E (int (slen src))) (\<lambda>b.
     bind (Size b) (\<lambda>n.
     if n = 0 then ret b
     else
       bind (LockedBuffer_Move b src) (\<lambda>_.
       bind (LockedBuffer_Freeze E b) (\<lambda>_.
       ret b))))"

definition NewBufferRandom :: "env \<Rightarrow> int \<Rightarrow> nat go" where
  "NewBufferRandom E sz =
     bind (memguard_NewBuffer E sz) (\<lambda>b.
     bind (Size b) (\<lambda>n.
     if n = 0 then ret b
     else
       bind (LockedBuffer_Scramble E b) (\<lambda>_.
       bind (LockedBuffer_Freeze E b) (\<lambda>_.
       ret b))))"

subsection \<open>enclave.go\<close>

definition memguard_NewEnclave :: "env \<Rightarrow> slice \<Rightarrow> Enclave option go" where
  "memguard_NewEnclave E src = bind (NewEnclave E src) (\<lambda>r.
     case r of
       Inl e \<Rightarrow> if e = ErrNullEnclave then ret None else Panic E (PErr e)
     | Inr e \<Rightarrow> ret (Some e))"

definition NewEnclaveRandom :: "env \<Rightarrow> int \<Rightarrow> Enclave option go" where
  "NewEnclaveRandom E sz = bind (NewBufferRandom E sz) (LockedBuffer_Seal E)"

definition Enclave_Open :: "env \<Rightarrow> Enclave \<Rightarrow> (err + nat) go" where
  "Enclave_Open E e = bind (Open E e) (\<lambda>r.
     case r of
       Inl err \<Rightarrow> if err \<noteq> ErrDecryptionFailed then Panic E (PErr err) else ret (Inl err)
     | Inr b \<Rightarrow> bind (Freeze E b) (\<lambda>_. ret (Inr b)))"

definition Enclave_Size :: "env \<Rightarrow> Enclave \<Rightarrow> int" where
  "Enclave_Size E e = EnclaveSize E e"

subsection \<open>memguard.go\<close>

definition ScrambleBytes :: "env \<Rightarrow> slice \<Rightarrow> unit go" where
  "ScrambleBytes E buf = or_panic E (Scramble E buf)"

definition WipeBytes :: "slice \<Rightarrow> unit go" where
  "WipeBytes buf = Wipe buf"

definition memguard_Purge :: "env \<Rightarrow> unit go" where
  "memguard_Purge E = Purge E"

definition SafePanic :: "env \<Rightarrow> panicval \<Rightarrow> 'a go" where
  "SafePanic E v = Panic E v"

definition SafeExit :: "env \<Rightarrow> int \<Rightarrow> unit go" where
  "SafeExit E c = Exit E c"

subsection \<open>Facts: moving into a buffer\<close>

lemma IsAlive_run: "locks s (BufLock b) = Unlocked \<Longrightarrow> IsAlive b s = (Ret (alive (bufs s b)), s)"
  unfolding IsAlive_def Alive_def
  by (rule with_rlock_free) (auto simp: get_buf_def bind_def exec intro!: obliviousI)

lemma IsMutable_run: "locks s (BufLock b) = Unlocked \<Longrightarrow> IsMutable b s = (Ret (mutable (bufs s b)), s)"
  unfolding IsMutable_def Mutable_def
  by (rule with_rlock_free) (auto simp: get_buf_def bind_def exec intro!: obliviousI)

text \<open>Writing the end of a slice is writing the slice with its first bytes unchanged.\<close>

lemma put_suffix:
  assumes "k \<le> n" and "fits m (Slice a i n c)" and "length bs = n - k"
  shows "put m (Slice a (i + k) (n - k) c') bs = put m (Slice a i n c) (take k (contents m (Slice a i n c)) @ bs)"
proof -
  have "overwrite (i + k) bs xs = overwrite i (take k (sub i n xs) @ bs) xs"
    if "i + n \<le> length xs" for xs :: "byte list"
    using that assms(1,3) by (intro nth_equalityI) (auto simp: nth_overwrite nth_append)
  with assms(2) show ?thesis by simp
qed

lemma copied_suffix:
  assumes "k \<le> length d"
  shows "take k d @ copied (drop k d) src = take (length d) (take k d @ src) @ drop (k + length src) d"
  using assms by (simp add: copied_def add.commute)

text \<open>The destination \<^verbatim>\<open>b.Bytes()[offset:]\<close> of \<^verbatim>\<open>CopyAt\<close> and \<^verbatim>\<open>MoveAt\<close>.\<close>

lemma tail_slice:
  assumes "session E s" and "b \<in> set (blist s)" and "mutable (bufs s b)" and "k \<le> slen (data (bufs s b))"
  defines "D \<equiv> contents (mem s) (data (bufs s b))"
  obtains dst where "slice_from (data (bufs s b)) (int k) = ret dst" and "writable (mem s) dst" and "wf_slice dst"
    and "contents (mem s) dst = drop k D" and "slice_base dst = buf_base (bufs s b)" and "slen dst = slen (data (bufs s b)) - k"
    and "\<And>bs. length bs = slen (data (bufs s b)) - k \<Longrightarrow> put (mem s) dst bs = put (mem s) (data (bufs s b)) (take k D @ bs)"
proof -
  note g = guarded_data [OF session_D(2) [OF assms(1,2)]]
  obtain a q n where d: "data (bufs s b) = Slice (Sys a) q n n" "buf_base (bufs s b) = Sys a"
    by (rule session_bases [OF assms(1,2)]) (rule that)
  have w: "writable (mem s) (Slice (Sys a) q n n)" using g(2) assms(3) d by simp
  have "rprot (regs (mem s) (Sys a)) (q + k + j) = ReadWrite" if "j < n - k" for j
  proof -
    have "k + j < n" using that by simp
    then show ?thesis using w unfolding writable.simps by (metis add.assoc)
  qed
  then have "writable (mem s) (Slice (Sys a) (q + k) (n - k) (n - k))" using w assms(4) d by simp
  moreover have "put (mem s) (Slice (Sys a) (q + k) (n - k) (n - k)) bs = put (mem s) (data (bufs s b)) (take k D @ bs)"
    if "length bs = n - k" for bs
    using put_suffix [OF _ writable_fits [OF w] that] assms(4) d by (simp add: D_def)
  ultimately show ?thesis
    using assms(4) d
    by (intro that [of "Slice (Sys a) (q + k) (n - k) (n - k)"])
      (auto simp: wf_slice_def D_def sub_def drop_take add.commute simp del: writable.simps put.simps)
qed

lemma CopyAt_run:
  assumes "session E s" and "b \<in> set (blist s)" and "mutable (bufs s b)" and "k \<le> slen (data (bufs s b))"
    and "readable (mem s) src" and "wf_slice src" and "slice_base src \<noteq> buf_base (bufs s b)"
  defines "D \<equiv> contents (mem s) (data (bufs s b))"
  shows "CopyAt b (int k) src s = (Ret (), s\<lparr>mem := put (mem s) (data (bufs s b)) (take k D @ copied (drop k D) (contents (mem s) src))\<rparr>)"
    (is "_ = (_, ?t)")
proof -
  have free: "locks_free s" by (rule session_D [OF assms(1)])
  have al: "alive (bufs s b)" by (rule guarded_mapped [OF session_D(2) [OF assms(1,2)]])
  obtain dst where d: "slice_from (data (bufs s b)) (int k) = ret dst" "writable (mem s) dst" "wf_slice dst"
      "contents (mem s) dst = drop k D" "slice_base dst = buf_base (bufs s b)" "slen dst = slen (data (bufs s b)) - k"
      "\<And>bs. length bs = slen (data (bufs s b)) - k \<Longrightarrow> put (mem s) dst bs = put (mem s) (data (bufs s b)) (take k D @ bs)"
    by (rule tail_slice [OF assms(1-4), folded D_def]) (rule that)
  have "apart dst src" using d(5) assms(7) by (cases dst; cases src) auto
  moreover have "length (copied (drop k D) (contents (mem s) src)) = slen (data (bufs s b)) - k"
    using guarded_data(7) [OF session_D(2) [OF assms(1,2)]] by (simp add: D_def)
  ultimately have "Copy dst src s = (Ret (), ?t)"
    using Copy_run [OF d(3) _ d(2), of src] assms(5,6) d(4,7) by simp
  then have "with_lock (BufLock b) (bind (Bytes b) (\<lambda>d. bind (slice_from d (int k)) (\<lambda>dst. Copy dst src))) s = (Ret (), ?t)"
    by (intro with_lock_free) (auto simp: locks_free_D [OF free] Bytes_def bind_def d(1) exec intro!: obliviousI)
  then show ?thesis
    using al by (simp add: CopyAt_def bind_def exec IsAlive_run locks_free_D [OF free])
qed

lemma MoveAt_run:
  assumes "session E s" and "b \<in> set (blist s)" and "mutable (bufs s b)" and "k \<le> slen (data (bufs s b))"
    and "writable (mem s) (Slice (GC j) i n c)" and "n \<le> c"
  defines "D \<equiv> contents (mem s) (data (bufs s b))" and "src \<equiv> Slice (GC j) i n c"
  shows "MoveAt b (int k) src s = (Ret (), s\<lparr>mem := put (put (mem s) (data (bufs s b))
     (take k D @ copied (drop k D) (contents (mem s) src))) src (replicate n 0)\<rparr>)" (is "_ = (_, ?t)")
proof -
  have free: "locks_free s" by (rule session_D [OF assms(1)])
  have al: "alive (bufs s b)" by (rule guarded_mapped [OF session_D(2) [OF assms(1,2)]])
  obtain dst where d: "slice_from (data (bufs s b)) (int k) = ret dst" "writable (mem s) dst" "wf_slice dst"
      "contents (mem s) dst = drop k D" "slice_base dst = buf_base (bufs s b)" "slen dst = slen (data (bufs s b)) - k"
      "\<And>bs. length bs = slen (data (bufs s b)) - k \<Longrightarrow> put (mem s) dst bs = put (mem s) (data (bufs s b)) (take k D @ bs)"
    by (rule tail_slice [OF assms(1-4), folded D_def]) (rule that)
  have "is_Sys (buf_base (bufs s b))" by (rule session_bases [OF assms(1,2)]) simp
  then have "apart dst src" using d(5) by (cases dst) (auto simp: src_def)
  moreover have "length (copied (drop k D) (contents (mem s) src)) = slen (data (bufs s b)) - k"
    using guarded_data(7) [OF session_D(2) [OF assms(1,2)]] by (simp add: D_def)
  ultimately have "Move dst src s = (Ret (), ?t)"
    using Move_run [OF d(3) _ d(2), of src] assms(5,6) d(4,7)
    by (simp add: src_def wf_slice_def del: contents.simps writable.simps put.simps)
  then have "with_lock (BufLock b) (bind (Bytes b) (\<lambda>d. bind (slice_from d (int k)) (\<lambda>dst. Move dst src))) s = (Ret (), ?t)"
    by (intro with_lock_free) (auto simp: locks_free_D [OF free] Bytes_def bind_def d(1) exec intro!: obliviousI)
  then show ?thesis
    using al by (simp add: MoveAt_def bind_def exec IsAlive_run locks_free_D [OF free])
qed

end
