(* ===== verification/Locked_Props.thy ===== *)
theory Locked_Props
  imports Locked_Buffer Sim
begin

text \<open>
  The properties of the exported package, each followed by its instance at a concrete state.
\<close>

subsection \<open>Facts shared by the constructors\<close>

text \<open>A new buffer of the package, in a session.\<close>

lemma memguard_NewBuffer_run:
  assumes "env_works E" and "sane E s" and "0 < n" and "int n \<le> 2 ^ 62"
  defines "t \<equiv> newbuf_state E n s"
  shows "memguard_NewBuffer E (int n) s = (Ret (nbufs s), t)" and "Size (nbufs s) t = (Ret (int n), t)" and "sane E t"
    and "own t (nbufs s)" and "mutable (bufs t (nbufs s))" and "slen (data (bufs t (nbufs s))) = n" and "extends s t"
    and "contents (mem t) (data (bufs t (nbufs s))) = replicate n 0" and "blist t = blist s @ [nbufs s]"
proof -
  have page: "page_ok E" using assms(1) by (rule env_works_D)
  have s: "session E s" "clean s" using assms(2) by (simp_all add: sane_def)
  have nb: "NewBuffer E (int n) s = (Ret (Inr (nbufs s)), t)"
    unfolding t_def by (rule NewBuffer_run [OF assms(1,3,4)]) (rule locks_free_D [OF session_D(1) [OF s(1)]])
  note f = newbuf_facts [OF page assms(3,4), of s, folded t_def]
  show "memguard_NewBuffer E (int n) s = (Ret (nbufs s), t)" using nb by (simp add: memguard_NewBuffer_def bind_def)
  show "mutable (bufs t (nbufs s))" "slen (data (bufs t (nbufs s))) = n" "contents (mem t) (data (bufs t (nbufs s))) = replicate n 0"
    using f by simp_all
  then show "Size (nbufs s) t = (Ret (int n), t)" by (simp add: Size_def Bytes_def bind_def)
  show "sane E t" using newbuf_session [OF s(1) page assms(3,4)] clean_newbuf [OF s(2,1) page assms(3,4)] by (simp add: sane_def t_def)
  have "nbufs s \<notin> refs s (key s)" using session_refs [OF s(1)] by blast
  then show "own t (nbufs s)" by (simp add: own_def t_def refs_def)
  show "extends s t" unfolding t_def by (rule newbuf_extends [OF s(1)])
  show "blist t = blist s @ [nbufs s]" by (simp add: t_def)
qed

text \<open>Freezing is the last step of the constructors.\<close>

lemma freeze_last:
  assumes "env_works E" and "sane E s" and "own s b"
  shows "LockedBuffer_Freeze E b s = (Ret (), frozen_state b s)" and "sane E (frozen_state b s)"
    and "\<not> mutable (bufs (frozen_state b s) b)"
proof -
  have "alive (bufs s b)" using assms(2,3) guarded_mapped(2) [OF session_D(2)] by (auto simp: sane_def own_def)
  then show "\<not> mutable (bufs (frozen_state b s) b)" by (simp add: frozen_state_def)
qed (use sane_buffer(1,2) [OF assms] in \<open>simp_all add: LockedBuffer_Freeze_def\<close>)

text \<open>A whole buffer filled from a slice that is wiped.\<close>

lemma move_all:
  assumes "sane E s" and "own s b" and "mutable (bufs s b)" and "slen (data (bufs s b)) = n"
    and "writable (mem s) (Slice (GC j) i n c)" and "n \<le> c"
  obtains t where "LockedBuffer_Move b (Slice (GC j) i n c) s = (Ret (), t)" and "sane E t" and "own t b" and "bufs t = bufs s"
    and "contents (mem t) (data (bufs t b)) = contents (mem s) (Slice (GC j) i n c)"
    and "contents (mem t) (Slice (GC j) i n c) = replicate n 0" and "blist t = blist s"
proof -
  have s: "session E s" "clean s" and b: "b \<in> set (blist s)" using assms(1,2) by (simp_all add: sane_def own_def)
  let ?src = "Slice (GC j) i n c" and ?d = "data (bufs s b)"
  let ?S = "contents (mem s) ?src"
  have lenS: "length ?S = n" using writable_fits [OF assms(5)] length_contents by (metis slen.simps(2))
  have fd: "fits (mem s) ?d" by (rule guarded_data [OF session_D(2) [OF s(1) b]])
  have all: "copied (contents (mem s) ?d) ?S = ?S" using fd assms(4) lenS by (simp del: contents.simps)
  define u where "u = s\<lparr>mem := put (mem s) ?d ?S\<rparr>"
  define t where "t = u\<lparr>mem := put (mem u) ?src (replicate n 0)\<rparr>"
  have len: "length ?S = slen ?d" using lenS assms(4) by simp
  note w = write_facts [OF s(1) b len, folded u_def]
  have su: "session E u" "clean u" using w(1,10) clean_intact [OF s(2)] by (simp_all add: u_def)
  have run: "LockedBuffer_Move b ?src s = (Ret (), t)"
    using MoveAt_run [OF s(1) b assms(3) _ assms(5,6), of 0] all
    by (simp add: LockedBuffer_Move_def t_def u_def del: contents.simps put.simps)
  have keep: "keep u t b'" if "b' \<in> set (blist s)" for b'
    unfolding t_def by (rule put_gc_keep [OF su(1)]) (simp add: u_def that)
  have "sane E t"
    unfolding sane_def
  proof
    show "session E t" unfolding t_def by (rule session_gc(1) [OF su(1)]) simp_all
    show "clean t" by (rule clean_keep [OF su(2,1)]) (use keep in \<open>simp add: t_def u_def\<close>)
  qed
  moreover have "contents (mem t) (data (bufs t b)) = ?S"
    using kept_data(1) [OF keep su(1), of b] b w(3) by (simp add: u_def)
  moreover have "contents (mem t) ?src = replicate n 0"
    using w(6) [of j i n c] assms(5) writable_fits [of "mem u" ?src] by (simp add: t_def del: contents.simps writable.simps put.simps)
  ultimately show ?thesis
    using run assms(2) by (intro that [of t]) (simp_all add: t_def u_def own_def refs_def)
qed

text \<open>The constructor from bytes.\<close>

lemma NewBufferFromBytes_run:
  assumes "env_works E" and "sane E s" and "0 < n" and "int n \<le> 2 ^ 62" and "j < gcnext (mem s)"
    and "writable (mem s) (Slice (GC j) i n c)" and "n \<le> c"
  shows "\<exists>t. NewBufferFromBytes E (Slice (GC j) i n c) s = (Ret (nbufs s), t) \<and> sane E t \<and> \<not> mutable (bufs t (nbufs s)) \<and>
     contents (mem t) (data (bufs t (nbufs s))) = contents (mem s) (Slice (GC j) i n c) \<and>
     contents (mem t) (Slice (GC j) i n c) = replicate n 0 \<and> blist t = blist s @ [nbufs s]"
proof -
  let ?src = "Slice (GC j) i n c" and ?b = "nbufs s" and ?t1 = "newbuf_state E n s"
  note N = memguard_NewBuffer_run [OF assms(1-4)]
  note st = stable_D [OF stable_gc [OF assms(5)] N(7), of i n c]
  have w: "writable (mem ?t1) ?src" using st(3) assms(6) by simp
  obtain t2 where t2: "LockedBuffer_Move ?b ?src ?t1 = (Ret (), t2)" "sane E t2" "own t2 ?b" "bufs t2 = bufs ?t1"
      "contents (mem t2) (data (bufs t2 ?b)) = contents (mem ?t1) ?src" "contents (mem t2) ?src = replicate n 0" "blist t2 = blist ?t1"
    by (rule move_all [OF N(3,4,5,6) w assms(7)]) (rule that)
  note F = freeze_last [OF assms(1) t2(2,3)]
  have "NewBufferFromBytes E ?src s = (Ret ?b, frozen_state ?b t2)"
    using N(1,2) t2(1) F(1) assms(3) by (simp add: NewBufferFromBytes_def bind_def exec)
  then show ?thesis
    using F(2,3) t2(5,6,7) st(1) N(9) by (intro exI [of _ "frozen_state ?b t2"]) (simp del: contents.simps)
qed

subsection \<open>Constructors\<close>

text \<open>
  \<^verbatim>\<open>NewBufferFromBytes\<close> moves the bytes of a slice of the program into a new buffer: the buffer holds them and is
  immutable, and the slice is wiped.
\<close>

theorem NewBufferFromBytes_moves:
  assumes "env_works E" and "sane E s" and "0 < n" and "int n \<le> 2 ^ 62" and "j < gcnext (mem s)"
    and "writable (mem s) (Slice (GC j) i n c)" and "n \<le> c"
  shows "\<exists>t. NewBufferFromBytes E (Slice (GC j) i n c) s = (Ret (nbufs s), t) \<and> sane E t \<and> \<not> mutable (bufs t (nbufs s)) \<and>
     contents (mem t) (data (bufs t (nbufs s))) = contents (mem s) (Slice (GC j) i n c) \<and>
     contents (mem t) (Slice (GC j) i n c) = replicate n 0 \<and> blist t = blist s @ [nbufs s]"
  by (rule NewBufferFromBytes_run [OF assms])

theorem NewBufferFromBytes_moves_witness:
  "contents (mem w_user) w_sl = [1, 2, 3] \<and> (\<exists>t. NewBufferFromBytes simE w_sl w_user = (Ret (nbufs w_user), t) \<and>
     contents (mem t) (data (bufs t (nbufs w_user))) = [1, 2, 3] \<and> contents (mem t) w_sl = [0, 0, 0])"
proof -
  have s: "sane simE w_user" using w_user_facts(1,2) by (simp add: sane_def)
  show ?thesis
    using NewBufferFromBytes_moves [OF simE_works s _ _ w_user_facts(7) w_user_facts(5) [unfolded w_user_facts(6)]] w_user_facts(4)
    unfolding w_user_facts(6) by (auto simp: eval_nat_numeral simp del: contents.simps)
qed

lemma Buffer_Scramble_run:
  assumes "env_works E" and "session E s" and "b \<in> set (blist s)" and "mutable (bufs s b)"
  shows "Buffer_Scramble E b s = (Ret (), s\<lparr>mem := put (mem s) (data (bufs s b)) (rand_bytes E (rpos s) (slen (data (bufs s b)))),
     rpos := rpos s + slen (data (bufs s b))\<rparr>)" (is "_ = (_, ?t)")
proof -
  have "Scramble E (data (bufs s b)) s = (Ret None, ?t)"
    by (rule Scramble_run [OF env_works_D(3) [OF assms(1)] guarded_data(2) [OF session_D(2) [OF assms(2,3)] assms(4)]])
  then have "scramble E b s = (Ret None, ?t)"
    unfolding scramble_def
    by (intro with_lock_free) (auto simp: bind_def locks_free_D [OF session_D(1) [OF assms(2)]] intro!: obliviousI)
  then show ?thesis by (simp add: Buffer_Scramble_def or_panic_None)
qed

lemma NewBufferRandom_run:
  assumes "env_works E" and "sane E s" and "0 < k" and "int k \<le> 2 ^ 62"
  obtains t i where "NewBufferRandom E (int k) s = (Ret (nbufs s), t)" and "sane E t" and "own t (nbufs s)"
    and "\<not> mutable (bufs t (nbufs s))" and "blist t = blist s @ [nbufs s]" and "extends s t" and "key t = key s"
    and "contents (mem t) (data (bufs t (nbufs s))) = rand_bytes E i k" and "slen (data (bufs t (nbufs s))) = k"
proof -
  let ?b = "nbufs s" and ?t1 = "newbuf_state E k s"
  note N = memguard_NewBuffer_run [OF assms]
  have s: "session E s" using assms(2) by (simp add: sane_def)
  have s1: "session E ?t1" "?b \<in> set (blist ?t1)" using N(3,4) by (simp_all add: sane_def own_def)
  have new: "?b \<notin> set (blist s)" using session_D(3) [OF s, of ?b] by blast
  let ?r = "rand_bytes E (rpos ?t1) k"
  have len: "length ?r = slen (data (bufs ?t1 ?b))" using N(6) by simp
  define t2 where "t2 = ?t1\<lparr>mem := put (mem ?t1) (data (bufs ?t1 ?b)) ?r, rpos := rpos ?t1 + k\<rparr>"
  have run2: "Buffer_Scramble E ?b ?t1 = (Ret (), t2)"
    using Buffer_Scramble_run [OF assms(1) s1 N(5)] unfolding N(6) t2_def .
  obtain u where "Buffer_Scramble E ?b ?t1 = (Ret (), u)" "sane E u" "same_objs ?t1 u"
    by (rule sane_scramble [OF assms(1) N(3,4,5)]) (rule that)
  with run2 have t2: "sane E t2" "same_objs ?t1 t2" by simp_all
  have e2: "extends s t2"
    using put_new_extends(1) [OF N(7) s s1 new len] by (simp add: t2_def extends_def keep_def)
  have o: "own t2 ?b" "blist t2 = blist ?t1" "key t2 = key s" using N(4) t2(2) by (simp_all add: own_def refs_def same_objs_def)
  have b2: "session E t2" "?b \<in> set (blist t2)" using t2(1) o(1) by (simp_all add: sane_def own_def)
  have al: "IsAlive ?b ?t1 = (Ret True, ?t1)"
    using IsAlive_run [OF locks_free_D [OF session_D(1) [OF s1(1)]]] guarded_mapped(2) [OF session_D(2) [OF s1]] by simp
  note F = freeze_last [OF assms(1) t2(1) o(1)]
  have "NewBufferRandom E (int k) s = (Ret ?b, frozen_state ?b t2)"
    using N(1,2) al run2 F(1) assms(3) by (simp add: NewBufferRandom_def LockedBuffer_Scramble_def bind_def exec)
  moreover have "contents (mem t2) (data (bufs t2 ?b)) = ?r"
    using N(6) guarded_data(7) [OF session_D(2) [OF s1]] by (simp add: t2_def)
  moreover have "own (frozen_state ?b t2) ?b" using o(1) by (simp add: own_def refs_def)
  moreover have "slen (data (bufs t2 ?b)) = k" using N(6) by (simp add: t2_def)
  ultimately show ?thesis
    using that F(2,3) frozen_extends(1) [OF e2 s b2] o(2,3) N(9) by simp
qed

text \<open>
  \<^verbatim>\<open>NewBufferRandom\<close> gives an immutable buffer of the size asked for, filled with consecutive bytes of the random
  source. A size below one gives a destroyed buffer.
\<close>

theorem NewBufferRandom_random:
  assumes "env_works E" and "sane E s" and "n \<le> 2 ^ 62"
  shows "\<exists>t. NewBufferRandom E n s = (Ret (nbufs s), t) \<and>
     (if n < 1 then \<not> alive (bufs t (nbufs s)) \<and> data (bufs t (nbufs s)) = NilSlice
      else sane E t \<and> \<not> mutable (bufs t (nbufs s)) \<and> blist t = blist s @ [nbufs s] \<and>
        (\<exists>i. contents (mem t) (data (bufs t (nbufs s))) = rand_bytes E i (nat n)))"
proof (cases "n < 1")
  case True
  then show ?thesis
    by (simp add: NewBufferRandom_def memguard_NewBuffer_def NewBuffer_def newNullBuffer_def new_Buffer_def Size_def Bytes_def bind_def exec)
next
  case False
  then obtain k where k: "n = int k" "0 < k" "int k \<le> 2 ^ 62" using assms(3) zero_le_imp_eq_int [of n] by auto
  show ?thesis by (rule NewBufferRandom_run [OF assms(1,2) k(2,3)]) (use k(1) False in auto)
qed

theorem NewBufferRandom_random_witness:
  "\<exists>t i. NewBufferRandom simE 4 w_buf = (Ret 1, t) \<and> \<not> mutable (bufs t 1) \<and> contents (mem t) (data (bufs t 1)) = rand_bytes simE i 4"
  using NewBufferRandom_random [OF simE_works w_buf_sane(1), of 4] w_buf_sane(12) by auto

subsection \<open>Methods\<close>

text \<open>
  \<^verbatim>\<open>CopyAt\<close> overwrites the data from the offset on with as much of the source as fits and nothing else. An offset
  beyond the data panics with the lock released and nothing changed.
\<close>

theorem CopyAt_writes:
  assumes "sane E s" and "own s b" and "mutable (bufs s b)" and "readable (mem s)src" and "wf_slice src"
    and "slice_base src \<noteq> buf_base (bufs s b)"
  shows "if k \<le> slen (data (bufs s b))
     then \<exists>t. CopyAt b (int k) src s = (Ret (), t) \<and> sane E t \<and>
       contents (mem t) (data (bufs t b)) = take (slen (data (bufs s b)))
         (take k (contents (mem s) (data (bufs s b))) @ contents (mem s) src) @
         drop (k + slen src) (contents (mem s) (data (bufs s b)))
     else CopyAt b (int k) src s = (Panicked index_panic, s)"
proof -
  have s: "session E s" "clean s" and b: "b \<in> set (blist s)" using assms(1,2) by (simp_all add: sane_def own_def)
  have free: "locks s l = Unlocked" for l by (rule locks_free_D [OF session_D(1) [OF s(1)]])
  note g = guarded_data [OF session_D(2) [OF s(1) b]]
  let ?D = "contents (mem s) (data (bufs s b))"
  let ?S = "contents (mem s) src"
  have lenS: "length ?S = slen src" using readable_fits [OF assms(4)] by simp
  have lenD: "length ?D = slen (data (bufs s b))" using g(7) by simp
  show ?thesis
  proof (cases "k \<le> slen (data (bufs s b))")
    case True
    let ?bs = "take k ?D @ copied (drop k ?D) ?S"
    have len: "length ?bs = slen (data (bufs s b))" using True lenD by simp
    note w = write_facts [OF s(1) b len]
    have "?bs = take (slen (data (bufs s b))) (take k ?D @ ?S) @ drop (k + slen src) ?D"
      using copied_suffix [of k ?D ?S] True lenD lenS by simp
    then show ?thesis
      using CopyAt_run [OF s(1) b assms(3) True assms(4-6)] w(1,3,10) clean_intact [OF s(2)] True
      by (auto simp: sane_def simp del: contents.simps readable.simps)
  next
    case False
    obtain a q m where d: "data (bufs s b) = Slice (Sys a) q m m" by (rule session_bases [OF s(1) b]) (rule that)
    have "with_lock (BufLock b) (bind (Bytes b) (\<lambda>d. bind (slice_from d (int k)) (\<lambda>dst. Copy dst src))) s = (Panicked index_panic, s)"
      by (rule with_lock_free(2)) (use False in \<open>auto simp: free Bytes_def bind_def d exec intro!: obliviousI\<close>)
    then show ?thesis
      using False guarded_mapped(2) [OF session_D(2) [OF s(1) b]]
      by (simp add: CopyAt_def bind_def exec IsAlive_run free)
  qed
qed

theorem CopyAt_writes_witness:
  "(\<exists>t. CopyAt 0 (int 1) w_sl w_user = (Ret (), t) \<and> contents (mem t) (data (bufs t 0)) = [0, 1, 2, 3, 0]) \<and>
   CopyAt 0 (int 6) w_sl w_user = (Panicked index_panic, w_user)"
proof -
  have s: "sane simE w_user" using w_user_facts(1,2) by (simp add: sane_def)
  note r = writable_readable [OF w_user_facts(5), unfolded w_user_facts(6)]
  have w: "wf_slice (Slice (GC (gcnext (mem w_key))) 0 3 3)"
      "slice_base (Slice (GC (gcnext (mem w_key))) 0 3 3) \<noteq> buf_base (bufs w_user 0)"
    by (rule session_bases [OF w_user_facts(1) w_user_buf(1)], simp add: wf_slice_def)+
  show ?thesis
    using CopyAt_writes [OF s w_user_buf(5,2) r w, of 1] CopyAt_writes [OF s w_user_buf(5,2) r w, of 6] w_user_buf(3,4) w_user_facts(4)
    unfolding w_user_facts(6) by (auto simp: eval_nat_numeral simp del: contents.simps)
qed

text \<open>
  \<^verbatim>\<open>EqualTo\<close> compares with the data of the buffer. For a destroyed buffer the data is \<^verbatim>\<open>nil\<close>, so it is not always
  false, as its documentation says: it is true for an empty slice.
\<close>

theorem EqualTo_destroyed:
  assumes "locks s (BufLock b) = Unlocked" and "data (bufs s b) = NilSlice"
  shows "EqualTo b buf s = (Ret (slen buf = 0), s)"
proof -
  have "Equal NilSlice buf s = (Ret (slen buf = 0), s)"
  proof (cases "slen buf = 0")
    case True
    have "compare_loop [0..<0] NilSlice buf 0 s = (Ret 0, s)" by (simp add: exec)
    with True show ?thesis by (simp add: Equal_def ConstantTimeCompare_def bind_def exec ConstantTimeByteEq_iff)
  next
    case False
    then show ?thesis using Equal_different_length [of NilSlice buf s] by simp
  qed
  then show ?thesis
    unfolding EqualTo_def
    by (intro with_rlock_free) (use assms in \<open>auto simp: Bytes_def bind_def intro!: obliviousI\<close>)
qed

theorem EqualTo_destroyed_witness:
  "EqualTo 7 NilSlice w_buf = (Ret True, w_buf) \<and> EqualTo 7 (Slice (GC 0) 0 2 2) w_buf = (Ret False, w_buf)"
proof -
  have d: "data (bufs w_buf 7) = NilSlice" by (simp add: w_buf_def newbuf_other init_world_def)
  show ?thesis
    using EqualTo_destroyed [OF locks_free_D [OF w_buf_sane(5)] d, of NilSlice]
      EqualTo_destroyed [OF locks_free_D [OF w_buf_sane(5)] d, of "Slice (GC 0) 0 2 2"] by simp
qed

subsection \<open>Enclaves\<close>

text \<open>
  At the level of the package: \<^verbatim>\<open>NewEnclave\<close> of a slice wipes it, and \<^verbatim>\<open>Open\<close> of the enclave gives an immutable
  buffer with the bytes that were in it; \<^verbatim>\<open>Size\<close> is their number.
\<close>

theorem memguard_enclave_round_trip:
  assumes "env_works E" and "sane E s" and "0 < n" and "int n + Overhead E \<le> 2 ^ 62" and "j < gcnext (mem s)"
    and "writable (mem s) (Slice (GC j) i n c)"
  shows "\<exists>e t b u. memguard_NewEnclave E (Slice (GC j) i n c) s = (Ret (Some e), t) \<and>
     contents (mem t) (Slice (GC j) i n c) = replicate n 0 \<and> Enclave_Size E e = int n \<and>
     Enclave_Open E e t = (Ret (Inr b), u) \<and> sane E u \<and> \<not> mutable (bufs u b) \<and>
     contents (mem u) (data (bufs u b)) = contents (mem s) (Slice (GC j) i n c)"
proof -
  note ok = env_works_D [OF assms(1)]
  have s: "session E s" "clean s" using assms(2) by (simp_all add: sane_def)
  let ?src = "Slice (GC j) i n c"
  obtain t e where t: "NewEnclave E ?src s = (Ret (Inr e), t)" "session E t" "holds E t e (contents (mem s) ?src)"
      "contents (mem t) ?src = replicate n 0" "coffer_ok t (key t)" "clean s \<Longrightarrow> clean t"
    by (rule NewEnclave_run [OF assms(1) s(1) assms(5,3,6)]) (rule that)
  have len: "length (contents (mem s) ?src) = n" using writable_fits [OF assms(6)] length_contents by (metis slen.simps(2))
  then have ne: "contents (mem s) ?src \<noteq> []" using assms(3) by (metis length_greater_0_conv)
  have sz: "Enclave_Size E e = int n" "int (slen (ciphertext e)) \<le> 2 ^ 62"
    using holds_slen [OF ok(6) t(3)] len assms(4) by (simp_all add: Enclave_Size_def Overhead_def)
  obtain u where u: "Open E e t = (Ret (Inr (nbufs t)), u)" "session E u" "contents (mem u) (data (bufs u (nbufs t))) = contents (mem s) ?src"
      "blist u = blist t @ [nbufs t]" "key u = key t" "extends t u" "clean t \<Longrightarrow> clean u"
    by (rule Open_run [OF assms(1) t(2,5,3) ne sz(2)]) (rule that)
  have "key t < ncoffers t" "nbufs t \<notin> refs t (key t)" using t(2) session_refs [OF t(2)] by (auto simp: session_def)
  then have own: "own u (nbufs t)" using u(4,5) extends_D(4) [OF u(6)] by (simp add: own_def refs_def)
  have su: "sane E u" using u(2,7) t(6) s(2) by (simp add: sane_def)
  note F = freeze_last [OF assms(1) su own, unfolded LockedBuffer_Freeze_def]
  have "Enclave_Open E e t = (Ret (Inr (nbufs t)), frozen_state (nbufs t) u)"
    using u(1) F(1) by (simp add: Enclave_Open_def bind_def exec)
  moreover have "memguard_NewEnclave E ?src s = (Ret (Some e), t)" using t(1) by (simp add: memguard_NewEnclave_def bind_def exec)
  ultimately show ?thesis
    using F(2,3) t(4) sz(1) u(3)
    by (intro exI [of _ e] exI [of _ t] exI [of _ "nbufs t"] exI [of _ "frozen_state (nbufs t) u"]) (simp del: contents.simps)
qed

theorem memguard_enclave_round_trip_witness:
  "\<exists>e t b u. memguard_NewEnclave simE w_sl w_user = (Ret (Some e), t) \<and> contents (mem t) w_sl = [0, 0, 0] \<and>
     Enclave_Open simE e t = (Ret (Inr b), u) \<and> \<not> mutable (bufs u b) \<and> contents (mem u) (data (bufs u b)) = [1, 2, 3]"
proof -
  have s: "sane simE w_user" using w_user_facts(1,2) by (simp add: sane_def)
  have "int 3 + Overhead simE \<le> 2 ^ 62" by (simp add: Overhead_def simE_def)
  from memguard_enclave_round_trip [OF simE_works s _ this w_user_facts(7) w_user_facts(5) [unfolded w_user_facts(6)]] w_user_facts(4)
  show ?thesis unfolding w_user_facts(6) by (auto simp: eval_nat_numeral simp del: contents.simps)
qed

end
