(* ===== verification/Views.thy ===== *)
theory Views
  imports Locked_Buffer
begin

text \<open>
  The representations of a \<^verbatim>\<open>LockedBuffer\<close> as other data types, \<^verbatim>\<open>buffer.go\<close>: the integer slices, the
  pointers to byte arrays, and the string. None of them copies; the result is an address with a length. The
  methods differ in the size of an element only, so their common body is \<open>typed_view\<close> and \<open>byte_array\<close>.
  The lemmas give the elements of a view in terms of the data of the buffer.
\<close>

subsection \<open>buffer.go: typed views\<close>

text \<open>The header \<^verbatim>\<open>struct { addr uintptr; len int; cap int }\<close> that is cast to a slice; \<open>None\<close> is a \<^verbatim>\<open>nil\<close> slice.\<close>

record tview =
  vbase :: base
  voff :: nat
  vlen :: int
  vcap :: int

text \<open>\<^verbatim>\<open>&b.Bytes()[0]\<close>\<close>

definition first_byte :: "nat \<Rightarrow> (base \<times> nat) go" where
  "first_byte b = bind (Bytes b) (\<lambda>d.
     case d of
       NilSlice \<Rightarrow> go_panic index_panic
     | Slice a i n c \<Rightarrow> if n = 0 then go_panic index_panic else ret (a, i))"

text \<open>The body of the methods that return a slice of \<open>w\<close>-byte integers.\<close>

definition typed_view :: "int \<Rightarrow> nat \<Rightarrow> tview option go" where
  "typed_view w b =
     bind (Alive b) (\<lambda>a.
     if \<not> a then ret None
     else with_rlock (BufLock b)
       (bind (Size b) (\<lambda>n.
        let size = n div w in
        if size < 1 then ret None
        else bind (first_byte b) (\<lambda>(a, i). ret (Some \<lparr>vbase = a, voff = i, vlen = size, vcap = size\<rparr>)))))"

definition Uint16 :: "nat \<Rightarrow> tview option go" where
  "Uint16 b = typed_view 2 b"

definition Uint32 :: "nat \<Rightarrow> tview option go" where
  "Uint32 b = typed_view 4 b"

definition Uint64 :: "nat \<Rightarrow> tview option go" where
  "Uint64 b = typed_view 8 b"

text \<open>\<^verbatim>\<open>Int8\<close> has no check for a size of zero.\<close>

definition Int8 :: "nat \<Rightarrow> tview option go" where
  "Int8 b =
     bind (Alive b) (\<lambda>a.
     if \<not> a then ret None
     else with_rlock (BufLock b)
       (bind (first_byte b) (\<lambda>(a, i).
        bind (Size b) (\<lambda>n. ret (Some \<lparr>vbase = a, voff = i, vlen = n, vcap = n\<rparr>)))))"

definition Int16 :: "nat \<Rightarrow> tview option go" where
  "Int16 b = typed_view 2 b"

definition Int32 :: "nat \<Rightarrow> tview option go" where
  "Int32 b = typed_view 4 b"

definition Int64 :: "nat \<Rightarrow> tview option go" where
  "Int64 b = typed_view 8 b"

text \<open>The body of the methods that return a pointer to an array of \<open>k\<close> bytes.\<close>

definition byte_array :: "int \<Rightarrow> nat \<Rightarrow> (base \<times> nat) option go" where
  "byte_array k b =
     bind (Alive b) (\<lambda>a.
     if \<not> a then ret None
     else with_rlock (BufLock b)
       (bind (Bytes b) (\<lambda>d.
        if int (slen d) < k then ret None
        else bind (first_byte b) (\<lambda>p. ret (Some p)))))"

definition ByteArray8 :: "nat \<Rightarrow> (base \<times> nat) option go" where
  "ByteArray8 b = byte_array 8 b"

definition ByteArray16 :: "nat \<Rightarrow> (base \<times> nat) option go" where
  "ByteArray16 b = byte_array 16 b"

definition ByteArray32 :: "nat \<Rightarrow> (base \<times> nat) option go" where
  "ByteArray32 b = byte_array 32 b"

definition ByteArray64 :: "nat \<Rightarrow> (base \<times> nat) option go" where
  "ByteArray64 b = byte_array 64 b"

text \<open>
  A string is a pointer and a length: the first two words of the slice header. It is modelled by the slice
  whose capacity is its length.
\<close>

fun as_string :: "slice \<Rightarrow> slice" where
  "as_string NilSlice = NilSlice"
| "as_string (Slice a i n c) = Slice a i n n"

definition String :: "nat \<Rightarrow> slice go" where
  "String b = bind (Bytes b) (\<lambda>sl. ret (as_string sl))"

subsection \<open>The elements of a view\<close>

text \<open>The bytes of element \<open>i\<close> of a view with \<open>w\<close>-byte elements, and its value on a little-endian machine.\<close>

definition elem_slice :: "nat \<Rightarrow> tview \<Rightarrow> nat \<Rightarrow> slice" where
  "elem_slice w v i = Slice (vbase v) (voff v + i * w) w w"

definition le_word :: "byte list \<Rightarrow> 'a::len word" where
  "le_word bs = word_of_nat (horner_sum unat 256 bs)"

definition elem :: "mem \<Rightarrow> nat \<Rightarrow> tview \<Rightarrow> nat \<Rightarrow> 'a::len word" where
  "elem m w v i = le_word (contents m (elem_slice w v i))"

subsection \<open>Facts\<close>

lemma Alive_run: "locks s (BufLock b) = Unlocked \<Longrightarrow> Alive b s = (Ret (alive (bufs s b)), s)"
  using IsAlive_run [of s b] by (simp add: IsAlive_def)

lemma Size_run [simp]: "Size b s = (Ret (int (slen (data (bufs s b)))), s)"
  by (simp add: Size_def Bytes_def bind_def exec)

lemma Bytes_run [simp]: "Bytes b s = (Ret (data (bufs s b)), s)"
  by (simp add: Bytes_def)

lemma first_byte_run:
  "data (bufs s b) = Slice a i n c \<Longrightarrow> 0 < n \<Longrightarrow> first_byte b s = (Ret (a, i), s)"
  by (simp add: first_byte_def bind_def exec)

lemma oblivious_views [obliviousI]:
  "oblivious l (Bytes b)" "oblivious l (Size b)" "oblivious l (first_byte b)"
  by (auto simp: Bytes_def Size_def first_byte_def split: slice.splits intro!: obliviousI)

text \<open>A body under the read lock of a buffer runs as it does without.\<close>

lemma rlock_run:
  assumes "locks_free s" and "oblivious (BufLock b) m" and "m s = (Ret v, t)"
  shows "with_rlock (BufLock b) m s = (Ret v, t)"
  by (rule with_rlock_free) (use assms locks_free_D in auto)

lemma typed_view_run:
  assumes "session E s" and "b \<in> set (blist s)" and "data (bufs s b) = Slice a i n c" and "0 < w"
  shows "typed_view (int w) b s =
     (Ret (if n < w then None else Some \<lparr>vbase = a, voff = i, vlen = int (n div w), vcap = int (n div w)\<rparr>), s)"
proof -
  note g = session_D(2) [OF assms(1,2)]
  have n: "0 < n" using guarded_data(5) [OF g] assms(3) by simp
  have "int n div int w < 1 \<longleftrightarrow> n < w" using assms(4) by (simp add: zdiv_int [symmetric] div_eq_0_iff)
  then have "bind (Size b) (\<lambda>n. let size = n div int w in if size < 1 then ret None
        else bind (first_byte b) (\<lambda>(a, i). ret (Some \<lparr>vbase = a, voff = i, vlen = size, vcap = size\<rparr>))) s =
      (Ret (if n < w then None else Some \<lparr>vbase = a, voff = i, vlen = int (n div w), vcap = int (n div w)\<rparr>), s)"
    using first_byte_run [OF assms(3) n] assms(3) by (simp add: bind_def exec Let_def zdiv_int)
  then have "with_rlock (BufLock b) (bind (Size b) (\<lambda>n. let size = n div int w in if size < 1 then ret None
        else bind (first_byte b) (\<lambda>(a, i). ret (Some \<lparr>vbase = a, voff = i, vlen = size, vcap = size\<rparr>)))) s =
      (Ret (if n < w then None else Some \<lparr>vbase = a, voff = i, vlen = int (n div w), vcap = int (n div w)\<rparr>), s)"
    by (intro rlock_run session_D(1) [OF assms(1)]) (auto simp: Let_def intro!: obliviousI)
  then show ?thesis
    using guarded_mapped(2) [OF g] locks_free_D [OF session_D(1) [OF assms(1)]]
    by (simp add: typed_view_def bind_def Alive_run)
qed

lemma Int8_run:
  assumes "session E s" and "b \<in> set (blist s)" and "data (bufs s b) = Slice a i n c"
  shows "Int8 b s = (Ret (Some \<lparr>vbase = a, voff = i, vlen = int n, vcap = int n\<rparr>), s)"
proof -
  note g = session_D(2) [OF assms(1,2)]
  have n: "0 < n" using guarded_data(5) [OF g] assms(3) by simp
  have "with_rlock (BufLock b) (bind (first_byte b) (\<lambda>(a, i). bind (Size b) (\<lambda>n.
        ret (Some \<lparr>vbase = a, voff = i, vlen = n, vcap = n\<rparr>)))) s =
      (Ret (Some \<lparr>vbase = a, voff = i, vlen = int n, vcap = int n\<rparr>), s)"
    by (intro rlock_run session_D(1) [OF assms(1)])
      (use first_byte_run [OF assms(3) n] assms(3) in \<open>auto simp: bind_def exec intro!: obliviousI\<close>)
  then show ?thesis
    using guarded_mapped(2) [OF g] locks_free_D [OF session_D(1) [OF assms(1)]]
    by (simp add: Int8_def bind_def Alive_run)
qed

lemma byte_array_run:
  assumes "session E s" and "b \<in> set (blist s)" and "data (bufs s b) = Slice a i n c"
  shows "byte_array (int k) b s = (Ret (if n < k then None else Some (a, i)), s)"
proof -
  note g = session_D(2) [OF assms(1,2)]
  have n: "0 < n" using guarded_data(5) [OF g] assms(3) by simp
  have "with_rlock (BufLock b) (bind (Bytes b) (\<lambda>d. if int (slen d) < int k then ret None
        else bind (first_byte b) (\<lambda>p. ret (Some p)))) s = (Ret (if n < k then None else Some (a, i)), s)"
    by (intro rlock_run session_D(1) [OF assms(1)])
      (use first_byte_run [OF assms(3) n] assms(3) in \<open>auto simp: bind_def exec intro!: obliviousI\<close>)
  then show ?thesis
    using guarded_mapped(2) [OF g] locks_free_D [OF session_D(1) [OF assms(1)]]
    by (simp add: byte_array_def bind_def Alive_run)
qed

text \<open>On a destroyed buffer every view is \<^verbatim>\<open>nil\<close>.\<close>

lemma views_dead:
  assumes "\<not> alive (bufs s b)" and "locks s (BufLock b) = Unlocked"
  shows "typed_view w b s = (Ret None, s)" and "Int8 b s = (Ret None, s)" and "byte_array k b s = (Ret None, s)"
  using assms by (simp_all add: typed_view_def Int8_def byte_array_def bind_def Alive_run exec)

text \<open>The bytes of an element are bytes of the data.\<close>

lemma elem_contents:
  assumes "data (bufs s b) = Slice a q n c" and "i < n div w" and "fits (mem s) (data (bufs s b))"
  shows "contents (mem s) (elem_slice w \<lparr>vbase = a, voff = q, vlen = l, vcap = k\<rparr> i) = sub (i * w) w (contents (mem s) (data (bufs s b)))"
proof -
  have "i * w + w \<le> (n div w) * w" using assms(2) by (metis Suc_leI add.commute mult_Suc mult_le_mono1)
  also have "\<dots> \<le> n" by simp
  finally show ?thesis
    using assms(1) by (simp add: elem_slice_def sub_def drop_take min_def add.commute)
qed

text \<open>The data of a buffer ends on a page boundary, so its start is aligned exactly when its size is.\<close>

lemma data_aligned:
  assumes "guarded E s b" and "data (bufs s b) = Slice a i n c" and "w dvd pageSize E"
  shows "w dvd i \<longleftrightarrow> w dvd n"
proof -
  have "laid_out E (bufs s b)" using guarded_mapped(1) [OF assms(1)] by (simp add: mapped_def)
  then obtain il where il: "i = pageSize E + (il - n)" "n \<le> il" "pageSize E dvd il"
    using assms(2) by (auto simp: laid_out_def Let_def)
  have d: "w dvd pageSize E" "w dvd il" using assms(3) il(3) by (auto intro: dvd_trans)
  have "w dvd i \<longleftrightarrow> w dvd il - n" using il(1) d(1) by (simp add: dvd_add_right_iff)
  also have "\<dots> \<longleftrightarrow> w dvd n" using d(2) il(2) by (metis dvd_diff_nat diff_diff_cancel)
  finally show ?thesis .
qed

text \<open>An element is wide enough for its bytes, so its unsigned value is their value in base 256.\<close>

lemma horner_bound: "horner_sum unat 256 (bs :: byte list) < 256 ^ length bs"
proof (induction bs)
  case (Cons b bs)
  have "unat b < 256" using unsigned_less [of b, where 'a = nat] by simp
  with Cons show ?case by simp
qed simp

lemma le_word_unat:
  assumes "8 * length bs \<le> LENGTH('a::len)"
  shows "unat (le_word bs :: 'a word) = horner_sum unat 256 bs"
proof -
  have "horner_sum unat 256 bs < 2 ^ (8 * length bs)"
    using horner_bound [of bs] by (simp add: power_mult)
  also have "\<dots> \<le> 2 ^ LENGTH('a)" using assms by simp
  finally show ?thesis by (simp add: le_word_def unat_of_nat)
qed

end
