(* ===== verification/View_Props.thy ===== *)
theory View_Props
  imports Views Sim
begin

text \<open>
  The properties of the typed views of a \<^verbatim>\<open>LockedBuffer\<close>, each followed by its instance at a concrete state.
\<close>

text \<open>What a method that returns a slice of \<open>w\<close>-byte integers has to give for the buffer \<open>b\<close>.\<close>

definition view_ok :: "world \<Rightarrow> nat \<Rightarrow> nat \<Rightarrow> tview option go \<Rightarrow> bool" where
  "view_ok s b w m \<longleftrightarrow>
     (let n = slen (data (bufs s b)); D = contents (mem s) (data (bufs s b)) in
      if n < w then m s = (Ret None, s)
      else \<exists>v. m s = (Ret (Some v), s) \<and> vlen v = int (n div w) \<and> vcap v = vlen v \<and>
        (\<forall>i < n div w. contents (mem s) (elem_slice w v i) = sub (i * w) w D))"

lemma view_ok_cong: "m s = m' s \<Longrightarrow> view_ok s b w m = view_ok s b w m'"
  by (simp add: view_ok_def)

lemma typed_view_ok:
  assumes "session E s" and "b \<in> set (blist s)" and "0 < w"
  shows "view_ok s b w (typed_view (int w) b)"
proof (rule session_bases [OF assms(1,2)])
  fix a q n assume d: "data (bufs s b) = Slice (Sys a) q n n"
  have "fits (mem s) (data (bufs s b))" by (rule guarded_data [OF session_D(2) [OF assms(1,2)]])
  then show ?thesis
    using typed_view_run [OF assms(1,2) d assms(3)] elem_contents [OF d, of _ w]
    unfolding view_ok_def Let_def by (simp only: d slen.simps) (auto simp: d)
qed

subsection \<open>Integer slices\<close>

text \<open>
  C35. The integer views of a buffer of \<open>n\<close> bytes have \<open>n div w\<close> elements of \<open>w\<close> bytes, element \<open>i\<close> being the bytes
  \<open>i * w\<close> to \<open>i * w + w\<close> of the data; bytes that do not fill an element are left out, and a buffer that is too small for
  one element gives \<^verbatim>\<open>nil\<close>.
\<close>

theorem integer_views:
  assumes "session E s" and "b \<in> set (blist s)"
  shows "view_ok s b 2 (Uint16 b) \<and> view_ok s b 4 (Uint32 b) \<and> view_ok s b 8 (Uint64 b) \<and> view_ok s b 1 (Int8 b) \<and>
     view_ok s b 2 (Int16 b) \<and> view_ok s b 4 (Int32 b) \<and> view_ok s b 8 (Int64 b)"
proof -
  have "view_ok s b 1 (Int8 b)"
  proof (rule session_bases [OF assms])
    fix a q n assume d: "data (bufs s b) = Slice (Sys a) q n n" and n: "0 < n"
    have "typed_view 1 b s = Int8 b s" using typed_view_run [OF assms d, of 1] Int8_run [OF assms d] n by simp
    then show ?thesis by (rule view_ok_cong [THEN iffD1]) (use typed_view_ok [OF assms, of 1] in simp)
  qed
  then show ?thesis
    using typed_view_ok [OF assms, of 2] typed_view_ok [OF assms, of 4] typed_view_ok [OF assms, of 8]
    by (simp add: Uint16_def Uint32_def Uint64_def Int16_def Int32_def Int64_def)
qed

theorem integer_views_witness:
  "\<exists>v. Uint16 0 w_buf = (Ret (Some v), w_buf) \<and> vlen v = 2 \<and> contents (mem w_buf) (elem_slice 2 v 1) = [0, 0] \<and>
     Uint64 0 w_buf = (Ret None, w_buf)"
proof -
  have b: "0 \<in> set (blist w_buf)" using w_buf_sane(6) by simp
  note V = integer_views [OF w_buf_sane(4) b, unfolded view_ok_def Let_def w_buf_sane(8,11)]
  obtain v where v: "Uint16 0 w_buf = (Ret (Some v), w_buf)" "vlen v = int (5 div 2)"
      "\<forall>i < 5 div 2. contents (mem w_buf) (elem_slice 2 v i) = sub (i * 2) 2 [0, 0, 0, 0, 0]"
    using V [THEN conjunct1] by auto
  have "contents (mem w_buf) (elem_slice 2 v 1) = sub (1 * 2) 2 [0, 0, 0, 0, 0]" by (rule v(3) [rule_format]) simp
  moreover have "Uint64 0 w_buf = (Ret None, w_buf)" using V by simp
  ultimately show ?thesis using v(1,2) by (intro exI [of _ v]) (simp add: sub_def)
qed

text \<open>
  A view is aligned only for some sizes: the data of a buffer ends on a page boundary, so its first byte is at a
  multiple of the element size exactly when the size of the buffer is one.
\<close>

theorem views_aligned:
  assumes "session E s" and "b \<in> set (blist s)" and "w \<in> {1, 2, 4, 8}" and "8 dvd pageSize E"
    and "typed_view (int w) b s = (Ret (Some v), t)"
  shows "w dvd voff v \<longleftrightarrow> w dvd slen (data (bufs s b))"
proof (rule session_bases [OF assms(1,2)])
  fix a q n assume d: "data (bufs s b) = Slice (Sys a) q n n"
  have "0 < w" and "w dvd 8" using assms(3) by auto
  then have "voff v = q" using typed_view_run [OF assms(1,2) d, of w] assms(5) by (auto split: if_splits)
  then show ?thesis
    using data_aligned [OF session_D(2) [OF assms(1,2)] d] dvd_trans [OF \<open>w dvd 8\<close> assms(4)] d by simp
qed

theorem views_aligned_witness: "\<exists>v. Uint32 0 w_buf = (Ret (Some v), w_buf) \<and> \<not> 4 dvd voff v"
proof -
  have b: "0 \<in> set (blist w_buf)" using w_buf_sane(6) by simp
  obtain v where v: "typed_view 4 0 w_buf = (Ret (Some v), w_buf)"
    using typed_view_ok [OF w_buf_sane(4) b, of 4] w_buf_sane(8) by (auto simp: view_ok_def Let_def)
  have "8 dvd pageSize simE" by (simp add: simE_def)
  then show ?thesis
    using views_aligned [OF w_buf_sane(4) b, of 4 v w_buf] v w_buf_sane(8) by (simp add: Uint32_def)
qed

subsection \<open>Byte arrays, strings, and destroyed buffers\<close>

text \<open>
  A pointer to an array of \<open>k\<close> bytes is \<^verbatim>\<open>nil\<close> exactly when the buffer has less than \<open>k\<close> bytes, and otherwise points
  to the first \<open>k\<close> of them; the string of a buffer is its data. On a destroyed buffer every view is \<^verbatim>\<open>nil\<close>.
\<close>

theorem byte_arrays:
  assumes "session E s" and "(f, k) \<in> {(ByteArray8, 8), (ByteArray16, 16), (ByteArray32, 32), (ByteArray64, 64)}"
  shows "(b \<in> set (blist s) \<longrightarrow> String b s = (Ret (data (bufs s b)), s) \<and>
      (if slen (data (bufs s b)) < k then f b s = (Ret None, s)
       else \<exists>a i. f b s = (Ret (Some (a, i)), s) \<and> contents (mem s) (Slice a i k k) = take k (contents (mem s) (data (bufs s b))))) \<and>
    (\<not> alive (bufs s b) \<longrightarrow> f b s = (Ret None, s) \<and> Uint16 b s = (Ret None, s) \<and> Uint32 b s = (Ret None, s) \<and>
      Uint64 b s = (Ret None, s) \<and> Int8 b s = (Ret None, s) \<and> Int16 b s = (Ret None, s) \<and> Int32 b s = (Ret None, s) \<and>
      Int64 b s = (Ret None, s))"
proof -
  have f: "f b = byte_array (int k) b" for b
    using assms(2) by (auto simp: ByteArray8_def ByteArray16_def ByteArray32_def ByteArray64_def)
  have "String b s = (Ret (data (bufs s b)), s) \<and>
      (if slen (data (bufs s b)) < k then f b s = (Ret None, s)
       else \<exists>a i. f b s = (Ret (Some (a, i)), s) \<and> contents (mem s) (Slice a i k k) = take k (contents (mem s) (data (bufs s b))))"
    if b: "b \<in> set (blist s)"
  proof (rule session_bases [OF assms(1) b])
    fix a q n assume d: "data (bufs s b) = Slice (Sys a) q n n"
    show ?thesis
      using byte_array_run [OF assms(1) b d, of k] by (auto simp: f d String_def bind_def exec sub_def min_def)
  qed
  moreover have "f b s = (Ret None, s) \<and> Uint16 b s = (Ret None, s) \<and> Uint32 b s = (Ret None, s) \<and> Uint64 b s = (Ret None, s) \<and>
      Int8 b s = (Ret None, s) \<and> Int16 b s = (Ret None, s) \<and> Int32 b s = (Ret None, s) \<and> Int64 b s = (Ret None, s)"
    if "\<not> alive (bufs s b)"
    using views_dead [OF that locks_free_D [OF session_D(1) [OF assms(1)]]]
    by (simp add: f Uint16_def Uint32_def Uint64_def Int16_def Int32_def Int64_def)
  ultimately show ?thesis by blast
qed

theorem byte_arrays_witness:
  "ByteArray8 0 w_buf = (Ret None, w_buf) \<and> ByteArray8 7 w_buf = (Ret None, w_buf) \<and> Int8 7 w_buf = (Ret None, w_buf) \<and>
   String 0 w_buf = (Ret (data (bufs w_buf 0)), w_buf)"
proof -
  have b: "0 \<in> set (blist w_buf)" using w_buf_sane(6) by simp
  have "\<not> alive (bufs w_buf 7)" by (simp add: w_buf_def newbuf_other init_world_def zero_Buffer_def)
  then show ?thesis
    using byte_arrays [OF w_buf_sane(4), of ByteArray8 8 0] byte_arrays [OF w_buf_sane(4), of ByteArray8 8 7] b w_buf_sane(8)
    by simp
qed

end
