(* ===== verification/Workspace.thy ===== *)
theory Workspace
  imports Views
begin

text \<open>
  Working buffers: the routines of the package that make a buffer, fill it, and hand it out or destroy it again.
  \<open>work E s t b\<close> says that \<open>t\<close> is the state \<open>s\<close> with one more buffer \<open>b\<close>; everything else that existed in \<open>s\<close> is
  unchanged. \<open>calm E s t\<close> is all that enclaves and readers need of a step: the garbage-collected heap and the value of the
  key are unchanged. The lemmas say which steps preserve these relations.
\<close>

definition calm :: "env \<Rightarrow> world \<Rightarrow> world \<Rightarrow> bool" where
  "calm E s t \<longleftrightarrow> heap_kept s t \<and> key t = key s \<and> key_value E t = key_value E s"

definition work :: "env \<Rightarrow> world \<Rightarrow> world \<Rightarrow> nat \<Rightarrow> bool" where
  "work E s t b \<longleftrightarrow>
     keyed E s \<and> keyed E t \<and> extends s t \<and> key t = key s \<and> blist t = blist s @ [b] \<and> nbufs s \<le> b"

lemma keyed_D:
  assumes "keyed E s"
  shows "env_works E" and "session E s" and "clean s" and "coffer_ok s (key s)" and "sane E s" and "key s < ncoffers s"
    and "locks s l = Unlocked"
  using assms locks_free_D [OF session_D(1)] by (auto simp: keyed_def sane_def session_def)

lemma keyed_key: "keyed E s \<Longrightarrow> \<not> is_destroyed s (key s)"
  using coffer_not_destroyed keyed_D by blast

lemma calm_trans: "calm E s t \<Longrightarrow> calm E t u \<Longrightarrow> calm E s u"
  by (auto simp: calm_def intro: heap_kept_trans)

lemma calm_refl: "calm E s s"
  by (simp add: calm_def heap_kept_def)

lemma extends_calm:
  assumes "keyed E s" and "extends s t" and "key t = key s"
  shows "calm E s t"
  using extends_value(1) [OF assms(2) keyed_D(2,4,6) [OF assms(1)]] heap_kept_extends [OF assms(2)] assms(3)
  by (simp add: calm_def key_value_def)

text \<open>A state in which the key is still in use.\<close>

lemma extends_keyed:
  assumes "keyed E s" and "extends s t" and "key t = key s" and "session E t" and "clean t"
  shows "keyed E t"
  using extends_value(2) [OF assms(2) keyed_D(2,4,6) [OF assms(1)]] keyed_D(1) [OF assms(1)] assms(3-5) by (simp add: keyed_def)

lemma extends_refs:
  assumes "keyed E s" and "extends s t" and "key t = key s"
  shows "refs t (key t) = refs s (key s)"
  using extends_D(4) [OF assms(2) keyed_D(6) [OF assms(1)]] assms(3) by (simp add: refs_def)

lemma work_D:
  assumes "work E s t b"
  shows "keyed E s" and "keyed E t" and "extends s t" and "key t = key s" and "blist t = blist s @ [b]" and "nbufs s \<le> b"
    and "b \<in> set (blist t)" and "b \<notin> refs t (key t)" and "own t b" and "calm E s t" and "b \<notin> set (blist s)" and "guarded E t b"
    and "refs t (key t) = refs s (key s)" and "canary_ok t b"
proof -
  show w: "keyed E s" "keyed E t" "extends s t" "key t = key s" "blist t = blist s @ [b]" "nbufs s \<le> b"
    using assms by (simp_all add: work_def)
  then show b: "b \<in> set (blist t)" by simp
  show r: "refs t (key t) = refs s (key s)" by (rule extends_refs [OF w(1,3,4)])
  then show br: "b \<notin> refs t (key t)" using session_refs [OF keyed_D(2) [OF w(1)], of b] w(6) by auto
  with b show "own t b" by (simp add: own_def)
  show "calm E s t" by (rule extends_calm [OF w(1,3,4)])
  show "b \<notin> set (blist s)" using session_D(3) [OF keyed_D(2) [OF w(1)], of b] w(6) by auto
  show "guarded E t b" by (rule session_D(2) [OF keyed_D(2) [OF w(2)] b])
  show "canary_ok t b" by (rule clean_D [OF keyed_D(3) [OF w(2)] b])
qed

lemma work_intro:
  assumes "keyed E s" and "extends s t" and "key t = key s" and "blist t = blist s @ [b]" and "nbufs s \<le> b" and "session E t" and "clean t"
  shows "work E s t b"
  using extends_keyed [OF assms(1,2,3,6,7)] assms by (simp add: work_def)

lemma work_new:
  assumes "keyed E s" and "0 < n" and "int n \<le> 2 ^ 62"
  defines "t \<equiv> newbuf_state E n s"
  shows "memguard_NewBuffer E (int n) s = (Ret (nbufs s), t)" and "work E s t (nbufs s)" and "mutable (bufs t (nbufs s))"
    and "contents (mem t) (data (bufs t (nbufs s))) = replicate n 0" and "slen (data (bufs t (nbufs s))) = n"
proof -
  note k = keyed_D [OF assms(1)]
  have page: "page_ok E" using k(1) by (rule env_works_D)
  show "memguard_NewBuffer E (int n) s = (Ret (nbufs s), t)"
    using NewBuffer_run [OF k(1) assms(2,3)] k(7) by (simp add: memguard_NewBuffer_def bind_def exec t_def)
  show "work E s t (nbufs s)"
    unfolding t_def
    by (rule work_intro [OF assms(1) newbuf_extends [OF k(2)] _ _ _ newbuf_session [OF k(2) page assms(2,3)]
          clean_newbuf [OF k(3,2) page assms(2,3)]]) simp_all
  show "mutable (bufs t (nbufs s))" "contents (mem t) (data (bufs t (nbufs s))) = replicate n 0" "slen (data (bufs t (nbufs s))) = n"
    using newbuf_facts [OF page assms(2,3), of s] by (simp_all add: t_def)
qed

lemma work_write:
  assumes "work E s t b" and "length bs = slen (data (bufs t b))"
  defines "u \<equiv> t\<lparr>mem := put (mem t) (data (bufs t b)) bs\<rparr>"
  shows "work E s u b" and "contents (mem u) (data (bufs u b)) = bs" and "calm E t u" and "bufs u = bufs t"
proof -
  note w = work_D [OF assms(1)]
  note k = keyed_D [OF w(1)] and kt = keyed_D [OF w(2)]
  note f = write_facts [OF kt(2) w(7) assms(2), folded u_def]
  note e = put_new_extends [OF w(3) k(2) kt(2) w(7,11) assms(2), folded u_def]
  show u: "work E s u b"
    by (rule work_intro [OF w(1) e(1) _ _ w(6) e(2) clean_intact [OF kt(3) f(10)]]) (simp_all add: u_def w(4,5))
  show "contents (mem u) (data (bufs u b)) = bs" by (rule f(3))
  show "bufs u = bufs t" by (simp add: u_def)
  show "calm E t u"
    using f(10) work_D(10) [OF u] w(10) by (simp add: calm_def intact_def)
qed

lemma work_copy:
  assumes "work E s t b" and "mutable (bufs t b)" and "readable (mem t) src" and "wf_slice src" and "slice_base src \<noteq> buf_base (bufs t b)"
  defines "u \<equiv> t\<lparr>mem := put (mem t) (data (bufs t b)) (copied (contents (mem t) (data (bufs t b))) (contents (mem t) src))\<rparr>"
  shows "LockedBuffer_Copy b src t = (Ret (), u)" and "work E s u b" and "bufs u = bufs t" and "calm E t u"
    and "contents (mem u) (data (bufs u b)) = copied (contents (mem t) (data (bufs t b))) (contents (mem t) src)"
proof -
  note w = work_D [OF assms(1)]
  have "length (copied (contents (mem t) (data (bufs t b))) (contents (mem t) src)) = slen (data (bufs t b))"
    using guarded_data(7) [OF w(12)] by simp
  note f = work_write [OF assms(1) this, folded u_def]
  show "LockedBuffer_Copy b src t = (Ret (), u)"
    using CopyAt_run [OF keyed_D(2) [OF w(2)] w(7) assms(2) _ assms(3,4,5), of 0] by (simp add: LockedBuffer_Copy_def u_def)
  show "work E s u b" "bufs u = bufs t" "calm E t u"
    "contents (mem u) (data (bufs u b)) = copied (contents (mem t) (data (bufs t b))) (contents (mem t) src)"
    using f by simp_all
qed

lemma work_freeze:
  assumes "work E s t b"
  defines "u \<equiv> frozen_state b t"
  shows "LockedBuffer_Freeze E b t = (Ret (), u)" and "work E s u b" and "\<not> mutable (bufs u b)" and "data (bufs u b) = data (bufs t b)"
    and "contents (mem u) (data (bufs u b)) = contents (mem t) (data (bufs t b))" and "calm E t u"
proof -
  note w = work_D [OF assms(1)]
  note k = keyed_D [OF w(1)] and kt = keyed_D [OF w(2)] and ok = env_works_D [OF keyed_D(1) [OF w(1)]]
  show "LockedBuffer_Freeze E b t = (Ret (), u)"
    unfolding u_def LockedBuffer_Freeze_def by (rule Freeze_run [OF ok(1,2) kt(7)])
  have "clean u" using kt(3) by (simp add: clean_def u_def frozen_canary)
  then show u: "work E s u b"
    unfolding u_def
    by (intro work_intro [OF w(1) frozen_extends(1) [OF w(3) k(2) kt(2) w(7,6)] _ _ w(6) frozen_session(1) [OF kt(2) w(7,8)]])
      (simp_all add: w(4,5))
  show "\<not> mutable (bufs u b)" using guarded_mapped(2) [OF w(12)] by (simp add: u_def frozen_state_def)
  show "data (bufs u b) = data (bufs t b)" "contents (mem u) (data (bufs u b)) = contents (mem t) (data (bufs t b))" by (simp_all add: u_def)
  have "heap_kept t u"
    using frozen_extends(1) [OF w(3) k(2) kt(2) w(7,6)] guarded_mapped(1) [OF w(12)]
    by (auto elim!: mappedE simp: heap_kept_def u_def frozen_state_def)
  then show "calm E t u" using work_D(10) [OF u] w(10) by (simp add: calm_def)
qed

text \<open>Destroying a buffer that is new since \<open>s\<close>.\<close>

lemma remove_fresh:
  assumes "keyed E s" and "keyed E t" and "extends s t" and "key t = key s" and "b \<in> set (blist t)" and "nbufs s \<le> b"
  defines "u \<equiv> removed_state b t"
  shows "LockedBuffer_Destroy E b t = (Ret (), u)" and "keyed E u" and "extends s u" and "key u = key s" and "calm E t u"
    and "\<And>c. c \<in> set (blist t) \<Longrightarrow> c \<noteq> b \<Longrightarrow> keep t u c"
proof -
  note k = keyed_D [OF assms(1)] and kt = keyed_D [OF assms(2)] and ok = env_works_D [OF keyed_D(1) [OF assms(1)]]
  have br: "b \<notin> refs t (key t)"
    using extends_refs [OF assms(1,3,4)] session_refs [OF k(2), of b] assms(6) by auto
  show "LockedBuffer_Destroy E b t = (Ret (), u)"
    unfolding u_def LockedBuffer_Destroy_def
    by (rule Destroy_run [OF ok(1,2) session_D(2) [OF kt(2) assms(5)] clean_D [OF kt(3) assms(5)] kt(7) kt(7)])
  note e = removed_extends [OF assms(3) k(2) kt(2) assms(5,6) br, folded u_def]
  show "extends s u" by (rule e)
  show key: "key u = key s" by (simp add: u_def assms(4))
  have "clean u" unfolding u_def by (rule clean_removed [OF kt(3,2) assms(5)])
  then show "keyed E u" by (rule extends_keyed [OF assms(1) e(1) key e(2)])
  show "keep t u c" if "c \<in> set (blist t)" "c \<noteq> b" for c
    unfolding u_def by (rule destroyed_other [OF kt(2) assms(5) that])
  have "heap_kept t u"
    using removed_gc [OF guarded_mapped(1) [OF session_D(2) [OF kt(2) assms(5)]]] by (simp add: heap_kept_def u_def)
  then show "calm E t u"
    using removed_value(1) [OF kt(2,4) assms(5) br] assms(4) by (simp add: calm_def key_value_def u_def)
qed

lemma work_end:
  assumes "work E s t b"
  defines "u \<equiv> removed_state b t"
  shows "LockedBuffer_Destroy E b t = (Ret (), u)" and "keyed E u" and "extends s u" and "key u = key s" and "blist u = blist s"
    and "calm E t u"
proof -
  note w = work_D [OF assms(1)]
  show "LockedBuffer_Destroy E b t = (Ret (), u)" "keyed E u" "extends s u" "key u = key s" "calm E t u"
    using remove_fresh [OF w(1-4,7,6)] by (simp_all add: u_def)
  show "blist u = blist s" using w(5,11) by (simp add: u_def remove1_append)
qed

text \<open>Replacing the working buffer \<open>b\<close> by a newer one, \<open>d\<close>.\<close>

lemma work_drop:
  assumes "work E s t b" and "work E t u d"
  defines "v \<equiv> removed_state b u"
  shows "LockedBuffer_Destroy E b u = (Ret (), v)" and "work E s v d" and "calm E u v" and "bufs v d = bufs u d"
    and "contents (mem v) (data (bufs v d)) = contents (mem u) (data (bufs u d))"
proof -
  note w = work_D [OF assms(1)] and x = work_D [OF assms(2)]
  have b: "b \<in> set (blist u)" "d \<noteq> b" using x(5,11) w(7) by auto
  note r = remove_fresh [OF w(1) x(2) extends_trans [OF w(3) x(3)] _ b(1) w(6), folded v_def, unfolded x(4) w(4), OF refl]
  show "LockedBuffer_Destroy E b u = (Ret (), v)" "calm E u v" using r by simp_all
  have "blist v = blist s @ [d]" using x(5) w(5,11) b by (simp add: v_def remove1_append)
  moreover have "nbufs s \<le> d" using extends_D(6) [OF w(3)] x(6) by simp
  ultimately show "work E s v d" using r(2-4) w(1) by (simp add: work_def)
  note kd = kept_data [OF r(6) [OF x(7) b(2)] keyed_D(2) [OF x(2)] x(7)]
  show "bufs v d = bufs u d" "contents (mem v) (data (bufs v d)) = contents (mem u) (data (bufs u d))" using kd by simp_all
qed

text \<open>
  \<open>steady E h s t\<close>: in addition, the buffers below \<open>h\<close> are unchanged. Working on buffers that are new since \<open>s\<close> is
  steady for everything that existed in \<open>s\<close>.
\<close>

definition steady :: "env \<Rightarrow> nat \<Rightarrow> world \<Rightarrow> world \<Rightarrow> bool" where
  "steady E h s t \<longleftrightarrow> calm E s t \<and> (\<forall>b \<in> set (blist s). b < h \<longrightarrow> b \<in> set (blist t) \<and> keep s t b)"

lemma work_start: "work E s t b \<Longrightarrow> steady E h s t"
  using work_D(10) extends_D(1,2) [OF work_D(3)] by (auto simp: steady_def)

lemma work_steady:
  assumes "work E s t b" and "extends s u" and "calm E t u" and "h \<le> nbufs s"
  shows "steady E h t u"
  unfolding steady_def
proof (intro conjI ballI impI)
  fix c assume c: "c \<in> set (blist t)" "c < h"
  note w = work_D [OF assms(1)]
  have s: "c \<in> set (blist s)" using c w(5,6) assms(4) by auto
  show "c \<in> set (blist u)" by (rule extends_D(2) [OF assms(2) s])
  show "keep t u c"
    using extends_D(1) [OF w(3) s] extends_D(1) [OF assms(2) s] assms(3) by (simp add: keep_def calm_def heap_kept_def)
qed (rule assms)

text \<open>Writing to a buffer of the program.\<close>

lemma own_write:
  assumes "keyed E s" and "own s b" and "length bs = slen (data (bufs s b))"
  defines "u \<equiv> s\<lparr>mem := put (mem s) (data (bufs s b)) bs\<rparr>"
  shows "keyed E u" and "calm E s u" and "contents (mem u) (data (bufs u b)) = bs"
    and "\<And>c. c \<in> set (blist s) \<Longrightarrow> c \<noteq> b \<Longrightarrow> keep s u c" and "same_objs s u"
proof -
  note k = keyed_D [OF assms(1)]
  have b: "b \<in> set (blist s)" "b \<notin> refs s (key s)" using assms(2) by (simp_all add: own_def)
  note w = write_facts [OF k(2) b(1) assms(3), folded u_def]
  have o: "key u = key s" "blist u = blist s" "coffers u = coffers s" by (simp_all add: u_def)
  have "coffer_value E u (key s) = coffer_value E s (key s)" "coffer_ok u (key s)"
    using keep_value [OF k(2,4), of u] w(4) b(2) o by auto
  then show "keyed E u" "calm E s u"
    using w(1,10) k(1) clean_intact [OF k(3) w(10) o(2)] o(1) by (simp_all add: keyed_def calm_def key_value_def intact_def)
  show "contents (mem u) (data (bufs u b)) = bs" "same_objs s u" using w by simp_all
  show "keep s u c" if "c \<in> set (blist s)" "c \<noteq> b" for c by (rule w(4) [OF that])
qed

text \<open>Destroying a buffer of the program.\<close>

lemma own_remove:
  assumes "keyed E s" and "own s b"
  defines "u \<equiv> removed_state b s"
  shows "LockedBuffer_Destroy E b s = (Ret (), u)" and "keyed E u" and "calm E s u"
    and "\<And>c. c \<in> set (blist s) \<Longrightarrow> c \<noteq> b \<Longrightarrow> keep s u c"
proof -
  note k = keyed_D [OF assms(1)] and ok = env_works_D [OF keyed_D(1) [OF assms(1)]]
  have b: "b \<in> set (blist s)" "b \<notin> refs s (key s)" using assms(2) by (simp_all add: own_def)
  note g = session_D(2) [OF k(2) b(1)]
  show "LockedBuffer_Destroy E b s = (Ret (), u)"
    unfolding u_def LockedBuffer_Destroy_def by (rule Destroy_run [OF ok(1,2) g clean_D [OF k(3) b(1)] k(7) k(7)])
  note v = removed_value [OF k(2,4) b, folded u_def]
  have key: "key u = key s" by (simp add: u_def)
  show "keyed E u"
    using v(2) removed_session [OF k(2) b] clean_removed [OF k(3,2) b(1)] k(1) key by (simp add: keyed_def u_def)
  have "heap_kept s u" using removed_gc [OF guarded_mapped(1) [OF g]] by (simp add: heap_kept_def u_def)
  then show "calm E s u" using v(1) key by (simp add: calm_def key_value_def)
  show "keep s u c" if "c \<in> set (blist s)" "c \<noteq> b" for c unfolding u_def by (rule destroyed_other [OF k(2) b(1) that])
qed

text \<open>Destroying a buffer that was destroyed before.\<close>

lemma dead_Destroy:
  assumes "locks_free s" and "\<not> alive (bufs s b)" and "b \<notin> set (blist s)"
  shows "Destroy E b s = (Ret (), s)"
proof -
  note free = locks_free_D [OF assms(1)]
  have "list_remove (Some b) s = (Ret (), s)"
    using free assms(3) by (simp add: list_remove_run remove_first_eq remove1_idem)
  then show ?thesis using dead_runs(3) [OF assms(2) free, of E] by (simp add: Destroy_def bind_def exec or_panic_None)
qed

end
