(* ===== verification/Readers.thy ===== *)
theory Readers
  imports Workspace
begin

text \<open>
  The constructors of \<^verbatim>\<open>buffer.go\<close> that read from an \<^verbatim>\<open>io.Reader\<close>: \<^verbatim>\<open>NewBufferFromReader\<close>,
  \<^verbatim>\<open>NewBufferFromReaderUntil\<close> and \<^verbatim>\<open>NewBufferFromEntireReader\<close>. A reader is a parameter: a state and a function \<^verbatim>\<open>Read\<close>
  that acts on it and on the process. The loops make as many calls of \<^verbatim>\<open>Read\<close> as the reader wants, so they take
  fuel; the number of calls made is at most the fuel, and \<open>Unfinished\<close> says that it was not enough. What the package
  \<^verbatim>\<open>io\<close> documents of a reader is the locale \<open>io_reader\<close>; in it the constructors are shown to return, with fuel for one
  call more than there are bytes and idle calls to come, and to return what was read.
\<close>

subsection \<open>Readers\<close>

type_synonym ('r, 'a) rgo = "('r \<times> world, 'a) comp"

type_synonym 'r reader = "slice \<Rightarrow> ('r, int \<times> err option) rgo"

text \<open>A computation of the process that does not touch the reader.\<close>

definition on_world :: "'a go \<Rightarrow> ('r, 'a) rgo" where
  "on_world m u = (case m (snd u) of (x, t) \<Rightarrow> (x, (fst u, t)))"

text \<open>\<^verbatim>\<open>sl[i:j]\<close>\<close>

definition slice_range :: "slice \<Rightarrow> int \<Rightarrow> int \<Rightarrow> slice go" where
  "slice_range sl i j = bind (slice_upto sl j) (\<lambda>p. slice_from p i)"

text \<open>\<^verbatim>\<open>io.ReadFull(r, buf)\<close>\<close>

fun read_full_loop :: "'r reader \<Rightarrow> nat \<Rightarrow> slice \<Rightarrow> int \<Rightarrow> err option \<Rightarrow> ('r, int \<times> err option) rgo" where
  "read_full_loop rd 0 buf n err = unfinished"
| "read_full_loop rd (Suc fuel) buf n err =
     (if n < int (slen buf) \<and> err = None then
        bind (on_world (slice_from buf n)) (\<lambda>p.
        bind (rd p) (\<lambda>(nn, e).
        read_full_loop rd fuel buf (n + nn) e))
      else ret (n, err))"

definition io_ReadFull :: "'r reader \<Rightarrow> nat \<Rightarrow> slice \<Rightarrow> ('r, int \<times> err option) rgo" where
  "io_ReadFull rd fuel buf =
     bind (read_full_loop rd fuel buf 0 None) (\<lambda>(n, err).
     ret (n, if int (slen buf) \<le> n then None
             else if 0 < n \<and> err = Some EOF then Some ErrUnexpectedEOF
             else err))"

subsection \<open>buffer.go: constructors from readers\<close>

text \<open>
  \<^verbatim>\<open>d := NewBuffer(n); d.Copy(b.Bytes()[:n]); d.Freeze(); b.Destroy()\<close>, how every constructor returns the data
  read so far.
\<close>

definition take_data :: "env \<Rightarrow> nat \<Rightarrow> int \<Rightarrow> nat go" where
  "take_data E b n =
     bind (memguard_NewBuffer E n) (\<lambda>d.
     bind (Bytes b) (\<lambda>bs.
     bind (slice_upto bs n) (\<lambda>p.
     bind (LockedBuffer_Copy d p) (\<lambda>_.
     bind (LockedBuffer_Freeze E d) (\<lambda>_.
     bind (LockedBuffer_Destroy E b) (\<lambda>_.
     ret d))))))"

text \<open>\<^verbatim>\<open>b.Destroy(); return newNullBuffer()\<close>\<close>

definition no_data :: "env \<Rightarrow> nat \<Rightarrow> nat go" where
  "no_data E b = bind (LockedBuffer_Destroy E b) (\<lambda>_. newNullBuffer)"

text \<open>\<^verbatim>\<open>c := NewBuffer(b.Size() + os.Getpagesize()); c.Copy(b.Bytes()); b.Destroy(); b = c\<close>\<close>

definition grow :: "env \<Rightarrow> nat \<Rightarrow> nat go" where
  "grow E b =
     bind (Size b) (\<lambda>n.
     bind (memguard_NewBuffer E (n + int (pageSize E))) (\<lambda>c.
     bind (Bytes b) (\<lambda>bs.
     bind (LockedBuffer_Copy c bs) (\<lambda>_.
     bind (LockedBuffer_Destroy E b) (\<lambda>_.
     ret c)))))"

definition NewBufferFromReader :: "env \<Rightarrow> 'r reader \<Rightarrow> nat \<Rightarrow> int \<Rightarrow> ('r, nat \<times> err option) rgo" where
  "NewBufferFromReader E rd fuel sz =
     bind (on_world (memguard_NewBuffer E sz)) (\<lambda>b.
     bind (on_world (Size b)) (\<lambda>k.
     if k = 0 then ret (b, None)
     else
       bind (on_world (Bytes b)) (\<lambda>bs.
       bind (io_ReadFull rd fuel bs) (\<lambda>(n, err).
       case err of
         Some e \<Rightarrow>
           if n = 0 then bind (on_world (no_data E b)) (\<lambda>d. ret (d, Some e))
           else bind (on_world (take_data E b n)) (\<lambda>d. ret (d, Some e))
       | None \<Rightarrow> bind (on_world (LockedBuffer_Freeze E b)) (\<lambda>_. ret (b, None))))))"

fun until_loop :: "env \<Rightarrow> 'r reader \<Rightarrow> byte \<Rightarrow> nat \<Rightarrow> nat \<Rightarrow> nat \<Rightarrow> ('r, nat \<times> err option) rgo" where
  "until_loop E rd delim 0 b i = unfinished"
| "until_loop E rd delim (Suc fuel) b i =
     bind (on_world (Size b)) (\<lambda>k.
     bind (on_world (if int i = k then grow E b else ret b)) (\<lambda>b.
     bind (on_world (Bytes b)) (\<lambda>bs.
     bind (on_world (slice_range bs (int i) (int i + 1))) (\<lambda>p.
     bind (rd p) (\<lambda>(n, err).
     if n \<noteq> 1 then
       (case err of
          None \<Rightarrow> until_loop E rd delim fuel b i
        | Some e \<Rightarrow>
            if i = 0 then bind (on_world (no_data E b)) (\<lambda>d. ret (d, Some e))
            else bind (on_world (take_data E b (int i))) (\<lambda>d. ret (d, Some e)))
     else
       bind (on_world (Bytes b)) (\<lambda>bs.
       bind (on_world (idx_get bs i)) (\<lambda>v.
       if v = delim then
         (if i = 0 then bind (on_world (no_data E b)) (\<lambda>d. ret (d, None))
          else bind (on_world (take_data E b (int i))) (\<lambda>d. ret (d, None)))
       else until_loop E rd delim fuel b (Suc i))))))))"

definition NewBufferFromReaderUntil :: "env \<Rightarrow> 'r reader \<Rightarrow> nat \<Rightarrow> byte \<Rightarrow> ('r, nat \<times> err option) rgo" where
  "NewBufferFromReaderUntil E rd fuel delim =
     bind (on_world (memguard_NewBuffer E (int (pageSize E)))) (\<lambda>b. until_loop E rd delim fuel b 0)"

fun entire_loop :: "env \<Rightarrow> 'r reader \<Rightarrow> nat \<Rightarrow> nat \<Rightarrow> int \<Rightarrow> ('r, nat \<times> err option) rgo" where
  "entire_loop E rd 0 b read = unfinished"
| "entire_loop E rd (Suc fuel) b read =
     bind (on_world (Bytes b)) (\<lambda>bs.
     bind (on_world (slice_from bs read)) (\<lambda>p.
     bind (rd p) (\<lambda>(n, err).
     if n = 0 \<and> err = None then entire_loop E rd fuel b read
     else
       let read = read + n in
       case err of
         Some e \<Rightarrow>
           let err = (if e = EOF then None else Some e) in
           if read = 0 then bind (on_world (no_data E b)) (\<lambda>d. ret (d, err))
           else bind (on_world (take_data E b read)) (\<lambda>d. ret (d, err))
       | None \<Rightarrow>
           bind (on_world (Bytes b)) (\<lambda>bs.
           bind (on_world (slice_from bs read)) (\<lambda>p.
           bind (on_world (if slen p = 0 then grow E b else ret b)) (\<lambda>b.
           entire_loop E rd fuel b read))))))"

definition NewBufferFromEntireReader :: "env \<Rightarrow> 'r reader \<Rightarrow> nat \<Rightarrow> ('r, nat \<times> err option) rgo" where
  "NewBufferFromEntireReader E rd fuel =
     bind (on_world (memguard_NewBuffer E (int (pageSize E)))) (\<lambda>b. entire_loop E rd fuel b 0)"

subsection \<open>Facts: running on the process\<close>

lemma on_world_run [exec]: "m s = (x, t) \<Longrightarrow> on_world m (r, s) = (x, (r, t))"
  by (simp add: on_world_def)

lemma bind_on_world: "m s = (Ret v, t) \<Longrightarrow> bind (on_world m) f (r, s) = f v (r, t)"
  by (simp add: bind_def exec)

lemma slice_range_run:
  "i \<le> j \<Longrightarrow> j \<le> n \<Longrightarrow> slice_range (Slice a q n n) (int i) (int j) s = (Ret (Slice a (q + i) (j - i) (n - i)), s)"
  by (simp add: slice_range_def bind_def exec)

subsection \<open>Facts: the helpers of the constructors\<close>

lemma take_data_run:
  assumes "work E s t b" and "0 < k" and "k \<le> slen (data (bufs t b))" and "int k \<le> 2 ^ 62"
  obtains u d where "take_data E b (int k) t = (Ret d, u)" and "work E s u d" and "\<not> mutable (bufs u d)"
    and "contents (mem u) (data (bufs u d)) = take k (contents (mem t) (data (bufs t b)))" and "calm E t u"
proof -
  note w = work_D [OF assms(1)]
  obtain a q m where d: "data (bufs t b) = Slice (Sys a) q m m" "buf_base (bufs t b) = Sys a"
    by (rule session_bases [OF keyed_D(2) [OF w(2)] w(7)]) (rule that)
  let ?d = "nbufs t" and ?p = "Slice (Sys a) q k m"
  define t1 where "t1 = newbuf_state E k t"
  note n = work_new [OF w(2) assms(2,4), folded t1_def]
  note x = work_D [OF n(2)]
  have keep: "keep t t1 b" by (rule extends_D(1) [OF x(3) w(7)])
  then have b1: "bufs t1 b = bufs t b" "regs (mem t1) (Sys a) = regs (mem t) (Sys a)" using d by (simp_all add: keep_def)
  have r: "readable (mem t1) ?p"
    using guarded_data(1) [OF w(12)] assms(3) d b1(2) by auto
  have wf: "wf_slice ?p" "slice_base ?p \<noteq> buf_base (bufs t1 ?d)"
    using session_D(6) [OF keyed_D(2) [OF x(2)] extends_D(2) [OF x(3) w(7)] x(7)] x(11) w(7) assms(3) d b1
    by (auto simp: wf_slice_def)
  note c = work_copy [OF n(2,3) r wf]
  let ?u = "t1\<lparr>mem := put (mem t1) (data (bufs t1 ?d)) (copied (contents (mem t1) (data (bufs t1 ?d))) (contents (mem t1) ?p))\<rparr>"
  note z = work_freeze [OF c(2)]
  note v = work_drop [OF assms(1) z(2)]
  have up: "slice_upto (data (bufs t b)) (int k) t1 = (Ret ?p, t1)" using assms(3) d by (simp add: exec)
  have run: "take_data E b (int k) t = (Ret ?d, removed_state b (frozen_state ?d ?u))"
    using n(1) b1(1) up c(1) z(1) v(1) by (simp add: take_data_def bind_def exec del: slice_upto.simps)
  have "contents (mem t1) ?p = take k (contents (mem t) (data (bufs t b)))" using assms(3) d b1(2) by (simp add: sub_def min_def)
  moreover have "length (contents (mem t) (data (bufs t b))) = slen (data (bufs t b))" using guarded_data(7) [OF w(12)] by simp
  ultimately have "copied (replicate k 0) (contents (mem t1) ?p) = take k (contents (mem t) (data (bufs t b)))"
    using assms(3) by (simp add: copied_def)
  then show ?thesis
    using that [OF run v(2)] v(4,5) z(3,5) c(5) n(4) calm_trans [OF x(10) calm_trans [OF c(4) calm_trans [OF z(6) v(3)]]] by simp
qed

lemma grow_run:
  assumes "work E s t b" and "slen (data (bufs t b)) = n" and "int (n + pageSize E) \<le> 2 ^ 62"
  obtains u d where "grow E b t = (Ret d, u)" and "work E s u d" and "mutable (bufs u d)" and "calm E t u"
    and "contents (mem u) (data (bufs u d)) = contents (mem t) (data (bufs t b)) @ replicate (pageSize E) 0"
proof -
  note w = work_D [OF assms(1)]
  obtain a q where d: "data (bufs t b) = Slice (Sys a) q n n" "buf_base (bufs t b) = Sys a" "0 < n"
    by (rule session_bases [OF keyed_D(2) [OF w(2)] w(7)]) (use assms(2) that in auto)
  let ?d = "nbufs t" and ?p = "data (bufs t b)"
  define t1 where "t1 = newbuf_state E (n + pageSize E) t"
  have pos: "0 < n + pageSize E" using d(3) by simp
  note nw = work_new [OF w(2) pos assms(3), folded t1_def]
  note x = work_D [OF nw(2)]
  have keep: "keep t t1 b" by (rule extends_D(1) [OF x(3) w(7)])
  then have b1: "bufs t1 b = bufs t b" "regs (mem t1) (Sys a) = regs (mem t) (Sys a)" using d by (simp_all add: keep_def)
  have r: "readable (mem t1) ?p" using guarded_data(1) [OF w(12)] d b1(2) by auto
  have wf: "wf_slice ?p" "slice_base ?p \<noteq> buf_base (bufs t1 ?d)"
    using session_D(6) [OF keyed_D(2) [OF x(2)] extends_D(2) [OF x(3) w(7)] x(7)] x(11) w(7) d b1
    by (auto simp: wf_slice_def)
  note c = work_copy [OF nw(2,3) r wf]
  let ?u = "t1\<lparr>mem := put (mem t1) (data (bufs t1 ?d)) (copied (contents (mem t1) (data (bufs t1 ?d))) (contents (mem t1) ?p))\<rparr>"
  note v = work_drop [OF assms(1) c(2)]
  have run: "grow E b t = (Ret ?d, removed_state b ?u)"
    using nw(1) b1(1) c(1) v(1) assms(2) by (simp add: grow_def bind_def exec)
  have "contents (mem t1) ?p = contents (mem t) ?p" using d b1(2) by simp
  moreover have "length (contents (mem t) ?p) = n" using guarded_data(7) [OF w(12)] assms(2) by simp
  ultimately have "copied (replicate (n + pageSize E) 0) (contents (mem t1) ?p) = contents (mem t) ?p @ replicate (pageSize E) 0"
    by (simp add: copied_def)
  then show ?thesis
    using that [OF run v(2)] v(3,4,5) c(3,4,5) nw(3,4) calm_trans [OF x(10) calm_trans [OF c(4) v(3)]] by simp
qed

lemma null_buffer_run:
  assumes "keyed E s"
  obtains u where "newNullBuffer s = (Ret (nbufs s), u)" and "keyed E u" and "extends s u" and "key u = key s" and "blist u = blist s"
    and "bufs u (nbufs s) = zero_Buffer" and "calm E s u" and "mem u = mem s"
proof -
  note k = keyed_D [OF assms]
  let ?d = "nbufs s"
  let ?u = "s\<lparr>bufs := (bufs s)(?d := zero_Buffer), nbufs := Suc ?d\<rparr>"
  have same: "bufs ?u c = bufs s c" if "c \<in> set (blist s)" for c
    using that session_D(3) [OF k(2), of c] by auto
  have keep: "keep s ?u c" if "c \<in> set (blist s)" for c using same [OF that] by (simp add: keep_def)
  have ext: "extends s ?u" using keep by (simp add: extends_def)
  have "session E ?u"
    by (rule session_same_list [OF k(2)])
      (use keep_guarded [OF keep session_D(2) [OF k(2)]] same session_refs [OF k(2)] in auto)
  moreover have "clean ?u" by (rule clean_keep [OF k(3,2)]) (use keep in auto)
  ultimately have "keyed E ?u" by (intro extends_keyed [OF assms ext]) simp_all
  moreover have "calm E s ?u" by (rule extends_calm [OF assms ext]) simp
  moreover have "newNullBuffer s = (Ret ?d, ?u)" by (simp add: newNullBuffer_def new_Buffer_def)
  ultimately show ?thesis using that [of ?u] ext by simp
qed

lemma no_data_run:
  assumes "work E s t b"
  obtains u d where "no_data E b t = (Ret d, u)" and "keyed E u" and "extends s u" and "key u = key s" and "blist u = blist s"
    and "bufs u d = zero_Buffer" and "calm E t u"
proof -
  note e = work_end [OF assms]
  let ?t = "removed_state b t"
  obtain u where u: "newNullBuffer ?t = (Ret (nbufs ?t), u)" "keyed E u" "extends ?t u" "key u = key ?t" "blist u = blist ?t"
      "bufs u (nbufs ?t) = zero_Buffer" "calm E ?t u"
    by (rule null_buffer_run [OF e(2)]) (rule that)
  show ?thesis
    using that [OF _ u(2) extends_trans [OF e(3) u(3)] _ _ u(6) calm_trans [OF e(6) u(7)]] e(1,4,5) u(1,4,5)
    by (simp add: no_data_def bind_def)
qed

end
