(* ===== verification/Reader_Spec.thy ===== *)
theory Reader_Spec
  imports Readers
begin

text \<open>
  The contract of an \<^verbatim>\<open>io.Reader\<close> as a locale, and what the constructors of theory \<open>Readers\<close> make of any reader that keeps
  it: they return, nothing that existed changes, and the new buffer holds the bytes that were read.
\<close>

subsection \<open>Reading into a part of a buffer\<close>

text \<open>\<open>p\<close> is a part of the data of the buffer, from byte \<open>k\<close> on.\<close>

fun part_of :: "slice \<Rightarrow> nat \<Rightarrow> slice \<Rightarrow> bool" where
  "part_of (Slice a q n m) k (Slice a' i l c) \<longleftrightarrow> a' = a \<and> i = q + k \<and> k + l \<le> n \<and> l \<le> c"
| "part_of _ k _ \<longleftrightarrow> False"

text \<open>The step from \<open>s\<close> to \<open>t\<close> wrote \<open>bs\<close> to \<open>p\<close> and left everything else that existed alone.\<close>

definition received :: "env \<Rightarrow> slice \<Rightarrow> byte list \<Rightarrow> world \<Rightarrow> world \<Rightarrow> bool" where
  "received E p bs s t \<longleftrightarrow>
     length bs = slen p \<and> keyed E t \<and> extends (s\<lparr>mem := put (mem s) p bs\<rparr>) t \<and> key t = key s \<and> blist t = blist s"

lemma part_of_bound: "part_of sl k p \<Longrightarrow> k + slen p \<le> slen sl"
  by (cases "(sl, k, p)" rule: part_of.cases) auto

lemma put_part:
  assumes "part_of sl k p" and "fits m sl" and "length bs = slen p"
  shows "put m p bs = put m sl (overwrite k bs (contents m sl))"
proof -
  obtain a q n c l d where s: "sl = Slice a q n c" "p = Slice a (q + k) l d" "k + l \<le> n"
    using assms(1) by (cases "(sl, k, p)" rule: part_of.cases) auto
  have "overwrite (q + k) bs xs = overwrite q (overwrite k bs (sub q n xs)) xs" if "q + n \<le> length xs" for xs :: "byte list"
    using that assms(3) s by (intro nth_equalityI) (auto simp: nth_overwrite)
  with assms(2) s show ?thesis by simp
qed

lemma work_received:
  assumes "work E s0 s b" and "part_of (data (bufs s b)) k p" and "received E p bs s t"
  shows "work E s0 t b" and "bufs t b = bufs s b"
    and "contents (mem t) (data (bufs t b)) = overwrite k bs (contents (mem s) (data (bufs s b)))"
proof -
  note w = work_D [OF assms(1)]
  let ?D = "contents (mem s) (data (bufs s b))"
  have r: "length bs = slen p" "keyed E t" "extends (s\<lparr>mem := put (mem s) p bs\<rparr>) t" "key t = key s" "blist t = blist s"
    using assms(3) by (simp_all add: received_def)
  have fit: "fits (mem s) (data (bufs s b))" by (rule guarded_data [OF w(12)])
  have len: "length (overwrite k bs ?D) = slen (data (bufs s b))"
    using r(1) fit part_of_bound [OF assms(2)] by simp
  let ?u = "s\<lparr>mem := put (mem s) (data (bufs s b)) (overwrite k bs ?D)\<rparr>"
  have eq: "s\<lparr>mem := put (mem s) p bs\<rparr> = ?u" using put_part [OF assms(2) fit r(1)] by simp
  note u = work_write [OF assms(1) len]
  note x = work_D [OF u(1)]
  have ext: "extends s0 t" using extends_trans [OF x(3)] r(3) eq by simp
  show "work E s0 t b" using w(1,4,5,6) r(2,4,5) ext by (simp add: work_def)
  have "keep ?u t b" using extends_D(1) [OF r(3)] w(7) eq by simp
  from kept_data [OF this keyed_D(2) [OF x(2)] x(7)]
  show "bufs t b = bufs s b" "contents (mem t) (data (bufs t b)) = overwrite k bs ?D" using u(2) by simp_all
qed

text \<open>
  A constructor that started in \<open>s\<close> returned the buffer \<open>d\<close> with the bytes \<open>bs\<close>: a new immutable buffer, the only one
  that was added, or a null buffer when there are no bytes.
\<close>

definition gives :: "env \<Rightarrow> world \<Rightarrow> world \<Rightarrow> nat \<Rightarrow> byte list \<Rightarrow> bool" where
  "gives E s t d bs \<longleftrightarrow>
     (if bs = [] then keyed E t \<and> extends s t \<and> key t = key s \<and> blist t = blist s \<and> bufs t d = zero_Buffer
      else work E s t d \<and> \<not> mutable (bufs t d) \<and> contents (mem t) (data (bufs t d)) = bs)"

subsection \<open>The contract\<close>

text \<open>
  \<open>rest\<close> are the bytes the reader will deliver before it ends, \<open>final\<close> is the error it ends with, and \<open>idle\<close> bounds the
  number of calls that deliver nothing without an error, which \<^verbatim>\<open>io.Reader\<close> discourages and allows. \<open>inv\<close> is the
  reader's own invariant, which has to survive steps that leave the heap, the key, and the buffers below \<open>home\<close> alone;
  the reader may be backed by those.
\<close>

locale io_reader =
  fixes E :: env and rd :: "'r reader" and inv :: "'r \<Rightarrow> world \<Rightarrow> bool" and rest :: "'r \<Rightarrow> world \<Rightarrow> byte list"
    and final :: "'r \<Rightarrow> world \<Rightarrow> err" and idle :: "'r \<Rightarrow> world \<Rightarrow> nat" and home :: nat
  assumes read: "keyed E s \<Longrightarrow> inv r s \<Longrightarrow> own s b \<Longrightarrow> home \<le> b \<Longrightarrow> mutable (bufs s b) \<Longrightarrow> part_of (data (bufs s b)) k p \<Longrightarrow> 0 < slen p \<Longrightarrow>
      \<exists>n e r' t bs. rd p (r, s) = (Ret (int n, e), (r', t)) \<and> received E p bs s t \<and> n \<le> slen p \<and> n \<le> length (rest r s) \<and>
        take n bs = take n (rest r s) \<and> rest r' t = drop n (rest r s) \<and> final r' t = final r s \<and> inv r' t \<and>
        idle r' t \<le> idle r s \<and>
        (case e of None \<Rightarrow> 0 < n \<or> idle r' t < idle r s | Some x \<Rightarrow> x = final r s \<and> rest r' t = [])"
    and undisturbed: "inv r s \<Longrightarrow> steady E home s t \<Longrightarrow> keyed E t \<Longrightarrow>
      inv r t \<and> rest r t = rest r s \<and> final r t = final r s \<and> idle r t = idle r s"
begin

text \<open>One call of \<^verbatim>\<open>Read\<close> on a working buffer whose first \<open>k\<close> bytes are those read before.\<close>

lemma read_step:
  assumes "work E s0 s b" and "mutable (bufs s b)" and "part_of (data (bufs s b)) k p" and "0 < slen p" and "inv r s" and "home \<le> nbufs s0"
  obtains n e r' t where "rd p (r, s) = (Ret (int n, e), (r', t))" and "work E s0 t b" and "bufs t b = bufs s b" and "inv r' t"
    and "n \<le> slen p" and "n \<le> length (rest r s)" and "rest r' t = drop n (rest r s)" and "final r' t = final r s" and "idle r' t \<le> idle r s"
    and "take (k + n) (contents (mem t) (data (bufs t b))) = take k (contents (mem s) (data (bufs s b))) @ take n (rest r s)"
    and "e = None \<Longrightarrow> 0 < n \<or> idle r' t < idle r s" and "\<And>x. e = Some x \<Longrightarrow> x = final r s \<and> rest r' t = []"
proof -
  note w = work_D [OF assms(1)]
  obtain n e r' t bs where R: "rd p (r, s) = (Ret (int n, e), (r', t))" "received E p bs s t" "n \<le> slen p" "n \<le> length (rest r s)"
      "take n bs = take n (rest r s)" "rest r' t = drop n (rest r s)" "final r' t = final r s" "inv r' t" "idle r' t \<le> idle r s"
      "case e of None \<Rightarrow> 0 < n \<or> idle r' t < idle r s | Some x \<Rightarrow> x = final r s \<and> rest r' t = []"
    using read [OF w(2) assms(5) w(9) le_trans [OF assms(6) w(6)] assms(2,3,4)] by blast
  note x = work_received [OF assms(1,3) R(2)]
  let ?D = "contents (mem s) (data (bufs s b))"
  have "k + slen p \<le> length ?D" "length bs = slen p"
    using part_of_bound [OF assms(3)] guarded_data(7) [OF w(12)] R(2) by (simp_all add: received_def)
  then have "take (k + n) (overwrite k bs ?D) = take k ?D @ take n bs" using R(3) by (simp add: overwrite_def min_def)
  then have "take (k + n) (contents (mem t) (data (bufs t b))) = take k ?D @ take n (rest r s)" using x(3) R(5) by simp
  moreover have "0 < n \<or> idle r' t < idle r s" if "e = None" using R(10) that by simp
  moreover have "y = final r s \<and> rest r' t = []" if "e = Some y" for y using R(10) that by simp
  ultimately show ?thesis by (rule that [OF R(1) x(1,2) R(8,3,4,6,7,9)])
qed

subsection \<open>io.ReadFull\<close>

lemma read_full_loop_run:
  assumes "work E s0 s b" and "mutable (bufs s b)" and "inv r s" and "slen (data (bufs s b)) = L" and "n \<le> L"
    and "length (rest r s) + idle r s + 1 < fuel" and "home \<le> nbufs s0"
  shows "\<exists>r' t e. read_full_loop rd fuel (data (bufs s b)) (int n) None (r, s) = (Ret (int (min L (n + length (rest r s))), e), (r', t)) \<and>
     work E s0 t b \<and> bufs t b = bufs s b \<and> inv r' t \<and> rest r' t = drop (L - n) (rest r s) \<and> final r' t = final r s \<and>
     take (min L (n + length (rest r s))) (contents (mem t) (data (bufs t b))) =
       take n (contents (mem s) (data (bufs s b))) @ take (L - n) (rest r s) \<and>
     (n + length (rest r s) < L \<longrightarrow> e = Some (final r s))"
  using assms
proof (induction fuel arbitrary: n r s)
  case 0
  then show ?case by simp
next
  case (Suc fuel)
  show ?case
  proof (cases "n < L")
    case False
    then show ?thesis using Suc.prems by (intro exI [of _ r] exI [of _ s] exI [of _ None]) (simp add: exec)
  next
    case True
    obtain a q where d: "data (bufs s b) = Slice (Sys a) q L L"
      by (rule session_bases [OF keyed_D(2) [OF work_D(2) [OF Suc.prems(1)]] work_D(7) [OF Suc.prems(1)]]) (use Suc.prems(4) that in auto)
    let ?p = "Slice (Sys a) (q + n) (L - n) (L - n)"
    have p: "part_of (data (bufs s b)) n ?p" "0 < slen ?p" using d True by simp_all
    obtain m e r' t where R: "rd ?p (r, s) = (Ret (int m, e), (r', t))" "work E s0 t b" "bufs t b = bufs s b" "inv r' t"
        "m \<le> slen ?p" "m \<le> length (rest r s)" "rest r' t = drop m (rest r s)" "final r' t = final r s" "idle r' t \<le> idle r s"
        "take (n + m) (contents (mem t) (data (bufs t b))) = take n (contents (mem s) (data (bufs s b))) @ take m (rest r s)"
        "e = None \<Longrightarrow> 0 < m \<or> idle r' t < idle r s" "\<And>x. e = Some x \<Longrightarrow> x = final r s \<and> rest r' t = []"
      by (rule read_step [OF Suc.prems(1,2) p Suc.prems(3,7)]) (rule that)
    have step: "read_full_loop rd (Suc fuel) (data (bufs s b)) (int n) None (r, s) =
        read_full_loop rd fuel (data (bufs s b)) (int (n + m)) e (r', t)"
      using True R(1) d by (simp add: bind_def exec)
    have nm: "n + m \<le> L" using R(5) True by simp
    show ?thesis
    proof (cases e)
      case None
      have "length (rest r' t) + idle r' t + 1 < fuel" using Suc.prems(6) R(6,7,9) R(11) [OF None] by auto
      note IH = Suc.IH [OF R(2) Suc.prems(2) [folded R(3)] R(4) Suc.prems(4) [folded R(3)] nm this Suc.prems(7), unfolded R(3)]
      obtain r'' u e' where I: "read_full_loop rd fuel (data (bufs s b)) (int (n + m)) None (r', t) =
            (Ret (int (min L (n + m + length (rest r' t))), e'), (r'', u))"
          "work E s0 u b" "bufs u b = bufs s b" "inv r'' u" "rest r'' u = drop (L - (n + m)) (rest r' t)" "final r'' u = final r' t"
          "take (min L (n + m + length (rest r' t))) (contents (mem u) (data (bufs u b))) =
             take (n + m) (contents (mem t) (data (bufs s b))) @ take (L - (n + m)) (rest r' t)"
          "n + m + length (rest r' t) < L \<longrightarrow> e' = Some (final r' t)"
        using IH by (elim exE conjE) (rule that)
      have len: "n + m + length (rest r' t) = n + length (rest r s)" using R(6,7) by simp
      have all: "take m (rest r s) @ take (L - (n + m)) (drop m (rest r s)) = take (L - n) (rest r s)"
        using nm by (simp add: take_add [symmetric] diff_diff_add)
      have dr: "drop (L - (n + m)) (drop m (rest r s)) = drop (L - n) (rest r s)" using nm by simp
      have run: "read_full_loop rd (Suc fuel) (data (bufs s b)) (int n) None (r, s) =
          (Ret (int (min L (n + length (rest r s))), e'), (r'', u))"
        unfolding step None using I(1) unfolding len .
      have "take (min L (n + length (rest r s))) (contents (mem u) (data (bufs u b))) =
          take n (contents (mem s) (data (bufs s b))) @ take (L - n) (rest r s)"
        using I(7) [unfolded len] unfolding R(7) R(10) [unfolded R(3)] append_assoc all .
      then show ?thesis
        using I(2-4) I(5) [unfolded R(7) dr] I(6) [unfolded R(8)] I(8) [unfolded len R(8)] run by blast
    next
      case (Some x)
      have em: "x = final r s" "drop m (rest r s) = []" using R(12) [OF Some] R(7) by simp_all
      then have m: "m = length (rest r s)" using R(6) by simp
      obtain fuel' where "fuel = Suc fuel'" using Suc.prems(6) by (cases fuel) auto
      then have "read_full_loop rd fuel (data (bufs s b)) (int (n + m)) e (r', t) = (Ret (int (n + m), e), (r', t))"
        using Some by (simp add: exec)
      then have run: "read_full_loop rd (Suc fuel) (data (bufs s b)) (int n) None (r, s) =
          (Ret (int (min L (n + length (rest r s))), e), (r', t))"
        unfolding step using nm m by (simp add: min_def)
      have "rest r' t = drop (L - n) (rest r s)" using R(7) em(2) nm m by simp
      moreover have "take (min L (n + length (rest r s))) (contents (mem t) (data (bufs t b))) =
          take n (contents (mem s) (data (bufs s b))) @ take (L - n) (rest r s)"
        using R(10) nm m by (simp add: min_def)
      ultimately show ?thesis using run R(2-4,8) Some em(1) by blast
    qed
  qed
qed

subsection \<open>NewBufferFromReader\<close>

lemma keep_reading:
  assumes "inv r s" and "steady E home s t" and "keyed E t"
  shows "inv r t" and "rest r t = rest r s" and "final r t = final r s" and "idle r t = idle r s"
  using undisturbed [OF assms] by auto

lemma NewBufferFromReader_run:
  assumes "keyed E s" and "inv r s" and "0 < n" and "int n \<le> 2 ^ 62" and "length (rest r s) + idle r s + 1 < fuel"
    and "home \<le> nbufs s"
  shows "\<exists>d r' t. NewBufferFromReader E rd fuel (int n) (r, s) =
       (Ret (d, if n \<le> length (rest r s) then None
                else Some (if rest r s \<noteq> [] \<and> final r s = EOF then ErrUnexpectedEOF else final r s)), (r', t)) \<and>
     gives E s t d (take n (rest r s)) \<and> inv r' t \<and> rest r' t = drop n (rest r s)"
proof -
  let ?b = "nbufs s" and ?R = "rest r s"
  define s1 where "s1 = newbuf_state E n s"
  note w = work_new [OF assms(1,3,4), folded s1_def]
  note k1 = keep_reading [OF assms(2) work_start [OF w(2)] work_D(2) [OF w(2)]]
  have f: "length (rest r s1) + idle r s1 + 1 < fuel" using k1 assms(5) by simp
  obtain r' t e where L: "read_full_loop rd fuel (data (bufs s1 ?b)) (int 0) None (r, s1) = (Ret (int (min n (length ?R)), e), (r', t))"
      "work E s t ?b" "bufs t ?b = bufs s1 ?b" "inv r' t" "rest r' t = drop n ?R" "final r' t = final r s"
      "take (min n (length ?R)) (contents (mem t) (data (bufs t ?b))) = take n ?R" "length ?R < n \<longrightarrow> e = Some (final r s)"
    using read_full_loop_run [OF w(2,3) k1(1) w(5) _ f assms(6), of 0] unfolding k1(2,3) by auto
  have pre: "NewBufferFromReader E rd fuel (int n) (r, s) =
      (let err = if n \<le> min n (length ?R) then None else if 0 < min n (length ?R) \<and> e = Some EOF then Some ErrUnexpectedEOF else e in
       case err of
         Some e \<Rightarrow> if min n (length ?R) = 0 then bind (on_world (no_data E ?b)) (\<lambda>d. ret (d, Some e))
           else bind (on_world (take_data E ?b (int (min n (length ?R))))) (\<lambda>d. ret (d, Some e))
       | None \<Rightarrow> bind (on_world (LockedBuffer_Freeze E ?b)) (\<lambda>_. ret (?b, None))) (r', t)"
    using w(1,5) L(1) assms(3)
    by (simp add: NewBufferFromReader_def io_ReadFull_def bind_def exec Let_def split: option.splits)
  show ?thesis
  proof (cases "n \<le> length ?R")
    case True
    note z = work_freeze [OF L(2)]
    note k2 = keep_reading [OF L(4) work_steady [OF L(2) work_D(3) [OF z(2)] z(6) assms(6)] work_D(2) [OF z(2)]]
    have ne: "take n ?R \<noteq> []" using True assms(3) by auto
    have "slen (data (bufs t ?b)) = n" using w(5) L(3) by simp
    then have "contents (mem t) (data (bufs t ?b)) = take n ?R"
      using L(7) True guarded_data(7) [OF work_D(12) [OF L(2)]] by simp
    then have "gives E s (frozen_state ?b t) ?b (take n ?R)" using z(2,3,5) ne by (simp add: gives_def)
    then show ?thesis
      using pre z(1) k2(1,2) L(5) True by (intro exI [of _ ?b] exI [of _ r'] exI [of _ "frozen_state ?b t"]) (simp add: bind_def exec)
  next
    case False
    then have e: "e = Some (final r s)" using L(8) by simp
    show ?thesis
    proof (cases "?R = []")
      case True
      obtain u d where N: "no_data E ?b t = (Ret d, u)" "keyed E u" "extends s u" "key u = key s" "blist u = blist s"
          "bufs u d = zero_Buffer" "calm E t u"
        by (rule no_data_run [OF L(2)]) (rule that)
      note k2 = keep_reading [OF L(4) work_steady [OF L(2) N(3,7) assms(6)] N(2)]
      show ?thesis
        using pre N k2(1,2) L(5) True False e by (intro exI [of _ d] exI [of _ r'] exI [of _ u]) (simp add: bind_def exec gives_def)
    next
      case ne: False
      have len: "0 < length ?R" "length ?R \<le> slen (data (bufs t ?b))" "int (length ?R) \<le> 2 ^ 62"
        using ne False w(5) L(3) assms(4) by simp_all
      obtain u d where N: "take_data E ?b (int (length ?R)) t = (Ret d, u)" "work E s u d" "\<not> mutable (bufs u d)"
          "contents (mem u) (data (bufs u d)) = take (length ?R) (contents (mem t) (data (bufs t ?b)))" "calm E t u"
        by (rule take_data_run [OF L(2) len]) (rule that)
      note k2 = keep_reading [OF L(4) work_steady [OF L(2) work_D(3) [OF N(2)] N(5) assms(6)] work_D(2) [OF N(2)]]
      have "gives E s u d (take n ?R)" using N(2-4) L(7) ne False by (simp add: gives_def)
      then show ?thesis
        using pre N(1) k2(1,2) L(5) ne False e by (intro exI [of _ d] exI [of _ r'] exI [of _ u]) (simp add: bind_def exec Let_def)
    qed
  qed
qed

subsection \<open>NewBufferFromReaderUntil\<close>

text \<open>A working buffer that is full is replaced by a larger one.\<close>

lemma room:
  assumes "work E s0 s b" and "mutable (bufs s b)" and "inv r s" and "i \<le> slen (data (bufs s b))" and "int (i + pageSize E) \<le> 2 ^ 62"
    and "home \<le> nbufs s0"
  obtains c t where "(if i = slen (data (bufs s b)) then grow E b else ret b) s = (Ret c, t)" and "work E s0 t c" and "mutable (bufs t c)"
    and "inv r t" and "rest r t = rest r s" and "final r t = final r s" and "idle r t = idle r s" and "i < slen (data (bufs t c))"
    and "take i (contents (mem t) (data (bufs t c))) = take i (contents (mem s) (data (bufs s b)))"
proof (cases "i = slen (data (bufs s b))")
  case True
  note w = work_D [OF assms(1)]
  obtain t c where t: "grow E b s = (Ret c, t)" "work E s0 t c" "mutable (bufs t c)" "calm E s t"
      "contents (mem t) (data (bufs t c)) = contents (mem s) (data (bufs s b)) @ replicate (pageSize E) 0"
    by (rule grow_run [OF assms(1) True [symmetric] assms(5)]) (rule that)
  note k = keep_reading [OF assms(3) work_steady [OF assms(1) work_D(3) [OF t(2)] t(4) assms(6)] work_D(2) [OF t(2)]]
  have "0 < pageSize E" using env_works_D(7) [OF keyed_D(1) [OF w(1)]] by (auto simp: page_ok_def)
  moreover have len: "length (contents (mem s) (data (bufs s b))) = i" using guarded_data(7) [OF w(12)] True by simp
  moreover have "length (contents (mem t) (data (bufs t c))) = slen (data (bufs t c))"
    using guarded_data(7) [OF work_D(12) [OF t(2)]] by simp
  ultimately have "i < slen (data (bufs t c))" using t(5) by simp
  then show ?thesis using that [of c t] t k True len by simp
next
  case False
  then show ?thesis using that [of b s] assms by (simp add: exec)
qed

text \<open>How the loops return what was read.\<close>

lemma finish_run:
  assumes "work E s0 u c" and "inv r u" and "i \<le> slen (data (bufs u c))" and "int i \<le> 2 ^ 62" and "home \<le> nbufs s0"
  shows "\<exists>d v. (if i = 0 then bind (on_world (no_data E c)) (\<lambda>d. ret (d, x))
        else bind (on_world (take_data E c (int i))) (\<lambda>d. ret (d, x))) (r, u) = (Ret (d, x), (r, v)) \<and>
      gives E s0 v d (take i (contents (mem u) (data (bufs u c)))) \<and> inv r v \<and> rest r v = rest r u"
proof (cases "i = 0")
  case True
  obtain v d where N: "no_data E c u = (Ret d, v)" "keyed E v" "extends s0 v" "key v = key s0" "blist v = blist s0"
      "bufs v d = zero_Buffer" "calm E u v"
    by (rule no_data_run [OF assms(1)]) (rule that)
  show ?thesis
    using N keep_reading(1,2) [OF assms(2) work_steady [OF assms(1) N(3,7) assms(5)] N(2)] True by (intro exI [of _ d] exI [of _ v]) (simp add: bind_def exec gives_def)
next
  case False
  then have pos: "0 < i" by simp
  obtain v d where N: "take_data E c (int i) u = (Ret d, v)" "work E s0 v d" "\<not> mutable (bufs v d)"
      "contents (mem v) (data (bufs v d)) = take i (contents (mem u) (data (bufs u c)))" "calm E u v"
    by (rule take_data_run [OF assms(1) pos assms(3,4)]) (rule that)
  have "take i (contents (mem u) (data (bufs u c))) \<noteq> []"
    using pos assms(3) guarded_data(7) [OF work_D(12) [OF assms(1)]] length_contents by (metis gr_implies_not0 le_0_eq list.size(3) take_eq_Nil)
  then show ?thesis
    using N keep_reading(1,2) [OF assms(2) work_steady [OF assms(1) work_D(3) [OF N(2)] N(5) assms(5)] work_D(2) [OF N(2)]] False
    by (intro exI [of _ d] exI [of _ v]) (simp add: bind_def exec gives_def)
qed

lemma until_loop_run:
  assumes "work E s0 s b" and "mutable (bufs s b)" and "inv r s" and "i \<le> slen (data (bufs s b))"
    and "int (i + length (rest r s) + pageSize E) \<le> 2 ^ 62" and "length (rest r s) + idle r s < fuel"
    and "home \<le> nbufs s0"
  shows "\<exists>d r' t. until_loop E rd delim fuel b i (r, s) = (Ret (d, if delim \<in> set (rest r s) then None else Some (final r s)), (r', t)) \<and>
     gives E s0 t d (take i (contents (mem s) (data (bufs s b))) @ takeWhile (\<lambda>x. x \<noteq> delim) (rest r s)) \<and> inv r' t \<and>
     rest r' t = tl (dropWhile (\<lambda>x. x \<noteq> delim) (rest r s))"
  using assms
proof (induction fuel arbitrary: b i r s)
  case 0
  then show ?case by simp
next
  case (Suc fuel)
  let ?D = "contents (mem s) (data (bufs s b))" and ?R = "rest r s"
  have bound: "int (i + pageSize E) \<le> 2 ^ 62" using Suc.prems(5) by simp
  obtain c t where C: "(if i = slen (data (bufs s b)) then grow E b else ret b) s = (Ret c, t)" "work E s0 t c" "mutable (bufs t c)"
      "inv r t" "rest r t = ?R" "final r t = final r s" "idle r t = idle r s" "i < slen (data (bufs t c))"
      "take i (contents (mem t) (data (bufs t c))) = take i ?D"
    by (rule room [OF Suc.prems(1-4) bound Suc.prems(7)]) (rule that)
  obtain a q m where d: "data (bufs t c) = Slice (Sys a) q m m"
    by (rule session_bases [OF keyed_D(2) [OF work_D(2) [OF C(2)]] work_D(7) [OF C(2)]]) (rule that)
  have im: "i < m" using C(8) d by simp
  let ?p = "Slice (Sys a) (q + i) 1 (m - i)"
  have sr: "slice_range (data (bufs t c)) (int i) (int i + 1) t = (Ret ?p, t)"
    using slice_range_run [of i "Suc i" m "Sys a" q t] im d by (simp add: add.commute)
  have p: "part_of (data (bufs t c)) i ?p" "0 < slen ?p" using d im by simp_all
  obtain n e r' u where R: "rd ?p (r, t) = (Ret (int n, e), (r', u))" "work E s0 u c" "bufs u c = bufs t c" "inv r' u"
      "n \<le> slen ?p" "n \<le> length (rest r t)" "rest r' u = drop n (rest r t)" "final r' u = final r t" "idle r' u \<le> idle r t"
      "take (i + n) (contents (mem u) (data (bufs u c))) = take i (contents (mem t) (data (bufs t c))) @ take n (rest r t)"
      "e = None \<Longrightarrow> 0 < n \<or> idle r' u < idle r t" "\<And>x. e = Some x \<Longrightarrow> x = final r t \<and> rest r' u = []"
    by (rule read_step [OF C(2,3) p C(4) Suc.prems(7)]) (rule that)
  note R' = R(6-12) [unfolded C(5,6,7,9)]
  have len: "length (contents (mem u) (data (bufs u c))) = slen (data (bufs u c))" "slen (data (bufs u c)) = m"
    using guarded_data(7) [OF work_D(12) [OF R(2)]] R(3) d by simp_all
  have step: "until_loop E rd delim (Suc fuel) b i (r, s) =
      (if int n \<noteq> 1 then
         (case e of None \<Rightarrow> until_loop E rd delim fuel c i
          | Some e \<Rightarrow> if i = 0 then bind (on_world (no_data E c)) (\<lambda>d. ret (d, Some e))
              else bind (on_world (take_data E c (int i))) (\<lambda>d. ret (d, Some e)))
       else bind (on_world (idx_get (data (bufs u c)) i)) (\<lambda>v.
         if v = delim then
           (if i = 0 then bind (on_world (no_data E c)) (\<lambda>d. ret (d, None))
            else bind (on_world (take_data E c (int i))) (\<lambda>d. ret (d, None)))
         else until_loop E rd delim fuel c (Suc i))) (r', u)"
    using C(1) sr R(1) by (simp add: bind_def exec)
  have "i \<le> slen (data (bufs u c))" "int i \<le> 2 ^ 62" using im len bound by simp_all
  note F = finish_run [OF R(2,4) this Suc.prems(7)]
  have mu: "mutable (bufs u c)" and iu: "i \<le> slen (data (bufs u c))" and iu': "Suc i \<le> slen (data (bufs u c))"
    using C(3) R(3) im len by simp_all
  have Du: "take i (contents (mem u) (data (bufs u c))) = take i ?D"
    using arg_cong [OF R'(5), of "take i"] Suc.prems(4) guarded_data(7) [OF work_D(12) [OF Suc.prems(1)]] by simp
  show ?case
  proof (cases n)
    case 0
    show ?thesis
    proof (cases e)
      case None
      have "length (rest r' u) + idle r' u < fuel" using R'(2) R'(6) [OF None] 0 Suc.prems(6) by simp
      moreover have "int (i + length (rest r' u) + pageSize E) \<le> 2 ^ 62" using R'(2) 0 Suc.prems(5) by simp
      ultimately show ?thesis using Suc.IH [OF R(2) mu R(4) iu _ _ Suc.prems(7), unfolded R'(3)] R'(2) Du None 0 unfolding step
        by (simp del: until_loop.simps split del: if_split)
    next
      case (Some x)
      then have "?R = []" "x = final r s" using R'(2) R'(7) [OF Some] 0 by simp_all
      then show ?thesis using F [of "Some x"] Some 0 Du R'(2) unfolding step by auto
    qed
  next
    case (Suc n')
    then have n: "n = 1" using R(5) by simp
    then obtain y ys where y: "?R = y # ys" using R'(1) by (cases ?R) auto
    have D1: "take (Suc i) (contents (mem u) (data (bufs u c))) = take i ?D @ [y]" using R'(5) n y by simp
    have "contents (mem u) (data (bufs u c)) ! i = y"
      using D1 Du len im by (simp add: take_Suc_conv_app_nth)
    then have get: "idx_get (data (bufs u c)) i u = (Ret y, u)"
      using idx_get_run guarded_data(1) [OF work_D(12) [OF R(2)]] len im by simp
    show ?thesis
    proof (cases "y = delim")
      case True
      then show ?thesis using F [of None] n y Du R'(2) unfolding step by (simp add: bind_on_world [of "idx_get _ _", OF get] split del: if_split) blast
    next
      case False
      have "length (rest r' u) + idle r' u < fuel" using R'(2,4) n y Suc.prems(6) by simp
      moreover have "int (Suc i + length (rest r' u) + pageSize E) \<le> 2 ^ 62" using R'(2) n y Suc.prems(5) by simp
      ultimately show ?thesis using Suc.IH [OF R(2) mu R(4) iu' _ _ Suc.prems(7), unfolded R'(3)] R'(2) D1 n get y False not_sym [OF False] unfolding step
        by (simp add: bind_def exec del: until_loop.simps split del: if_split)
    qed
  qed
qed

lemma first_page:
  assumes "keyed E s"
  shows "0 < pageSize E" and "int (pageSize E) \<le> 2 ^ 62"
proof -
  obtain k where k: "k < 60" "pageSize E = 2 ^ k" using env_works_D(7) [OF keyed_D(1) [OF assms]] by (auto simp: page_ok_def)
  then show "0 < pageSize E" by simp
  have "(2 :: int) ^ k \<le> 2 ^ 62" using k(1) by (intro power_increasing) simp_all
  then show "int (pageSize E) \<le> 2 ^ 62" by (simp add: k(2))
qed

lemma NewBufferFromReaderUntil_run:
  assumes "keyed E s" and "inv r s" and "int (length (rest r s) + pageSize E) \<le> 2 ^ 62" and "length (rest r s) + idle r s < fuel"
    and "home \<le> nbufs s"
  shows "\<exists>d r' t. NewBufferFromReaderUntil E rd fuel delim (r, s) =
       (Ret (d, if delim \<in> set (rest r s) then None else Some (final r s)), (r', t)) \<and>
     gives E s t d (takeWhile (\<lambda>x. x \<noteq> delim) (rest r s)) \<and> inv r' t \<and>
     rest r' t = tl (dropWhile (\<lambda>x. x \<noteq> delim) (rest r s))"
proof -
  note w = work_new [OF assms(1) first_page [OF assms(1)]]
  note k = keep_reading [OF assms(2) work_start [OF w(2)] work_D(2) [OF w(2)]]
  show ?thesis
    using until_loop_run [OF w(2,3) k(1), of 0 fuel delim, unfolded k(2-4)] assms(3-5) w(1)
    by (simp add: NewBufferFromReaderUntil_def bind_on_world split del: if_split)
qed

subsection \<open>NewBufferFromEntireReader\<close>

lemma entire_loop_run:
  assumes "work E s0 s b" and "mutable (bufs s b)" and "inv r s" and "i < slen (data (bufs s b))"
    and "int (i + length (rest r s) + pageSize E) \<le> 2 ^ 62" and "length (rest r s) + idle r s < fuel"
    and "home \<le> nbufs s0"
  shows "\<exists>d r' t. entire_loop E rd fuel b (int i) (r, s) = (Ret (d, if final r s = EOF then None else Some (final r s)), (r', t)) \<and>
     gives E s0 t d (take i (contents (mem s) (data (bufs s b))) @ rest r s) \<and> inv r' t \<and> rest r' t = []"
  using assms
proof (induction fuel arbitrary: b i r s)
  case 0
  then show ?case by simp
next
  case (Suc fuel)
  let ?D = "contents (mem s) (data (bufs s b))" and ?R = "rest r s"
  obtain a q m where d: "data (bufs s b) = Slice (Sys a) q m m"
    by (rule session_bases [OF keyed_D(2) [OF work_D(2) [OF Suc.prems(1)]] work_D(7) [OF Suc.prems(1)]]) (rule that)
  have im: "i < m" using Suc.prems(4) d by simp
  let ?p = "Slice (Sys a) (q + i) (m - i) (m - i)"
  have sf: "slice_from (data (bufs s b)) (int i) s = (Ret ?p, s)" using im d by (simp add: exec)
  have p: "part_of (data (bufs s b)) i ?p" "0 < slen ?p" using d im by simp_all
  obtain n e r' u where R: "rd ?p (r, s) = (Ret (int n, e), (r', u))" "work E s0 u b" "bufs u b = bufs s b" "inv r' u"
      "n \<le> slen ?p" "n \<le> length ?R" "rest r' u = drop n ?R" "final r' u = final r s" "idle r' u \<le> idle r s"
      "take (i + n) (contents (mem u) (data (bufs u b))) = take i ?D @ take n ?R"
      "e = None \<Longrightarrow> 0 < n \<or> idle r' u < idle r s" "\<And>x. e = Some x \<Longrightarrow> x = final r s \<and> rest r' u = []"
    by (rule read_step [OF Suc.prems(1,2) p Suc.prems(3,7)]) (rule that)
  have len: "slen (data (bufs u b)) = m" "i + n \<le> slen (data (bufs u b))" "mutable (bufs u b)" "i < slen (data (bufs u b))"
    using R(3,5) im d Suc.prems(2) by simp_all
  have small: "int (i + n) \<le> 2 ^ 62" "int (i + n + pageSize E) \<le> 2 ^ 62" using Suc.prems(5) R(6) by simp_all
  show ?case
  proof (cases e)
    case (Some x)
    have x: "x = final r s" "take n ?R = ?R" using R(12) [OF Some] R(6,7) by simp_all
    have step: "entire_loop E rd (Suc fuel) b (int i) (r, s) =
        (let err = if x = EOF then None else Some x in
         if i + n = 0 then bind (on_world (no_data E b)) (\<lambda>d. ret (d, err))
         else bind (on_world (take_data E b (int (i + n)))) (\<lambda>d. ret (d, err))) (r', u)"
      using sf R(1) Some by (simp add: bind_on_world bind_def exec Let_def)
    show ?thesis
      using finish_run [OF R(2,4) len(2) small(1) Suc.prems(7), of "if x = EOF then None else Some x"] R(10) x R(12) [OF Some]
      unfolding step Let_def by (simp split del: if_split) blast
  next
    case None
    show ?thesis
    proof (cases "n = 0")
      case True
      have step: "entire_loop E rd (Suc fuel) b (int i) (r, s) = entire_loop E rd fuel b (int i) (r', u)"
        using sf R(1) None True by (simp add: bind_on_world bind_def exec)
      have "length (rest r' u) + idle r' u < fuel" using R(7) R(11) [OF None] True Suc.prems(6) by simp
      then show ?thesis
        using Suc.IH [OF R(2) len(3) R(4) len(4) _ _ Suc.prems(7), unfolded R(8)] R(7,10) Suc.prems(5) True unfolding step
        by (simp del: entire_loop.simps split del: if_split)
    next
      case False
      obtain c t where C: "(if i + n = slen (data (bufs u b)) then grow E b else ret b) u = (Ret c, t)" "work E s0 t c" "mutable (bufs t c)"
          "inv r' t" "rest r' t = rest r' u" "final r' t = final r' u" "idle r' t = idle r' u" "i + n < slen (data (bufs t c))"
          "take (i + n) (contents (mem t) (data (bufs t c))) = take (i + n) (contents (mem u) (data (bufs u b)))"
        by (rule room [OF R(2) len(3) R(4) len(2) small(2) Suc.prems(7)]) (rule that)
      have sf2: "slice_from (data (bufs u b)) (int i + int n) u = (Ret (Slice (Sys a) (q + (i + n)) (m - (i + n)) (m - (i + n))), u)"
        using d R(3) len(1,2) by (simp add: exec nat_int_add)
      have full: "m - (i + n) = 0 \<longleftrightarrow> i + n = slen (data (bufs u b))" using len(1,2) by auto
      have step: "entire_loop E rd (Suc fuel) b (int i) (r, s) = entire_loop E rd fuel c (int (i + n)) (r', t)"
        using sf R(1) None False sf2 C(1) full by (simp add: bind_on_world bind_def exec Let_def)
      have "length (rest r' t) + idle r' t < fuel" using C(5,7) R(6,7,9) False Suc.prems(6) by simp
      moreover have "int (i + n + length (rest r' t) + pageSize E) \<le> 2 ^ 62" using C(5) R(6,7) Suc.prems(5) by simp
      ultimately show ?thesis
        using Suc.IH [OF C(2,3,4,8) _ _ Suc.prems(7), unfolded C(6) R(8)] C(5,9) R(7,10) unfolding step
        by (simp del: entire_loop.simps split del: if_split)
    qed
  qed
qed

lemma NewBufferFromEntireReader_run:
  assumes "keyed E s" and "inv r s" and "int (length (rest r s) + pageSize E) \<le> 2 ^ 62" and "length (rest r s) + idle r s < fuel"
    and "home \<le> nbufs s"
  shows "\<exists>d r' t. NewBufferFromEntireReader E rd fuel (r, s) = (Ret (d, if final r s = EOF then None else Some (final r s)), (r', t)) \<and>
     gives E s t d (rest r s) \<and> inv r' t \<and> rest r' t = []"
proof -
  note w = work_new [OF assms(1) first_page [OF assms(1)]]
  note k = keep_reading [OF assms(2) work_start [OF w(2)] work_D(2) [OF w(2)]]
  show ?thesis
    using entire_loop_run [OF w(2,3) k(1), of 0 fuel, unfolded k(2-4)] assms(3-5) w(1,5) first_page(1) [OF assms(1)]
    by (simp add: NewBufferFromEntireReader_def bind_on_world split del: if_split)
qed

end

end
