(* ===== verification/Byte_Reader.thy ===== *)
theory Byte_Reader
  imports Reader_Spec
begin

text \<open>
  The method \<^verbatim>\<open>Reader\<close> of \<^verbatim>\<open>buffer.go\<close> with the \<^verbatim>\<open>bytes.Reader\<close> of the standard library it returns, and the proof that it
  keeps the contract of theory \<open>Reader_Spec\<close>, for a slice of the garbage-collected heap and for the data of a buffer.
\<close>

subsection \<open>bytes.Reader\<close>

record bytes_Reader =
  rs :: slice
  ri :: int

text \<open>The builtin \<^verbatim>\<open>copy\<close>.\<close>

definition go_copy :: "slice \<Rightarrow> slice \<Rightarrow> int go" where
  "go_copy dst src =
     (let n = int (min (slen dst) (slen src)) in
      bind (slice_upto src n) (\<lambda>p.
      bind (read_all p) (\<lambda>bs.
      bind (slice_upto dst n) (\<lambda>q.
      bind (write_all q bs) (\<lambda>_.
      ret n)))))"

definition bytes_Read :: "bytes_Reader reader" where
  "bytes_Read p =
     bind (gets fst) (\<lambda>r.
     if int (slen (rs r)) \<le> ri r then ret (0, Some EOF)
     else
       bind (on_world (slice_from (rs r) (ri r))) (\<lambda>src.
       bind (on_world (go_copy p src)) (\<lambda>n.
       bind (modify (\<lambda>(r, s). (r\<lparr>ri := ri r + n\<rparr>, s))) (\<lambda>_.
       ret (n, None)))))"

subsection \<open>buffer.go: Reader\<close>

definition Reader :: "nat \<Rightarrow> bytes_Reader go" where
  "Reader b = bind (Bytes b) (\<lambda>d. ret \<lparr>rs = d, ri = 0\<rparr>)"

subsection \<open>The contract\<close>

text \<open>The bytes the reader goes through, in memory that working buffers do not touch.\<close>

definition source_ok :: "nat \<Rightarrow> world \<Rightarrow> slice \<Rightarrow> bool" where
  "source_ok h s sl \<longleftrightarrow>
     (\<exists>b \<in> set (blist s). b < h \<and> sl = data (bufs s b)) \<or>
     (\<exists>j i n c. sl = Slice (GC j) i n c \<and> j < gcnext (mem s) \<and> readable (mem s) sl \<and> n \<le> c)"

definition br_inv :: "env \<Rightarrow> nat \<Rightarrow> bytes_Reader \<Rightarrow> world \<Rightarrow> bool" where
  "br_inv E h r s \<longleftrightarrow> keyed E s \<and> source_ok h s (rs r) \<and> 0 \<le> ri r"

definition br_rest :: "bytes_Reader \<Rightarrow> world \<Rightarrow> byte list" where
  "br_rest r s = drop (nat (ri r)) (contents (mem s) (rs r))"

lemma source_readable:
  assumes "session E s" and "source_ok h s sl"
  shows "readable (mem s) sl" and "wf_slice sl"
  using assms(2) guarded_data(1,3) [OF session_D(2) [OF assms(1)]] by (auto simp: source_ok_def wf_slice_def)

lemma source_steady:
  assumes "session E s" and "source_ok h s sl" and "heap_kept s t"
    and "\<And>b. b \<in> set (blist s) \<Longrightarrow> b < h \<Longrightarrow> b \<in> set (blist t) \<and> keep s t b"
  shows "source_ok h t sl" and "contents (mem t) sl = contents (mem s) sl"
proof -
  consider (buf) b where "b \<in> set (blist s)" "b < h" "sl = data (bufs s b)"
    | (gc) j i n c where "sl = Slice (GC j) i n c" "j < gcnext (mem s)" "readable (mem s) sl" "n \<le> c"
    using assms(2) unfolding source_ok_def by blast
  then have "source_ok h t sl \<and> contents (mem t) sl = contents (mem s) sl"
  proof cases
    case buf
    then show ?thesis
      using kept_data [OF conjunct2 [OF assms(4) [OF buf(1,2)]] assms(1) buf(1)] assms(4) [OF buf(1,2)]
      by (auto simp: source_ok_def)
  next
    case gc
    then show ?thesis using assms(3) by (auto simp: source_ok_def heap_kept_def)
  qed
  then show "source_ok h t sl" "contents (mem t) sl = contents (mem s) sl" by auto
qed

text \<open>\<^verbatim>\<open>copy\<close> to a part of a buffer of the program.\<close>

lemma go_copy_run:
  assumes "keyed E s" and "own s b" and "mutable (bufs s b)" and "part_of (data (bufs s b)) k p"
    and "readable (mem s) src" and "wf_slice src"
  defines "n \<equiv> min (slen p) (slen src)"
  obtains bs where "go_copy p src s = (Ret (int n), s\<lparr>mem := put (mem s) p bs\<rparr>)" and "length bs = slen p"
    and "take n bs = take n (contents (mem s) src)"
proof -
  have b: "b \<in> set (blist s)" using assms(2) by (simp add: own_def)
  note g = session_D(2) [OF keyed_D(2) [OF assms(1)] b]
  obtain a q m l c where d: "data (bufs s b) = Slice a q m m" "p = Slice a (q + k) l c" "k + l \<le> m" "l \<le> c"
  proof -
    obtain a q m where d: "data (bufs s b) = Slice (Sys a) q m m"
      by (rule session_bases [OF keyed_D(2) [OF assms(1)] b]) (rule that)
    with assms(4) show ?thesis by (cases p) (auto intro!: that)
  qed
  have w: "writable (mem s) (data (bufs s b))" by (rule guarded_data(2) [OF g assms(3)])
  let ?q = "Slice a (q + k) n c" and ?S = "take n (contents (mem s) src)"
  have wq: "writable (mem s) ?q" using w d n_def by (auto simp: add.assoc)
  have fit: "fits (mem s) p" using w d by (auto simp: writable_fits)
  have nb: "n \<le> l" "n \<le> slen src" using d by (simp_all add: n_def)
  have lenS: "length ?S = n" using length_contents [OF readable_fits [OF assms(5)]] nb(2) by simp
  obtain p' where p': "slice_upto src (int n) s = (Ret p', s)" "read_all p' s = (Ret ?S, s)"
  proof (cases src)
    case NilSlice
    then show ?thesis using nb(2) that [of NilSlice] by (simp add: exec read_all_def)
  next
    case (Slice a' i' n' c')
    then show ?thesis
      using nb(2) assms(5,6) that [of "Slice a' i' n c'"] by (auto simp: exec read_all_def wf_slice_def sub_def min_def)
  qed
  have up: "slice_upto p (int n) s = (Ret ?q, s)" using nb(1) d by (simp add: exec)
  have run: "go_copy p src s = (Ret (int n), s\<lparr>mem := put (mem s) ?q ?S\<rparr>)"
    using p' up wq
    by (simp add: go_copy_def Let_def bind_def exec write_all_def n_def [symmetric] of_nat_min [symmetric] del: slice_upto.simps of_nat_min)
  have "part_of p 0 ?q" using d nb(1) by simp
  then have "put (mem s) ?q ?S = put (mem s) p (overwrite 0 ?S (contents (mem s) p))"
    by (rule put_part [OF _ fit]) (use lenS in simp)
  moreover have "length (overwrite 0 ?S (contents (mem s) p)) = slen p" "take n (overwrite 0 ?S (contents (mem s) p)) = ?S"
    using fit lenS nb(1) d by (simp_all add: overwrite_def)
  ultimately show ?thesis using that run by simp
qed

text \<open>Writing to a part of a buffer of the program is a step that \<open>received\<close> describes.\<close>

lemma write_received:
  assumes "keyed E s" and "own s b" and "part_of (data (bufs s b)) k p" and "length bs = slen p"
  defines "t \<equiv> s\<lparr>mem := put (mem s) p bs\<rparr>"
  shows "received E p bs s t" and "calm E s t" and "\<And>c. c \<in> set (blist s) \<Longrightarrow> c \<noteq> b \<Longrightarrow> keep s t c" and "blist t = blist s"
proof -
  have b: "b \<in> set (blist s)" using assms(2) by (simp add: own_def)
  have fit: "fits (mem s) (data (bufs s b))" by (rule guarded_data [OF session_D(2) [OF keyed_D(2) [OF assms(1)] b]])
  have "length (overwrite k bs (contents (mem s) (data (bufs s b)))) = slen (data (bufs s b))"
    using part_of_bound [OF assms(3)] assms(4) fit by simp
  note w = own_write [OF assms(1,2) this, folded put_part [OF assms(3) fit assms(4)], folded t_def]
  show "received E p bs s t" using w(1) assms(4) by (simp add: received_def t_def extends_refl)
  show "calm E s t" by (rule w(2))
  show "keep s t c" if "c \<in> set (blist s)" "c \<noteq> b" for c by (rule w(4) [OF that])
  show "blist t = blist s" by (simp add: t_def)
qed

lemma received_same:
  assumes "keyed E s" and "own s b" and "part_of (data (bufs s b)) k p"
  shows "received E p (contents (mem s) p) s s"
proof -
  have b: "b \<in> set (blist s)" using assms(2) by (simp add: own_def)
  have "put (mem s) p (contents (mem s) p) = mem s"
    by (rule put_contents) (use part_of_bound [OF assms(3)] guarded_data(7) [OF session_D(2) [OF keyed_D(2) [OF assms(1)] b]] assms(3)
      in \<open>cases "(data (bufs s b), k, p)" rule: part_of.cases; auto\<close>)
  moreover have "length (contents (mem s) p) = slen p"
    using guarded_data(7) [OF session_D(2) [OF keyed_D(2) [OF assms(1)] b]] assms(3)
    by (cases "(data (bufs s b), k, p)" rule: part_of.cases) auto
  ultimately show ?thesis using assms(1) by (simp add: received_def extends_refl)
qed

lemma slice_suffix_run:
  assumes "readable (mem s) sl" and "wf_slice sl" and "i \<le> slen sl"
  obtains p where "slice_from sl (int i) t = (Ret p, t)" and "readable (mem s) p" and "wf_slice p" and "slen p = slen sl - i"
    and "contents (mem s) p = drop i (contents (mem s) sl)"
proof (cases sl)
  case NilSlice
  then show ?thesis using assms that [of NilSlice] by (simp add: exec)
next
  case (Slice a q n c)
  have "readable (mem s) (Slice a (q + i) (n - i) (c - i))"
    using assms Slice by (auto simp: add.assoc)
  then show ?thesis
    using assms Slice by (intro that [of "Slice a (q + i) (n - i) (c - i)"]) (auto simp: exec wf_slice_def sub_def drop_take add.commute)
qed

lemma bytes_Read_run:
  assumes "keyed E s" and "br_inv E h r s" and "own s b" and "h \<le> b" and "mutable (bufs s b)" and "part_of (data (bufs s b)) k p" and "0 < slen p"
  defines "n \<equiv> min (slen p) (length (br_rest r s))"
  shows "\<exists>e r' t bs. bytes_Read p (r, s) = (Ret (int n, e), (r', t)) \<and> received E p bs s t \<and>
     take n bs = take n (br_rest r s) \<and> br_rest r' t = drop n (br_rest r s) \<and> br_inv E h r' t \<and>
     e = (if br_rest r s = [] then Some EOF else None)"
proof -
  have src: "source_ok h s (rs r)" "0 \<le> ri r" using assms(2) by (simp_all add: br_inv_def)
  note rd = source_readable [OF keyed_D(2) [OF assms(1)] src(1)]
  have len: "length (contents (mem s) (rs r)) = slen (rs r)" using readable_fits [OF rd(1)] by simp
  obtain i where i: "ri r = int i" using src(2) zero_le_imp_eq_int by blast
  show ?thesis
  proof (cases "slen (rs r) \<le> i")
    case True
    note received_same [OF assms(1,3,6)]
    moreover have "br_rest r s = []" using True len i by (simp add: br_rest_def)
    ultimately show ?thesis using True i assms(2) by (auto simp: bytes_Read_def exec n_def)
  next
    case False
    have il: "i \<le> slen (rs r)" using False by simp
    obtain q where q: "slice_from (rs r) (int i) s = (Ret q, s)" "readable (mem s) q" "wf_slice q" "slen q = slen (rs r) - i"
        "contents (mem s) q = br_rest r s"
      by (rule slice_suffix_run [OF rd il, of s]) (rule that, simp_all add: br_rest_def i)
    have nq: "n = min (slen p) (slen q)" using q(4) len i by (simp add: n_def br_rest_def)
    obtain bs where c: "go_copy p q s = (Ret (int n), s\<lparr>mem := put (mem s) p bs\<rparr>)" "length bs = slen p"
        "take n bs = take n (br_rest r s)"
      unfolding nq by (rule go_copy_run [OF assms(1,3,5,6) q(2,3)]) (use q(5) that in simp)
    let ?t = "s\<lparr>mem := put (mem s) p bs\<rparr>" and ?r = "r\<lparr>ri := ri r + int n\<rparr>"
    note w = write_received [OF assms(1,3,6) c(2)]
    have other: "x \<in> set (blist ?t) \<and> keep s ?t x" if "x \<in> set (blist s)" "x < h" for x
      using w(3) [OF that(1)] that assms(4) w(4) by auto
    note st = source_steady [OF keyed_D(2) [OF assms(1)] src(1) _ other]
    have hk: "heap_kept s ?t" using w(2) by (simp add: calm_def)
    have "keyed E ?t" using w(1) by (simp add: received_def)
    then have "br_inv E h ?r ?t" using st(1) [OF hk] src(2) by (simp add: br_inv_def)
    moreover have "br_rest ?r ?t = drop n (br_rest r s)" using st(2) [OF hk] i by (simp add: br_rest_def nat_int_add add.commute)
    moreover have "bytes_Read p (r, s) = (Ret (int n, None), (?r, ?t))"
      using False i q(1) c(1) by (simp add: bytes_Read_def bind_def exec)
    moreover have "br_rest r s \<noteq> []" using False len i by (simp add: br_rest_def)
    ultimately show ?thesis using w(1) c(3) by auto
  qed
qed

interpretation br: io_reader E bytes_Read "br_inv E h" br_rest "\<lambda>r s. EOF" "\<lambda>r s. 0" h for E h
proof
  fix s r b k p
  assume s: "keyed E s" "br_inv E h r s" "own s b" "h \<le> b" "mutable (bufs s b)" "part_of (data (bufs s b)) k p" "0 < slen p"
  let ?n = "min (slen p) (length (br_rest r s))"
  obtain e r' t bs where R: "bytes_Read p (r, s) = (Ret (int ?n, e), (r', t))" "received E p bs s t" "take ?n bs = take ?n (br_rest r s)"
      "br_rest r' t = drop ?n (br_rest r s)" "br_inv E h r' t" "e = (if br_rest r s = [] then Some EOF else None)"
    using bytes_Read_run [OF s] by (elim exE conjE) (rule that)
  have "case e of None \<Rightarrow> 0 < ?n \<or> (0::nat) < 0 | Some x \<Rightarrow> x = EOF \<and> br_rest r' t = []"
    using R(4,6) s(7) by simp
  then show "\<exists>n e r' t bs. bytes_Read p (r, s) = (Ret (int n, e), (r', t)) \<and> received E p bs s t \<and> n \<le> slen p \<and> n \<le> length (br_rest r s) \<and>
      take n bs = take n (br_rest r s) \<and> br_rest r' t = drop n (br_rest r s) \<and> EOF = EOF \<and> br_inv E h r' t \<and> (0::nat) \<le> 0 \<and>
      (case e of None \<Rightarrow> 0 < n \<or> (0::nat) < 0 | Some x \<Rightarrow> x = EOF \<and> br_rest r' t = [])"
    using R(1-5) by (intro exI [of _ ?n] exI [of _ e] exI [of _ r'] exI [of _ t] exI [of _ bs]) simp
next
  fix r s t assume r: "br_inv E h r s" "steady E h s t" "keyed E t"
  have "source_ok h t (rs r)" "contents (mem t) (rs r) = contents (mem s) (rs r)"
    using source_steady [of E s h "rs r" t] r keyed_D(2) [of E s] by (auto simp: br_inv_def steady_def calm_def)
  then show "br_inv E h r t \<and> br_rest r t = br_rest r s \<and> EOF = EOF \<and> 0 = 0"
    using r(1,3) by (simp add: br_inv_def br_rest_def)
qed

end
