(* ===== verification/Reader_Props.thy ===== *)
theory Reader_Props
  imports Byte_Reader Sim
begin

text \<open>
  The properties of the constructors that read from an \<^verbatim>\<open>io.Reader\<close>, for every reader that keeps the contract of theory
  \<open>Reader_Spec\<close>, each followed by its instance with a \<^verbatim>\<open>bytes.Reader\<close>.
\<close>

subsection \<open>A reader of three bytes\<close>

definition w_rd :: bytes_Reader where "w_rd = \<lparr>rs = w_sl, ri = 0\<rparr>"

lemma w_rd_facts: "br_inv simE 0 w_rd w_user" "br_rest w_rd w_user = [1, 2, 3]" "pageSize simE = 8"
proof -
  have "readable (mem w_user) w_sl" by (rule writable_readable [OF w_user_facts(5)])
  then have "source_ok 0 w_user w_sl"
    unfolding source_ok_def
    by (intro disjI2 exI [of _ "gcnext (mem w_key)"] exI [of _ 0] exI [of _ 3]) (use w_user_facts(6,7) in simp)
  then show "br_inv simE 0 w_rd w_user" "br_rest w_rd w_user = [1, 2, 3]" "pageSize simE = 8"
    using w_user_facts(4,8) by (simp_all add: br_inv_def br_rest_def w_rd_def simE_def)
qed

lemmas w_reader = br.io_reader_axioms [of simE 0]

subsection \<open>NewBufferFromReader\<close>

text \<open>
  C13. \<^verbatim>\<open>NewBufferFromReader(r, n)\<close> returns, with the first \<open>n\<close> bytes of the reader in a new immutable buffer, and takes no more
  from the reader. The error is nil exactly when there were \<open>n\<close> bytes. When the reader ended early the bytes that came are
  returned, in a buffer of their size, with \<^verbatim>\<open>io.ErrUnexpectedEOF\<close> or the reader's own error; when none came the buffer
  is null and the error is the reader's.
\<close>

theorem NewBufferFromReader_reads:
  assumes "io_reader E rd ok rest final idle home" and "keyed E s" and "ok r s" and "0 < n" and "int n \<le> 2 ^ 62"
    and "length (rest r s) + idle r s + 1 < fuel" and "home \<le> nbufs s"
  shows "\<exists>d r' t. NewBufferFromReader E rd fuel (int n) (r, s) =
       (Ret (d, if n \<le> length (rest r s) then None
                else Some (if rest r s \<noteq> [] \<and> final r s = EOF then ErrUnexpectedEOF else final r s)), (r', t)) \<and>
     gives E s t d (take n (rest r s)) \<and> ok r' t \<and> rest r' t = drop n (rest r s)"
  by (rule io_reader.NewBufferFromReader_run [OF assms])

theorem NewBufferFromReader_reads_witness:
  "\<exists>d r' t. NewBufferFromReader simE bytes_Read 5 2 (w_rd, w_user) = (Ret (d, None), (r', t)) \<and>
     contents (mem t) (data (bufs t d)) = [1, 2] \<and> br_rest r' t = [3]"
  using NewBufferFromReader_reads [OF w_reader w_user_facts(8) w_rd_facts(1), of 2 5] w_rd_facts(2)
  by (auto simp: gives_def)

subsection \<open>NewBufferFromReaderUntil\<close>

text \<open>
  C12. \<^verbatim>\<open>NewBufferFromReaderUntil(r, delim)\<close> returns an immutable buffer with the bytes before the first delimiter; the delimiter
  is taken from the reader, and nothing after it. Without a delimiter it returns all the bytes and the reader's error.
  However often the buffer grew on the way, nothing that existed changed and no other buffer is left.
\<close>

theorem NewBufferFromReaderUntil_reads:
  assumes "io_reader E rd ok rest final idle home" and "keyed E s" and "ok r s" and "int (length (rest r s) + pageSize E) \<le> 2 ^ 62"
    and "length (rest r s) + idle r s < fuel" and "home \<le> nbufs s"
  shows "\<exists>d r' t. NewBufferFromReaderUntil E rd fuel delim (r, s) =
       (Ret (d, if delim \<in> set (rest r s) then None else Some (final r s)), (r', t)) \<and>
     gives E s t d (takeWhile (\<lambda>x. x \<noteq> delim) (rest r s)) \<and> ok r' t \<and>
     rest r' t = tl (dropWhile (\<lambda>x. x \<noteq> delim) (rest r s))"
  by (rule io_reader.NewBufferFromReaderUntil_run [OF assms])

theorem NewBufferFromReaderUntil_reads_witness:
  "\<exists>d r' t. NewBufferFromReaderUntil simE bytes_Read 4 2 (w_rd, w_user) = (Ret (d, None), (r', t)) \<and>
     contents (mem t) (data (bufs t d)) = [1] \<and> br_rest r' t = [3]"
  using NewBufferFromReaderUntil_reads [OF w_reader w_user_facts(8) w_rd_facts(1), of 4 2] w_rd_facts(2,3)
  by (auto simp: gives_def)

subsection \<open>NewBufferFromEntireReader\<close>

text \<open>
  C11. \<^verbatim>\<open>NewBufferFromEntireReader(r)\<close> returns an immutable buffer with all the bytes of the reader; the error is nil exactly when the
  reader ended with \<^verbatim>\<open>io.EOF\<close>.
\<close>

theorem NewBufferFromEntireReader_reads:
  assumes "io_reader E rd ok rest final idle home" and "keyed E s" and "ok r s" and "int (length (rest r s) + pageSize E) \<le> 2 ^ 62"
    and "length (rest r s) + idle r s < fuel" and "home \<le> nbufs s"
  shows "\<exists>d r' t. NewBufferFromEntireReader E rd fuel (r, s) = (Ret (d, if final r s = EOF then None else Some (final r s)), (r', t)) \<and>
     gives E s t d (rest r s) \<and> ok r' t \<and> rest r' t = []"
  by (rule io_reader.NewBufferFromEntireReader_run [OF assms])

theorem NewBufferFromEntireReader_reads_witness:
  "\<exists>d r' t. NewBufferFromEntireReader simE bytes_Read 4 (w_rd, w_user) = (Ret (d, None), (r', t)) \<and>
     contents (mem t) (data (bufs t d)) = [1, 2, 3]"
  using NewBufferFromEntireReader_reads [OF w_reader w_user_facts(8) w_rd_facts(1), of 4] w_rd_facts(2,3)
  by (auto simp: gives_def)

subsection \<open>Reader\<close>

text \<open>
  \<^verbatim>\<open>Reader\<close> of a buffer reads its data: reading it to the end gives a second immutable buffer with the same bytes, and leaves
  the first one as it was.
\<close>

theorem Reader_copies:
  assumes "keyed E s" and "b \<in> set (blist s)" and "int (slen (data (bufs s b)) + pageSize E) \<le> 2 ^ 62" and "slen (data (bufs s b)) < fuel"
  shows "\<exists>r d r' t. Reader b s = (Ret r, s) \<and> NewBufferFromEntireReader E bytes_Read fuel (r, s) = (Ret (d, None), (r', t)) \<and>
     contents (mem t) (data (bufs t d)) = contents (mem s) (data (bufs s b)) \<and> \<not> mutable (bufs t d) \<and> keep s t b \<and>
     blist t = blist s @ [d]"
proof -
  note k = keyed_D [OF assms(1)] and g = guarded_data [OF session_D(2) [OF keyed_D(2) [OF assms(1)] assms(2)]]
  let ?r = "\<lparr>rs = data (bufs s b), ri = 0\<rparr>" and ?h = "nbufs s"
  have "Reader b s = (Ret ?r, s)" by (simp add: Reader_def Bytes_def Data_def get_buf_def bind_def exec)
  moreover have "br_inv E ?h ?r s"
    using assms(1,2) session_D(3) [OF k(2) assms(2)] by (auto simp: br_inv_def source_ok_def)
  moreover have R: "br_rest ?r s = contents (mem s) (data (bufs s b))" "length (contents (mem s) (data (bufs s b))) = slen (data (bufs s b))"
    using g(7) by (simp_all add: br_rest_def)
  ultimately obtain d r' t where N: "NewBufferFromEntireReader E bytes_Read fuel (?r, s) = (Ret (d, None), (r', t))"
      "gives E s t d (contents (mem s) (data (bufs s b)))" "Reader b s = (Ret ?r, s)"
    using br.NewBufferFromEntireReader_run [OF assms(1), of ?h ?r fuel] assms(3,4) by auto
  have "contents (mem s) (data (bufs s b)) \<noteq> []" using R(2) g(5) by auto
  then have w: "work E s t d" "\<not> mutable (bufs t d)" "contents (mem t) (data (bufs t d)) = contents (mem s) (data (bufs s b))"
    using N(2) by (simp_all add: gives_def)
  show ?thesis
    using N(1,3) w work_D(5) [OF w(1)] extends_D(1) [OF work_D(3) [OF w(1)] assms(2)]
    by (intro exI [of _ ?r] exI [of _ d] exI [of _ r'] exI [of _ t]) simp
qed

theorem Reader_copies_witness:
  "\<exists>r d r' t. Reader 0 w_user = (Ret r, w_user) \<and> NewBufferFromEntireReader simE bytes_Read 6 (r, w_user) = (Ret (d, None), (r', t)) \<and>
     contents (mem t) (data (bufs t d)) = [0, 0, 0, 0, 0]"
  using Reader_copies [OF w_user_facts(8) w_user_buf(1), of 6] w_user_buf(3,4) w_rd_facts(3) by fastforce

end
