(* ===== verification/Streams.thy ===== *)
theory Streams
  imports Byte_Reader
begin

text \<open>
  \<^verbatim>\<open>stream.go\<close>: an encrypted queue of bytes. A \<^verbatim>\<open>Stream\<close> is a mutex and a list of enclaves; \<^verbatim>\<open>Write\<close> seals the data in
  chunks at the back, \<^verbatim>\<open>Read\<close> opens the enclave at the front and pushes back what the caller had no room for. Its
  methods are computations on the stream and the process. The lemmas relate them to the bytes in the stream.
\<close>

subsection \<open>stream.go: the queue\<close>

text \<open>
  \<^verbatim>\<open>type Stream struct\<close> with the embedded \<^verbatim>\<open>sync.Mutex\<close> and the \<^verbatim>\<open>container/list\<close> of the embedded \<^verbatim>\<open>queue\<close>. The
  values of the list are pointers, so they may be \<^verbatim>\<open>nil\<close>.
\<close>

record Stream =
  slocked :: bool
  queue :: "Enclave option list"

definition NewStream :: Stream where
  "NewStream = \<lparr>slocked = False, queue = []\<rparr>"

definition join :: "Enclave option \<Rightarrow> (Stream, unit) rgo" where
  "join e = modify (\<lambda>(q, s). (q\<lparr>queue := queue q @ [e]\<rparr>, s))"

definition push :: "Enclave option \<Rightarrow> (Stream, unit) rgo" where
  "push e = modify (\<lambda>(q, s). (q\<lparr>queue := e # queue q\<rparr>, s))"

definition pop :: "(Stream, Enclave option) rgo" where
  "pop = bind (gets (\<lambda>(q, s). queue q)) (\<lambda>l.
     case l of
       [] \<Rightarrow> ret None
     | e # es \<Rightarrow> bind (modify (\<lambda>(q, s). (q\<lparr>queue := es\<rparr>, s))) (\<lambda>_. ret e))"

text \<open>\<^verbatim>\<open>s.Lock(); defer s.Unlock()\<close>\<close>

definition with_stream :: "(Stream, 'a) rgo \<Rightarrow> (Stream, 'a) rgo" where
  "with_stream m u =
     (if slocked (fst u) then (Blocked, u)
      else defer_do (modify (\<lambda>(q, s). (q\<lparr>slocked := False\<rparr>, s))) m ((fst u)\<lparr>slocked := True\<rparr>, snd u))"

subsection \<open>stream.go: the stream\<close>

text \<open>The chunk size \<^verbatim>\<open>c = os.Getpagesize() * 4\<close>.\<close>

definition chunk :: "env \<Rightarrow> nat" where
  "chunk E = pageSize E * 4"

text \<open>The loop of \<^verbatim>\<open>Write\<close>; the page size is positive.\<close>

function write_loop :: "env \<Rightarrow> slice \<Rightarrow> nat \<Rightarrow> (Stream, unit) rgo" where
  "write_loop E buf i =
     (if i < slen buf \<and> 0 < chunk E then
        bind (on_world (if slen buf < i + chunk E then slice_from buf (int (slen buf - slen buf mod chunk E))
                        else slice_range buf (int i) (int (i + chunk E)))) (\<lambda>p.
        bind (on_world (memguard_NewEnclave E p)) (\<lambda>e.
        bind (join e) (\<lambda>_.
        write_loop E buf (i + chunk E))))
      else ret ())"
  by pat_completeness auto
termination
  by (relation "measure (\<lambda>(E, buf, i). slen buf - i)") auto

declare write_loop.simps [simp del]

definition Stream_Write :: "env \<Rightarrow> slice \<Rightarrow> (Stream, int \<times> err option) rgo" where
  "Stream_Write E buf = with_stream
     (bind (write_loop E buf 0) (\<lambda>_. ret (int (slen buf), None)))"

definition stream_next :: "env \<Rightarrow> (Stream, nat \<times> err option) rgo" where
  "stream_next E =
     bind pop (\<lambda>e.
     case e of
       None \<Rightarrow> bind (on_world newNullBuffer) (\<lambda>b. ret (b, Some EOF))
     | Some e \<Rightarrow>
         bind (on_world (Enclave_Open E e)) (\<lambda>r.
         case r of
           Inl err \<Rightarrow> bind (on_world newNullBuffer) (\<lambda>b. ret (b, Some err))
         | Inr b \<Rightarrow> ret (b, None)))"

text \<open>What \<^verbatim>\<open>Read\<close> does with the data it has no room for.\<close>

definition push_back :: "env \<Rightarrow> nat \<Rightarrow> slice \<Rightarrow> (Stream, unit) rgo" where
  "push_back E b buf =
     bind (on_world (Size b)) (\<lambda>n.
     bind (on_world (memguard_NewBuffer E (n - int (slen buf)))) (\<lambda>c.
     bind (on_world (Bytes b)) (\<lambda>d.
     bind (on_world (slice_from d (int (slen buf)))) (\<lambda>p.
     bind (on_world (LockedBuffer_Copy c p)) (\<lambda>_.
     bind (on_world (LockedBuffer_Seal E c)) (\<lambda>e.
     push e))))))"

definition Stream_Read :: "env \<Rightarrow> Stream reader" where
  "Stream_Read E buf = with_stream
     (bind (stream_next E) (\<lambda>(b, err).
      case err of
        Some e \<Rightarrow> ret (0, Some e)
      | None \<Rightarrow>
          defer_do (on_world (LockedBuffer_Destroy E b))
            (bind (on_world (Bytes b)) (\<lambda>d.
             bind (on_world (Copy buf d)) (\<lambda>_.
             bind (on_world (Size b)) (\<lambda>n.
             if int (slen buf) < n then
               bind (push_back E b buf) (\<lambda>_. ret (int (slen buf), None))
             else
               bind (on_world (Size b)) (\<lambda>n. ret (n, None))))))))"

text \<open>The loop of \<^verbatim>\<open>Size\<close>; a \<^verbatim>\<open>nil\<close> enclave is dereferenced.\<close>

fun size_loop :: "env \<Rightarrow> Enclave option list \<Rightarrow> int \<Rightarrow> (Stream, int) rgo" where
  "size_loop E [] n = ret n"
| "size_loop E (None # es) n = go_panic (PRuntime ''invalid memory address or nil pointer dereference'')"
| "size_loop E (Some e # es) n = size_loop E es (n + Enclave_Size E e)"

definition Stream_Size :: "env \<Rightarrow> (Stream, int) rgo" where
  "Stream_Size E = with_stream (bind (gets (\<lambda>(q, s). queue q)) (\<lambda>l. size_loop E l 0))"

definition Stream_Next :: "env \<Rightarrow> (Stream, nat \<times> err option) rgo" where
  "Stream_Next E = with_stream (stream_next E)"

definition Flush :: "env \<Rightarrow> nat \<Rightarrow> (Stream, nat \<times> err option) rgo" where
  "Flush E fuel = NewBufferFromEntireReader E (Stream_Read E) fuel"

subsection \<open>The bytes in a stream\<close>

text \<open>The bytes an enclave opens to, and those of a queue.\<close>

definition open_bytes :: "env \<Rightarrow> world \<Rightarrow> Enclave \<Rightarrow> byte list" where
  "open_bytes E s e =
     (let c = contents (mem s) (ciphertext e) in
      case sbOpen E (drop 24 c) (take 24 c) (key_value E s) of None \<Rightarrow> [] | Some m \<Rightarrow> m)"

fun queue_chunks :: "env \<Rightarrow> world \<Rightarrow> Enclave option list \<Rightarrow> byte list list" where
  "queue_chunks E s [] = []"
| "queue_chunks E s (None # es) = queue_chunks E s es"
| "queue_chunks E s (Some e # es) = open_bytes E s e # queue_chunks E s es"

definition queue_bytes :: "env \<Rightarrow> world \<Rightarrow> Enclave option list \<Rightarrow> byte list" where
  "queue_bytes E s es = concat (queue_chunks E s es)"

lemma queue_bytes_simps [simp]:
  "queue_bytes E s [] = []" "queue_bytes E s (Some e # es) = open_bytes E s e @ queue_bytes E s es"
  by (simp_all add: queue_bytes_def)

text \<open>Every element of the queue is an enclave that opens.\<close>

definition queue_ok :: "env \<Rightarrow> world \<Rightarrow> Enclave option list \<Rightarrow> bool" where
  "queue_ok E s es \<longleftrightarrow> (\<forall>x \<in> set es. \<exists>e m. x = Some e \<and> sealed E s e m)"

definition stream_ok :: "env \<Rightarrow> Stream \<Rightarrow> world \<Rightarrow> bool" where
  "stream_ok E q s \<longleftrightarrow> \<not> slocked q \<and> queue_ok E s (queue q)"

lemma sealed_open_bytes:
  assumes "secretbox_ok E" and "sealed E s e m"
  shows "open_bytes E s e = m"
  using assms by (auto simp: sealed_def holds_def open_bytes_def secretbox_ok_def key_value_def)

lemma sealed_calm:
  assumes "calm E s t" and "sealed E s e m"
  shows "sealed E t e m"
  using assms holds_heap [of E s e m t] by (auto simp: sealed_def calm_def key_value_def)

lemma queue_cong:
  assumes "secretbox_ok E" and "\<And>e m. Some e \<in> set es \<Longrightarrow> sealed E s e m \<Longrightarrow> sealed E t e m" and "queue_ok E s es"
  shows "queue_ok E t es" and "queue_chunks E t es = queue_chunks E s es" and "queue_bytes E t es = queue_bytes E s es"
proof -
  show "queue_ok E t es"
    unfolding queue_ok_def
  proof
    fix x assume x: "x \<in> set es"
    then obtain e m where "x = Some e" "sealed E s e m" using assms(3) unfolding queue_ok_def by meson
    then show "\<exists>e m. x = Some e \<and> sealed E t e m" using assms(2) [of e m] x by blast
  qed
  show "queue_chunks E t es = queue_chunks E s es"
    using assms(2,3)
  proof (induction es)
    case (Cons x es)
    have q: "queue_ok E s es" using Cons.prems(2) by (simp add: queue_ok_def)
    obtain e m where x: "x = Some e" "sealed E s e m" using Cons.prems(2) unfolding queue_ok_def by (meson list.set_intros(1))
    have "queue_chunks E t es = queue_chunks E s es" by (rule Cons.IH [OF Cons.prems(1) q]) (rule list.set_intros(2))
    moreover have "sealed E t e m" by (rule Cons.prems(1) [OF _ x(2)]) (simp add: x(1))
    ultimately show ?case
      unfolding x(1) queue_chunks.simps sealed_open_bytes [OF assms(1) x(2)] by (simp only: sealed_open_bytes [OF assms(1)])
  qed simp
  then show "queue_bytes E t es = queue_bytes E s es" by (simp add: queue_bytes_def)
qed

lemma queue_calm:
  assumes "secretbox_ok E" and "calm E s t" and "queue_ok E s es"
  shows "queue_ok E t es" and "queue_bytes E t es = queue_bytes E s es"
  using queue_cong [OF assms(1) sealed_calm [OF assms(2)] assms(3)] by simp_all

lemma queue_ok_simps [simp]:
  "queue_ok E s []" "queue_ok E s (x # es) \<longleftrightarrow> (\<exists>e m. x = Some e \<and> sealed E s e m) \<and> queue_ok E s es"
  "queue_ok E s (es @ fs) \<longleftrightarrow> queue_ok E s es \<and> queue_ok E s fs"
  by (auto simp: queue_ok_def)

lemma queue_append:
  "queue_chunks E s (es @ fs) = queue_chunks E s es @ queue_chunks E s fs"
  "queue_bytes E s (es @ fs) = queue_bytes E s es @ queue_bytes E s fs"
proof -
  show c: "queue_chunks E s (es @ fs) = queue_chunks E s es @ queue_chunks E s fs"
    by (induction E s es rule: queue_chunks.induct) simp_all
  then show "queue_bytes E s (es @ fs) = queue_bytes E s es @ queue_bytes E s fs" by (simp add: queue_bytes_def)
qed

subsection \<open>Facts: the lock of a stream\<close>

lemma with_stream_Ret:
  assumes "\<not> slocked q" and "m (q\<lparr>slocked := True\<rparr>, s) = (Ret v, (q', t))"
  shows "with_stream m (q, s) = (Ret v, (q'\<lparr>slocked := False\<rparr>, t))"
  using assms by (simp add: with_stream_def defer_do_def bind_def exec)

end
