(* ===== verification/Stream_Spec.thy ===== *)
theory Stream_Spec
  imports Streams
begin

text \<open>
  What the methods of a \<^verbatim>\<open>Stream\<close> do to the bytes in it: \<^verbatim>\<open>Read\<close> takes bytes off the front, \<^verbatim>\<open>Write\<close> adds them at the back, and
  nothing else of the process changes. A stream is a reader in the sense of theory \<open>Reader_Spec\<close>.
\<close>

subsection \<open>Destinations\<close>

text \<open>A slice a program may pass to \<^verbatim>\<open>Read\<close>: a part of one of its own mutable buffers or of the garbage-collected heap.\<close>

definition target :: "world \<Rightarrow> slice \<Rightarrow> bool" where
  "target s p \<longleftrightarrow>
     (\<exists>b k. own s b \<and> mutable (bufs s b) \<and> part_of (data (bufs s b)) k p) \<or>
     (\<exists>j i n c. p = Slice (GC j) i n c \<and> j < gcnext (mem s) \<and> writable (mem s) p \<and> n \<le> c)"

lemma target_cases:
  assumes "target s p"
  obtains (buf) b k where "own s b" and "mutable (bufs s b)" and "part_of (data (bufs s b)) k p"
  | (gc) j i n c where "p = Slice (GC j) i n c" and "j < gcnext (mem s)" and "writable (mem s) p" and "n \<le> c"
  using assms unfolding target_def by blast

text \<open>A part of the data of a buffer has its access rights.\<close>

lemma part_access:
  assumes "part_of (data (bufs s b)) k p" and "session E s" and "b \<in> set (blist s)" and "mutable (bufs s b)"
  shows "writable (mem s) p" and "wf_slice p" and "slice_base p = buf_base (bufs s b)" and "stable s p"
proof -
  obtain a q m where d: "data (bufs s b) = Slice (Sys a) q m m" "buf_base (bufs s b) = Sys a" "a < sysnext (mem s)"
    using guarded_mapped(1) [OF session_D(2) [OF assms(2,3)]] by (auto elim!: mappedE)
  then obtain l c where p: "p = Slice (Sys a) (q + k) l c" "k + l \<le> m" "l \<le> c" using assms(1) by (cases p) auto
  have "writable (mem s) (data (bufs s b))" by (rule guarded_data(2) [OF session_D(2) [OF assms(2,3)] assms(4)])
  then show "writable (mem s) p" using d p by (auto simp: add.assoc)
  show "wf_slice p" "slice_base p = buf_base (bufs s b)" using d p by (simp_all add: wf_slice_def)
  have "regs (mem t) (Sys a) = regs (mem s) (Sys a) \<and> a < sysnext (mem t)" if "extends s t" for t
    using extends_D(1) [OF that assms(3)] extends_D(8) [OF that] d by (simp add: keep_def)
  then show "stable s p" using d p by (simp add: stable_def)
qed

lemma target_access:
  assumes "target s p" and "session E s"
  shows "writable (mem s) p" and "wf_slice p" and "stable s p"
  using assms(1)
  by (cases rule: target_cases; use part_access [OF _ assms(2)] in \<open>auto simp: own_def wf_slice_def intro: stable_gc\<close>)+

text \<open>A later state that has everything the earlier one had.\<close>

lemma target_later:
  assumes "target s p" and "session E s" and "extends s t" and "\<And>b. b < nbufs s \<Longrightarrow> b \<notin> refs s (key s) \<Longrightarrow> b \<notin> refs t (key t)"
  shows "target t p"
  using assms(1)
proof (cases rule: target_cases)
  case (buf b k)
  then have b: "b \<in> set (blist s)" "b \<notin> refs s (key s)" "b < nbufs s" using session_D(3) [OF assms(2)] by (auto simp: own_def)
  have "own t b" using extends_D(2) [OF assms(3) b(1)] assms(4) [OF b(3,2)] by (simp add: own_def)
  then show ?thesis
    using buf(2,3) extends_D(3) [OF assms(3) b(3)] unfolding target_def by (intro disjI1 exI [of _ b] exI [of _ k]) simp
next
  case (gc j i n c')
  have "regs (mem t) (GC j) = regs (mem s) (GC j)" "j < gcnext (mem t)"
    using gc(2) extends_D(5,7) [OF assms(3)] by auto
  then show ?thesis using gc unfolding target_def by simp
qed

lemma target_put:
  assumes "target s p" and "fits (mem s) r" and "length bs = slen r"
  shows "target (s\<lparr>mem := put (mem s) r bs\<rparr>) p"
  using assms unfolding target_def own_def refs_def by simp

lemma target_extends:
  assumes "target s p" and "keyed E s" and "extends s t" and "key t = key s"
  shows "target t p" and "contents (mem t) p = contents (mem s) p"
    and "c \<in> set (blist t) \<Longrightarrow> nbufs s \<le> c \<Longrightarrow> session E t \<Longrightarrow> slice_base p \<noteq> buf_base (bufs t c)"
proof -
  note s = keyed_D(2) [OF assms(2)]
  show t: "target t p" by (rule target_later [OF assms(1) s assms(3)]) (simp add: extends_refs [OF assms(2-4)])
  show "contents (mem t) p = contents (mem s) p" by (rule stable_D(1) [OF target_access(3) [OF assms(1) s] assms(3)])
  show "slice_base p \<noteq> buf_base (bufs t c)" if c: "c \<in> set (blist t)" "nbufs s \<le> c" "session E t"
    using assms(1)
  proof (cases rule: target_cases)
    case (buf b k)
    then have b: "b \<in> set (blist s)" "b < nbufs s" "b \<noteq> c" using session_D(3) [OF s, of b] c(2) by (auto simp: own_def)
    have "slice_base p = buf_base (bufs t b)" using part_access(3) [OF buf(3) s b(1) buf(2)] extends_D(3) [OF assms(3) b(2)] by simp
    then show ?thesis using session_D(6) [OF c(3) extends_D(2) [OF assms(3) b(1)] c(1) b(3)] by simp
  next
    case (gc j i n c')
    have "is_Sys (buf_base (bufs t c))" by (rule session_bases [OF c(3,1)]) simp
    then show ?thesis using gc(1) by (cases "buf_base (bufs t c)") auto
  qed
qed

text \<open>Parts of a destination.\<close>

lemma part_of_part: "part_of sl j p \<Longrightarrow> part_of p i r \<Longrightarrow> part_of sl (j + i) r"
  by (cases "(sl, j, p)" rule: part_of.cases; cases "(p, i, r)" rule: part_of.cases) (auto simp: add.assoc)

lemma target_part:
  assumes "target s p" and "part_of p i r"
  shows "target s r"
  using assms(1)
proof (cases rule: target_cases)
  case (buf b j)
  have "part_of (data (bufs s b)) (j + i) r" by (rule part_of_part [OF buf(3) assms(2)])
  with buf(1,2) show ?thesis unfolding target_def by (intro disjI1 exI [of _ b] exI [of _ "j + i"]) simp
next
  case (gc j k n c)
  then show ?thesis using assms(2) unfolding target_def by (intro disjI2) (cases r; auto simp: add.assoc)
qed

text \<open>Writing to a destination.\<close>

lemma put_keep: "buf_base (bufs s c) \<noteq> slice_base p \<Longrightarrow> keep s (s\<lparr>mem := put (mem s) p bs\<rparr>) c"
  by (cases p) (auto simp: keep_def)

lemma target_write:
  assumes "target s p" and "keyed E s" and "length bs = slen p"
  defines "u \<equiv> s\<lparr>mem := put (mem s) p bs\<rparr>"
  shows "keyed E u" and "key_value E u = key_value E s" and "c \<in> set (blist s) \<Longrightarrow> buf_base (bufs s c) \<noteq> slice_base p \<Longrightarrow> keep s u c"
proof -
  have "keyed E u \<and> key_value E u = key_value E s"
    using assms(1)
  proof (cases rule: target_cases)
    case (buf b k)
    from write_received [OF assms(2) buf(1,3) assms(3)] show ?thesis by (simp add: u_def received_def calm_def)
  next
    case (gc j i n c)
    note k = keyed_D [OF assms(2)]
    have "session E u" unfolding u_def gc(1) by (rule session_gc(1) [OF k(2)]) simp_all
    moreover have "clean u" by (rule clean_keep [OF k(3,2)]) (use put_gc_keep [OF k(2)] in \<open>simp add: u_def gc(1)\<close>)
    moreover have "coffer_ok u (key u)" using k(4) by (simp add: u_def coffer_ok_def part_ok_def cong: option.case_cong)
    ultimately show ?thesis
      using put_gc_value [OF k(2,4)] k(1) by (simp add: keyed_def key_value_def u_def gc(1))
  qed
  then show "keyed E u" "key_value E u = key_value E s" by auto
  show "c \<in> set (blist s) \<Longrightarrow> buf_base (bufs s c) \<noteq> slice_base p \<Longrightarrow> keep s u c"
    unfolding u_def by (rule put_keep)
qed

text \<open>An enclave does not notice a write elsewhere.\<close>

lemma sealed_write:
  assumes "target s p" and "keyed E s" and "length bs = slen p" and "sealed E s e m" and "slice_base (ciphertext e) \<noteq> slice_base p"
  shows "sealed E (s\<lparr>mem := put (mem s) p bs\<rparr>) e m"
proof -
  have h: "holds E s e m" using assms(4) by (simp add: sealed_def)
  have "regs (put (mem s) p bs) (slice_base (ciphertext e)) = regs (mem s) (slice_base (ciphertext e))"
    using assms(5) by (cases p) auto
  then have "holds E (s\<lparr>mem := put (mem s) p bs\<rparr>) e m"
    using target_write(2) [OF assms(1-3)] by (intro holds_cong [OF h]) (simp_all add: key_value_def)
  then show ?thesis using assms(4) by (simp add: sealed_def)
qed

subsection \<open>Facts: sealing and opening in a workspace\<close>

lemma Enclave_Open_run:
  assumes "keyed E s" and "sealed E s e m"
  obtains t where "Enclave_Open E e s = (Ret (Inr (nbufs s)), t)" and "work E s t (nbufs s)" and "\<not> mutable (bufs t (nbufs s))"
    and "contents (mem t) (data (bufs t (nbufs s))) = m"
proof -
  note k = keyed_D [OF assms(1)]
  have h: "holds E s e m" "m \<noteq> []" "int (slen (ciphertext e)) \<le> 2 ^ 62" using assms(2) by (simp_all add: sealed_def)
  obtain t where t: "Open E e s = (Ret (Inr (nbufs s)), t)" "session E t" "extends s t"
      "contents (mem t) (data (bufs t (nbufs s))) = m" "blist t = blist s @ [nbufs s]" "key t = key s" "clean s \<Longrightarrow> clean t"
    by (rule Open_run [OF k(1,2,4) h]) (rule that)
  have w: "work E s t (nbufs s)" by (rule work_intro [OF assms(1) t(3,6,5) _ t(2) t(7) [OF k(3)]]) simp
  note z = work_freeze [OF w]
  have "Enclave_Open E e s = (Ret (Inr (nbufs s)), frozen_state (nbufs s) t)"
    using t(1) z(1) by (simp add: Enclave_Open_def bind_def exec LockedBuffer_Freeze_def)
  then show ?thesis using that z(2,3,5) t(4) by simp
qed

lemma work_seal:
  assumes "work E s t b" and "int (slen (data (bufs t b))) + Overhead E \<le> 2 ^ 62"
  obtains e u where "LockedBuffer_Seal E b t = (Ret (Some e), u)" and "keyed E u" and "extends s u" and "key u = key s" and "blist u = blist s"
    and "sealed E u e (contents (mem t) (data (bufs t b)))" and "bufs u b = zero_Buffer" and "nbufs t \<le> nbufs u"
proof -
  note w = work_D [OF assms(1)]
  note k = keyed_D [OF w(1)] and kt = keyed_D [OF w(2)]
  obtain u e where u: "Seal E b t = (Ret (Inr e), u)" "session E u" "coffer_ok u (key u)" "holds E u e (contents (mem t) (data (bufs t b)))"
      "coffer_ok t (key t) \<Longrightarrow> key u = key t \<and> coffer_value E u (key u) = coffer_value E t (key t) \<and> blist u = remove1 b (blist t)"
      "clean t \<Longrightarrow> clean u" "\<And>s0. extends s0 t \<Longrightarrow> session E s0 \<Longrightarrow> nbufs s0 \<le> b \<Longrightarrow> extends s0 u" "bufs u b = zero_Buffer"
      "nbufs t \<le> nbufs u"
    by (rule Seal_run [OF kt(1,2) w(7,8,14)]) (rule that)
  have key: "key u = key s" and bl: "blist u = blist s"
    using u(5) [OF kt(4)] w(4,5,11) by (simp_all add: remove1_append)
  have e: "extends s u" by (rule u(7) [OF w(3) k(2) w(6)])
  have ne: "contents (mem t) (data (bufs t b)) \<noteq> []" "length (contents (mem t) (data (bufs t b))) = slen (data (bufs t b))"
    using guarded_data(5,7) [OF w(12)] by (auto simp flip: length_greater_0_conv)
  then have "sealed E u e (contents (mem t) (data (bufs t b)))"
    using u(4) assms(2) holds_slen(1) [OF env_works_D(6) [OF k(1)] u(4)] by (simp add: sealed_def Overhead_def)
  moreover have "LockedBuffer_Seal E b t = (Ret (Some e), u)" using u(1) by (simp add: LockedBuffer_Seal_def bind_def exec)
  ultimately show ?thesis
    using that extends_keyed [OF w(1) e key u(2) u(6) [OF kt(3)]] e key bl u(8,9) by blast
qed

subsection \<open>Facts: Read\<close>

text \<open>The destination is not part of the memory of the stream.\<close>

definition clear :: "Enclave option list \<Rightarrow> slice \<Rightarrow> bool" where
  "clear es p \<longleftrightarrow> (\<forall>e. Some e \<in> set es \<longrightarrow> slice_base (ciphertext e) \<noteq> slice_base p)"

lemma queue_write:
  assumes "target s p" and "keyed E s" and "length bs = slen p" and "queue_ok E s es" and "clear es p"
    and "calm E (s\<lparr>mem := put (mem s) p bs\<rparr>) t"
  shows "queue_ok E t es" and "queue_bytes E t es = queue_bytes E s es"
proof -
  have sb: "secretbox_ok E" by (rule env_works_D(6) [OF keyed_D(1) [OF assms(2)]])
  have "sealed E t e m" if "Some e \<in> set es" "sealed E s e m" for e m
    by (rule sealed_calm [OF assms(6) sealed_write [OF assms(1-3) that(2)]]) (use assms(5) that(1) in \<open>simp add: clear_def\<close>)
  from queue_cong [OF sb this assms(4)] show "queue_ok E t es" "queue_bytes E t es = queue_bytes E s es" by simp_all
qed

text \<open>\<^verbatim>\<open>core.Copy(buf, b.Bytes())\<close> with the buffer of the chunk.\<close>

lemma read_copy:
  assumes "work E s t b" and "target s p"
  defines "bs \<equiv> copied (contents (mem s) p) (contents (mem t) (data (bufs t b)))"
  defines "u \<equiv> t\<lparr>mem := put (mem t) p bs\<rparr>"
  shows "Copy p (data (bufs t b)) t = (Ret (), u)" and "length bs = slen p" and "work E (s\<lparr>mem := put (mem s) p bs\<rparr>) u b"
    and "contents (mem u) (data (bufs u b)) = contents (mem t) (data (bufs t b))" and "bufs u = bufs t"
proof -
  note w = work_D [OF assms(1)]
  note x = target_extends [OF assms(2) w(1,3,4)]
  note a = target_access [OF x(1) keyed_D(2) [OF w(2)]]
  have g: "readable (mem t) (data (bufs t b))" "wf_slice (data (bufs t b))" by (rule guarded_data [OF w(12)])+
  have ne: "slice_base p \<noteq> buf_base (bufs t b)" by (rule x(3) [OF w(7,6) keyed_D(2) [OF w(2)]])
  have ap: "apart p (data (bufs t b))"
    by (rule session_bases [OF keyed_D(2) [OF w(2)] w(7)]) (use ne in \<open>cases p; auto\<close>)
  show "Copy p (data (bufs t b)) t = (Ret (), u)"
    using Copy_run [OF a(2) g(2) a(1) g(1) ap] x(2) by (simp add: u_def bs_def)
  show len: "length bs = slen p" using writable_fits [OF target_access(1) [OF assms(2) keyed_D(2) [OF w(1)]]] by (simp add: bs_def)
  note ws = target_write [OF assms(2) w(1) len] and wt = target_write [OF x(1) w(2) len, folded u_def]
  show "work E (s\<lparr>mem := put (mem s) p bs\<rparr>) u b"
    using put_extends [OF w(3), of p bs] ws(1) wt(1) w(4-6) by (simp add: work_def u_def)
  show "contents (mem u) (data (bufs u b)) = contents (mem t) (data (bufs t b))"
    by (rule kept_data(1) [OF wt(3) [OF w(7)] keyed_D(2) [OF w(2)] w(7)]) (use ne in simp)
  show "bufs u = bufs t" by (simp add: u_def)
qed

text \<open>The rest of the chunk is sealed again.\<close>

lemma push_back_run:
  assumes "work E s t b" and "slen p < length m" and "contents (mem t) (data (bufs t b)) = m"
    and "int (length m) + Overhead E \<le> 2 ^ 62"
  obtains e u where "push_back E b p (q, t) = (Ret (), (q\<lparr>queue := Some e # queue q\<rparr>, u))" and "work E s u b" and "calm E t u"
    and "sealed E u e (drop (slen p) m)"
proof -
  note w = work_D [OF assms(1)]
  let ?n = "length m - slen p" and ?c = "nbufs t"
  have small: "0 < ?n" "int ?n \<le> 2 ^ 62" using assms(2,4) by (auto simp: Overhead_def)
  define v where "v = newbuf_state E ?n t"
  note x = work_new [OF w(2) small, folded v_def]
  note y = work_D [OF x(2)]
  have kb: "keep t v b" by (rule extends_D(1) [OF y(3) w(7)])
  note kd = kept_data [OF kb keyed_D(2) [OF w(2)] w(7)]
  have bv: "b \<in> set (blist v)" using w(7) y(5) by simp
  note g = session_D(2) [OF keyed_D(2) [OF y(2)] bv]
  have len: "slen (data (bufs t b)) = length m" using guarded_data(7) [OF w(12)] assms(3) by auto
  have rd: "readable (mem v) (data (bufs v b))" "wf_slice (data (bufs v b))" by (rule guarded_data [OF g])+
  have le: "slen p \<le> slen (data (bufs v b))" using kd(2) len assms(2) by simp
  obtain d where d: "slice_from (data (bufs v b)) (int (slen p)) v = (Ret d, v)" "readable (mem v) d" "wf_slice d"
      "slen d = slen (data (bufs v b)) - slen p" "contents (mem v) d = drop (slen p) (contents (mem v) (data (bufs v b)))"
    by (rule slice_suffix_run [OF rd le, of v]) (rule that)
  have base: "slice_base d = buf_base (bufs v b)"
    by (rule session_bases [OF keyed_D(2) [OF y(2)] bv]) (use d(1) le in \<open>auto simp: exec\<close>)
  have "slice_base d \<noteq> buf_base (bufs v ?c)"
    unfolding base by (rule session_D(6) [OF keyed_D(2) [OF y(2)] bv y(7)]) (use w(7) y(11) in auto)
  note c = work_copy [OF x(2,3) d(2,3) this]
  let ?v = "v\<lparr>mem := put (mem v) (data (bufs v ?c)) (copied (contents (mem v) (data (bufs v ?c))) (contents (mem v) d))\<rparr>"
  have cont: "contents (mem ?v) (data (bufs ?v ?c)) = drop (slen p) m"
    by (rule trans [OF c(5)]) (simp add: x(4) d(5) kd(1) assms(3))
  have "int (slen (data (bufs ?v ?c))) + Overhead E \<le> 2 ^ 62" using x(5) c(3) assms(2,4) by simp
  then obtain e u where u: "LockedBuffer_Seal E ?c ?v = (Ret (Some e), u)" "keyed E u" "extends t u" "key u = key t" "blist u = blist t"
      "sealed E u e (contents (mem ?v) (data (bufs ?v ?c)))"
    by (rule work_seal [OF c(2)]) (rule that)
  have "push_back E b p (q, t) = (Ret (), (q\<lparr>queue := Some e # queue q\<rparr>, u))"
    using x(1) c(1) u(1) d(1) len assms(2)
    by (simp add: push_back_def Size_def Bytes_def Data_def get_buf_def bind_def exec push_def of_nat_diff)
  moreover have "work E s u b"
    using extends_trans [OF w(3) u(3)] u(2,4,5) w(1,4,5,6) by (simp add: work_def)
  ultimately show ?thesis using that extends_calm [OF w(2) u(3,4)] u(6) cont by simp
qed

lemma stream_next_empty:
  assumes "keyed E s" and "queue q = []"
  obtains t where "stream_next E (q, s) = (Ret (nbufs s, Some EOF), (q, t))" and "keyed E t" and "extends s t" and "key t = key s"
    and "blist t = blist s" and "bufs t (nbufs s) = zero_Buffer" and "calm E s t" and "mem t = mem s"
proof -
  obtain t where t: "newNullBuffer s = (Ret (nbufs s), t)" "keyed E t" "extends s t" "key t = key s" "blist t = blist s"
      "bufs t (nbufs s) = zero_Buffer" "calm E s t" "mem t = mem s"
    by (rule null_buffer_run [OF assms(1)]) (rule that)
  have "stream_next E (q, s) = (Ret (nbufs s, Some EOF), (q, t))"
    using t(1) assms(2) by (simp add: stream_next_def pop_def bind_def exec)
  then show ?thesis using that t by blast
qed

lemma stream_next_first:
  assumes "keyed E s" and "queue q = Some e # es" and "sealed E s e m"
  obtains t where "stream_next E (q, s) = (Ret (nbufs s, None), (q\<lparr>queue := es\<rparr>, t))" and "work E s t (nbufs s)"
    and "\<not> mutable (bufs t (nbufs s))" and "contents (mem t) (data (bufs t (nbufs s))) = m"
proof -
  obtain t where t: "Enclave_Open E e s = (Ret (Inr (nbufs s)), t)" "work E s t (nbufs s)" "\<not> mutable (bufs t (nbufs s))"
      "contents (mem t) (data (bufs t (nbufs s))) = m"
    by (rule Enclave_Open_run [OF assms(1,3)]) (rule that)
  have "stream_next E (q, s) = (Ret (nbufs s, None), (q\<lparr>queue := es\<rparr>, t))"
    using t(1) assms(2) by (simp add: stream_next_def pop_def bind_def exec)
  then show ?thesis using that t by blast
qed

lemma Stream_Read_empty:
  assumes "keyed E s" and "\<not> slocked q" and "queue q = []" and "target s p"
  obtains t where "Stream_Read E p (q, s) = (Ret (0, Some EOF), (q, t))" and "received E p (contents (mem s) p) s t"
proof -
  obtain t where t: "stream_next E (q\<lparr>slocked := True\<rparr>, s) = (Ret (nbufs s, Some EOF), (q\<lparr>slocked := True\<rparr>, t))" "keyed E t"
      "extends s t" "key t = key s" "blist t = blist s"
    by (rule stream_next_empty [OF assms(1), of "q\<lparr>slocked := True\<rparr>"]) (use assms(3) that in simp_all)
  have "Stream_Read E p (q, s) = (Ret (0, Some EOF), (q\<lparr>slocked := True\<rparr>\<lparr>slocked := False\<rparr>, t))"
    unfolding Stream_Read_def by (rule with_stream_Ret [OF assms(2)]) (simp add: t(1) bind_def exec)
  moreover have "q\<lparr>slocked := True\<rparr>\<lparr>slocked := False\<rparr> = q" using assms(2) by simp
  moreover have "put (mem s) p (contents (mem s) p) = mem s" "length (contents (mem s) p) = slen p"
    using writable_fits [OF target_access(1) [OF assms(4) keyed_D(2) [OF assms(1)]]] by (simp_all add: put_contents)
  ultimately show ?thesis using that [of t] t(2-5) by (simp add: received_def)
qed

lemma Stream_Read_first:
  assumes "keyed E s" and "\<not> slocked q" and "queue q = Some e # es" and "sealed E s e m" and "queue_ok E s es"
    and "target s p" and "clear es p"
  defines "n \<equiv> min (slen p) (length m)" and "bs \<equiv> copied (contents (mem s) p) m"
  obtains q' t where "Stream_Read E p (q, s) = (Ret (int n, None), (q', t))" and "received E p bs s t" and "stream_ok E q' t"
    and "queue_bytes E t (queue q') = drop n m @ queue_bytes E s es"
proof -
  have sb: "secretbox_ok E" by (rule env_works_D(6) [OF keyed_D(1) [OF assms(1)]])
  let ?b = "nbufs s" and ?l = "q\<lparr>slocked := True\<rparr>\<lparr>queue := es\<rparr>"
  obtain t1 where t1: "stream_next E (q\<lparr>slocked := True\<rparr>, s) = (Ret (?b, None), (?l, t1))" "work E s t1 ?b"
      "contents (mem t1) (data (bufs t1 ?b)) = m"
    by (rule stream_next_first [OF assms(1) _ assms(4), of "q\<lparr>slocked := True\<rparr>"]) (use assms(3) that in simp_all)
  note c = read_copy [OF t1(2) assms(6), unfolded t1(3), folded bs_def]
  define t2 where "t2 = t1\<lparr>mem := put (mem t1) p bs\<rparr>"
  define s' where "s' = s\<lparr>mem := put (mem s) p bs\<rparr>"
  note c = c [folded t2_def s'_def]
  have size: "slen (data (bufs t2 ?b)) = length m"
    using guarded_data(7) [OF work_D(12) [OF c(3)]] arg_cong [OF c(4), of length] by simp
  have big: "int (length m) + Overhead E \<le> 2 ^ 62" using assms(4) holds_slen(1) [OF sb] by (auto simp: sealed_def Overhead_def)
  obtain fs t3 where t3: "(if int (slen p) < int (length m) then bind (push_back E ?b p) (\<lambda>_. ret (int (slen p), None))
          else bind (on_world (Size ?b)) (\<lambda>n. ret (n, None))) (?l, t2) = (Ret (int n, None :: err option), (?l\<lparr>queue := fs @ es\<rparr>, t3))"
      "work E s' t3 ?b" "queue_ok E t3 fs" "queue_bytes E t3 fs = drop n m"
  proof (cases "slen p < length m")
    case True
    obtain e' u where u: "push_back E ?b p (?l, t2) = (Ret (), (?l\<lparr>queue := Some e' # queue ?l\<rparr>, u))" "work E s' u ?b"
        "sealed E u e' (drop (slen p) m)"
      by (rule push_back_run [OF c(3) True c(4) big]) (rule that)
    show ?thesis
      by (rule that [of "[Some e']" u]) (use u True sealed_open_bytes [OF sb u(3)] in \<open>auto simp: bind_def exec n_def\<close>)
  next
    case False
    then show ?thesis using that [of "[]" t2] c(3) size by (simp add: exec bind_def Size_def Bytes_def Data_def get_buf_def n_def)
  qed
  note e = work_end [OF t3(2)]
  define t4 where "t4 = removed_state ?b t3"
  note e = e [folded t4_def]
  have "Stream_Read E p (q, s) = (Ret (int n, None), (?l\<lparr>queue := fs @ es\<rparr>\<lparr>slocked := False\<rparr>, t4))"
    unfolding Stream_Read_def
    by (rule with_stream_Ret [OF assms(2)])
      (use t1(1) c(1) c(5) t3(1) e(1) size in
        \<open>simp add: bind_def exec defer_do_def Size_def Bytes_def Data_def get_buf_def t2_def split del: if_split\<close>)
  moreover have "received E p bs s t4"
    using c(2) e(2-5) by (simp add: received_def s'_def)
  moreover have "calm E s' t4" by (rule extends_calm [OF work_D(1) [OF t3(2)] e(3,4)])
  then have q: "queue_ok E t4 es" "queue_bytes E t4 es = queue_bytes E s es"
    using queue_write [OF assms(6,1) c(2) assms(5,7), folded s'_def] by simp_all
  have f: "queue_ok E t4 fs" "queue_bytes E t4 fs = drop n m"
    using queue_calm [OF sb e(6) t3(3)] t3(4) by simp_all
  ultimately show ?thesis
    by (intro that [of "?l\<lparr>queue := fs @ es\<rparr>\<lparr>slocked := False\<rparr>" t4]) (simp_all add: stream_ok_def queue_append q f)
qed

text \<open>A stream is a reader of the bytes in it; enclaves are in the heap, so the invariant does not depend on buffers.\<close>

lemma buffer_clear:
  assumes "keyed E s" and "queue_ok E s es" and "b \<in> set (blist s)" and "part_of (data (bufs s b)) k p"
  shows "clear es p"
  unfolding clear_def
proof (intro allI impI)
  fix e assume "Some e \<in> set es"
  then obtain m where "sealed E s e m" using assms(2) unfolding queue_ok_def by blast
  then have "\<not> is_Sys (slice_base (ciphertext e))" by (simp add: sealed_def holds_def)
  moreover have "is_Sys (slice_base p)"
    by (rule session_bases [OF keyed_D(2) [OF assms(1)] assms(3)]) (use assms(4) in \<open>cases p; auto\<close>)
  ultimately show "slice_base (ciphertext e) \<noteq> slice_base p" by auto
qed

interpretation st: io_reader E "Stream_Read E" "stream_ok E" "\<lambda>q s. queue_bytes E s (queue q)" "\<lambda>q s. EOF" "\<lambda>q s. 0" h for E h
proof
  fix s q b k p
  assume s: "keyed E s" "stream_ok E q s" "own s b" "h \<le> b" "mutable (bufs s b)" "part_of (data (bufs s b)) k p" "0 < slen p"
  have b: "b \<in> set (blist s)" and l: "\<not> slocked q" "queue_ok E s (queue q)" using s(2,3) by (simp_all add: own_def stream_ok_def)
  have tg: "target s p" using s(3,5,6) unfolding target_def by blast
  have sb: "secretbox_ok E" by (rule env_works_D(6) [OF keyed_D(1) [OF s(1)]])
  show "\<exists>n e q' t bs. Stream_Read E p (q, s) = (Ret (int n, e), (q', t)) \<and> received E p bs s t \<and> n \<le> slen p \<and>
      n \<le> length (queue_bytes E s (queue q)) \<and> take n bs = take n (queue_bytes E s (queue q)) \<and>
      queue_bytes E t (queue q') = drop n (queue_bytes E s (queue q)) \<and> EOF = EOF \<and> stream_ok E q' t \<and> (0::nat) \<le> 0 \<and>
      (case e of None \<Rightarrow> 0 < n \<or> (0::nat) < 0 | Some x \<Rightarrow> x = EOF \<and> queue_bytes E t (queue q') = [])"
  proof (cases "queue q")
    case Nil
    obtain t where t: "Stream_Read E p (q, s) = (Ret (0, Some EOF), (q, t))" "received E p (contents (mem s) p) s t"
      by (rule Stream_Read_empty [OF s(1) l(1) Nil tg]) (rule that)
    show ?thesis
      by (rule exI [of _ 0], rule exI [of _ "Some EOF"], rule exI [of _ q], rule exI [of _ t], rule exI) (use t l Nil in \<open>simp add: stream_ok_def\<close>)
  next
    case (Cons x es)
    then obtain e m where e: "queue q = Some e # es" "sealed E s e m" "queue_ok E s es" using l(2) by auto
    let ?n = "min (slen p) (length m)" and ?bs = "copied (contents (mem s) p) m"
    obtain q' t where t: "Stream_Read E p (q, s) = (Ret (int ?n, None), (q', t))" "received E p ?bs s t" "stream_ok E q' t"
        "queue_bytes E t (queue q') = drop ?n m @ queue_bytes E s es"
      by (rule Stream_Read_first [OF s(1) l(1) e tg buffer_clear [OF s(1) e(3) b s(6)]]) (rule that)
    have "take ?n ?bs = take ?n m" "0 < ?n"
      using writable_fits [OF target_access(1) [OF tg keyed_D(2) [OF s(1)]]] e(2) s(7) by (auto simp: copied_def sealed_def)
    then show ?thesis
      by (intro exI [of _ ?n] exI [of _ None] exI [of _ q'] exI [of _ t] exI [of _ ?bs])
        (use t e(1) sealed_open_bytes [OF sb e(2)] in simp)
  qed
next
  fix q s t assume s: "stream_ok E q s" "steady E h s t" "keyed E t"
  have sb: "secretbox_ok E" by (rule env_works_D(6) [OF keyed_D(1) [OF s(3)]])
  show "stream_ok E q t \<and> queue_bytes E t (queue q) = queue_bytes E s (queue q) \<and> EOF = EOF \<and> (0::nat) = 0"
    using queue_calm [OF sb, of s t "queue q"] s(1,2) by (simp add: stream_ok_def steady_def)
qed

end
