(* ===== verification/Stream_Writing.thy ===== *)
theory Stream_Writing
  imports Stream_Spec
begin

text \<open>
  \<^verbatim>\<open>Write\<close> of \<^verbatim>\<open>stream.go\<close>: the data is cut into chunks, every chunk becomes an enclave at the back of the queue, and the caller's
  slice is wiped. The process may not have a key yet; the first chunk then makes one.
\<close>

subsection \<open>Facts: one chunk\<close>

text \<open>A state in which an enclave can be made, with or without a key; \<open>backed\<close>: whatever is in a queue is under the key.\<close>

definition ready :: "env \<Rightarrow> world \<Rightarrow> bool" where
  "ready E s \<longleftrightarrow> env_works E \<and> session E s \<and> clean s"

definition backed :: "env \<Rightarrow> world \<Rightarrow> Enclave option list \<Rightarrow> bool" where
  "backed E s es \<longleftrightarrow> ready E s \<and> queue_ok E s es \<and> (es = [] \<or> coffer_ok s (key s))"

lemma keyed_ready: "keyed E s \<longleftrightarrow> ready E s \<and> coffer_ok s (key s)"
  by (auto simp: keyed_def ready_def)

lemma ready_D: "ready E s \<Longrightarrow> env_works E" "ready E s \<Longrightarrow> session E s" "ready E s \<Longrightarrow> clean s"
  by (simp_all add: ready_def)

text \<open>
  \<^verbatim>\<open>NewEnclave\<close> of a slice the program may write to: a part of one of its own mutable buffers or of the
  garbage-collected heap. Every other such slice stays one.
\<close>

lemma NewEnclave_target:
  assumes "ready E s" and "target s p" and "0 < slen p"
  obtains t e where "NewEnclave E p s = (Ret (Inr e), t)" and "ready E t" and "coffer_ok t (key t)" and "holds E t e (contents (mem s) p)"
    and "coffer_ok s (key s) \<Longrightarrow> key t = key s \<and> coffer_value E t (key t) = coffer_value E s (key s) \<and> blist t = blist s"
    and "extends (s\<lparr>mem := put (mem s) p (replicate (slen p) 0)\<rparr>) t" and "slice_base (ciphertext e) \<noteq> slice_base p"
    and "\<And>r. target s r \<Longrightarrow> target t r"
proof -
  note k = ready_D [OF assms(1)]
  note a = target_access [OF assms(2) k(2)]
  obtain t1 c where t1: "NewEnclave E p s = bind (Wipe p) (\<lambda>_. ret (Inr \<lparr>ciphertext = c\<rparr>)) t1"
      "session E t1" "extends s t1" "coffer_ok t1 (key t1)"
      "holds E t1 \<lparr>ciphertext = c\<rparr> (contents (mem s) p)" "\<not> old (mem s) c"
      "coffer_ok s (key s) \<Longrightarrow> key t1 = key s \<and> coffer_value E t1 (key t1) = coffer_value E s (key s) \<and> blist t1 = blist s"
      "\<And>b. b < nbufs s \<Longrightarrow> b \<notin> refs s (key s) \<Longrightarrow> b \<notin> refs t1 (key t1)" "clean s \<Longrightarrow> clean t1"
    by (rule NewEnclave_upto [OF k(1,2) assms(3) a(3) writable_readable [OF a(1)]]) (rule that)
  have k1: "keyed E t1" using k(1) t1(2,4,9) k(3) by (simp add: keyed_def)
  have later: "target t1 r" if "target s r" for r by (rule target_later [OF that k(2) t1(3) t1(8)])
  let ?z = "replicate (slen p) (0 :: byte)"
  let ?t = "t1\<lparr>mem := put (mem t1) p ?z\<rparr>"
  note w = target_access(1) [OF later [OF assms(2)] t1(2)]
  have run: "NewEnclave E p s = (Ret (Inr \<lparr>ciphertext = c\<rparr>), ?t)" using t1(1) Wipe_run [OF w] by (simp add: bind_def exec)
  have len: "length ?z = slen p" by simp
  note tw = target_write [OF later [OF assms(2)] k1 len]
  have "old (mem s) p" "p \<noteq> NilSlice" using a(3) assms(2) by (auto simp: stable_def target_def)
  then have ne: "slice_base c \<noteq> slice_base p"
    using t1(5,6) by (cases "(mem s, c)" rule: old.cases; cases "(mem s, p)" rule: old.cases) (auto simp: holds_def)
  have "regs (mem ?t) (slice_base c) = regs (mem t1) (slice_base c)" using ne by (cases p) auto
  then have h: "holds E ?t \<lparr>ciphertext = c\<rparr> (contents (mem s) p)"
    using tw(2) by (intro holds_cong [OF t1(5)]) (simp_all add: key_value_def)
  have rt: "ready E ?t" "coffer_ok ?t (key ?t)" using keyed_ready tw(1) by blast+
  show ?thesis
    by (rule that [OF run rt h _ put_extends [OF t1(3)]])
      (use t1(7) tw(2) ne target_put [OF later writable_fits [OF w] len] in \<open>auto simp: key_value_def\<close>)
qed

lemma heap_sealed:
  assumes "sealed E s e m" and "extends (s\<lparr>mem := put (mem s) p bs\<rparr>) t" and "slice_base (ciphertext e) \<noteq> slice_base p"
    and "coffer_value E t (key t) = coffer_value E s (key s)"
  shows "sealed E t e m"
proof -
  have h: "holds E s e m" using assms(1) by (simp add: sealed_def)
  then obtain j where j: "slice_base (ciphertext e) = GC j" "j < gcnext (mem s)"
    by (cases "(mem s, ciphertext e)" rule: old.cases) (auto simp: holds_def)
  have "regs (put (mem s) p bs) (GC j) = regs (mem s) (GC j)" using assms(3) j(1) by (cases p) auto
  then have "regs (mem t) (slice_base (ciphertext e)) = regs (mem s) (slice_base (ciphertext e))"
    using extends_D(5) [OF assms(2), of j] j by simp
  moreover have "gcnext (mem s) \<le> gcnext (mem t)" using extends_D(7) [OF assms(2)] by simp
  ultimately have "holds E t e m" by (rule holds_cong [OF h _ _ assms(4)])
  then show ?thesis using assms(1) by (simp add: sealed_def)
qed

lemma write_chunk:
  assumes "backed E s es" and "target s p" and "clear es p" and "0 < slen p" and "int (slen p) + Overhead E \<le> 2 ^ 62"
  obtains e t where "memguard_NewEnclave E p s = (Ret (Some e), t)" and "backed E t (es @ [Some e])"
    and "queue_chunks E t (es @ [Some e]) = queue_chunks E s es @ [contents (mem s) p]"
    and "extends (s\<lparr>mem := put (mem s) p (replicate (slen p) 0)\<rparr>) t"
    and "coffer_ok s (key s) \<Longrightarrow> key t = key s \<and> key_value E t = key_value E s \<and> blist t = blist s"
    and "slice_base (ciphertext e) \<noteq> slice_base p" and "coffer_ok t (key t)" and "\<And>r. target s r \<Longrightarrow> target t r"
proof -
  have b: "ready E s" "queue_ok E s es" "es = [] \<or> coffer_ok s (key s)" using assms(1) by (simp_all add: backed_def)
  have sb: "secretbox_ok E" by (rule env_works_D(6) [OF ready_D(1) [OF b(1)]])
  obtain t e where t: "NewEnclave E p s = (Ret (Inr e), t)" "ready E t" "coffer_ok t (key t)" "holds E t e (contents (mem s) p)"
      "coffer_ok s (key s) \<Longrightarrow> key t = key s \<and> coffer_value E t (key t) = coffer_value E s (key s) \<and> blist t = blist s"
      "extends (s\<lparr>mem := put (mem s) p (replicate (slen p) 0)\<rparr>) t" "slice_base (ciphertext e) \<noteq> slice_base p"
      "\<And>r. target s r \<Longrightarrow> target t r"
    by (rule NewEnclave_target [OF b(1) assms(2,4)]) (rule that)
  have len: "length (contents (mem s) p) = slen p"
    using writable_fits [OF target_access(1) [OF assms(2) ready_D(2) [OF b(1)]]] by simp
  have se: "sealed E t e (contents (mem s) p)"
    using t(4) holds_slen(1) [OF sb t(4)] len assms(4,5) by (auto simp: sealed_def Overhead_def)
  have "sealed E t x m" if "Some x \<in> set es" "sealed E s x m" for x m
    by (rule heap_sealed [OF that(2) t(6)]) (use that assms(3) b(3) t(5) in \<open>auto simp: clear_def\<close>)
  note q = queue_cong [OF sb this b(2)]
  have "backed E t (es @ [Some e])" using q(1) se t(2,3) by (auto simp: backed_def)
  moreover have "queue_chunks E t (es @ [Some e]) = queue_chunks E s es @ [contents (mem s) p]"
    using q(2) sealed_open_bytes [OF sb se] by (simp add: queue_append)
  moreover have "memguard_NewEnclave E p s = (Ret (Some e), t)" using t(1) by (simp add: memguard_NewEnclave_def bind_def exec)
  ultimately show ?thesis using that [of e t] t(3,6,7,8) t(5) unfolding key_value_def by blast
qed

subsection \<open>Facts: the loop\<close>

lemma overwrite_zeros:
  assumes "i + m + n \<le> length xs"
  shows "overwrite (i + m) (replicate n 0) (overwrite i (replicate m 0) xs) = overwrite i (replicate (m + n) 0) xs"
  using assms by (intro nth_equalityI) (auto simp: nth_overwrite)

lemma put_zeros:
  assumes "fits M (Slice a i (m + n) c)"
  shows "put (put M (Slice a i m c1) (replicate m 0)) (Slice a (i + m) n c2) (replicate n 0) = put M (Slice a i (m + n) c3) (replicate (m + n) 0)"
  using assms overwrite_zeros [of i m n "rbytes (regs M a)"] by (simp add: add.assoc)

lemma chunk_pos: "env_works E \<Longrightarrow> 0 < chunk E"
  using env_works_D(7) [of E] by (auto simp: chunk_def page_ok_def)

lemma last_chunk:
  assumes "c dvd i" and "i < n" and "n < i + (c :: nat)"
  shows "n - n mod c = i"
proof -
  obtain r where r: "i = c * r" using assms(1) by (rule dvdE)
  have "n mod c = (n - i + c * r) mod c" using assms(2) r by simp
  also have "\<dots> = (n - i) mod c" by (rule mod_mult_self2)
  also have "\<dots> = n - i" using assms(2,3) by simp
  finally show ?thesis using assms(2) by simp
qed

lemma ready_write:
  assumes "ready E s" and "target s p" and "length bs = slen p"
  shows "ready E (s\<lparr>mem := put (mem s) p bs\<rparr>)"
  using assms(2)
proof (cases rule: target_cases)
  case (buf b k)
  have b: "b \<in> set (blist s)" using buf(1) by (simp add: own_def)
  note s = ready_D(2) [OF assms(1)]
  note fit = guarded_data(7) [OF session_D(2) [OF s b]]
  have "length (overwrite k bs (contents (mem s) (data (bufs s b)))) = slen (data (bufs s b))"
    using part_of_bound [OF buf(3)] assms(3) fit by simp
  note w = write_facts [OF s b this, folded put_part [OF buf(3) fit assms(3)]]
  show ?thesis using w(1,10) clean_intact [OF ready_D(3) [OF assms(1)]] ready_D(1) [OF assms(1)] by (simp add: ready_def)
next
  case (gc j i n c)
  note s = ready_D [OF assms(1)]
  have "session E (s\<lparr>mem := put (mem s) p bs\<rparr>)" unfolding gc(1) by (rule session_gc(1) [OF s(2)]) simp_all
  moreover have "clean (s\<lparr>mem := put (mem s) p bs\<rparr>)"
    by (rule clean_keep [OF s(3,2)]) (use put_gc_keep [OF s(2)] in \<open>simp add: gc(1)\<close>)
  ultimately show ?thesis using s(1) by (simp add: ready_def)
qed

text \<open>The chunks of some data: every chunk has \<open>c\<close> bytes but the last, which may have fewer.\<close>

function cut :: "nat \<Rightarrow> 'a list \<Rightarrow> 'a list list" where
  "cut c xs = (if xs = [] \<or> c = 0 then [] else take c xs # cut c (drop c xs))"
  by pat_completeness auto
termination
  by (relation "measure (\<lambda>(c, xs). length xs)") auto

declare cut.simps [simp del]

lemma cut_Nil [simp]: "cut c [] = []"
  by (simp add: cut.simps)

lemma concat_cut: "0 < c \<Longrightarrow> concat (cut c xs) = xs"
  by (induction c xs rule: cut.induct) (subst cut.simps, simp)

lemma cut_bounds: "x \<in> set (cut c xs) \<Longrightarrow> 0 < length x \<and> length x \<le> c"
  by (induction c xs rule: cut.induct) (subst (asm) (2) cut.simps, auto split: if_splits)

lemma part_cut:
  assumes "part_of p i r" and "fits M p" and "slen r = min c (slen p - i)" and "length zs = slen r" and "0 < slen r" and "0 < c"
  shows "contents M r # cut c (drop (i + c) (contents (put M r zs) p)) = cut c (drop i (contents M p))"
proof -
  have b: "i + slen r \<le> length (contents M p)" using part_of_bound [OF assms(1)] assms(2) by simp
  have "contents M r = take (slen r) (drop i (contents M p))"
    using assms(1) by (cases "(p, i, r)" rule: part_of.cases) (auto simp: sub_def take_drop add.commute min_def)
  then have r: "contents M r = take c (drop i (contents M p))" using assms(2,3) by (auto simp: min_def)
  have "contents (put M r zs) p = overwrite i zs (contents M p)"
    using put_part [OF assms(1,2,4)] b assms(2,4) by simp
  then have "drop (i + c) (contents (put M r zs) p) = drop c (drop i (contents M p))"
    using b assms(2-4) by (auto simp: overwrite_def add.commute min_def split: if_splits)
  moreover have "drop i (contents M p) \<noteq> []" using b assms(5) by simp
  ultimately show ?thesis using r assms(6) by (simp add: cut.simps [of c "drop i (contents M p)"])
qed

text \<open>What is left to write after \<open>i\<close> bytes.\<close>

fun left_over :: "slice \<Rightarrow> nat \<Rightarrow> slice" where
  "left_over NilSlice i = NilSlice"
| "left_over (Slice a o' n c) i = Slice a (o' + min i n) (n - i) (c - min i n)"

lemma write_loop_run:
  assumes "backed E s (queue q)" and "target s p" and "clear (queue q) p" and "int (slen p) + Overhead E \<le> 2 ^ 62" and "chunk E dvd i"
  shows "\<exists>es t. write_loop E p i (q, s) = (Ret (), (q\<lparr>queue := es\<rparr>, t)) \<and> backed E t es \<and>
     queue_chunks E t es = queue_chunks E s (queue q) @ cut (chunk E) (drop i (contents (mem s) p)) \<and>
     extends (s\<lparr>mem := put (mem s) (left_over p i) (replicate (slen p - i) 0)\<rparr>) t \<and>
     (coffer_ok s (key s) \<longrightarrow> key t = key s \<and> key_value E t = key_value E s \<and> blist t = blist s) \<and>
     (coffer_ok s (key s) \<or> i < slen p \<longrightarrow> coffer_ok t (key t)) \<and> clear es p \<and> (\<forall>r. target s r \<longrightarrow> target t r)"
  using assms
proof (induction E p i arbitrary: q s rule: write_loop.induct)
  case (1 E p i)
  have ses: "session E s" using "1.prems"(1) by (simp add: backed_def ready_def)
  note acc = target_access [OF "1.prems"(2) ses]
  have "p \<noteq> NilSlice" using "1.prems"(2) by (auto simp: target_def)
  then obtain a k n c where p: "p = Slice a k n c" "writable (mem s) p" "n \<le> c"
    using acc by (cases p) (auto simp: wf_slice_def)
  have fit: "fits (mem s) p" by (rule writable_fits [OF p(2)])
  have "env_works E" using "1.prems"(1) by (simp add: backed_def ready_def)
  then have ch: "0 < chunk E" by (rule chunk_pos)
  show ?case
  proof (cases "i < n")
    case False
    have "put (mem s) (left_over p i) (replicate (slen p - i) 0) = mem s" using False p(1) by simp
    then show ?thesis
      using False p(1) fit "1.prems"(1,3) by (intro exI [of _ "queue q"] exI [of _ s]) (simp add: write_loop.simps exec extends_refl)
  next
    case True
    let ?m = "min (chunk E) (n - i)"
    obtain c1 where sl: "(if slen p < i + chunk E then slice_from p (int (slen p - slen p mod chunk E))
          else slice_range p (int i) (int (i + chunk E))) s = (Ret (Slice a (k + i) ?m c1), s)" "?m \<le> c1"
    proof (cases "n < i + chunk E")
      case less: True
      then show ?thesis using that [of "c - i"] p(1,3) True last_chunk [OF "1.prems"(5) True less] by (simp add: exec)
    next
      case False
      then show ?thesis using that [of "c - i"] p(1,3) by (simp add: slice_range_def bind_def exec nat_int_add)
    qed
    let ?p = "Slice a (k + i) ?m c1"
    have part: "part_of p i ?p" "slice_base ?p = slice_base p" "0 < slen ?p" using p(1) sl(2) True ch by simp_all
    have hp: "target s ?p" by (rule target_part [OF "1.prems"(2) part(1)])
    have cp: "clear (queue q) ?p" using "1.prems"(3) part(2) by (simp add: clear_def)
    have bp: "int (slen ?p) + Overhead E \<le> 2 ^ 62" using "1.prems"(4) p(1) by simp
    obtain e t where t: "memguard_NewEnclave E ?p s = (Ret (Some e), t)" "backed E t (queue q @ [Some e])"
        "queue_chunks E t (queue q @ [Some e]) = queue_chunks E s (queue q) @ [contents (mem s) ?p]"
        "extends (s\<lparr>mem := put (mem s) ?p (replicate (slen ?p) 0)\<rparr>) t"
        "coffer_ok s (key s) \<Longrightarrow> key t = key s \<and> key_value E t = key_value E s \<and> blist t = blist s"
        "slice_base (ciphertext e) \<noteq> slice_base ?p" "coffer_ok t (key t)" "\<And>r. target s r \<Longrightarrow> target t r"
      by (rule write_chunk [OF "1.prems"(1) hp cp part(3) bp]) (rule that)
    let ?q = "q\<lparr>queue := queue q @ [Some e]\<rparr>"
    have ht: "target t p" by (rule t(8) [OF "1.prems"(2)])
    have ct: "clear (queue ?q) p" using "1.prems"(3) t(6) p(1) by (auto simp: clear_def)
    have bt: "backed E t (queue ?q)" using t(2) by simp
    have dt: "chunk E dvd i + chunk E" using "1.prems"(5) by simp
    obtain es u where u: "write_loop E p (i + chunk E) (?q, t) = (Ret (), (?q\<lparr>queue := es\<rparr>, u))" "backed E u es"
        "queue_chunks E u es = queue_chunks E t (queue ?q) @ cut (chunk E) (drop (i + chunk E) (contents (mem t) p))"
        "extends (t\<lparr>mem := put (mem t) (left_over p (i + chunk E)) (replicate (slen p - (i + chunk E)) 0)\<rparr>) u"
        "coffer_ok t (key t) \<longrightarrow> key u = key t \<and> key_value E u = key_value E t \<and> blist u = blist t"
        "coffer_ok t (key t) \<or> i + chunk E < slen p \<longrightarrow> coffer_ok u (key u)" "clear es p" "\<forall>r. target t r \<longrightarrow> target u r"
      using "1.IH" [OF _ bt ht ct "1.prems"(4) dt] True p(1) ch by auto
    have run: "write_loop E p i (q, s) = (Ret (), (q\<lparr>queue := es\<rparr>, u))"
      unfolding write_loop.simps [of E p i] using sl(1) t(1) u(1) True p(1) ch by (simp add: bind_def exec join_def)
    have "ready E (s\<lparr>mem := put (mem s) ?p (replicate (slen ?p) 0)\<rparr>)"
      by (rule ready_write [OF _ hp]) (use "1.prems"(1) in \<open>simp_all add: backed_def\<close>)
    moreover have "target (s\<lparr>mem := put (mem s) ?p (replicate (slen ?p) 0)\<rparr>) p"
      by (rule target_put [OF "1.prems"(2) writable_fits [OF target_access(1) [OF hp ses]]]) simp
    ultimately have ctp: "contents (mem t) p = contents (put (mem s) ?p (replicate (slen ?p) 0)) p"
      using stable_D(1) [OF target_access(3) [OF _ ready_D(2)] t(4)] by simp
    have rest: "contents (mem s) ?p # cut (chunk E) (drop (i + chunk E) (contents (mem t) p)) = cut (chunk E) (drop i (contents (mem s) p))"
      unfolding ctp by (rule part_cut [OF part(1) fit _ _ part(3) ch]) (auto simp: p(1))
    have put: "put (put (mem s) ?p (replicate (slen ?p) 0)) (left_over p (i + chunk E)) (replicate (slen p - (i + chunk E)) 0) =
        put (mem s) (left_over p i) (replicate (slen p - i) 0)"
    proof (cases "i + chunk E \<le> n")
      case True
      then show ?thesis using put_zeros [of "mem s" a "k + i" "chunk E" "n - (i + chunk E)" c c1] fit p(1) by (simp add: add.assoc)
    qed (use p(1) True in simp)
    have "extends (s\<lparr>mem := put (mem s) (left_over p i) (replicate (slen p - i) 0)\<rparr>) u"
      using extends_trans [OF put_extends [OF t(4)] u(4)] put by simp
    then show ?thesis
      by (intro exI [of _ es] exI [of _ u]) (use run u(2,3,5,6,7,8) t(3,5,7,8) rest in simp)
  qed
qed

subsection \<open>Facts: Write, Size, Next and Flush\<close>

lemma Stream_Write_run:
  assumes "backed E s (queue q)" and "\<not> slocked q" and "target s p" and "clear (queue q) p" and "int (slen p) + Overhead E \<le> 2 ^ 62"
  obtains q' t where "Stream_Write E p (q, s) = (Ret (int (slen p), None), (q', t))" and "backed E t (queue q')" and "\<not> slocked q'"
    and "queue_chunks E t (queue q') = queue_chunks E s (queue q) @ cut (chunk E) (contents (mem s) p)"
    and "queue_bytes E t (queue q') = queue_bytes E s (queue q) @ contents (mem s) p"
    and "extends (s\<lparr>mem := put (mem s) p (replicate (slen p) 0)\<rparr>) t" and "contents (mem t) p = replicate (slen p) 0"
    and "coffer_ok s (key s) \<Longrightarrow> key t = key s \<and> key_value E t = key_value E s \<and> blist t = blist s"
    and "coffer_ok s (key s) \<or> 0 < slen p \<Longrightarrow> coffer_ok t (key t)" and "clear (queue q') p" and "\<And>r. target s r \<Longrightarrow> target t r" and "ready E t"
proof -
  have rs: "ready E s" using assms(1) by (simp add: backed_def)
  note ses = ready_D(2) [OF rs]
  note fit = writable_fits [OF target_access(1) [OF assms(3) ses]]
  let ?q = "q\<lparr>slocked := True\<rparr>"
  have lo: "left_over p 0 = p" by (cases p) simp_all
  obtain es t where t: "write_loop E p 0 (?q, s) = (Ret (), (?q\<lparr>queue := es\<rparr>, t))" "backed E t es"
      "queue_chunks E t es = queue_chunks E s (queue q) @ cut (chunk E) (contents (mem s) p)"
      "extends (s\<lparr>mem := put (mem s) p (replicate (slen p) 0)\<rparr>) t"
      "coffer_ok s (key s) \<Longrightarrow> key t = key s \<and> key_value E t = key_value E s \<and> blist t = blist s"
      "coffer_ok s (key s) \<or> 0 < slen p \<Longrightarrow> coffer_ok t (key t)" "clear es p" "\<And>r. target s r \<Longrightarrow> target t r"
    using write_loop_run [of E s ?q p 0, unfolded lo] assms by auto
  have "env_works E" using assms(1) by (simp add: backed_def ready_def)
  then have "queue_bytes E t es = queue_bytes E s (queue q) @ contents (mem s) p"
    using t(3) by (simp add: queue_bytes_def concat_cut chunk_pos)
  moreover have "Stream_Write E p (q, s) = (Ret (int (slen p), None), (?q\<lparr>queue := es\<rparr>\<lparr>slocked := False\<rparr>, t))"
    unfolding Stream_Write_def by (rule with_stream_Ret [OF assms(2)]) (simp add: t(1) bind_def exec)
  moreover have "contents (mem t) p = contents (put (mem s) p (replicate (slen p) 0)) p"
    using stable_D(1) [OF target_access(3) [OF target_put [OF assms(3) fit] ready_D(2) [OF ready_write [OF rs assms(3)]]] t(4)] by simp
  then have "contents (mem t) p = replicate (slen p) 0" using fit by simp
  ultimately show ?thesis
    by (intro that [of "?q\<lparr>queue := es\<rparr>\<lparr>slocked := False\<rparr>" t]) (use t in \<open>simp_all add: backed_def\<close>)
qed

lemma size_loop_run:
  assumes "secretbox_ok E" and "queue_ok E s es"
  shows "size_loop E es n = ret (n + int (length (queue_bytes E s es)))"
  using assms(2)
proof (induction es arbitrary: n)
  case (Cons x es)
  then obtain e m where x: "x = Some e" "sealed E s e m" "queue_ok E s es" by auto
  have "Enclave_Size E e = int (length m)"
    using holds_slen(2) [OF assms(1)] x(2) by (auto simp: sealed_def Enclave_Size_def)
  then show ?case
    using Cons.IH [OF x(3)] x(1) sealed_open_bytes [OF assms(1) x(2)] by (simp add: add.assoc)
qed simp

lemma Stream_Size_run:
  assumes "secretbox_ok E" and "stream_ok E q s"
  shows "Stream_Size E (q, s) = (Ret (int (length (queue_bytes E s (queue q)))), (q, s))"
proof -
  have q: "\<not> slocked q" "queue_ok E s (queue q)" using assms(2) by (simp_all add: stream_ok_def)
  have "Stream_Size E (q, s) = (Ret (int (length (queue_bytes E s (queue q)))), (q\<lparr>slocked := True\<rparr>\<lparr>slocked := False\<rparr>, s))"
    unfolding Stream_Size_def by (rule with_stream_Ret [OF q(1)]) (simp add: bind_def exec size_loop_run [OF assms(1) q(2)])
  then show ?thesis using q(1) by simp
qed

lemma queue_bytes_empty:
  assumes "secretbox_ok E" and "queue_ok E s es"
  shows "queue_bytes E s es = [] \<longleftrightarrow> es = []"
  using assms(2) sealed_open_bytes [OF assms(1)] by (cases es) (auto simp: sealed_def)

text \<open>What a destination holds after a call of \<^verbatim>\<open>Read\<close>.\<close>

lemma received_contents:
  assumes "target s p" and "keyed E s" and "received E p bs s t"
  shows "contents (mem t) p = bs"
proof -
  let ?u = "s\<lparr>mem := put (mem s) p bs\<rparr>"
  have r: "length bs = slen p" "extends ?u t" "key t = key s" using assms(3) by (simp_all add: received_def)
  have fit: "fits (mem s) p" by (rule writable_fits [OF target_access(1) [OF assms(1) keyed_D(2) [OF assms(2)]]])
  have "target ?u p"
    using assms(1)
  proof (cases rule: target_cases)
    case (buf b k)
    then show ?thesis unfolding target_def by (intro disjI1 exI [of _ b] exI [of _ k]) (simp add: own_def refs_def)
  next
    case (gc j i n c)
    then show ?thesis using r(1) fit by (auto simp: target_def)
  qed
  from target_extends(2) [OF this target_write(1) [OF assms(1,2) r(1)] r(2)] show ?thesis using r(1,3) fit by simp
qed

text \<open>The two cases of \<^verbatim>\<open>Read\<close>, and of \<^verbatim>\<open>Next\<close>.\<close>

lemma Stream_Read_run:
  assumes "keyed E s" and "stream_ok E q s" and "target s p" and "clear (queue q) p"
  defines "m \<equiv> concat (take 1 (queue_chunks E s (queue q)))" and "n \<equiv> min (slen p) (length (concat (take 1 (queue_chunks E s (queue q)))))"
  obtains q' t where "Stream_Read E p (q, s) = (Ret (int n, if queue q = [] then Some EOF else None), (q', t))"
    and "received E p (copied (contents (mem s) p) m) s t" and "stream_ok E q' t"
    and "queue_bytes E t (queue q') = drop n (queue_bytes E s (queue q))"
proof -
  have l: "\<not> slocked q" "queue_ok E s (queue q)" using assms(2) by (simp_all add: stream_ok_def)
  have sb: "secretbox_ok E" by (rule env_works_D(6) [OF keyed_D(1) [OF assms(1)]])
  show ?thesis
  proof (cases "queue q")
    case Nil
    obtain t where t: "Stream_Read E p (q, s) = (Ret (0, Some EOF), (q, t))" "received E p (contents (mem s) p) s t"
      by (rule Stream_Read_empty [OF assms(1) l(1) Nil assms(3)]) (rule that)
    show ?thesis
      using that [of q t] t Nil l by (simp add: m_def n_def stream_ok_def copied_def)
  next
    case (Cons x es)
    then obtain e k where e: "queue q = Some e # es" "sealed E s e k" "queue_ok E s es" using l(2) by auto
    have cl: "clear es p" using assms(4) e(1) by (simp add: clear_def)
    let ?n = "min (slen p) (length k)" and ?bs = "copied (contents (mem s) p) k"
    obtain q' t where t: "Stream_Read E p (q, s) = (Ret (int ?n, None), (q', t))" "received E p ?bs s t" "stream_ok E q' t"
        "queue_bytes E t (queue q') = drop ?n k @ queue_bytes E s es"
      by (rule Stream_Read_first [OF assms(1) l(1) e assms(3) cl]) (rule that)
    show ?thesis
      by (rule that [of q' t]) (use t e(1) sealed_open_bytes [OF sb e(2)] in \<open>simp_all add: m_def n_def\<close>)
  qed
qed

lemma Stream_Next_run:
  assumes "keyed E s" and "stream_ok E q s"
  shows "\<exists>b q' t. Stream_Next E (q, s) = (Ret (b, if queue q = [] then Some EOF else None), (q', t)) \<and>
      gives E s t b (concat (take 1 (queue_chunks E s (queue q)))) \<and> stream_ok E q' t \<and>
      queue_chunks E t (queue q') = drop 1 (queue_chunks E s (queue q))"
proof -
  have l: "\<not> slocked q" "queue_ok E s (queue q)" using assms(2) by (simp_all add: stream_ok_def)
  have sb: "secretbox_ok E" by (rule env_works_D(6) [OF keyed_D(1) [OF assms(1)]])
  let ?l = "q\<lparr>slocked := True\<rparr>"
  show ?thesis
  proof (cases "queue q")
    case Nil
    have ql: "queue ?l = []" using Nil by simp
    obtain t where t: "stream_next E (?l, s) = (Ret (nbufs s, Some EOF), (?l, t))" "keyed E t"
        "extends s t" "key t = key s" "blist t = blist s" "bufs t (nbufs s) = zero_Buffer"
      by (rule stream_next_empty [OF assms(1) ql]) (rule that)
    have "Stream_Next E (q, s) = (Ret (nbufs s, Some EOF), (q, t))"
      using with_stream_Ret [OF l(1), of "stream_next E", OF t(1)] l(1) by (simp add: Stream_Next_def)
    then show ?thesis
      by (intro exI [of _ "nbufs s"] exI [of _ q] exI [of _ t]) (use t Nil l in \<open>simp add: gives_def stream_ok_def\<close>)
  next
    case (Cons x es)
    then obtain e m where e: "queue q = Some e # es" "sealed E s e m" "queue_ok E s es" using l(2) by auto
    have ql: "queue ?l = Some e # es" using e(1) by simp
    obtain t where t: "stream_next E (?l, s) = (Ret (nbufs s, None), (?l\<lparr>queue := es\<rparr>, t))"
        "work E s t (nbufs s)" "\<not> mutable (bufs t (nbufs s))" "contents (mem t) (data (bufs t (nbufs s))) = m"
      by (rule stream_next_first [OF assms(1) ql e(2)]) (rule that)
    have "Stream_Next E (q, s) = (Ret (nbufs s, None), (?l\<lparr>queue := es\<rparr>\<lparr>slocked := False\<rparr>, t))"
      unfolding Stream_Next_def by (rule with_stream_Ret [OF l(1)]) (rule t(1))
    moreover have "m \<noteq> []" using e(2) by (simp add: sealed_def)
    moreover note queue_cong [OF sb sealed_calm [OF work_D(10) [OF t(2)]] e(3)]
    ultimately show ?thesis
      by (intro exI [of _ "nbufs s"] exI [of _ "?l\<lparr>queue := es\<rparr>\<lparr>slocked := False\<rparr>"] exI [of _ t])
        (use t(2-4) e(1) sealed_open_bytes [OF sb e(2)] in \<open>simp add: gives_def stream_ok_def\<close>)
  qed
qed

end
