(* ===== verification/Stream_Props.thy ===== *)
theory Stream_Props
  imports Stream_Writing Sim
begin

text \<open>
  The properties of a \<^verbatim>\<open>Stream\<close>, each followed by its instance at a concrete state: what the single methods do, that any
  sequence of calls behaves as a first-in first-out queue of bytes, and that writing and flushing is a round trip.
\<close>

subsection \<open>Write\<close>

text \<open>
  C19. \<^verbatim>\<open>Write\<close> returns the length of the data and no error; the data is at the back of the stream, in order and cut into
  enclaves of four pages, every buffer is untouched, and the caller's slice is wiped. The process does not need to have a
  key before.
\<close>

theorem Stream_Write_appends:
  assumes "backed E s (queue q)" and "\<not> slocked q" and "target s p" and "clear (queue q) p" and "int (slen p) + Overhead E \<le> 2 ^ 62"
  shows "\<exists>q' t. Stream_Write E p (q, s) = (Ret (int (slen p), None), (q', t)) \<and> backed E t (queue q') \<and> \<not> slocked q' \<and>
     queue_chunks E t (queue q') = queue_chunks E s (queue q) @ cut (4 * pageSize E) (contents (mem s) p) \<and>
     queue_bytes E t (queue q') = queue_bytes E s (queue q) @ contents (mem s) p \<and> contents (mem t) p = replicate (slen p) 0 \<and>
     (\<forall>b \<in> set (blist s). b \<in> set (blist t) \<and> (buf_base (bufs s b) \<noteq> slice_base p \<longrightarrow> keep s t b))"
proof -
  obtain q' t where t: "Stream_Write E p (q, s) = (Ret (int (slen p), None), (q', t))" "backed E t (queue q')" "\<not> slocked q'"
      "queue_chunks E t (queue q') = queue_chunks E s (queue q) @ cut (chunk E) (contents (mem s) p)"
      "queue_bytes E t (queue q') = queue_bytes E s (queue q) @ contents (mem s) p"
      "extends (s\<lparr>mem := put (mem s) p (replicate (slen p) 0)\<rparr>) t" "contents (mem t) p = replicate (slen p) 0"
    by (rule Stream_Write_run [OF assms]) (rule that)
  have "b \<in> set (blist t) \<and> (buf_base (bufs s b) \<noteq> slice_base p \<longrightarrow> keep s t b)" if "b \<in> set (blist s)" for b
    using extends_D(1,2) [OF t(6), of b] keep_trans [OF put_keep [of s b p]] that by simp
  then show ?thesis using t by (intro exI [of _ q'] exI [of _ t]) (simp add: chunk_def mult.commute)
qed

text \<open>The stream and the process after \<^verbatim>\<open>Write\<close> of the slice \<open>[1, 2, 3]\<close>.\<close>

definition st_q :: Stream where "st_q = fst (snd (Stream_Write simE w_sl (NewStream, w_user)))"
definition st_w :: world where "st_w = snd (snd (Stream_Write simE w_sl (NewStream, w_user)))"

lemma st_start: "backed simE w_user (queue NewStream)" "\<not> slocked NewStream" "target w_user w_sl" "clear (queue NewStream) w_sl"
  "int (slen w_sl) + Overhead simE \<le> 2 ^ 62"
proof -
  have "Overhead simE = 25" by (simp add: Overhead_def simE_def)
  then show "int (slen w_sl) + Overhead simE \<le> 2 ^ 62" by (simp add: w_sl_def)
  show "target w_user w_sl"
    unfolding target_def by (rule disjI2, rule exI, rule exI, rule exI, rule exI, rule conjI, rule w_user_facts(6)) (use w_user_facts(5,7) in simp)
qed (use w_user_facts in \<open>simp_all add: NewStream_def backed_def ready_def simE_works clear_def\<close>)

theorem Stream_Write_appends_witness:
  "\<exists>q' t. Stream_Write simE w_sl (NewStream, w_user) = (Ret (3, None), (q', t)) \<and> queue_bytes simE t (queue q') = [1, 2, 3] \<and>
     contents (mem t) w_sl = [0, 0, 0]"
proof -
  have "int (slen w_sl) = 3" "slen w_sl = 3" "queue_bytes simE w_user (queue NewStream) = []" by (simp_all add: w_sl_def NewStream_def)
  then show ?thesis
    using Stream_Write_appends [OF st_start] w_user_facts(4) by (auto simp: eval_nat_numeral)
qed

lemma st_facts: "keyed simE st_w" "stream_ok simE st_q st_w" "target st_w w_sl" "clear (queue st_q) w_sl"
  "queue_chunks simE st_w (queue st_q) = [[1, 2, 3]]" "contents (mem st_w) w_sl = [0, 0, 0]"
proof -
  obtain q t where t: "Stream_Write simE w_sl (NewStream, w_user) = (Ret (int (slen w_sl), None), (q, t))" "backed simE t (queue q)"
      "\<not> slocked q" "queue_chunks simE t (queue q) = queue_chunks simE w_user (queue NewStream) @ cut (chunk simE) (contents (mem w_user) w_sl)"
      "contents (mem t) w_sl = replicate (slen w_sl) 0" "coffer_ok w_user (key w_user) \<or> 0 < slen w_sl \<Longrightarrow> coffer_ok t (key t)"
      "clear (queue q) w_sl" "\<And>r. target w_user r \<Longrightarrow> target t r"
    by (rule Stream_Write_run [OF st_start]) (rule that)
  have "cut (chunk simE) [1, 2, 3 :: byte] = [[1, 2, 3]]" by (simp add: cut.simps chunk_def simE_def)
  moreover have "st_q = q" "st_w = t" using t(1) by (simp_all add: st_q_def st_w_def)
  ultimately show "keyed simE st_w" "stream_ok simE st_q st_w" "target st_w w_sl" "clear (queue st_q) w_sl"
      "queue_chunks simE st_w (queue st_q) = [[1, 2, 3]]" "contents (mem st_w) w_sl = [0, 0, 0]"
    using t(2-7) t(8) [OF st_start(3)] w_user_facts(3,4) simE_works
    by (simp_all add: keyed_ready backed_def stream_ok_def NewStream_def w_sl_def eval_nat_numeral)
qed

subsection \<open>Read\<close>

text \<open>
  C20. \<^verbatim>\<open>Read\<close> of a slice \<open>p\<close> takes as many bytes off the front as the first chunk has and \<open>p\<close> has room for, puts them at the start
  of \<open>p\<close> and returns their number; the rest of the chunk stays at the front of the stream. The list of buffers is as
  before: the buffers that held the chunk are destroyed. Reading an empty stream returns zero and \<^verbatim>\<open>io.EOF\<close>.
\<close>

theorem Stream_Read_takes:
  assumes "keyed E s" and "stream_ok E q s" and "target s p" and "clear (queue q) p"
  shows "let m = concat (take 1 (queue_chunks E s (queue q))); n = min (slen p) (length m) in
     \<exists>q' t. Stream_Read E p (q, s) = (Ret (int n, if queue q = [] then Some EOF else None), (q', t)) \<and>
       contents (mem t) p = take n m @ drop n (contents (mem s) p) \<and>
       queue_bytes E t (queue q') = drop n (queue_bytes E s (queue q)) \<and>
       keyed E t \<and> stream_ok E q' t \<and> blist t = blist s"
proof -
  obtain q' t where "Stream_Read E p (q, s) = (Ret (int (min (slen p) (length (concat (take 1 (queue_chunks E s (queue q)))))),
        if queue q = [] then Some EOF else None), (q', t))"
      "received E p (copied (contents (mem s) p) (concat (take 1 (queue_chunks E s (queue q))))) s t" "stream_ok E q' t"
      "queue_bytes E t (queue q') = drop (min (slen p) (length (concat (take 1 (queue_chunks E s (queue q)))))) (queue_bytes E s (queue q))"
    by (rule Stream_Read_run [OF assms]) (rule that)
  then show ?thesis
    using received_contents [OF assms(3,1)] writable_fits [OF target_access(1) [OF assms(3) keyed_D(2) [OF assms(1)]]]
    by (auto simp: Let_def received_def copied_def min_def)
qed

text \<open>Reading two of the three bytes leaves the third in the stream.\<close>

definition two_sl :: slice where "two_sl = Slice (GC (gcnext (mem w_key))) 0 2 3"

lemma two_facts: "target st_w two_sl" "clear (queue st_q) two_sl" "contents (mem st_w) two_sl = [0, 0]" "slen two_sl = 2"
proof -
  show "target st_w two_sl" by (rule target_part [OF st_facts(3), of 0]) (simp add: two_sl_def w_sl_def)
  show "clear (queue st_q) two_sl" using st_facts(4) by (simp add: clear_def two_sl_def w_sl_def)
  have "contents (mem st_w) two_sl = take 2 (contents (mem st_w) w_sl)" by (simp add: two_sl_def w_sl_def sub_def)
  then show "contents (mem st_w) two_sl = [0, 0]" "slen two_sl = 2" using st_facts(6) by (simp_all add: two_sl_def)
qed

theorem Stream_Read_takes_witness:
  "\<exists>q' t. Stream_Read simE two_sl (st_q, st_w) = (Ret (2, None), (q', t)) \<and> contents (mem t) two_sl = [1, 2] \<and>
     queue_bytes simE t (queue q') = [3]"
proof -
  have "queue st_q \<noteq> []" using st_facts(5) by auto
  then show ?thesis
    using Stream_Read_takes [OF st_facts(1,2) two_facts(1,2)] two_facts(3,4) st_facts(5) by (auto simp: Let_def queue_bytes_def)
qed

subsection \<open>Size and Next\<close>

text \<open>
  \<^verbatim>\<open>Size\<close> is the number of bytes in the stream and changes nothing. \<^verbatim>\<open>Next\<close> removes the first chunk and returns it as an
  immutable buffer, the only one that is added; of an empty stream it returns a null buffer and \<^verbatim>\<open>io.EOF\<close>.
\<close>

theorem Stream_Size_Next:
  assumes "keyed E s" and "stream_ok E q s"
  shows "Stream_Size E (q, s) = (Ret (int (length (queue_bytes E s (queue q)))), (q, s)) \<and>
     (\<exists>b q' t. Stream_Next E (q, s) = (Ret (b, if queue q = [] then Some EOF else None), (q', t)) \<and>
        gives E s t b (concat (take 1 (queue_chunks E s (queue q)))) \<and> stream_ok E q' t \<and>
        queue_chunks E t (queue q') = drop 1 (queue_chunks E s (queue q)))"
  using Stream_Size_run [OF env_works_D(6) [OF keyed_D(1) [OF assms(1)]] assms(2)] Stream_Next_run [OF assms] by blast

theorem Stream_Size_Next_witness:
  "Stream_Size simE (st_q, st_w) = (Ret 3, (st_q, st_w)) \<and>
   (\<exists>b q' t. Stream_Next simE (st_q, st_w) = (Ret (b, None), (q', t)) \<and> contents (mem t) (data (bufs t b)) = [1, 2, 3] \<and>
      queue_chunks simE t (queue q') = [])"
proof -
  have "queue st_q \<noteq> []" using st_facts(5) by auto
  then show ?thesis using Stream_Size_Next [OF st_facts(1,2)] st_facts(5) by (auto simp: gives_def queue_bytes_def)
qed

subsection \<open>Errors\<close>

text \<open>
  C29. When the chunk at the front does not decrypt, \<^verbatim>\<open>Read\<close> returns zero and the error and touches nothing that existed; but
  the chunk is removed, the rest of the stream moves up, and the two buffers \<^verbatim>\<open>Open\<close> made stay behind.
\<close>

theorem Stream_Read_drops:
  assumes "keyed E s" and "\<not> slocked q" and "queue q = Some e # es" and "stable s (ciphertext e)" and "wf_slice (ciphertext e)"
    and "readable (mem s) (ciphertext e)" and "Overhead E < int (slen (ciphertext e))" and "int (slen (ciphertext e)) \<le> 2 ^ 62"
    and "sbOpen E (drop 24 (contents (mem s) (ciphertext e))) (take 24 (contents (mem s) (ciphertext e))) (key_value E s) = None"
  shows "\<exists>t k. Stream_Read E p (q, s) = (Ret (0, Some ErrDecryptionFailed), (q\<lparr>queue := es\<rparr>, t)) \<and> extends s t \<and>
     blist t = blist s @ [nbufs s, k]"
proof -
  note k = keyed_D [OF assms(1)]
  let ?l = "q\<lparr>slocked := True\<rparr>"
  obtain t k where t: "Open E e s = (Ret (Inl ErrDecryptionFailed), t)" "extends s t" "blist t = blist s @ [nbufs s, k]"
    by (rule Open_fail [OF k(1,2,4) assms(4-8) assms(9) [unfolded key_value_def]]) (rule that)
  let ?t = "t\<lparr>bufs := (bufs t)(nbufs t := zero_Buffer), nbufs := Suc (nbufs t)\<rparr>"
  have "stream_next E (?l, s) = (Ret (nbufs t, Some ErrDecryptionFailed), (?l\<lparr>queue := es\<rparr>, ?t))"
    using t(1) assms(3) by (simp add: stream_next_def pop_def bind_def exec Enclave_Open_def newNullBuffer_def new_Buffer_def)
  then have "Stream_Read E p (q, s) = (Ret (0, Some ErrDecryptionFailed), (?l\<lparr>queue := es\<rparr>\<lparr>slocked := False\<rparr>, ?t))"
    unfolding Stream_Read_def by (intro with_stream_Ret [OF assms(2)]) (simp add: bind_def exec)
  moreover have "?l\<lparr>queue := es\<rparr>\<lparr>slocked := False\<rparr> = q\<lparr>queue := es\<rparr>" using assms(2) by simp
  moreover have "b \<noteq> nbufs t" if "b \<in> set (blist s)" for b
    using session_D(3) [OF k(2) that] extends_D(6) [OF t(2)] by simp
  then have "extends s ?t" using t(2) by (auto simp: extends_def keep_def)
  ultimately show ?thesis using t(3) by (intro exI [of _ ?t] exI [of _ k]) simp
qed

theorem Stream_Read_drops_witness:
  "\<exists>t k. Stream_Read simE w_sl (\<lparr>slocked = False, queue = [Some e_forged]\<rparr>, w_forged) =
     (Ret (0, Some ErrDecryptionFailed), (\<lparr>slocked = False, queue = []\<rparr>, t)) \<and> blist t = blist w_forged @ [nbufs w_forged, k]"
  using Stream_Read_drops [OF w_forged_facts(9) _ _ w_forged_facts(3-8) [folded key_value_def], of "\<lparr>slocked = False, queue = [Some e_forged]\<rparr>" "[]" w_sl]
  by auto

end
