(* ===== verification/Stream_Fifo.thy ===== *)
theory Stream_Fifo
  imports Stream_Props
begin

text \<open>
  Sequences of calls on one stream, with periods of the re-key goroutine in between, as an inductive relation that records
  the bytes written and the bytes handed out; the stream is a first-in first-out queue of bytes.
\<close>

subsection \<open>Runs\<close>

text \<open>
  \<open>stream_run E u xs ys v\<close>: from \<open>u\<close>, calls on the stream led to \<open>v\<close>; \<open>xs\<close> are the bytes given to \<^verbatim>\<open>Write\<close> and \<open>ys\<close>
  those \<^verbatim>\<open>Read\<close> and \<^verbatim>\<open>Next\<close> returned, in order.
\<close>

inductive stream_run :: "env \<Rightarrow> Stream \<times> world \<Rightarrow> byte list \<Rightarrow> byte list \<Rightarrow> Stream \<times> world \<Rightarrow> bool" for E u where
  begin_run: "stream_run E u [] [] u"
| put_data: "stream_run E u xs ys (q, s) \<Longrightarrow> target s p \<Longrightarrow> clear (queue q) p \<Longrightarrow> int (slen p) + Overhead E \<le> 2 ^ 62 \<Longrightarrow>
    Stream_Write E p (q, s) = (Ret r, v) \<Longrightarrow> stream_run E u (xs @ contents (mem s) p) ys v"
| get_data: "stream_run E u xs ys (q, s) \<Longrightarrow> target s p \<Longrightarrow> clear (queue q) p \<Longrightarrow>
    Stream_Read E p (q, s) = (Ret (n, e), (q', t)) \<Longrightarrow> stream_run E u xs (ys @ take (nat n) (contents (mem t) p)) (q', t)"
| take_next: "stream_run E u xs ys (q, s) \<Longrightarrow> Stream_Next E (q, s) = (Ret (b, None), (q', t)) \<Longrightarrow>
    stream_run E u xs (ys @ contents (mem t) (data (bufs t b))) (q', t)"
| ask_size: "stream_run E u xs ys (q, s) \<Longrightarrow> Stream_Size E (q, s) = (Ret n, v) \<Longrightarrow> stream_run E u xs ys v"
| tick: "stream_run E u xs ys (q, s) \<Longrightarrow> key_tick E s = (Ret (), t) \<Longrightarrow> stream_run E u xs ys (q, t)"

text \<open>The invariant: what was put in is what came out followed by what is in the stream.\<close>

definition balanced :: "env \<Rightarrow> Stream \<times> world \<Rightarrow> byte list \<Rightarrow> byte list \<Rightarrow> Stream \<times> world \<Rightarrow> bool" where
  "balanced E u xs ys v \<longleftrightarrow> keyed E (snd v) \<and> stream_ok E (fst v) (snd v) \<and>
     ys @ queue_bytes E (snd v) (queue (fst v)) = queue_bytes E (snd u) (queue (fst u)) @ xs"

lemma balanced_write:
  assumes "balanced E u xs ys (q, s)" and "target s p" and "clear (queue q) p" and "int (slen p) + Overhead E \<le> 2 ^ 62"
    and "Stream_Write E p (q, s) = (Ret r, v)"
  shows "balanced E u (xs @ contents (mem s) p) ys v"
proof -
  have k: "keyed E s" "stream_ok E q s" using assms(1) by (simp_all add: balanced_def)
  then have b: "backed E s (queue q)" "\<not> slocked q" by (simp_all add: backed_def keyed_ready stream_ok_def)
  obtain q' t where t: "Stream_Write E p (q, s) = (Ret (int (slen p), None), (q', t))" "backed E t (queue q')" "\<not> slocked q'"
      "queue_bytes E t (queue q') = queue_bytes E s (queue q) @ contents (mem s) p"
      "coffer_ok s (key s) \<or> 0 < slen p \<Longrightarrow> coffer_ok t (key t)"
    by (rule Stream_Write_run [OF b assms(2-4)]) (rule that)
  have "coffer_ok t (key t)" using t(5) keyed_D(4) [OF k(1)] by simp
  then show ?thesis
    using assms(1,5) t(1-4) by (auto simp: balanced_def keyed_ready backed_def stream_ok_def)
qed

lemma balanced_read:
  assumes "balanced E u xs ys (q, s)" and "target s p" and "clear (queue q) p" and "Stream_Read E p (q, s) = (Ret (n, e), (q', t))"
  shows "balanced E u xs (ys @ take (nat n) (contents (mem t) p)) (q', t)"
proof -
  let ?m = "concat (take 1 (queue_chunks E s (queue q)))"
  let ?n = "min (slen p) (length ?m)" and ?bs = "copied (contents (mem s) p) ?m"
  have k: "keyed E s" "stream_ok E q s" using assms(1) by (simp_all add: balanced_def)
  have r: "n = int ?n" "received E p ?bs s t" "stream_ok E q' t" "queue_bytes E t (queue q') = drop ?n (queue_bytes E s (queue q))"
    by (rule Stream_Read_run [OF k assms(2,3)]; use assms(4) in simp)+
  have "take ?n (contents (mem t) p) = take ?n ?m"
    using received_contents [OF assms(2) k(1) r(2)] writable_fits [OF target_access(1) [OF assms(2) keyed_D(2) [OF k(1)]]] by (auto simp: copied_def min_def)
  also have "\<dots> = take ?n (queue_bytes E s (queue q))"
    by (cases "queue_chunks E s (queue q)") (simp_all add: queue_bytes_def)
  finally have "take (nat n) (contents (mem t) p) @ queue_bytes E t (queue q') = queue_bytes E s (queue q)"
    using r(1,4) by simp
  then show ?thesis using assms(1) r(2,3) by (simp add: balanced_def received_def)
qed

lemma balanced_next:
  assumes "balanced E u xs ys (q, s)" and "Stream_Next E (q, s) = (Ret (b, None), (q', t))"
  shows "balanced E u xs (ys @ contents (mem t) (data (bufs t b))) (q', t)"
proof -
  have k: "keyed E s" "stream_ok E q s" using assms(1) by (simp_all add: balanced_def)
  let ?C = "queue_chunks E s (queue q)"
  have r: "queue q \<noteq> []" "gives E s t b (concat (take 1 ?C))" "stream_ok E q' t" "queue_chunks E t (queue q') = drop 1 ?C"
    using Stream_Next_run [OF k] assms(2) by (auto split: if_splits)
  obtain e es m where e: "queue q = Some e # es" "sealed E s e m" using k(2) r(1) by (cases "queue q") (auto simp: stream_ok_def)
  have m: "open_bytes E s e = m" "m \<noteq> []"
    using sealed_open_bytes [OF env_works_D(6) [OF keyed_D(1) [OF k(1)]] e(2)] e(2) by (simp_all add: sealed_def)
  have "work E s t b" "contents (mem t) (data (bufs t b)) = m" using r(2) e(1) m by (simp_all add: gives_def)
  then show ?thesis using assms(1) r(3,4) e(1) m(1) work_D(2) by (simp add: balanced_def queue_bytes_def)
qed

lemma stream_run_balanced:
  assumes "stream_run E u xs ys v" and "keyed E (snd u)" and "stream_ok E (fst u) (snd u)"
  shows "balanced E u xs ys v"
  using assms(1)
proof (induction rule: stream_run.induct)
  case begin_run
  then show ?case using assms(2,3) by (simp add: balanced_def)
next
  case (put_data xs ys q s p r v)
  then show ?case using balanced_write by blast
next
  case (get_data xs ys q s p n e q' t)
  then show ?case using balanced_read by blast
next
  case (take_next xs ys q s b q' t)
  then show ?case using balanced_next by blast
next
  case (ask_size xs ys q s n v)
  then have "v = (q, s)"
    using Stream_Size_run [of E q s] env_works_D(6) keyed_D(1) [of E s] by (auto simp: balanced_def)
  then show ?case using ask_size.IH by simp
next
  case (tick xs ys q s t)
  have k: "keyed E s" "stream_ok E q s" using tick.IH by (simp_all add: balanced_def)
  have r: "keyed E t" "calm E s t"
    by (rule key_tick_run [OF k(1)]; use tick.hyps(2) in \<open>simp add: calm_def\<close>)+
  then show ?case
    using tick.IH k queue_calm [OF env_works_D(6) [OF keyed_D(1) [OF k(1)]] r(2), of "queue q"] by (simp add: balanced_def stream_ok_def)
qed

text \<open>
  C4. A stream is a first-in first-out queue of bytes: after any sequence of calls and periods of the re-key goroutine, the bytes
  read so far followed by those still in the stream are the bytes it had at the start followed by those written since;
  the calls keep the invariant of the stream and of the session.
\<close>

theorem stream_fifo:
  assumes "stream_run E (q, s) xs ys (q', t)" and "keyed E s" and "stream_ok E q s"
  shows "ys @ queue_bytes E t (queue q') = queue_bytes E s (queue q) @ xs \<and> stream_ok E q' t \<and> keyed E t"
  using stream_run_balanced [OF assms(1)] assms(2,3) by (simp add: balanced_def)

theorem stream_fifo_witness:
  "\<exists>q' t. stream_run simE (NewStream, w_user) [1, 2, 3] [1, 2] (q', t) \<and> queue_bytes simE t (queue q') = [3]"
proof -
  obtain r where w: "Stream_Write simE w_sl (NewStream, w_user) = (Ret r, (st_q, st_w))"
    by (rule Stream_Write_run [OF st_start]) (simp add: st_q_def st_w_def)
  have n: "stream_ok simE NewStream w_user" "queue_bytes simE w_user (queue NewStream) = []" by (simp_all add: NewStream_def stream_ok_def)
  have 1: "stream_run simE (NewStream, w_user) [1, 2, 3] [] (st_q, st_w)"
    using stream_run.put_data [OF stream_run.begin_run st_start(3-5) w] w_user_facts(4) by simp
  obtain q' t where t: "Stream_Read simE two_sl (st_q, st_w) = (Ret (2, None), (q', t))" "received simE two_sl [1, 2] st_w t"
    by (rule Stream_Read_run [OF st_facts(1,2) two_facts(1,2)])
      (use st_facts(5) two_facts(3,4) that in \<open>auto simp: copied_def split: if_splits\<close>)
  have "stream_run simE (NewStream, w_user) [1, 2, 3] [1, 2] (q', t)"
    using stream_run.get_data [OF 1 two_facts(1,2) t(1)] received_contents [OF two_facts(1) st_facts(1) t(2)] by simp
  then show ?thesis using stream_fifo [OF _ w_user_facts(8) n(1), of "[1, 2, 3]" "[1, 2]" q' t] n(2) by auto
qed

subsection \<open>Flush\<close>

text \<open>
  C21. Writing and flushing is a round trip: \<^verbatim>\<open>Flush\<close> of a new stream after \<^verbatim>\<open>Write\<close> returns an immutable buffer with the bytes that
  were written and no error, and leaves the stream empty. The reading loop needs fuel for one call more than there are
  bytes.
\<close>

theorem Stream_round_trip:
  assumes "ready E s" and "target s p" and "0 < slen p" and "int (slen p + pageSize E) + Overhead E \<le> 2 ^ 62" and "slen p < fuel"
  shows "\<exists>q t b q' u. Stream_Write E p (NewStream, s) = (Ret (int (slen p), None), (q, t)) \<and>
     Flush E fuel (q, t) = (Ret (b, None), (q', u)) \<and> \<not> mutable (bufs u b) \<and>
     contents (mem u) (data (bufs u b)) = contents (mem s) p \<and> queue q' = [] \<and> blist u = blist t @ [b]"
proof -
  have b: "backed E s (queue NewStream)" "\<not> slocked NewStream" "clear (queue NewStream) p" "queue_bytes E s (queue NewStream) = []"
    using assms(1) by (simp_all add: backed_def NewStream_def clear_def)
  have "int (slen p) + Overhead E \<le> 2 ^ 62" using assms(4) by simp
  then obtain q t where t: "Stream_Write E p (NewStream, s) = (Ret (int (slen p), None), (q, t))" "backed E t (queue q)" "\<not> slocked q"
      "queue_bytes E t (queue q) = contents (mem s) p" "coffer_ok s (key s) \<or> 0 < slen p \<Longrightarrow> coffer_ok t (key t)"
    by (rule Stream_Write_run [OF b(1,2) assms(2) b(3), unfolded b(4) append_Nil]) (rule that)
  have k: "keyed E t" "stream_ok E q t" using t(2,3,5) assms(3) by (simp_all add: keyed_ready backed_def stream_ok_def)
  have sb: "secretbox_ok E" by (rule env_works_D(6) [OF keyed_D(1) [OF k(1)]])
  have len: "length (contents (mem s) p) = slen p"
    using writable_fits [OF target_access(1) [OF assms(2) ready_D(2) [OF assms(1)]]] by simp
  have ne: "contents (mem s) p \<noteq> []" using len assms(3) by auto
  have "0 \<le> Overhead E" by (simp add: Overhead_def)
  then have small: "int (length (queue_bytes E t (queue q)) + pageSize E) \<le> 2 ^ 62" "length (queue_bytes E t (queue q)) + 0 < fuel"
    using t(4) len assms(4,5) by simp_all
  obtain d q' u where u: "Flush E fuel (q, t) = (Ret (d, None), (q', u))" "gives E t u d (contents (mem s) p)" "stream_ok E q' u"
      "queue_bytes E u (queue q') = []"
    using st.NewBufferFromEntireReader_run [OF k small, of 0] t(4) by (auto simp: Flush_def)
  have "queue q' = []" using u(3,4) queue_bytes_empty [OF sb, of u "queue q'"] by (simp add: stream_ok_def)
  then show ?thesis
    using t(1) u(1,2) ne work_D(5)
    by (intro exI [of _ q] exI [of _ t] exI [of _ d] exI [of _ q'] exI [of _ u]) (auto simp: gives_def)
qed

theorem Stream_round_trip_witness:
  "\<exists>q t b q' u. Stream_Write simE w_sl (NewStream, w_user) = (Ret (3, None), (q, t)) \<and> Flush simE 4 (q, t) = (Ret (b, None), (q', u)) \<and>
     contents (mem u) (data (bufs u b)) = [1, 2, 3] \<and> queue q' = []"
proof -
  have "slen w_sl = 3" "Overhead simE = 25" "pageSize simE = 8" by (simp_all add: w_sl_def Overhead_def simE_def)
  moreover have "ready simE w_user" using w_user_facts(8) by (simp add: keyed_ready)
  ultimately show ?thesis using Stream_round_trip [OF _ st_start(3), of simE 4] w_user_facts(4) by fastforce
qed

end
