(* ===== verification/Faults.thy ===== *)
theory Faults
  imports Exit
begin

text \<open>
  \<^verbatim>\<open>Purge\<close> of \<^verbatim>\<open>core/exit.go\<close> when the operating system refuses requests: only \<open>memcall_ok\<close> is
  assumed, so that any \<^verbatim>\<open>Protect\<close>, \<^verbatim>\<open>Unlock\<close> or \<^verbatim>\<open>Free\<close> may fail at any time. The lemmas follow the
  fallback of the loop (wipe in place, or warn when the pages cannot be made writable) and give what
  is left of every buffer.
\<close>

subsection \<open>What is left of a buffer\<close>

text \<open>Unmapped and reset; wiped in place; or still there with a warning.\<close>

definition gone :: "world \<Rightarrow> world \<Rightarrow> nat \<Rightarrow> bool" where
  "gone s t b \<longleftrightarrow> bufs t b = zero_Buffer \<and> regs (mem t) (buf_base (bufs s b)) = no_region"

definition wiped :: "world \<Rightarrow> world \<Rightarrow> nat \<Rightarrow> bool" where
  "wiped s t b \<longleftrightarrow> data (bufs t b) = data (bufs s b) \<and>
     contents (mem t) (data (bufs s b)) = replicate (slen (data (bufs s b))) 0"

definition warned :: "world \<Rightarrow> world \<Rightarrow> nat \<Rightarrow> bool" where
  "warned s t b \<longleftrightarrow> b \<in> set (warnings t) \<and> \<not> mutable (bufs s b) \<and> bufs t b = bufs s b \<and>
     regs (mem t) (buf_base (bufs s b)) = regs (mem s) (buf_base (bufs s b))"

text \<open>
  What a purge relies on: the buffer is alive and mapped, and its data is writable when its flag says
  so. Unlike \<open>guarded\<close> this also holds of a buffer whose destruction failed half-way.
\<close>

definition held :: "env \<Rightarrow> world \<Rightarrow> nat \<Rightarrow> bool" where
  "held E s b \<longleftrightarrow> alive (bufs s b) \<and> mapped E s b \<and> (mutable (bufs s b) \<longrightarrow> writable (mem s) (data (bufs s b)))"

definition left_over :: "world \<Rightarrow> world \<Rightarrow> nat \<Rightarrow> bool" where
  "left_over s t b \<longleftrightarrow> gone s t b \<or> wiped s t b \<or> warned s t b"

text \<open>Only the objects and the memory of some buffers changed.\<close>

definition touches :: "nat set \<Rightarrow> world \<Rightarrow> world \<Rightarrow> bool" where
  "touches D s t \<longleftrightarrow>
     (\<forall>c. c \<notin> D \<longrightarrow> bufs t c = bufs s c) \<and>
     (\<forall>a. (\<forall>b \<in> D. a \<noteq> buf_base (bufs s b)) \<longrightarrow> regs (mem t) a = regs (mem s) a) \<and>
     locks t = locks s \<and> blist t = blist s \<and> nbufs t = nbufs s \<and> coffers t = coffers s \<and> ncoffers t = ncoffers s \<and>
     key t = key s \<and> sysnext (mem t) = sysnext (mem s) \<and> gcnext (mem t) = gcnext (mem s) \<and>
     set (warnings s) \<subseteq> set (warnings t)"

lemma touches_refl: "touches D s (s\<lparr>mcalls := k\<rparr>)"
  by (simp add: touches_def)

lemma touches_D:
  assumes "touches D s t"
  shows "locks t = locks s" and "blist t = blist s" and "c \<notin> D \<Longrightarrow> bufs t c = bufs s c"
    and "\<forall>b \<in> D. a \<noteq> buf_base (bufs s b) \<Longrightarrow> regs (mem t) a = regs (mem s) a"
    and "set (warnings s) \<subseteq> set (warnings t)" and "sysnext (mem t) = sysnext (mem s)"
  using assms by (auto simp: touches_def)

lemma touches_keep:
  assumes "touches {b} s t" and "c \<noteq> b" and "buf_base (bufs s c) \<noteq> buf_base (bufs s b)"
  shows "keep s t c"
  using touches_D(3,4,6) [OF assms(1)] assms(2,3) by (auto simp: keep_def)

text \<open>A step on one buffer followed by steps on others.\<close>

lemma touches_Un:
  assumes "touches {b} s u" and "touches D u t" and "\<forall>c \<in> D. c \<noteq> b"
  shows "touches (insert b D) s t"
proof -
  have "bufs u c = bufs s c" if "c \<in> D" for c using touches_D(3) [OF assms(1)] that assms(3) by auto
  with assms show ?thesis by (auto simp: touches_def)
qed

lemma left_by_others:
  assumes "touches D u t" and "b \<notin> D" and "\<forall>c \<in> D. buf_base (bufs s b) \<noteq> buf_base (bufs u c)"
    and "slice_base (data (bufs s b)) = buf_base (bufs s b)"
  shows "gone s u b \<Longrightarrow> gone s t b" and "wiped s u b \<Longrightarrow> wiped s t b" and "warned s u b \<Longrightarrow> warned s t b"
proof -
  have same: "bufs t b = bufs u b" "regs (mem t) (buf_base (bufs s b)) = regs (mem u) (buf_base (bufs s b))"
    using touches_D(3,4) [OF assms(1)] assms(2,3) by auto
  then have "contents (mem t) (data (bufs s b)) = contents (mem u) (data (bufs s b))"
    by (intro contents_same_region) (simp add: assms(4))
  with same touches_D(5) [OF assms(1)] show "gone s u b \<Longrightarrow> gone s t b" "wiped s u b \<Longrightarrow> wiped s t b" "warned s u b \<Longrightarrow> warned s t b"
    by (auto simp: gone_def wiped_def warned_def)
qed

lemma left_by_one:
  assumes "keep s u c"
  shows "gone u t c \<Longrightarrow> gone s t c" and "wiped u t c \<Longrightarrow> wiped s t c" and "warned u t c \<Longrightarrow> warned s t c"
  using assms by (auto simp: keep_def gone_def wiped_def warned_def)

lemma not_gone:
  assumes "held E s b"
  shows "wiped s t b \<Longrightarrow> \<not> gone s t b" and "warned s t b \<Longrightarrow> \<not> gone s t b"
  using assms by (auto simp: gone_def wiped_def warned_def held_def elim!: mappedE)

lemma guarded_held: "guarded E s b \<Longrightarrow> held E s b"
  using guarded_mapped guarded_data(2) by (simp add: held_def)

lemma held_mapped: "held E s b \<Longrightarrow> mapped E s b" "held E s b \<Longrightarrow> alive (bufs s b)"
  by (simp_all add: held_def)

lemma keep_held:
  assumes "keep s t b" and "held E s b"
  shows "held E t b"
proof -
  have "writable (mem t) (data (bufs s b)) = writable (mem s) (data (bufs s b))"
    using assms by (auto simp: keep_def held_def elim!: mappedE)
  with keep_mapped [OF assms(1)] assms show ?thesis by (auto simp: held_def keep_def)
qed

subsection \<open>One buffer\<close>

lemma remapped:
  assumes "mapped E s b" and "bufs t b = (bufs s b)\<lparr>mutable := True\<rparr>" and "sysnext (mem t) = sysnext (mem s)"
    and "length (rbytes (regs (mem t) (buf_base (bufs s b)))) = length (rbytes (buf_region s b))"
  shows "mapped E t b"
  using assms by (simp add: mapped_def)

lemma broken_touches:
  assumes "mapped E s b"
  shows "touches {b} s (broken_state b s)" and "wiped s (broken_state b s) b"
    and "writable (mem (broken_state b s)) (data (bufs s b))" and "writable (mem (broken_state b s)) (memory (bufs s b))"
    and "bufs (broken_state b s) b = (bufs s b)\<lparr>mutable := True\<rparr>" and "mapped E (broken_state b s) b"
  using mapped_open [OF assms] assms
  by (auto simp: broken_state_def wiped_def touches_def writable_fits elim!: mappedE intro!: remapped [OF assms])

text \<open>After the canary check: the memory is wiped once more, unlocked and unmapped, or a call fails.\<close>

lemma release_faults:
  assumes "memcall_ok E" and "mapped E s b" and al: "alive (bufs s b)"
  obtains t where "release_memory E b (bufs s b) (broken_state b s) = (Ret None, t)" and "touches {b} s t"
      and "gone s t b"
  | e t where "release_memory E b (bufs s b) (broken_state b s) = (Ret (Some e), t)" and "touches {b} s t"
      and "wiped s t b" and "bufs t b = (bufs s b)\<lparr>mutable := True\<rparr>" and "held E t b"
proof -
  let ?B = "bufs s b" and ?t = "broken_state b s"
  note br = broken_touches [OF assms(2)]
  define w where "w = ?t\<lparr>mem := put (mem ?t) (memory ?B) (replicate (slen (memory ?B)) 0)\<rparr>"
  define u where "u = (\<lambda>k. w\<lparr>mem := set_lock (inner ?B) False (mem w), mcalls := k\<rparr>)"
  have wipe: "Wipe (memory ?B) ?t = (Ret (), w)" unfolding w_def by (rule Wipe_run [OF br(4)])
  have zero: "sub i n (replicate k (0 :: byte)) = replicate n 0" if "i + n \<le> k" for i n k
    using that by simp
  have w: "touches {b} s (w\<lparr>mcalls := k\<rparr>)" "wiped s (w\<lparr>mcalls := k\<rparr>) b" "bufs (w\<lparr>mcalls := k\<rparr>) b = ?B\<lparr>mutable := True\<rparr>"
      "mapped E (w\<lparr>mcalls := k\<rparr>) b" "writable (mem (w\<lparr>mcalls := k\<rparr>)) (data ?B)" for k
    using assms(2) br(4)
    by (auto simp: w_def broken_state_def wiped_def touches_def writable_fits elim!: mappedE intro!: remapped [OF assms(2)])
  have u: "touches {b} s (u k)" "wiped s (u k) b" "bufs (u k) b = ?B\<lparr>mutable := True\<rparr>" "mapped E (u k) b"
      "writable (mem (u k)) (data ?B)" for k
    using assms(2) w [of k] by (auto simp: u_def wiped_def touches_def elim!: mappedE intro!: remapped [OF assms(2)])
  have held: "held E t b" if "bufs t b = ?B\<lparr>mutable := True\<rparr>" "mapped E t b" "writable (mem t) (data ?B)" for t
    using that al by (simp add: held_def)
  show ?thesis
  proof (rule memcall_Unlock_cases [OF assms(1), of "inner ?B" w])
    fix e assume error: "memcall_Unlock E (inner ?B) w = (Ret (Some e), w\<lparr>mcalls := Suc (mcalls w)\<rparr>)"
    show ?thesis
      by (rule that(2) [OF _ w(1-3) held [OF w(3-5)]]) (simp add: release_memory_def bind_def wipe error)
  next
    assume "memcall_Unlock E (inner ?B) w = (Ret None, w\<lparr>mem := set_lock (inner ?B) False (mem w), mcalls := Suc (mcalls w)\<rparr>)"
    then have g: "memcall_Unlock E (inner ?B) w = (Ret None, u (Suc (mcalls w)))" by (simp add: u_def)
    show ?thesis
    proof (rule memcall_Free_cases [OF assms(1), of "memory ?B" "u (Suc (mcalls w))"])
      fix e assume error: "memcall_Free E (memory ?B) (u (Suc (mcalls w))) =
          (Ret (Some e), (u (Suc (mcalls w)))\<lparr>mcalls := Suc (mcalls (u (Suc (mcalls w))))\<rparr>)"
      have "(u k)\<lparr>mcalls := j\<rparr> = u j" for k j by (simp add: u_def)
      with error show ?thesis
        by (intro that(2) [OF _ u(1-3) held [OF u(3-5)]]) (simp add: release_memory_def bind_def wipe g)
    next
      assume granted: "memcall_Free E (memory ?B) (u (Suc (mcalls w))) =
          (Ret None, (u (Suc (mcalls w)))\<lparr>mem := unmap_region (memory ?B) (mem (u (Suc (mcalls w)))),
             mcalls := Suc (mcalls (u (Suc (mcalls w))))\<rparr>)"
      let ?v = "(u (Suc (mcalls w)))\<lparr>mem := unmap_region (memory ?B) (mem (u (Suc (mcalls w)))),
          mcalls := Suc (mcalls (u (Suc (mcalls w)))), bufs := (bufs s)(b := zero_Buffer)\<rparr>"
      have "release_memory E b ?B ?t = (Ret None, ?v)"
        using granted br(1) by (simp add: release_memory_def bind_def wipe g upd_buf_def exec)
          (simp add: u_def w_def broken_state_def)
      moreover have "touches {b} s ?v" "gone s ?v b"
        using assms(2) by (auto simp: u_def w_def broken_state_def touches_def gone_def elim!: mappedE)
      ultimately show ?thesis by (rule that(1))
    qed
  qed
qed

text \<open>
  \<^verbatim>\<open>destroy\<close> under faults: the buffer is gone; or nothing happened; or it is open for writing and wiped.
\<close>

lemma destroy_faults:
  assumes "memcall_ok E" and "held E s b" and "locks s (BufLock b) = Unlocked"
  obtains t where "destroy E (Some b) s = (Ret None, t)" and "touches {b} s t" and "gone s t b"
  | e k where "destroy E (Some b) s = (Ret (Some e), s\<lparr>mcalls := k\<rparr>)"
  | e t where "destroy E (Some b) s = (Ret (Some e), t)" and "touches {b} s t" and "wiped s t b"
      and "bufs t b = (bufs s b)\<lparr>mutable := True\<rparr>" and "held E t b"
proof -
  note m = held_mapped [OF assms(2)]
  have run: "destroy_body E b s = (Ret r, t) \<Longrightarrow> destroy E (Some b) s = (Ret r, t)" for r t
    using with_lock_free(1) [OF oblivious_destroy_body assms(3)] by (auto simp: destroy.simps)
  show ?thesis
  proof (rule memcall_Protect_cases [OF assms(1), of "memory (bufs s b)" ReadWrite s])
    fix e assume "memcall_Protect E (memory (bufs s b)) ReadWrite s = (Ret (Some e), s\<lparr>mcalls := Suc (mcalls s)\<rparr>)"
    then have "destroy_body E b s = (Ret (Some e), s\<lparr>mcalls := Suc (mcalls s)\<rparr>)"
      using m(2) by (simp add: destroy_body_def get_buf_def bind_def exec)
    then show ?thesis by (intro that(2) [OF run])
  next
    assume "memcall_Protect E (memory (bufs s b)) ReadWrite s =
        (Ret None, s\<lparr>mem := set_prot (memory (bufs s b)) ReadWrite (mem s), mcalls := Suc (mcalls s)\<rparr>)"
    note d = destroy_opened [OF m(2,1) this]
    show ?thesis
    proof (cases "canary_ok s b")
      case False
      with d have "destroy_body E b s = (Ret (Some canaryErr), broken_state b s)" by simp
      moreover have "held E (broken_state b s) b" using broken_touches [OF m(1)] m(2) by (simp add: held_def)
      ultimately show ?thesis by (intro that(3) [OF run]) (rule broken_touches [OF m(1)] | assumption)+
    next
      case True
      with d have r: "destroy_body E b s = release_memory E b (bufs s b) (broken_state b s)" by simp
      show ?thesis
        by (rule release_faults [OF assms(1) m]) (rule that(1) [OF run] that(3) [OF run]; simp add: r)+
    qed
  qed
qed

text \<open>The fallback of the loop for a buffer that could not be destroyed, before it goes on with \<open>K\<close>.\<close>

lemma fallback_faults:
  assumes "memcall_ok E" and "held E s b"
    and u: "u = s\<lparr>mcalls := k\<rparr> \<or> (touches {b} s u \<and> wiped s u b \<and> mutable (bufs u b) \<and> held E u b)"
  obtains t where "bind (get_buf b) (\<lambda>B.
            bind (if \<not> mutable B then memcall_Protect E (inner B) ReadWrite else ret None) (\<lambda>err.
            case err of
              Some _ \<Rightarrow> bind (modify (\<lambda>s. s\<lparr>warnings := warnings s @ [b]\<rparr>)) (\<lambda>_. K)
            | None \<Rightarrow> bind (Wipe (data B)) (\<lambda>_. K))) u = K t"
    and "touches {b} s t" and "wiped s t b \<or> warned s t b"
proof -
  note m = held_mapped [OF assms(2)]
  have wipe: "\<exists>t. bind (Wipe (data (bufs u b))) (\<lambda>_. K) v = K t \<and> touches {b} s t \<and> wiped s t b"
    if "touches {b} s v" "data (bufs u b) = data (bufs s b)" "data (bufs v b) = data (bufs s b)" "writable (mem v) (data (bufs s b))" for v
  proof -
    let ?t = "v\<lparr>mem := put (mem v) (data (bufs s b)) (replicate (slen (data (bufs s b))) 0)\<rparr>"
    have "bind (Wipe (data (bufs u b))) (\<lambda>_. K) v = K ?t" using that by (simp add: bind_def Wipe_run)
    moreover have "touches {b} s ?t" "wiped s ?t b"
      using that m(1) by (auto simp: touches_def wiped_def writable_fits elim!: mappedE)
    ultimately show ?thesis by blast
  qed
  have data: "data (bufs u b) = data (bufs s b)" using u by (auto simp: wiped_def)
  show ?thesis
  proof (cases "mutable (bufs u b)")
    case True
    then have "writable (mem u) (data (bufs s b))" using u assms(2) by (auto simp: held_def wiped_def)
    moreover have "touches {b} s u" using u touches_refl by auto
    ultimately obtain t where "bind (Wipe (data (bufs u b))) (\<lambda>_. K) u = K t" "touches {b} s t" "wiped s t b"
      using wipe [of u] data by blast
    with True show ?thesis by (intro that [of t]) (simp_all add: bind_def get_buf_def exec)
  next
    case False
    with u have s: "u = s\<lparr>mcalls := k\<rparr>" by auto
    let ?P = "memcall_Protect E (inner (bufs s b)) ReadWrite u"
    show ?thesis
    proof (rule memcall_Protect_cases [OF assms(1), of "inner (bufs s b)" ReadWrite u])
      fix e assume P: "?P = (Ret (Some e), u\<lparr>mcalls := Suc (mcalls u)\<rparr>)"
      let ?t = "s\<lparr>mcalls := Suc k, warnings := warnings s @ [b]\<rparr>"
      have "touches {b} s ?t" "warned s ?t b" using False s by (auto simp: touches_def warned_def)
      with P False s show ?thesis by (intro that [of ?t]) (simp_all add: bind_def get_buf_def exec state_order)
    next
      assume P: "?P = (Ret None, u\<lparr>mem := set_prot (inner (bufs s b)) ReadWrite (mem u), mcalls := Suc (mcalls u)\<rparr>)"
      let ?v = "u\<lparr>mem := set_prot (inner (bufs s b)) ReadWrite (mem u), mcalls := Suc (mcalls u)\<rparr>"
      have "touches {b} s ?v" "writable (mem ?v) (data (bufs s b))"
        using m(1) s by (auto simp: touches_def elim!: mappedE)
      then obtain t where "bind (Wipe (data (bufs u b))) (\<lambda>_. K) ?v = K t" "touches {b} s t" "wiped s t b"
        using wipe [of ?v] data by auto
      with P False s show ?thesis by (intro that [of t]) (simp_all add: bind_def get_buf_def exec)
    qed
  qed
qed

subsection \<open>The loop of a purge\<close>

lemma purge_loop_faults:
  assumes "memcall_ok E" and "\<forall>b \<in> set bs. held E s b \<and> locks s (BufLock b) = Unlocked"
    and "distinct (map (\<lambda>b. buf_base (bufs s b)) bs)"
  shows "\<exists>r t. purge_loop E bs e s = (Ret r, t) \<and> touches (set bs) s t \<and> (\<forall>b \<in> set bs. left_over s t b) \<and>
     (r = None \<longleftrightarrow> e = None \<and> (\<forall>b \<in> set bs. gone s t b))"
  using assms(2,3)
proof (induction bs arbitrary: s e)
  case Nil
  show ?case using touches_refl [of "{}" s "mcalls s"] by simp
next
  case (Cons b bs)
  have b: "held E s b" "locks s (BufLock b) = Unlocked" using Cons.prems(1) by simp_all
  have others: "c \<noteq> b \<and> held E s c \<and> buf_base (bufs s c) \<noteq> buf_base (bufs s b)" if "c \<in> set bs" for c
    using Cons.prems that by (auto simp: image_iff)
  have tail: "\<exists>r t. purge_loop E bs e' u = (Ret r, t) \<and> touches (set (b # bs)) s t \<and> (\<forall>c \<in> set (b # bs). left_over s t c) \<and>
      (r = None \<longleftrightarrow> e' = None \<and> (\<forall>c \<in> set bs. gone s t c)) \<and> (gone s u b \<longrightarrow> gone s t b) \<and> (\<not> gone s u b \<longrightarrow> \<not> gone s t b)"
    if u: "touches {b} s u" "left_over s u b" for u e'
  proof -
    have k: "keep s u c" if "c \<in> set bs" for c using touches_keep [OF u(1)] others [OF that] by blast
    then have same: "bufs u c = bufs s c" if "c \<in> set bs" for c using that by (simp add: keep_def)
    have "\<forall>c \<in> set bs. held E u c \<and> locks u (BufLock c) = Unlocked"
      using keep_held [OF k] others Cons.prems(1) touches_D(1) [OF u(1)] by simp
    moreover have "map (\<lambda>c. buf_base (bufs u c)) bs = map (\<lambda>c. buf_base (bufs s c)) bs" using same by simp
    then have "distinct (map (\<lambda>c. buf_base (bufs u c)) bs)" using Cons.prems(2) by (simp del: map_eq_conv)
    ultimately obtain r t where t: "purge_loop E bs e' u = (Ret r, t)" "touches (set bs) u t"
        "\<forall>c \<in> set bs. left_over u t c" "r = None \<longleftrightarrow> e' = None \<and> (\<forall>c \<in> set bs. gone u t c)"
      using Cons.IH [of u e'] by blast
    have ne: "\<forall>c \<in> set bs. buf_base (bufs s b) \<noteq> buf_base (bufs u c)" "b \<notin> set bs" using others same by fastforce+
    note L = left_by_others [OF t(2) ne(2,1) mapped_bases(4) [OF held_mapped(1) [OF b(1)]]]
    have "touches (set (b # bs)) s t" using touches_Un [OF u(1) t(2)] others by simp
    moreover have "\<forall>c \<in> set (b # bs). left_over s t c"
      using t(3) u(2) L left_by_one [OF k] unfolding left_over_def by auto
    moreover have "gone u t c = gone s t c" if "c \<in> set bs" for c using k [OF that] by (simp add: gone_def keep_def)
    moreover have "\<not> gone s u b \<longrightarrow> \<not> gone s t b" using L u(2) not_gone [OF b(1)] unfolding left_over_def by blast
    ultimately show ?thesis using t(1,4) L(1) by blast
  qed
  have "b \<notin> set bs" using others by blast
  then have ob: "oblivious (BufLock b) (purge_loop E bs e')" for e' by (auto intro!: obliviousI)
  have fail: ?case if d: "destroy E (Some b) s = (Ret (Some e'), u)"
    and u: "u = s\<lparr>mcalls := k\<rparr> \<or> (touches {b} s u \<and> wiped s u b \<and> mutable (bufs u b) \<and> held E u b)"
    for e' k u
  proof -
    let ?body = "bind (get_buf b) (\<lambda>B.
            bind (if \<not> mutable B then memcall_Protect E (inner B) ReadWrite else ret None) (\<lambda>err.
            case err of
              Some _ \<Rightarrow> bind (modify (\<lambda>s. s\<lparr>warnings := warnings s @ [b]\<rparr>)) (\<lambda>_. purge_loop E bs (Some (join_err e e')))
            | None \<Rightarrow> bind (Wipe (data B)) (\<lambda>_. purge_loop E bs (Some (join_err e e')))))"
    obtain v where v: "?body u = purge_loop E bs (Some (join_err e e')) v" "touches {b} s v" "wiped s v b \<or> warned s v b"
      by (rule fallback_faults [OF assms(1) b(1) u]) (rule that)
    have ng: "\<not> gone s v b" using v(3) not_gone [OF b(1)] by blast
    obtain r t where t: "purge_loop E bs (Some (join_err e e')) v = (Ret r, t)" "touches (set (b # bs)) s t"
        "\<forall>c \<in> set (b # bs). left_over s t c" "r \<noteq> None" "\<not> gone s t b"
      using tail [OF v(2), of "Some (join_err e e')"] v(3) ng unfolding left_over_def by blast
    have "locks u (BufLock b) = Unlocked" using u b(2) touches_D(1) by fastforce
    then have "with_lock (BufLock b) ?body u = (Ret r, t)"
      by (rule with_lock_free(1) [rotated]) (use v(1) t(1) in \<open>auto simp: set_rw_updates intro!: obliviousI ob\<close>)
    with d have "purge_loop E (b # bs) e s = (Ret r, t)" by (simp add: bind_def)
    with t(2-5) show ?thesis by (intro exI [of _ r] exI [of _ t]) simp
  qed
  show ?case
  proof (rule destroy_faults [OF assms(1) b])
    fix u assume d: "destroy E (Some b) s = (Ret None, u)" and u: "touches {b} s u" "gone s u b"
    obtain r t where t: "purge_loop E bs e u = (Ret r, t)" "touches (set (b # bs)) s t"
        "\<forall>c \<in> set (b # bs). left_over s t c" "r = None \<longleftrightarrow> e = None \<and> (\<forall>c \<in> set bs. gone s t c)" "gone s t b"
      using tail [OF u(1), of e] u(2) unfolding left_over_def by blast
    from d t(1) have "purge_loop E (b # bs) e s = (Ret r, t)" by (simp add: bind_def)
    with t(2-5) show ?case by (intro exI [of _ r] exI [of _ t]) simp
  next
    fix e' k assume "destroy E (Some b) s = (Ret (Some e'), s\<lparr>mcalls := k\<rparr>)"
    then show ?case by (rule fail [of _ _ k]) simp
  next
    fix e' u assume "destroy E (Some b) s = (Ret (Some e'), u)" "touches {b} s u" "wiped s u b"
      "bufs u b = (bufs s b)\<lparr>mutable := True\<rparr>" "held E u b"
    then show ?case by (intro fail [of e' u 0]) simp_all
  qed
qed

text \<open>\<^verbatim>\<open>Purge\<close> comes to an end whatever the system calls do.\<close>

lemma Purge_faults:
  assumes "memcall_ok E" and "locks_free s" and "\<forall>b \<in> set (blist s). held E s b"
    and "distinct (map (\<lambda>b. buf_base (bufs s b)) (blist s))"
  obtains r t where "Purge E s = (r, t)" and "r = Ret () \<or> (\<exists>e. r = Panicked (PErr e))" and "blist t = []"
    and "\<forall>b \<in> set (blist s). left_over s t b" and "r = Ret () \<longleftrightarrow> (\<forall>b \<in> set (blist s). gone s t b)"
proof -
  let ?u = "s\<lparr>blist := []\<rparr>"
  have g: "\<forall>b \<in> set (blist s). held E ?u b \<and> locks ?u (BufLock b) = Unlocked"
    using assms(2,3) by (simp add: held_def locks_free_def)
  have d: "distinct (map (\<lambda>b. buf_base (bufs ?u b)) (blist s))" using assms(4) by simp
  obtain r t where t: "purge_loop E (blist s) None ?u = (Ret r, t)" "touches (set (blist s)) ?u t"
      "\<forall>b \<in> set (blist s). left_over ?u t b" "r = None \<longleftrightarrow> (\<forall>b \<in> set (blist s). gone ?u t b)"
    using purge_loop_faults [OF assms(1) g d, of None] by blast
  have same: "left_over ?u t b = left_over s t b" "gone ?u t b = gone s t b" for b
    by (simp_all add: left_over_def gone_def wiped_def warned_def)
  have "bind list_flush (\<lambda>snapshot. purge_loop E snapshot None) s = (Ret r, t)"
    using t(1) assms(2) by (simp add: bind_def list_flush_run locks_free_def)
  then have "purge_session E s = (Ret r, t)" by (rule purge_session_loop [OF assms(2)])
  then have run: "Purge E s = (case r of None \<Rightarrow> Ret () | Some e \<Rightarrow> Panicked (PErr e), t)"
    by (simp add: Purge_def bind_def exec split: option.split)
  have bl: "blist t = []" using touches_D(2) [OF t(2)] by simp
  show ?thesis
    by (rule that [OF run _ bl]) (use t(3,4) same in \<open>auto split: option.split\<close>)
qed

text \<open>
  A purge from a session that the calls under way may have disturbed in one buffer \<open>b\<close>, whose
  destruction failed.
\<close>

lemma Panic_faults:
  assumes "memcall_ok E" and "session E s" and "b \<in> set (blist s)"
    and "u = s\<lparr>mcalls := k\<rparr> \<or> (touches {b} s u \<and> wiped s u b \<and> bufs u b = (bufs s b)\<lparr>mutable := True\<rparr> \<and> held E u b)"
  obtains p t where "Panic E v u = (Panicked p, t)" and "blist t = []" and "\<forall>c \<in> set (blist s). left_over s t c"
proof -
  have t: "touches {b} s u" using assms(4) touches_refl by blast
  have B: "bufs u b = bufs s b \<or> bufs u b = (bufs s b)\<lparr>mutable := True\<rparr>" using assms(4) by auto
  then have base: "buf_base (bufs u c) = buf_base (bufs s c)" "data (bufs u c) = data (bufs s c)" for c
    using touches_D(3) [OF t, of c] by (cases "c = b"; auto)+
  have kp: "keep s u c" if "c \<in> set (blist s)" "c \<noteq> b" for c
    by (rule touches_keep [OF t that(2) session_D(6) [OF assms(2) that(1) assms(3) that(2)]])
  have held: "held E u c" if "c \<in> set (blist u)" for c
  proof (cases "c = b")
    case True
    have "held E (s\<lparr>mcalls := k\<rparr>) b"
      using guarded_held [OF session_D(2) [OF assms(2,3)]] by (simp add: held_def mapped_def)
    then show ?thesis using True assms(4) by auto
  next
    case False
    then show ?thesis
      using that keep_held [OF kp guarded_held [OF session_D(2) [OF assms(2)]]] touches_D(2) [OF t] by simp
  qed
  have "distinct (map (\<lambda>b. buf_base (bufs u b)) (blist u))"
    using assms(2) touches_D(2) [OF t] by (simp add: base session_def)
  moreover have "locks_free u" using session_D(1) [OF assms(2)] touches_D(1) [OF t] by (simp add: locks_free_def)
  ultimately obtain r w where w: "Purge E u = (r, w)" "r = Ret () \<or> (\<exists>e. r = Panicked (PErr e))" "blist w = []"
      "\<forall>c \<in> set (blist u). left_over u w c"
    using Purge_faults [OF assms(1)] held by metis
  have "left_over s w c" if "c \<in> set (blist s)" for c
  proof (cases "c = b")
    case False
    then show ?thesis
      using left_by_one [OF kp [OF that False], of w] w(4) that touches_D(2) [OF t] by (auto simp: left_over_def)
  next
    case True
    then have "left_over u w b" using w(4) that touches_D(2) [OF t] by simp
    then show ?thesis using assms(4) True by (auto simp: left_over_def gone_def wiped_def warned_def base)
  qed
  moreover have "\<exists>p. Panic E v u = (Panicked p, w)" using w(1,2) by (auto simp: Panic_def bind_def)
  ultimately show ?thesis using that w(3) by blast
qed

text \<open>An operation on a buffer that purges the session when a system call fails.\<close>

lemma Destroy_faults:
  assumes "memcall_ok E" and "session E s" and "b \<in> set (blist s)"
  obtains t where "Destroy E b s = (Ret (), t)" and "gone s t b" and "blist t = remove1 b (blist s)"
      and "\<forall>c \<in> set (blist t). keep s t c"
  | p t where "Destroy E b s = (Panicked p, t)" and "blist t = []" and "\<forall>c \<in> set (blist s). left_over s t c"
proof -
  note panic = that(2)
  have free: "locks s l = Unlocked" for l by (rule locks_free_D [OF session_D(1) [OF assms(2)]])
  have fail: thesis if "destroy E (Some b) s = (Ret (Some e), u)"
    "u = s\<lparr>mcalls := k\<rparr> \<or> (touches {b} s u \<and> wiped s u b \<and> bufs u b = (bufs s b)\<lparr>mutable := True\<rparr> \<and> held E u b)" for e u k
  proof (rule Panic_faults [OF assms that(2), where v = "PErr e"])
    fix p t assume "(Panic E (PErr e) :: unit go) u = (Panicked p, t)" "blist t = []" "\<forall>c \<in> set (blist s). left_over s t c"
    moreover from this(1) have "Destroy E b s = (Panicked p, t)"
      using that(1) by (simp add: Destroy_def or_panic_def bind_def)
    ultimately show thesis by (intro panic)
  qed
  show thesis
  proof (rule destroy_faults [OF assms(1) guarded_held [OF session_D(2) [OF assms(2,3)]] free])
    fix u assume u: "destroy E (Some b) s = (Ret None, u)" "touches {b} s u" "gone s u b"
    let ?t = "u\<lparr>blist := remove1 b (blist u)\<rparr>"
    have "Destroy E b s = (Ret (), ?t)"
      using u touches_D(1) [OF u(2)] free by (simp add: Destroy_def or_panic_def bind_def list_remove_run remove_first_eq)
    moreover have "keep s ?t c" if "c \<in> set (remove1 b (blist s))" for c
    proof -
      have c: "c \<in> set (blist s)" "c \<noteq> b" using that session_D(5) [OF assms(2)] by (auto simp: set_remove1_eq)
      show ?thesis using touches_keep [OF u(2) c(2) session_D(6) [OF assms(2) c(1) assms(3) c(2)]] by (simp add: keep_def)
    qed
    ultimately show thesis
      using u(3) touches_D(2) [OF u(2)] by (intro that(1) [of ?t]) (auto simp: gone_def)
  next
    fix e k assume "destroy E (Some b) s = (Ret (Some e), s\<lparr>mcalls := k\<rparr>)"
    then show thesis by (rule fail [of _ _ k]) simp
  next
    fix e u assume "destroy E (Some b) s = (Ret (Some e), u)" "touches {b} s u" "wiped s u b"
      "bufs u b = (bufs s b)\<lparr>mutable := True\<rparr>" "held E u b"
    then show thesis by (intro fail [of e u 0]) simp_all
  qed
qed

end
