(* ===== verification/Exiting.thy ===== *)
theory Exiting
  imports Faults
begin

text \<open>
  \<^verbatim>\<open>Exit\<close> of \<^verbatim>\<open>core/exit.go\<close> in every session: the key may be in use or destroyed, and canaries may be damaged. The process
  leaves with the code when every canary is intact, and panics otherwise; in both cases no buffer keeps its data.
\<close>

subsection \<open>Facts: Exit when canaries may be damaged\<close>

text \<open>
  A state \<open>u\<close> in the course of ending the session \<open>s\<close>: a buffer is still listed, with its memory and its canary, or its
  canary was intact and it is destroyed.
\<close>

definition ending :: "env \<Rightarrow> world \<Rightarrow> world \<Rightarrow> bool" where
  "ending E s u \<longleftrightarrow> locks_free u \<and> live E u (blist u) \<and> set (blist u) \<subseteq> set (blist s) \<and>
     (\<forall>b \<in> set (blist u). data (bufs u b) = data (bufs s b) \<and> buf_base (bufs u b) = buf_base (bufs s b) \<and>
        canary_ok u b = canary_ok s b) \<and>
     (\<forall>b \<in> set (blist s) - set (blist u). canary_ok s b \<and> bufs u b = zero_Buffer \<and> regs (mem u) (buf_base (bufs s b)) = no_region)"

text \<open>What is left of the buffers of \<open>s\<close> in the end.\<close>

definition ended :: "world \<Rightarrow> world \<Rightarrow> bool" where
  "ended s t \<longleftrightarrow> blist t = [] \<and> (\<forall>b \<in> set (blist s).
     if canary_ok s b then bufs t b = zero_Buffer \<and> regs (mem t) (buf_base (bufs s b)) = no_region
     else contents (mem t) (data (bufs s b)) = replicate (slen (data (bufs s b))) 0)"

lemma ending_start: "session E s \<Longrightarrow> ending E s s"
  using session_D [of E s] by (simp add: ending_def)

lemma ending_D:
  assumes "ending E s u"
  shows "locks_free u" and "live E u (blist u)" and "distinct (blist u)"
    and "b \<in> set (blist u) \<Longrightarrow> alive (bufs u b) \<and> mapped E u b \<and> b \<in> set (blist s) \<and> data (bufs u b) = data (bufs s b) \<and>
      buf_base (bufs u b) = buf_base (bufs s b) \<and> canary_ok u b = canary_ok s b"
    and "b \<in> set (blist u) \<Longrightarrow> c \<in> set (blist u) \<Longrightarrow> b \<noteq> c \<Longrightarrow> buf_base (bufs u b) \<noteq> buf_base (bufs u c)"
  using assms by (auto simp: ending_def live_def distinct_map inj_on_def)

text \<open>Wiping the data does not touch the canary.\<close>

lemma apart_canary:
  assumes "mapped E s b"
  shows "canary_ok (broken_state b s) b = canary_ok s b"
proof -
  have lo: "laid_out E (bufs s b)" using assms by (simp add: mapped_def)
  have same: "contents (mem (broken_state b s)) sl = contents (mem s) sl" if "apart (data (bufs s b)) sl" for sl
    using that mapped_open(2) [OF assms] by (simp add: broken_state_def contents_put_apart writable_fits)
  have "bufs (broken_state b s) b = (bufs s b)\<lparr>mutable := True\<rparr>" by (simp add: broken_state_def)
  then show ?thesis using apart_guards [OF lo] by (simp add: canary_ok_def Let_def same)
qed

text \<open>One buffer is destroyed, or found damaged.\<close>

lemma ending_one:
  assumes "ending E s u" and "session E s" and "b \<in> set (blist u)"
  shows "canary_ok s b \<Longrightarrow> ending E s (removed_state b u)" and "\<not> canary_ok s b \<Longrightarrow> ending E s (broken_state b u)"
proof -
  note D = ending_D [OF assms(1)] and B = ending_D(4) [OF assms(1,3)]
  let ?v = "purge_one b u"
  have m: "mapped E u b" using B by simp
  have other: "bufs ?v c = bufs u c \<and> mapped E ?v c \<and> canary_ok ?v c = canary_ok u c" if "c \<in> set (blist u)" "c \<noteq> b" for c
    using purge_one_other(1) [OF m that(2)] purge_one_keeps(1,2) [OF m that(2)] D(4) [OF that(1)] D(5) [OF that(1) assms(3) that(2)] by simp
  have old: "canary_ok s c \<and> bufs ?v c = zero_Buffer \<and> regs (mem ?v) (buf_base (bufs s c)) = no_region" if c: "c \<in> set (blist s)" "c \<notin> set (blist u)" for c
  proof -
    have ne: "c \<noteq> b" and z: "canary_ok s c" "bufs u c = zero_Buffer" "regs (mem u) (buf_base (bufs s c)) = no_region"
      using c assms(1,3) by (auto simp: ending_def)
    have "buf_base (bufs s c) \<noteq> buf_base (bufs u b)" using session_D(6) [OF assms(2) c(1) _ ne] B by simp
    then show ?thesis using z purge_one_other(1) [OF m ne] purge_one_other(2) [OF m ne] by simp
  qed
  have bases: "distinct (map (\<lambda>c. buf_base (bufs s c)) bs)" if "distinct bs" "set bs \<subseteq> set (blist u)" for bs
    using that session_D(6) [OF assms(2)] D(4) unfolding distinct_map inj_on_def by blast
  show "ending E s (removed_state b u)" if ok: "canary_ok s b"
  proof -
    have v: "?v = destroyed_state b u" using ok B by (simp add: purge_one_def)
    have "removed_state b u = ?v\<lparr>blist := remove1 b (blist u)\<rparr>" by (simp add: removed_state_def v)
    moreover have set: "set (remove1 b (blist u)) = set (blist u) - {b}" using D(3) by (rule set_remove1_eq)
    moreover have "map (\<lambda>c. buf_base (bufs ?v c)) (remove1 b (blist u)) = map (\<lambda>c. buf_base (bufs s c)) (remove1 b (blist u))"
      using other D(4) set by (intro map_cong) auto
    moreover have "bufs ?v b = zero_Buffer" "regs (mem ?v) (buf_base (bufs s b)) = no_region"
      using B by (simp_all add: v destroyed_state_def)
    ultimately show ?thesis
      using other old D bases [of "remove1 b (blist u)"] ok B
      by (auto simp: ending_def live_def locks_free_def simp del: map_eq_conv distinct_map)
  qed
  show "ending E s (broken_state b u)" if bad: "\<not> canary_ok s b"
  proof -
    have v: "?v = broken_state b u" using bad B by (simp add: purge_one_def)
    have self: "bufs ?v b = (bufs u b)\<lparr>mutable := True\<rparr>" by (simp add: v broken_state_def)
    have mb: "mapped E ?v b" using broken_touches(6) [OF m] by (simp add: v)
    have cb: "canary_ok ?v b = canary_ok u b" using apart_canary [OF m] by (simp add: v)
    have all: "alive (bufs ?v c) \<and> mapped E ?v c \<and> data (bufs ?v c) = data (bufs s c) \<and> buf_base (bufs ?v c) = buf_base (bufs s c) \<and>
        canary_ok ?v c = canary_ok s c" if "c \<in> set (blist u)" for c
      using other [OF that] D(4) [OF that] self mb cb by (cases "c = b") (simp_all add: buf_base_def)
    then have "map (\<lambda>c. buf_base (bufs ?v c)) (blist u) = map (\<lambda>c. buf_base (bufs s c)) (blist u)" by simp
    then show ?thesis
      unfolding v [symmetric] using all old D(1,4) bases [OF D(3)]
      by (auto simp: ending_def live_def locks_free_def simp del: map_eq_conv distinct_map)
  qed
qed

lemma destroy_one:
  assumes "memcall_ok E" and "memcall_works E" and "ending E s u" and "b \<in> set (blist u)"
  shows "destroy E (Some b) u =
    (if canary_ok s b then (Ret None, destroyed_state b u) else (Ret (Some canaryErr), broken_state b u))"
  using destroy_run [OF assms(1,2), of u b] ending_D(4) [OF assms(3,4)] locks_free_D [OF ending_D(1) [OF assms(3)]] by simp

text \<open>A part of a key: a listed buffer, or one that was destroyed.\<close>

definition tied :: "world \<Rightarrow> nat option \<Rightarrow> bool" where
  "tied s p \<longleftrightarrow> (\<forall>b. p = Some b \<longrightarrow> b \<in> set (blist s) \<or> bufs s b = zero_Buffer)"

lemma destroy_part_ending:
  assumes "memcall_ok E" and "memcall_works E" and "session E s" and "ending E s u" and "tied u p"
  obtains e v where "destroy_part E p u = (Ret e, v)" and "ending E s v" and "\<And>q. tied u q \<Longrightarrow> tied v q"
proof (cases "\<exists>b. p = Some b \<and> b \<in> set (blist u)")
  case False
  then have "destroy_part E p u = (Ret None, u)"
    using assms(5) by (intro destroy_part_gone ending_D(1) [OF assms(4)]) (auto simp: tied_def zero_Buffer_def)
  then show ?thesis using assms(4) that by blast
next
  case True
  then obtain b where b: "p = Some b" "b \<in> set (blist u)" by blast
  note d = destroy_one [OF assms(1,2,4) b(2)] and one = ending_one [OF assms(4,3) b(2)]
  have free: "locks u l = Unlocked" for l by (rule locks_free_D [OF ending_D(1) [OF assms(4)]])
  show ?thesis
  proof (cases "canary_ok s b")
    case True
    have "list_remove (Some b) (destroyed_state b u) = (Ret (), removed_state b u)"
      using free by (simp add: list_remove_run destroyed_state_def removed_state_def remove_first_eq)
    then have "destroy_part E p u = (Ret None, removed_state b u)"
      using d True b(1) by (simp add: destroy_part_def bind_def exec)
    moreover have "tied (removed_state b u) q" if "tied u q" for q
      using that set_remove1_eq [OF ending_D(3) [OF assms(4)]] by (auto simp: tied_def removed_state_def destroyed_state_def)
    ultimately show ?thesis using one(1) [OF True] that by blast
  next
    case False
    then have "destroy_part E p u = (Ret (Some canaryErr), broken_state b u)"
      using d b(1) by (simp add: destroy_part_def bind_def exec)
    moreover have "tied (broken_state b u) q" if "tied u q" for q
      using that b(2) by (auto simp: tied_def broken_state_def)
    ultimately show ?thesis using one(2) [OF False] that by blast
  qed
qed

lemma Coffer_Destroy_ending:
  assumes "memcall_ok E" and "memcall_works E" and "session E s" and "\<forall>p \<in> {left (coffers s c), right (coffers s c), rand (coffers s c)}. tied s p"
  obtains e u where "Coffer_Destroy E c s = (Ret e, u)" and "ending E s u"
proof -
  let ?C = "coffers s c"
  have p: "tied s (left ?C)" "tied s (right ?C)" "tied s (rand ?C)" using assms(4) by simp_all
  obtain e1 u1 where u1: "destroy_part E (left ?C) s = (Ret e1, u1)" "ending E s u1" "\<And>q. tied s q \<Longrightarrow> tied u1 q"
    by (rule destroy_part_ending [OF assms(1-3) ending_start [OF assms(3)] p(1)]) (rule that)
  obtain e2 u2 where u2: "destroy_part E (right ?C) u1 = (Ret e2, u2)" "ending E s u2" "\<And>q. tied u1 q \<Longrightarrow> tied u2 q"
    by (rule destroy_part_ending [OF assms(1-3) u1(2) u1(3) [OF p(2)]]) (rule that)
  obtain e3 u3 where u3: "destroy_part E (rand ?C) u2 = (Ret e3, u3)" "ending E s u3"
    by (rule destroy_part_ending [OF assms(1-3) u2(2) u2(3) [OF u1(3) [OF p(3)]]]) (rule that)
  let ?r = "if err_lines [e1, e2, e3] = '''' then None else Some (ErrText (err_lines [e1, e2, e3]))"
  have "Coffer_Destroy E c s = (Ret ?r, u3)"
    unfolding Coffer_Destroy_def
  proof (rule with_lock_free)
    show "oblivious (CofLock c) (bind (gets (\<lambda>s. coffers s c)) (\<lambda>C.
      bind (destroy_part E (left C)) (\<lambda>err1. bind (destroy_part E (right C)) (\<lambda>err2.
      bind (destroy_part E (rand C)) (\<lambda>err3. let errS = err_lines [err1, err2, err3] in
      if errS = '''' then ret None else ret (Some (ErrText errS)))))))"
      unfolding Let_def by (intro obliviousI) simp_all
    show "locks s (CofLock c) = Unlocked" by (rule locks_free_D [OF session_D(1) [OF assms(3)]])
  qed (use u1(1) u2(1) u3(1) in \<open>simp add: bind_def exec Let_def\<close>)
  then show ?thesis using u3(2) by (rule that)
qed

text \<open>A damaged canary is found: the purge that follows treats what is still listed.\<close>

lemma purge_ending:
  assumes "memcall_ok E" and "memcall_works E" and "session E s" and "ending E s u" and "b \<in> set (blist u)" and "\<not> canary_ok s b"
  obtains e t where "(Panic E v :: 'a go) u = (Panicked (PErr e), t)" and "ended s t"
proof -
  note D = ending_D [OF assms(4)]
  have "\<not> (\<forall>c \<in> set (blist u). canary_ok u c)" using assms(5,6) D(4) [OF assms(5)] by blast
  then obtain e where e: "purge_err (blist u) u None = Some e" using purge_err_eq_None [of "blist u" u] by (cases "purge_err (blist u) u None") auto
  then have run: "(Panic E v :: 'a go) u = (Panicked (PErr e), purged u)"
    using Purge_run [OF assms(1,2) D(2,1)] by (simp add: Panic_def bind_def)
  have live: "live E (u\<lparr>blist := []\<rparr>) (blist u)" using D(2) by (simp add: live_def)
  have "if canary_ok s c then bufs (purged u) c = zero_Buffer \<and> regs (mem (purged u)) (buf_base (bufs s c)) = no_region
     else contents (mem (purged u)) (data (bufs s c)) = replicate (slen (data (bufs s c))) 0" if c: "c \<in> set (blist s)" for c
  proof (cases "c \<in> set (blist u)")
    case True
    show ?thesis using fold_purge_listed [OF live True, folded purged_def] D(4) [OF True] by (auto split: if_splits)
  next
    case False
    then have z: "canary_ok s c" "bufs u c = zero_Buffer" "regs (mem u) (buf_base (bufs s c)) = no_region"
      using assms(4) c by (auto simp: ending_def)
    have "buf_base (bufs s c) \<noteq> buf_base (bufs u d)" if "d \<in> set (blist u)" for d
      using session_D(6) [OF assms(3) c, of d] D(4) [OF that] False that by auto
    then show ?thesis using fold_purge_other [OF live False, of "buf_base (bufs s c)", folded purged_def] z by simp
  qed
  then have "ended s (purged u)" by (simp add: ended_def)
  with run show ?thesis by (rule that)
qed

lemma destroy_loop_ending:
  assumes "memcall_ok E" and "memcall_works E" and "session E s" and "ending E s u" and "distinct bs" and "set bs = set (blist u)"
  shows "\<exists>r t. for_each bs (Destroy E) u = (r, t) \<and> ended s t \<and> (if clean s then r = Ret () else \<exists>e. r = Panicked (PErr e))"
  using assms(4-6)
proof (induction bs arbitrary: u)
  case Nil
  then have "blist u = []" by simp
  then have "ended s u" "clean s" using Nil.prems(1) by (auto simp: ending_def ended_def clean_def)
  then show ?case by (simp add: exec)
next
  case (Cons b bs)
  have b: "b \<in> set (blist u)" using Cons.prems(3) by auto
  note d = destroy_one [OF assms(1,2) Cons.prems(1) b] and one = ending_one [OF Cons.prems(1) assms(3) b]
  have free: "locks u l = Unlocked" for l by (rule locks_free_D [OF ending_D(1) [OF Cons.prems(1)]])
  show ?case
  proof (cases "canary_ok s b")
    case True
    have "list_remove (Some b) (destroyed_state b u) = (Ret (), removed_state b u)"
      using free by (simp add: list_remove_run destroyed_state_def removed_state_def remove_first_eq)
    then have run: "Destroy E b u = (Ret (), removed_state b u)" using d True by (simp add: Destroy_def or_panic_def bind_def exec)
    have "set bs = set (blist (removed_state b u))"
      using Cons.prems(2,3) set_remove1_eq [OF ending_D(3) [OF Cons.prems(1)]] by auto
    then show ?thesis
      using Cons.IH [OF one(1) [OF True]] Cons.prems(2) run by (auto simp: bind_def)
  next
    case False
    have w: "b \<in> set (blist (broken_state b u))" using b by (simp add: broken_state_def)
    obtain e t where t: "(Panic E (PErr canaryErr) :: unit go) (broken_state b u) = (Panicked (PErr e), t)" "ended s t"
      by (rule purge_ending [OF assms(1-3) one(2) [OF False] w False]) (rule that)
    then have "for_each (b # bs) (Destroy E) u = (Panicked (PErr e), t)"
      using d False by (simp add: Destroy_def or_panic_def bind_def)
    moreover have "\<not> clean s" using False ending_D(4) [OF Cons.prems(1) b] by (auto simp: clean_def)
    ultimately show ?thesis using t(2) by auto
  qed
qed

text \<open>\<^verbatim>\<open>Exit\<close> leaves the process, or panics because of a damaged canary.\<close>

lemma Exit_ends:
  assumes "env_works E" and "session E s" and "\<forall>b \<in> refs s (key s). b \<in> set (blist s) \<or> bufs s b = zero_Buffer"
  obtains r t where "Exit E c s = (r, t)" and "ended s t" and "if clean s then r = Exited c else \<exists>e. r = Panicked (PErr e)"
proof -
  note ok = env_works_D [OF assms(1)]
  have p: "\<forall>p \<in> {left (coffers s (key s)), right (coffers s (key s)), rand (coffers s (key s))}. tied s p"
    using assms(3) by (auto simp: refs_def tied_def)
  obtain e u where u: "Coffer_Destroy E (key s) s = (Ret e, u)" "ending E s u"
    by (rule Coffer_Destroy_ending [OF ok(1,2) assms(2) p]) (rule that)
  note D = ending_D [OF u(2)]
  have pre: "Exit E c s = run_then (for_each (blist u) (Destroy E) u) (\<lambda>_. os_Exit c)"
    using getKey_run [OF session_D(1) [OF assms(2)]] u(1) list_copy_run [OF D(1)] by (simp add: Exit_def bind_def)
  obtain r t where "for_each (blist u) (Destroy E) u = (r, t)" "ended s t" "if clean s then r = Ret () else \<exists>e. r = Panicked (PErr e)"
    using destroy_loop_ending [OF ok(1,2) assms(2) u(2) D(3) refl] by blast
  then show ?thesis using pre that by (cases "clean s") (auto simp: os_Exit_def)
qed

lemma keyed_refs: "coffer_ok s (key s) \<Longrightarrow> b \<in> refs s (key s) \<Longrightarrow> b \<in> set (blist s)"
  by (elim coffer_ok_D) (auto simp: refs_def)

end
