(* ===== verification/Signals.thy ===== *)
theory Signals
  imports Locked_Buffer Exiting
begin

text \<open>
  \<^verbatim>\<open>signals.go\<close> as a state machine: the callers of \<^verbatim>\<open>CatchSignal\<close>, the goroutine that waits for handlers and signals, the
  two channels between them, and the runtime that delivers signals, in any interleaving. A send blocks while its channel is
  full, so it is a partial step. A handler is a computation of the process, a \<^verbatim>\<open>nil\<close> function is \<open>None\<close>. The handler and
  \<^verbatim>\<open>core.Exit\<close> run in one step; signals that are not registered have their default action and are not modelled.
\<close>

subsection \<open>State\<close>

type_synonym os_signal = string
type_synonym sig_handler = "(os_signal \<Rightarrow> unit go) option"

text \<open>Where a call of \<^verbatim>\<open>CatchSignal\<close> is.\<close>

datatype phase =
    Returned
  | Sending sig_handler "os_signal list"
  | Resetting "os_signal list"
  | Notifying "os_signal list"

text \<open>
  The package variables \<^verbatim>\<open>create\<close>, \<^verbatim>\<open>sigfunc\<close> and \<^verbatim>\<open>listener\<close>; the local variable \<^verbatim>\<open>handler\<close> of the goroutine and how the
  goroutine ended; the signals the runtime relays, where an empty list means all of them; the callers; the process.
\<close>

record signals =
  created :: bool
  sigfunc :: "sig_handler list"
  listener :: "os_signal list"
  handler :: sig_handler
  loop_end :: "unit outcome option"
  notified :: "os_signal list option"
  calls :: "nat \<Rightarrow> phase"
  sworld :: world

definition sig_init :: signals where
  "sig_init = \<lparr>created = False, sigfunc = [], listener = [], handler = None, loop_end = None, notified = None,
     calls = (\<lambda>_. Returned), sworld = init_world\<rparr>"

subsection \<open>CatchSignal\<close>

text \<open>\<^verbatim>\<open>create.Do(...)\<close>: the first call starts the goroutine.\<close>

definition CatchSignal_create :: "nat \<Rightarrow> sig_handler \<Rightarrow> os_signal list \<Rightarrow> signals \<Rightarrow> signals" where
  "CatchSignal_create i f sigs c = c\<lparr>created := True, calls := (calls c)(i := Sending f sigs)\<rparr>"

text \<open>\<^verbatim>\<open>sigfunc <- f\<close> on a channel of capacity one.\<close>

definition CatchSignal_send :: "nat \<Rightarrow> signals \<Rightarrow> signals option" where
  "CatchSignal_send i c =
     (case calls c i of
        Sending f sigs \<Rightarrow>
          if length (sigfunc c) < 1 then Some (c\<lparr>sigfunc := sigfunc c @ [f], calls := (calls c)(i := Resetting sigs)\<rparr>) else None
      | _ \<Rightarrow> None)"

text \<open>\<^verbatim>\<open>signal.Reset()\<close> and \<^verbatim>\<open>signal.Notify(listener, signals...)\<close>; another caller may come in between.\<close>

definition CatchSignal_reset :: "nat \<Rightarrow> signals \<Rightarrow> signals option" where
  "CatchSignal_reset i c =
     (case calls c i of
        Resetting sigs \<Rightarrow> Some (c\<lparr>notified := None, calls := (calls c)(i := Notifying sigs)\<rparr>)
      | _ \<Rightarrow> None)"

definition CatchSignal_notify :: "nat \<Rightarrow> signals \<Rightarrow> signals option" where
  "CatchSignal_notify i c =
     (case calls c i of
        Notifying sigs \<Rightarrow>
          Some (c\<lparr>notified := Some (case notified c of None \<Rightarrow> sigs | Some gs \<Rightarrow> if gs = [] \<or> sigs = [] then [] else gs @ sigs),
                  calls := (calls c)(i := Returned)\<rparr>)
      | _ \<Rightarrow> None)"

text \<open>\<^verbatim>\<open>CatchInterrupt\<close>: a handler that does nothing, for \<^verbatim>\<open>os.Interrupt\<close>.\<close>

definition CatchInterrupt_create :: "nat \<Rightarrow> signals \<Rightarrow> signals" where
  "CatchInterrupt_create i c = CatchSignal_create i (Some (\<lambda>_. ret ())) [''interrupt''] c"

subsection \<open>The goroutine and the runtime\<close>

text \<open>\<^verbatim>\<open>case signal := <-listener: handler(signal); core.Exit(1)\<close>\<close>

definition nil_call :: panicval where
  "nil_call = PRuntime ''invalid memory address or nil pointer dereference''"

definition handle_signal :: "env \<Rightarrow> signals \<Rightarrow> signals option" where
  "handle_signal E c =
     (case listener c of
        [] \<Rightarrow> None
      | g # gs \<Rightarrow>
          (case bind (case handler c of None \<Rightarrow> go_panic nil_call | Some f \<Rightarrow> f g) (\<lambda>_. Exit E 1) (sworld c) of
             (r, t) \<Rightarrow> Some (c\<lparr>listener := gs, sworld := t, loop_end := (case r of Ret _ \<Rightarrow> None | _ \<Rightarrow> Some r)\<rparr>)))"

text \<open>\<^verbatim>\<open>case handler = <-sigfunc\<close>\<close>

definition update_handler :: "signals \<Rightarrow> signals option" where
  "update_handler c = (case sigfunc c of [] \<Rightarrow> None | f # fs \<Rightarrow> Some (c\<lparr>handler := f, sigfunc := fs\<rparr>))"

text \<open>The runtime relays a registered signal without blocking: it is dropped when the channel is full.\<close>

definition deliver :: "os_signal \<Rightarrow> signals \<Rightarrow> signals option" where
  "deliver g c =
     (case notified c of
        None \<Rightarrow> None
      | Some gs \<Rightarrow>
          if gs = [] \<or> g \<in> set gs then Some (if length (listener c) < 4 then c\<lparr>listener := listener c @ [g]\<rparr> else c)
          else None)"

subsection \<open>Runs\<close>

text \<open>
  \<open>sig_run E fs c\<close>: \<open>c\<close> is reached from the start of the process by calls of \<^verbatim>\<open>CatchSignal\<close>, signals, and the other steps of
  the program, and \<open>fs\<close> are the handlers that were sent, in order. Nothing runs after the process has ended; a goroutine that
  blocks for ever does not end it.
\<close>

definition running :: "signals \<Rightarrow> bool" where
  "running c \<longleftrightarrow> loop_end c = None \<or> loop_end c = Some Blocked"

inductive sig_run :: "env \<Rightarrow> sig_handler list \<Rightarrow> signals \<Rightarrow> bool" for E where
  init: "sig_run E [] sig_init"
| create: "sig_run E fs c \<Longrightarrow> running c \<Longrightarrow> calls c i = Returned \<Longrightarrow> sig_run E fs (CatchSignal_create i f sigs c)"
| send: "sig_run E fs c \<Longrightarrow> running c \<Longrightarrow> calls c i = Sending f sigs \<Longrightarrow> CatchSignal_send i c = Some d \<Longrightarrow> sig_run E (fs @ [f]) d"
| reset: "sig_run E fs c \<Longrightarrow> running c \<Longrightarrow> CatchSignal_reset i c = Some d \<Longrightarrow> sig_run E fs d"
| notify: "sig_run E fs c \<Longrightarrow> running c \<Longrightarrow> CatchSignal_notify i c = Some d \<Longrightarrow> sig_run E fs d"
| update: "sig_run E fs c \<Longrightarrow> loop_end c = None \<Longrightarrow> created c \<Longrightarrow> update_handler c = Some d \<Longrightarrow> sig_run E fs d"
| handle: "sig_run E fs c \<Longrightarrow> loop_end c = None \<Longrightarrow> created c \<Longrightarrow> handle_signal E c = Some d \<Longrightarrow> sig_run E fs d"
| signal: "sig_run E fs c \<Longrightarrow> running c \<Longrightarrow> deliver g c = Some d \<Longrightarrow> sig_run E fs d"
| program: "sig_run E fs c \<Longrightarrow> running c \<Longrightarrow> step E (sworld c) t \<Longrightarrow> sig_run E fs (c\<lparr>sworld := t\<rparr>)"

text \<open>The invariant of the channels.\<close>

definition latest :: "sig_handler list \<Rightarrow> sig_handler" where
  "latest got = (if got = [] then None else last got)"

fun waiting :: "phase \<Rightarrow> bool" where
  "waiting (Resetting sigs) = True"
| "waiting (Notifying sigs) = True"
| "waiting p = False"

definition sig_ok :: "sig_handler list \<Rightarrow> signals \<Rightarrow> bool" where
  "sig_ok fs c \<longleftrightarrow> (\<exists>got. fs = got @ sigfunc c \<and> handler c = latest got) \<and> length (sigfunc c) \<le> 1 \<and> length (listener c) \<le> 4 \<and>
     (listener c \<noteq> [] \<or> notified c \<noteq> None \<or> (\<exists>i. waiting (calls c i)) \<longrightarrow> fs \<noteq> [])"

lemma sig_ok_same:
  assumes "sig_ok fs c" and "sigfunc d = sigfunc c" and "handler d = handler c" and "length (listener d) \<le> 4" and "fs \<noteq> []"
  shows "sig_ok fs d"
  using assms by (simp add: sig_ok_def)

lemma sig_ok_step:
  assumes "sig_ok fs c"
  shows "sig_ok fs (CatchSignal_create i f sigs c)"
    and "calls c i = Sending f sigs \<Longrightarrow> CatchSignal_send i c = Some d \<Longrightarrow> sig_ok (fs @ [f]) d"
    and "CatchSignal_reset i c = Some d \<Longrightarrow> sig_ok fs d" and "CatchSignal_notify i c = Some d \<Longrightarrow> sig_ok fs d"
    and "update_handler c = Some d \<Longrightarrow> sig_ok fs d" and "handle_signal E c = Some d \<Longrightarrow> sig_ok fs d"
    and "deliver g c = Some d \<Longrightarrow> sig_ok fs d" and "sig_ok fs (c\<lparr>sworld := t\<rparr>)"
proof -
  have sent: "fs \<noteq> []" if "listener c \<noteq> [] \<or> notified c \<noteq> None \<or> waiting (calls c i)" for i
    using assms that unfolding sig_ok_def by blast
  have len: "length (listener c) \<le> 4" using assms by (simp add: sig_ok_def)
  show "sig_ok fs (CatchSignal_create i f sigs c)"
    using assms by (simp add: sig_ok_def CatchSignal_create_def) auto
  show "sig_ok (fs @ [f]) d" if "calls c i = Sending f sigs" "CatchSignal_send i c = Some d"
    using assms that by (auto simp: sig_ok_def CatchSignal_send_def split: if_splits)
  show "sig_ok fs d" if d: "CatchSignal_reset i c = Some d"
  proof -
    obtain sigs where "calls c i = Resetting sigs" using d by (auto simp: CatchSignal_reset_def split: phase.splits)
    then show ?thesis using d len sent [of i] by (intro sig_ok_same [OF assms]) (auto simp: CatchSignal_reset_def)
  qed
  show "sig_ok fs d" if d: "CatchSignal_notify i c = Some d"
  proof -
    obtain sigs where "calls c i = Notifying sigs" using d by (auto simp: CatchSignal_notify_def split: phase.splits)
    then show ?thesis using d len sent [of i] by (intro sig_ok_same [OF assms]) (auto simp: CatchSignal_notify_def)
  qed
  show "sig_ok fs d" if d: "update_handler c = Some d"
  proof -
    obtain f rest where q: "sigfunc c = f # rest" "d = c\<lparr>handler := f, sigfunc := rest\<rparr>"
      using d by (auto simp: update_handler_def split: list.splits)
    obtain got where "fs = got @ sigfunc c" using assms unfolding sig_ok_def by blast
    then have "fs = (got @ [f]) @ rest" using q(1) by simp
    moreover have "length rest \<le> 1" using assms q(1) by (simp add: sig_ok_def)
    ultimately show ?thesis
      unfolding sig_ok_def q(2) using len by (intro conjI exI [of _ "got @ [f]"]) (simp_all add: latest_def)
  qed
  show "sig_ok fs d" if "handle_signal E c = Some d"
    using that len sent by (intro sig_ok_same [OF assms]) (auto simp: handle_signal_def split: list.splits prod.splits)
  show "sig_ok fs d" if "deliver g c = Some d"
    using that len sent by (intro sig_ok_same [OF assms]) (auto simp: deliver_def split: option.splits if_splits)
  show "sig_ok fs (c\<lparr>sworld := t\<rparr>)" using assms by (simp add: sig_ok_def)
qed

lemma sig_run_ok:
  assumes "sig_run E fs c"
  shows "sig_ok fs c"
  using assms
proof induction
  case init
  then show ?case by (simp add: sig_ok_def sig_init_def latest_def)
qed (auto dest: sig_ok_step)

subsection \<open>Facts: a signal\<close>

lemma handle_signal_run:
  assumes "listener c = g # gs" and "handler c = Some f" and "f g (sworld c) = (Ret (), s)"
    and "env_works E" and "session E s" and "\<forall>b \<in> refs s (key s). b \<in> set (blist s) \<or> bufs s b = zero_Buffer"
  obtains d where "handle_signal E c = Some d" and "ended s (sworld d)"
    and "if clean s then loop_end d = Some (Exited 1) else \<exists>e. loop_end d = Some (Panicked (PErr e))"
proof -
  obtain r t where t: "Exit E 1 s = (r, t)" "ended s t" "if clean s then r = Exited 1 else \<exists>e. r = Panicked (PErr e)"
    by (rule Exit_ends [OF assms(4-6)]) (rule that)
  have "handle_signal E c = Some (c\<lparr>listener := gs, sworld := t, loop_end := Some r\<rparr>)"
    using t assms(1-3) by (auto simp: handle_signal_def bind_def split: if_splits)
  then show ?thesis by (rule that) (use t in \<open>simp_all split: if_splits\<close>)
qed

text \<open>The state in which a signal has come before the goroutine has received its first handler.\<close>

definition early :: "sig_handler \<Rightarrow> os_signal \<Rightarrow> world \<Rightarrow> signals" where
  "early f g w = \<lparr>created = True, sigfunc = [f], listener = [g], handler = None, loop_end = None, notified = Some [g],
     calls = (\<lambda>_. Returned), sworld = w\<rparr>"

lemma program_run: "reachable E w \<Longrightarrow> sig_run E [] (sig_init\<lparr>sworld := w\<rparr>)"
proof (induction rule: reachable.induct)
  case start
  have "sig_init\<lparr>sworld := init_world\<rparr> = sig_init" by (simp add: sig_init_def)
  then show ?case using sig_run.init by simp
next
  case (step s t)
  then show ?case using sig_run.program [OF step.IH] by (simp add: running_def sig_init_def)
qed

lemma early_run:
  assumes "reachable E w"
  shows "sig_run E [f] (early f g w)"
proof -
  let ?c = "sig_init\<lparr>sworld := w\<rparr>"
  let ?c1 = "CatchSignal_create 0 f [g] ?c"
  let ?c2 = "the (CatchSignal_send 0 ?c1)"
  let ?c3 = "the (CatchSignal_reset 0 ?c2)"
  let ?c4 = "the (CatchSignal_notify 0 ?c3)"
  note defs = CatchSignal_create_def CatchSignal_send_def CatchSignal_reset_def CatchSignal_notify_def sig_init_def running_def
  have 1: "sig_run E [] ?c1" by (rule sig_run.create [OF program_run [OF assms]]) (simp_all add: defs)
  have 2: "sig_run E ([] @ [f]) ?c2" by (rule sig_run.send [OF 1, of 0 f "[g]"]) (simp_all add: defs)
  have 3: "sig_run E ([] @ [f]) ?c3" by (rule sig_run.reset [OF 2, of 0]) (simp_all add: defs)
  have 4: "sig_run E ([] @ [f]) ?c4" by (rule sig_run.notify [OF 3, of 0]) (simp_all add: defs)
  have "(calls ?c)(0 := Returned) = calls ?c" by (simp add: sig_init_def fun_eq_iff)
  then have "deliver g ?c4 = Some (early f g w)" by (simp add: defs deliver_def early_def)
  then have "sig_run E ([] @ [f]) (early f g w)" by (intro sig_run.signal [OF 4]) (simp_all add: defs)
  then show ?thesis by simp
qed

end
