(* ===== verification/Signal_Props.thy ===== *)
theory Signal_Props
  imports Signals Buffer_Props
begin

text \<open>The properties of the signal handler, each followed by its instance at a concrete state.\<close>

text \<open>
  C22. A signal ends the process with a clean session: when the goroutine takes a signal in a session and the handler that is
  installed returns, the process exits with code 1, whether a key is in use or not, and every buffer is unmapped and reset. If
  the canary of some buffer is damaged, the process panics instead; the buffers with intact canaries are
  unmapped and reset all the same, and the data of the others is wiped. The calls of the operating system are assumed to succeed,
  and the parts of the key are listed buffers or were destroyed.
\<close>

theorem signal_wipes:
  assumes "listener c = g # gs" and "handler c = Some f" and "f g (sworld c) = (Ret (), s)"
    and "env_works E" and "session E s" and "\<forall>b \<in> refs s (key s). b \<in> set (blist s) \<or> bufs s b = zero_Buffer"
  shows "\<exists>d. handle_signal E c = Some d \<and> blist (sworld d) = [] \<and>
     (if clean s then loop_end d = Some (Exited 1) else \<exists>e. loop_end d = Some (Panicked (PErr e))) \<and>
     (\<forall>b \<in> set (blist s).
        if canary_ok s b then bufs (sworld d) b = zero_Buffer \<and> regs (mem (sworld d)) (buf_base (bufs s b)) = no_region
        else contents (mem (sworld d)) (data (bufs s b)) = replicate (slen (data (bufs s b))) 0)"
  by (rule handle_signal_run [OF assms]) (unfold ended_def, blast)

theorem signal_wipes_witness:
  "(\<exists>d. handle_signal simE ((early None ''interrupt'' w_key)\<lparr>handler := Some (\<lambda>_. ret ())\<rparr>) = Some d \<and> loop_end d = Some (Exited 1) \<and>
     bufs (sworld d) 0 = zero_Buffer) \<and>
   (\<exists>d e. handle_signal simE ((early None ''interrupt'' w_bad)\<lparr>handler := Some (\<lambda>_. ret ())\<rparr>) = Some d \<and>
     loop_end d = Some (Panicked (PErr e)) \<and> contents (mem (sworld d)) (data (bufs w_bad 0)) = [0, 0, 0, 0, 0])"
proof
  let ?c = "\<lambda>w. (early None ''interrupt'' w)\<lparr>handler := Some (\<lambda>_. ret ())\<rparr>"
  have c: "listener (?c w) = [''interrupt'']" "handler (?c w) = Some (\<lambda>_. ret ())" "(\<lambda>_. ret ()) ''interrupt'' (sworld (?c w)) = (Ret (), w)" for w
    by (simp_all add: early_def exec)
  have "0 \<in> set (blist w_key)" using w_key_facts(6) by (simp add: own_def)
  moreover have "clean w_key" "canary_ok w_key 0" using w_key_facts(4) calculation by (simp_all add: clean_def)
  moreover have "\<forall>b \<in> refs w_key (key w_key). b \<in> set (blist w_key) \<or> bufs w_key b = zero_Buffer" using keyed_refs [OF w_key_facts(5)] by blast
  ultimately show "\<exists>d. handle_signal simE (?c w_key) = Some d \<and> loop_end d = Some (Exited 1) \<and> bufs (sworld d) 0 = zero_Buffer"
    using signal_wipes [OF c simE_works w_key_facts(3)] by auto
  have "refs w_bad (key w_bad) = {}" by (simp add: refs_def w_bad_def w_buf_def newbuf_state_def init_world_def zero_Coffer_def Let_def)
  then show "\<exists>d e. handle_signal simE (?c w_bad) = Some d \<and> loop_end d = Some (Panicked (PErr e)) \<and>
      contents (mem (sworld d)) (data (bufs w_bad 0)) = [0, 0, 0, 0, 0]"
    using signal_wipes [OF c simE_works w_bad_facts(1)] w_bad_facts(3,4,6,7) by (auto simp: eval_nat_numeral)
qed

text \<open>
  C23. Only the last handler counts, once it has arrived: in every reachable state the goroutine has received the handlers that were sent
  except those still in the channel, and has installed the last of them. The channels stay within their capacities, and no
  signal is queued before some handler was sent.
\<close>

theorem last_handler:
  assumes "sig_run E fs c"
  shows "(\<exists>got. fs = got @ sigfunc c \<and> handler c = (if got = [] then None else last got)) \<and> length (sigfunc c) \<le> 1 \<and>
     length (listener c) \<le> 4 \<and> (listener c \<noteq> [] \<longrightarrow> fs \<noteq> [])"
  using sig_run_ok [OF assms] by (simp add: sig_ok_def latest_def)

theorem last_handler_witness:
  "\<exists>c. sig_run simE [Some (\<lambda>_. ret ())] c \<and> sigfunc c = [] \<and> handler c = Some (\<lambda>_. ret ())"
proof -
  let ?e = "early (Some (\<lambda>_. ret ())) ''interrupt'' init_world"
  let ?d = "?e\<lparr>handler := Some (\<lambda>_. ret ()), sigfunc := []\<rparr>"
  have u: "update_handler ?e = Some ?d" by (simp add: update_handler_def early_def)
  have d: "sig_run simE [Some (\<lambda>_. ret ())] ?d" "sigfunc ?d = []"
    using sig_run.update [OF early_run [OF reachable.start] _ _ u] by (simp_all add: early_def)
  then have "handler ?d = Some (\<lambda>_. ret ())" using last_handler [OF d(1)] by auto
  with d show ?thesis by blast
qed

text \<open>
  C24. A signal that arrives right after \<^verbatim>\<open>CatchSignal\<close> has registered it can be taken before the handler: both channels are ready and
  \<^verbatim>\<open>select\<close> may choose the signal. The goroutine then calls a \<^verbatim>\<open>nil\<close> function and the process dies with a panic, with
  every buffer still mapped. Such a state is reachable from every state of the program.
\<close>

theorem early_signal_panics:
  assumes "reachable E w"
  shows "\<exists>c d. sig_run E [f] c \<and> created c \<and> loop_end c = None \<and> sworld c = w \<and> handle_signal E c = Some d \<and>
     loop_end d = Some (Panicked nil_call) \<and> sworld d = w"
  using early_run [OF assms, of f "''interrupt''"]
  by (intro exI [of _ "early f ''interrupt'' w"] exI [of _ "(early f ''interrupt'' w)\<lparr>listener := [], loop_end := Some (Panicked nil_call)\<rparr>"])
    (simp add: early_def handle_signal_def bind_def exec)

theorem early_signal_panics_witness:
  "\<exists>c d. sig_run simE [Some (\<lambda>_. ret ())] c \<and> handle_signal simE c = Some d \<and> loop_end d = Some (Panicked nil_call) \<and>
     guarded simE (sworld d) 0"
proof -
  have "NewBuffer simE (int 5) init_world = (Ret (Inr 0), w_buf)"
    using NewBuffer_run [OF simE_works, of 5 init_world] by (simp add: w_buf_def init_world_def)
  then have "step simE init_world w_buf" by (intro step.new [of 5]) simp_all
  then have r: "reachable simE w_buf" by (rule reachable.step [OF reachable.start])
  show ?thesis using early_signal_panics [OF r, of "Some (\<lambda>_. ret ())"] w_buf_sane(13) by metis
qed

end
