(* ===== verification/Calls.thy ===== *)
theory Calls
  imports Locked_Props Views Streams
begin

text \<open>
  What a call of the exported package may do to the process, whatever its arguments are and whichever way it ends: the session
  stays sane, and the buffers the program has keep their memory or are destroyed. The judgement \<open>does\<close> says so of the result
  of a computation; its rules follow the structure of the code, so that every call is checked by composing those it makes.
\<close>

subsection \<open>What a program has\<close>

text \<open>A buffer the program has: listed, or destroyed or null.\<close>

definition handle :: "world \<Rightarrow> nat \<Rightarrow> bool" where
  "handle s b \<longleftrightarrow> own s b \<or> b < nbufs s \<and> bufs s b = zero_Buffer"

text \<open>A slice the program has: on the garbage-collected heap, or in the data of one of its buffers, frozen or not.\<close>

definition within :: "world \<Rightarrow> slice \<Rightarrow> bool" where
  "within s sl \<longleftrightarrow>
     (case sl of
        NilSlice \<Rightarrow> True
      | Slice a i n c \<Rightarrow> n \<le> c \<and>
          (case a of
             GC j \<Rightarrow> j < gcnext (mem s)
           | Sys k \<Rightarrow> \<exists>b q m. own s b \<and> data (bufs s b) = Slice (Sys k) q m m \<and> q \<le> i \<and> i + c \<le> q + m))"

subsection \<open>The judgement\<close>

text \<open>From \<open>s\<close> to \<open>t\<close> only the buffers in \<open>M\<close> were changed; \<open>rests\<close> is what is left when a call panics.\<close>

text \<open>The buffers of the global key are listed, or were destroyed with it.\<close>

definition key_held :: "world \<Rightarrow> bool" where
  "key_held s \<longleftrightarrow> (\<forall>b \<in> refs s (key s). b \<in> set (blist s) \<or> bufs s b = zero_Buffer)"

definition alters :: "env \<Rightarrow> nat set \<Rightarrow> world \<Rightarrow> world \<Rightarrow> bool" where
  "alters E M s t \<longleftrightarrow>
     sane E t \<and> (key_held s \<longrightarrow> key_held t) \<and> nbufs s \<le> nbufs t \<and> gcnext (mem s) \<le> gcnext (mem t) \<and>
     (\<forall>b. own s b \<and> b \<notin> M \<longrightarrow> own t b \<and> bufs t b = bufs s b) \<and>
     (\<forall>b < nbufs s. bufs s b = zero_Buffer \<longrightarrow> bufs t b = zero_Buffer)"

definition rests :: "env \<Rightarrow> world \<Rightarrow> world \<Rightarrow> bool" where
  "rests E s t \<longleftrightarrow> sane E t \<and> (key_held s \<longrightarrow> key_held t) \<and> (\<forall>b. handle s b \<longrightarrow> handle t b)"

text \<open>
  The result of a computation started in \<open>s\<close>, of the process alone or with a reader: \<open>w\<close> takes the process. Nothing is said of a
  process that has ended by a fault or by \<^verbatim>\<open>os.Exit\<close>, or that waits.
\<close>

definition does :: "env \<Rightarrow> ('s \<Rightarrow> world) \<Rightarrow> world \<Rightarrow> ('a \<Rightarrow> 's \<Rightarrow> bool) \<Rightarrow> 'a outcome \<times> 's \<Rightarrow> bool" where
  "does E w s Q x \<longleftrightarrow>
     (case x of
        (Ret v, u) \<Rightarrow> alters E {} s (w u) \<and> Q v u
      | (Panicked p, u) \<Rightarrow> rests E s (w u)
      | _ \<Rightarrow> True)"

lemma alters_refl: "sane E s \<Longrightarrow> alters E M s s"
  by (simp add: alters_def)

lemma alters_D:
  assumes "alters E M s t"
  shows "sane E t" and "nbufs s \<le> nbufs t" and "own s b \<Longrightarrow> b \<notin> M \<Longrightarrow> own t b" and "own s b \<Longrightarrow> b \<notin> M \<Longrightarrow> bufs t b = bufs s b"
    and "b < nbufs s \<Longrightarrow> bufs s b = zero_Buffer \<Longrightarrow> bufs t b = zero_Buffer"
  using assms by (simp_all add: alters_def)

lemma own_less: "sane E s \<Longrightarrow> own s b \<Longrightarrow> b < nbufs s"
  using session_D(3) [of E s b] by (simp add: sane_def own_def)

lemma handle_less: "sane E s \<Longrightarrow> handle s b \<Longrightarrow> b < nbufs s"
  using own_less by (auto simp: handle_def)

lemma alters_trans:
  assumes "alters E {} s t" and "alters E N t u" and "sane E s" and "\<And>b. b \<in> N \<Longrightarrow> nbufs s \<le> b"
  shows "alters E {} s u"
proof -
  have "own u b \<and> bufs u b = bufs s b" if b: "own s b" for b
  proof -
    have "b \<notin> N" using own_less [OF assms(3) b] assms(4) [of b] by auto
    then show ?thesis using alters_D(3,4) [OF assms(1) b] alters_D(3,4) [OF assms(2)] by auto
  qed
  then show ?thesis using assms(1,2) by (auto simp: alters_def)
qed

lemma alters_handle: "alters E M s t \<Longrightarrow> handle s b \<Longrightarrow> b \<notin> M \<Longrightarrow> handle t b"
  by (auto simp: alters_def handle_def)

lemma alters_rests: "alters E {} s t \<Longrightarrow> rests E s t"
  using alters_handle [of E "{}" s t] by (auto simp: rests_def alters_def)

lemma rests_trans: "rests E s t \<Longrightarrow> rests E t u \<Longrightarrow> rests E s u"
  by (simp add: rests_def)

lemma coffer_held: "coffer_ok s (key s) \<Longrightarrow> key_held s"
  by (elim coffer_ok_D) (auto simp: key_held_def refs_def)

lemma alters_extends:
  assumes "extends s t" and "sane E s" and "sane E t" and "\<And>b. b < nbufs s \<Longrightarrow> b \<notin> refs s (key s) \<Longrightarrow> b \<notin> refs t (key t)"
    and "key t = key s \<or> coffer_ok t (key t)"
  shows "alters E {} s t"
proof -
  have s: "session E s" "key s < ncoffers s" using assms(2) by (simp_all add: sane_def session_def)
  have "key_held t" if "key_held s" "key t = key s"
  proof -
    have "refs t (key t) = refs s (key s)" using extends_D(4) [OF assms(1) s(2)] that(2) by (simp add: refs_def)
    then show ?thesis
      using that(1) extends_D(2,3) [OF assms(1)] session_refs [OF s(1)] by (fastforce simp: key_held_def)
  qed
  then have "key_held s \<longrightarrow> key_held t" using assms(5) coffer_held by blast
  then show ?thesis using assms(1-4) own_less [OF assms(2)] extends_D(2,3,6,7) [OF assms(1)] by (auto simp: alters_def own_def)
qed

lemma alters_within:
  assumes "alters E {} s t" and "within s sl"
  shows "within t sl"
proof (cases sl)
  case (Slice a i n c)
  show ?thesis
  proof (cases a)
    case (Sys k)
    then show ?thesis using assms Slice unfolding within_def alters_def by simp metis
  next
    case (GC j)
    then show ?thesis using assms Slice by (auto simp: within_def alters_def)
  qed
qed (simp add: within_def)

text \<open>The rules of the judgement.\<close>

lemma does_Ret: "alters E {} s (w u) \<Longrightarrow> Q v u \<Longrightarrow> does E w s Q (Ret v, u)"
  by (simp add: does_def)

lemma does_panic: "rests E s (w u) \<Longrightarrow> does E w s Q (Panicked p, u)"
  by (simp add: does_def)

lemma does_stuck: "does E w s Q (Crash, u)" "does E w s Q (Blocked, u)" "does E w s Q (Unfinished, u)" "does E w s Q (Exited c, u)"
  by (simp_all add: does_def)

lemma does_mono: "does E w s Q x \<Longrightarrow> (\<And>v u. alters E {} s (w u) \<Longrightarrow> Q v u \<Longrightarrow> R v u) \<Longrightarrow> does E w s R x"
  by (auto simp: does_def split: prod.splits outcome.splits)

lemma does_shift:
  assumes "alters E {} s0 s" and "does E w s Q x" and "sane E s0"
  shows "does E w s0 (\<lambda>v u. alters E {} s (w u) \<and> Q v u) x"
  using assms alters_trans [OF assms(1) _ assms(3)] rests_trans [OF alters_rests [OF assms(1)]]
  by (auto simp: does_def split: prod.splits outcome.splits)

lemma does_bind:
  assumes "does E w s Q (m x)" and "\<And>v u. alters E {} s (w u) \<Longrightarrow> Q v u \<Longrightarrow> does E w s R (f v u)"
  shows "does E w s R (bind m f x)"
  using assms by (cases "m x"; cases "fst (m x)") (auto simp: does_def bind_def)

lemma does_step:
  assumes "alters E {} s0 (w x)" and "sane E s0" and "does E w (w x) Q (m x)"
    and "\<And>v u. alters E {} s0 (w u) \<Longrightarrow> alters E {} (w x) (w u) \<Longrightarrow> Q v u \<Longrightarrow> does E w s0 R (f v u)"
  shows "does E w s0 R (bind m f x)"
  by (rule does_bind, rule does_shift [OF assms(1,3,2)]) (use assms(4) in blast)

text \<open>The same for the process alone, and for the last call.\<close>

lemma go_step:
  assumes "alters E {} s t" and "sane E s" and "does E id t Q (m t)"
    and "\<And>v u. alters E {} s u \<Longrightarrow> alters E {} t u \<Longrightarrow> Q v u \<Longrightarrow> does E id s R (f v u)"
  shows "does E id s R (bind m f t)"
  by (rule does_step [where w = id and x = t and Q = Q]) (use assms in simp_all)

lemma go_last:
  assumes "alters E {} s t" and "sane E s" and "does E id t Q x" and "\<And>v u. Q v u \<Longrightarrow> R v u"
  shows "does E id s R x"
  using does_mono [OF does_shift [OF assms(1,3,2)]] assms(4) by fastforce

lemma go_start:
  assumes "does E id s Q (m t)" and "\<And>v u. alters E {} s u \<Longrightarrow> Q v u \<Longrightarrow> does E id s R (f v u)"
  shows "does E id s R (bind m f t)"
  by (rule does_bind [where w = id and x = t and Q = Q]) (use assms in simp_all)

lemma does_return: "alters E {} s u \<Longrightarrow> Q v u \<Longrightarrow> does E id s Q (ret v u)"
  by (simp add: does_Ret)

lemma go_run:
  assumes "m t = (Ret v, u)" and "does E id s R (f v u)"
  shows "does E id s R (bind m f t)"
  using assms by (simp add: bind_def)

lemma does_for_each:
  assumes "sane E s" and "\<And>i u. i \<in> set is \<Longrightarrow> alters E {} s (w u) \<Longrightarrow> does E w s (\<lambda>_ _. True) (body i u)"
    and "alters E {} s (w x)"
  shows "does E w s (\<lambda>_ _. True) (for_each is body x)"
  using assms(2,3)
proof (induction "is" arbitrary: x)
  case Nil
  then show ?case by (simp add: does_Ret)
next
  case (Cons i "is")
  show ?case
    unfolding for_each.simps
    by (rule does_bind [OF Cons.prems(1)]) (use Cons in auto)
qed

lemma does_on_world: "does E id s Q (m t) \<Longrightarrow> does E snd s (\<lambda>v u. fst u = r \<and> Q v (snd u)) (on_world m (r, t))"
  by (cases "m t"; cases "fst (m t)") (auto simp: does_def on_world_def)

text \<open>A computation that does not change the process.\<close>

lemma does_look: "sane E (w x) \<Longrightarrow> snd (m x) = x \<Longrightarrow> (\<And>v. m x = (Ret v, x) \<Longrightarrow> Q v x) \<Longrightarrow> does E w (w x) Q (m x)"
  by (cases "m x"; cases "fst (m x)") (auto simp: does_def alters_refl rests_def)

text \<open>A free lock.\<close>

lemma does_with_lock:
  assumes "oblivious l m" and "locks s l = Unlocked" and "does E id s0 Q (m s)"
  shows "does E id s0 Q (with_lock l m s)"
proof -
  obtain r t where m: "m s = (r, t)" by fastforce
  show ?thesis
  proof (cases r)
    case (Ret v)
    then show ?thesis using with_lock_free(1) [OF assms(1,2)] m assms(3) by simp
  next
    case (Panicked p)
    then show ?thesis using with_lock_free(2) [OF assms(1,2)] m assms(3) by simp
  qed (use oblivious_run [OF assms(1) m] assms(2) in \<open>simp_all add: with_lock_def deferred_def set_rw_def does_stuck\<close>)
qed

lemma sane_free: "sane E s \<Longrightarrow> locks s l = Unlocked"
  using locks_free_D [OF session_D(1), of E s l] by (simp add: sane_def)

subsection \<open>Memory\<close>

lemma sane_put:
  assumes "sane E s" and "own s b" and "length bs = slen (data (bufs s b))"
  shows "sane E (s\<lparr>mem := put (mem s) (data (bufs s b)) bs\<rparr>)"
proof -
  have s: "session E s" "clean s" and b: "b \<in> set (blist s)" using assms(1,2) by (simp_all add: sane_def own_def)
  note w = write_facts [OF s(1) b assms(3)]
  show ?thesis using w(1) clean_intact [OF s(2) w(10)] by (simp add: sane_def)
qed

lemma sane_put_gc:
  assumes "sane E s"
  shows "sane E (s\<lparr>mem := put (mem s) (Slice (GC j) i n c) bs\<rparr>)"
proof -
  have s: "session E s" "clean s" using assms by (simp_all add: sane_def)
  have "session E (s\<lparr>mem := put (mem s) (Slice (GC j) i n c) bs\<rparr>)" by (rule session_gc(1) [OF s(1)]) simp_all
  moreover have "clean (s\<lparr>mem := put (mem s) (Slice (GC j) i n c) bs\<rparr>)"
    by (rule clean_keep [OF s(2,1)]) (use put_gc_keep [OF s(1)] in simp)
  ultimately show ?thesis by (simp add: sane_def)
qed

lemma sane_null:
  assumes "sane E s"
  shows "sane E (s\<lparr>bufs := (bufs s)(nbufs s := zero_Buffer), nbufs := Suc (nbufs s)\<rparr>)" (is "sane E ?u")
proof -
  have s: "session E s" "clean s" using assms by (simp_all add: sane_def)
  have same: "bufs ?u c = bufs s c" if "c \<in> set (blist s)" for c
    using that session_D(3) [OF s(1), of c] by auto
  have keep: "keep s ?u c" if "c \<in> set (blist s)" for c using same [OF that] by (simp add: keep_def)
  have "session E ?u"
    by (rule session_same_list [OF s(1)])
      (use keep_guarded [OF keep session_D(2) [OF s(1)]] same session_refs [OF s(1)] in auto)
  moreover have "clean ?u" by (rule clean_keep [OF s(2,1)]) (use keep in auto)
  ultimately show ?thesis by (simp add: sane_def)
qed

lemma within_sys:
  assumes "sane E s" and "within s (Slice (Sys a) i n c)"
  obtains b q m where "own s b" and "b \<in> set (blist s)" and "data (bufs s b) = Slice (Sys a) q m m" and "buf_base (bufs s b) = Sys a"
    and "q \<le> i" and "i + c \<le> q + m" and "n \<le> c"
proof -
  obtain b q m where b: "own s b" "data (bufs s b) = Slice (Sys a) q m m" "q \<le> i" "i + c \<le> q + m" "n \<le> c"
    using assms(2) by (auto simp: within_def)
  have "b \<in> set (blist s)" using b(1) by (simp add: own_def)
  moreover have "slice_base (data (bufs s b)) = buf_base (bufs s b)"
    using mapped_bases(4) [OF guarded_mapped(1) [OF session_D(2)]] assms(1) calculation by (auto simp: sane_def)
  ultimately show ?thesis using that b by simp
qed

lemma alters_put:
  assumes "sane E s" and "within s sl" and "fits (mem s) sl" and "length bs = slen sl"
  shows "alters E {} s (s\<lparr>mem := put (mem s) sl bs\<rparr>)"
proof -
  have "sane E (s\<lparr>mem := put (mem s) sl bs\<rparr>)"
  proof (cases sl)
    case NilSlice
    then show ?thesis using assms(1) by simp
  next
    case (Slice a i n c)
    show ?thesis
    proof (cases a)
      case (GC j)
      then show ?thesis using sane_put_gc [OF assms(1)] Slice by simp
    next
      case (Sys k)
      obtain b q m where b: "own s b" "b \<in> set (blist s)" "data (bufs s b) = Slice (Sys k) q m m" "q \<le> i" "i + c \<le> q + m" "n \<le> c"
        by (rule within_sys [OF assms(1), of k i n c]) (use assms(2) Slice Sys in auto)
      have p: "part_of (data (bufs s b)) (i - q) sl" using b Slice Sys by simp
      have f: "fits (mem s) (data (bufs s b))" using session_D(2) [of E s b] assms(1) b(2) by (auto simp: sane_def intro: guarded_data)
      let ?D = "overwrite (i - q) bs (contents (mem s) (data (bufs s b)))"
      have "i - q + length bs \<le> length (contents (mem s) (data (bufs s b)))" using f b assms(4) Slice Sys by auto
      then have "length ?D = slen (data (bufs s b))" using f by simp
      from sane_put [OF assms(1) b(1) this] show ?thesis using put_part [OF p f assms(4)] by simp
    qed
  qed
  then show ?thesis by (simp add: alters_def own_def refs_def key_held_def)
qed

lemma does_idx_set:
  assumes "sane E s" and "within s sl"
  shows "does E id s (\<lambda>_ _. True) (idx_set sl i v s)"
proof (cases sl)
  case NilSlice
  then show ?thesis using assms(1) by (auto intro!: does_panic alters_rests alters_refl)
next
  case (Slice a off n c)
  have "within s (Slice a (off + i) 1 1)" if "i < n"
    using assms(2) that Slice by (cases a) (auto simp: within_def)
  then show ?thesis
    using assms(1) Slice alters_put [OF assms(1), of "Slice a (off + i) 1 1" "[v]"]
    by (auto intro!: does_panic does_Ret does_stuck alters_rests alters_refl)
qed

lemma within_upto: "within s sl \<Longrightarrow> slice_upto sl j s = (Ret p, t) \<Longrightarrow> within s p"
  by (cases sl) (auto simp: within_def split: base.splits if_splits, metis)

lemma within_from: "within s sl \<Longrightarrow> slice_from sl j s = (Ret p, t) \<Longrightarrow> within s p"
  by (cases sl) (auto simp: within_def split: base.splits if_splits, linarith, fastforce)

text \<open>The byte operations of \<^verbatim>\<open>core/crypto.go\<close> on slices of the program.\<close>

lemma slice_look: "snd (slice_upto sl j s) = s" "snd (slice_from sl j s) = s" "snd (idx_get sl i s) = s" "snd (read_all sl s) = s"
  by (cases sl; auto simp: read_all_def)+

lemma does_slice:
  assumes "sane E s" and "within s sl"
  shows "does E id s (\<lambda>p t. within t p) (slice_upto sl j s)" and "does E id s (\<lambda>p t. within t p) (slice_from sl j s)"
  using does_look [of E id s "slice_upto sl j" "\<lambda>p t. within t p"] does_look [of E id s "slice_from sl j" "\<lambda>p t. within t p"]
    assms within_upto [OF assms(2)] within_from [OF assms(2)] by (simp_all add: slice_look)

lemma does_look_id: "sane E s \<Longrightarrow> snd (m s) = s \<Longrightarrow> does E id s (\<lambda>_ t. t = s) (m s)"
  using does_look [of E id s m "\<lambda>_ t. t = s"] by simp

lemma does_ConstantTimeCopy:
  assumes "sane E s" and "within s x"
  shows "does E id s (\<lambda>_ _. True) (ConstantTimeCopy v x y s)"
proof (cases "slen x = slen y")
  case True
  have "does E id s (\<lambda>_ _. True) (for_each [0..<slen x] (\<lambda>i. bind (idx_get x i) (\<lambda>a. bind (idx_get y i) (\<lambda>b.
        idx_set x i ((a AND word_of_int (v - 1)) OR (b AND word_of_int (NOT (v - 1))))))) s)"
  proof (rule does_for_each [OF assms(1)])
    fix i u assume "alters E {} s (id u)"
    then have u: "alters E {} s u" by simp
    note u' = alters_D(1) [OF u] alters_within [OF u assms(2)]
    show "does E id s (\<lambda>_ _. True) (bind (idx_get x i) (\<lambda>a. bind (idx_get y i) (\<lambda>b.
        idx_set x i ((a AND word_of_int (v - 1)) OR (b AND word_of_int (NOT (v - 1)))))) u)"
      by (rule go_step, rule u, rule assms, rule does_look_id, rule u', rule slice_look,
          rule go_step, assumption, rule assms, rule does_look_id, simp add: u', rule slice_look,
          rule go_last [OF _ assms(1) does_idx_set]) (simp_all add: u')
  qed (use alters_refl [OF assms(1)] in simp)
  then show ?thesis using True by (simp add: ConstantTimeCopy_def)
next
  case False
  then show ?thesis by (simp add: ConstantTimeCopy_def does_panic alters_rests alters_refl assms(1))
qed

lemma does_Copy:
  assumes "sane E s" and "within s dst"
  shows "does E id s (\<lambda>_ _. True) (Copy dst src s)"
proof -
  have "does E id s (\<lambda>_ _. True) (bind (slice_upto dst (int (slen src))) (\<lambda>d. ConstantTimeCopy 1 d src) s)"
    by (rule go_start, rule does_slice(1) [OF assms], rule go_last [OF _ assms(1) does_ConstantTimeCopy])
      (simp_all add: alters_D(1))
  moreover have "does E id s (\<lambda>_ _. True) (bind (slice_upto src (int (slen dst))) (\<lambda>p. ConstantTimeCopy 1 dst p) s)"
    by (rule go_start, rule does_look_id, rule assms, rule slice_look, rule go_last [OF _ assms(1) does_ConstantTimeCopy])
      (simp_all add: assms)
  ultimately show ?thesis using does_ConstantTimeCopy [OF assms] by (simp add: Copy_def)
qed

lemma does_Wipe:
  assumes "sane E s" and "within s sl"
  shows "does E id s (\<lambda>_ _. True) (Wipe sl s)"
  unfolding Wipe_def
proof (rule does_for_each [OF assms(1)])
  fix i u assume "alters E {} s (id u)"
  then have u: "alters E {} s u" by simp
  show "does E id s (\<lambda>_ _. True) (idx_set sl i 0 u)"
    by (rule go_last [OF u assms(1) does_idx_set [OF alters_D(1) [OF u] alters_within [OF u assms(2)]]])
qed (use alters_refl [OF assms(1)] in simp)

lemma does_Move:
  assumes "sane E s" and "within s dst" and "within s src"
  shows "does E id s (\<lambda>_ _. True) (Move dst src s)"
  unfolding Move_def
  by (rule go_start, rule does_Copy [OF assms(1,2)], rule go_last [OF _ assms(1) does_Wipe])
    (auto intro: alters_D(1) alters_within [OF _ assms(3)])

lemma alters_objs:
  assumes "alters E {} s t"
  shows "alters E {} s (t\<lparr>rpos := i\<rparr>)"
proof -
  have "sane E (t\<lparr>rpos := i\<rparr>)" if "sane E t"
    using that by (auto simp: sane_def session_def clean_def locks_free_def guarded_def mapped_def canary_ok_def Let_def refs_def
        is_destroyed_def coffer_ok_def part_ok_def cong: option.case_cong)
  then show ?thesis using assms by (auto simp: alters_def own_def refs_def key_held_def)
qed

lemma does_write_all:
  assumes "sane E s" and "within s sl" and "length bs = slen sl"
  shows "does E id s (\<lambda>_ _. True) (write_all sl bs s)"
  using alters_put [OF assms(1,2) writable_fits assms(3)] by (auto simp: write_all_def intro: does_Ret does_stuck)

lemma does_Scramble:
  assumes "env_works E" and "sane E s" and "within s sl"
  shows "does E id s (\<lambda>r _. r = None) (Scramble E sl s)"
proof -
  have len: "length (rand_bytes E i n) = n" for i n by (simp add: rand_bytes_def)
  have "rnderr E i = None" for i using env_works_D(3) [OF assms(1)] by (simp add: rand_ok_def)
  then have "Scramble E sl s = bind (write_all sl (rand_bytes E (rpos s) (slen sl))) (\<lambda>_. bind (modify (\<lambda>u. u\<lparr>rpos := rpos s + slen sl\<rparr>)) (\<lambda>_. ret None)) s"
    by (simp add: Scramble_def rand_Read_def bind_assoc bind_prim(1) [abs_def])
  moreover have "does E id s (\<lambda>r _. r = None) (bind (write_all sl (rand_bytes E (rpos s) (slen sl)))
      (\<lambda>_. bind (modify (\<lambda>u. u\<lparr>rpos := rpos s + slen sl\<rparr>)) (\<lambda>_. ret None)) s)"
    by (rule go_start, rule does_write_all [OF assms(2,3) len]) (simp add: does_Ret alters_objs)
  ultimately show ?thesis by simp
qed

lemma does_ScrambleBytes:
  assumes "env_works E" and "sane E s" and "within s sl"
  shows "does E id s (\<lambda>_ _. True) (ScrambleBytes E sl s)"
  unfolding ScrambleBytes_def or_panic_def
  by (rule go_start, rule does_Scramble [OF assms]) (simp add: does_Ret)

lemma does_gc_new:
  assumes "sane E s"
  shows "does E id s (\<lambda>sl t. within t sl \<and> slen sl = length bs) (gc_new bs s)"
proof -
  obtain sl t where t: "gc_new bs s = (Ret sl, t)" by (simp add: gc_new_def)
  note a = gc_new_access [OF t] and s = sane_alloc [OF assms t]
  have "session E s" using assms by (simp add: sane_def)
  note e = gc_new_extends(1) [OF this t]
  have "key t = key s" "refs t = refs s" by (subst a(8); simp add: refs_def fun_eq_iff)+
  then have "alters E {} s t" by (intro alters_extends [OF e assms s]) simp_all
  then show ?thesis using a(1,6) by (simp add: t does_Ret within_def)
qed


subsection \<open>Buffers\<close>

lemma handle_within: "sane E s \<Longrightarrow> handle s b \<Longrightarrow> within s (data (bufs s b))"
proof -
  assume s: "sane E s" and h: "handle s b"
  show ?thesis
  proof (cases "own s b")
    case True
    then have b: "session E s" "b \<in> set (blist s)" using s by (simp_all add: sane_def own_def)
    obtain a q m where "data (bufs s b) = Slice (Sys a) q m m" by (rule session_bases [OF b]) (rule that)
    then show ?thesis using True by (auto simp: within_def)
  qed (use h in \<open>simp add: handle_def within_def zero_Buffer_def\<close>)
qed

lemma handle_alive: "sane E s \<Longrightarrow> handle s b \<Longrightarrow> own s b \<longleftrightarrow> alive (bufs s b)"
  using guarded_mapped(2) [OF session_D(2)] by (auto simp: handle_def own_def sane_def zero_Buffer_def)

text \<open>What a constructor returns for a buffer of \<open>n\<close> bytes.\<close>

definition made :: "int \<Rightarrow> world \<Rightarrow> nat \<Rightarrow> bool" where
  "made n t b \<longleftrightarrow> (if n < 1 then b < nbufs t \<and> bufs t b = zero_Buffer
     else own t b \<and> mutable (bufs t b) \<and> int (slen (data (bufs t b))) = n)"

lemma made_handle: "made n t b \<Longrightarrow> handle t b"
  by (auto simp: made_def handle_def split: if_splits)

lemma does_newNullBuffer:
  assumes "sane E s"
  shows "does E id s (\<lambda>b t. nbufs s \<le> b \<and> b < nbufs t \<and> bufs t b = zero_Buffer) (newNullBuffer s)"
proof -
  let ?t = "s\<lparr>bufs := (bufs s)(nbufs s := zero_Buffer), nbufs := Suc (nbufs s)\<rparr>"
  have "alters E {} s ?t" using sane_null [OF assms] own_less [OF assms] by (auto simp: alters_def own_def refs_def key_held_def)
  then show ?thesis by (simp add: newNullBuffer_def new_Buffer_def does_Ret)
qed

lemma does_NewBuffer:
  assumes "env_works E" and "sane E s" and "n \<le> 2 ^ 62"
  shows "does E id s (\<lambda>b t. nbufs s \<le> b \<and> made n t b) (memguard_NewBuffer E n s)"
proof (cases "n < 1")
  case True
  then have "memguard_NewBuffer E n s = newNullBuffer s" by (simp add: memguard_NewBuffer_def NewBuffer_def)
  then show ?thesis using does_mono [OF does_newNullBuffer [OF assms(2)]] True by (simp add: made_def)
next
  case False
  then obtain k where k: "n = int k" "0 < k" using zero_le_imp_eq_int [of n] by auto
  note r = memguard_NewBuffer_run [OF assms(1,2) k(2) assms(3) [unfolded k(1)]]
  have "refs (newbuf_state E k s) = refs s" by (simp add: refs_def fun_eq_iff)
  then have "alters E {} s (newbuf_state E k s)" by (intro alters_extends [OF r(7) assms(2) r(3)]) simp_all
  then show ?thesis using r False by (simp add: k(1) does_Ret made_def)
qed

lemma alters_own:
  assumes "sane E s" and "sane E t" and "own s b" and "blist t = blist s" and "key t = key s" and "coffers t = coffers s" and "nbufs t = nbufs s"
    and "gcnext (mem t) = gcnext (mem s)" and "\<And>c. c \<noteq> b \<Longrightarrow> bufs t c = bufs s c"
  shows "alters E {b} s t"
proof -
  have "bufs s b \<noteq> zero_Buffer" using handle_alive [OF assms(1), of b] assms(3) by (auto simp: handle_def zero_Buffer_def)
  then have "bufs t c = zero_Buffer" if "bufs s c = zero_Buffer" for c using assms(9) [of c] that by (cases "c = b") simp_all
  moreover have "bufs t c = bufs s c" if "c \<in> refs s (key s)" for c using assms(3) assms(9) [of c] that by (cases "c = b") (simp_all add: own_def)
  then have "key_held s \<longrightarrow> key_held t" using assms(4-6) by (auto simp: key_held_def refs_def)
  ultimately show ?thesis using assms by (auto simp: alters_def own_def refs_def)
qed

text \<open>Freezing, melting and destroying a buffer the program has.\<close>

lemma set_prot_objs: "gcnext (mem (frozen_state b s)) = gcnext (mem s)" "gcnext (mem (melted_state b s)) = gcnext (mem s)"
  by (simp_all add: frozen_state_def melted_state_def)

lemma handle_change:
  assumes "env_works E" and "sane E s" and "handle s b"
  defines "u \<equiv> frozen_state b s" and "v \<equiv> melted_state b s"
  shows "LockedBuffer_Freeze E b s = (Ret (), u)" and "alters E {b} s u" and "handle u b" and "own s b \<Longrightarrow> own u b"
    and "LockedBuffer_Melt E b s = (Ret (), v)" and "alters E {b} s v" and "handle v b" and "own s b \<Longrightarrow> own v b"
proof -
  note ok = env_works_D [OF assms(1)]
  have free: "locks s l = Unlocked" for l by (rule sane_free [OF assms(2)])
  show "LockedBuffer_Freeze E b s = (Ret (), u)" "LockedBuffer_Melt E b s = (Ret (), v)"
    unfolding u_def v_def LockedBuffer_Freeze_def LockedBuffer_Melt_def by (rule Freeze_run [OF ok(1,2) free] Melt_run [OF ok(1,2) free])+
  show o: "own u b" "own v b" if "own s b" using that by (simp_all add: u_def v_def own_def refs_def)
  have "alters E {b} s u \<and> handle u b \<and> alters E {b} s v \<and> handle v b"
  proof (cases "own s b")
    case True
    note r = sane_buffer [OF assms(1,2) True, folded u_def v_def]
    have "alters E {b} s u" "alters E {b} s v"
      by (rule alters_own [OF assms(2) r(2) True] alters_own [OF assms(2) r(4) True];
          simp add: set_prot_objs u_def v_def; simp add: frozen_state_def melted_state_def)+
    then show ?thesis using o [OF True] by (simp add: handle_def)
  next
    case False
    then have "u = s" "v = s" using handle_alive [OF assms(2,3)] by (simp_all add: u_def v_def frozen_state_def melted_state_def)
    then show ?thesis using assms(2,3) by (simp add: alters_refl)
  qed
  then show "alters E {b} s u" "handle u b" "alters E {b} s v" "handle v b" by simp_all
qed

lemma handle_destroy:
  assumes "env_works E" and "sane E s" and "handle s b"
  obtains t where "LockedBuffer_Destroy E b s = (Ret (), t)" and "alters E {b} s t" and "b < nbufs t" and "bufs t b = zero_Buffer"
proof (cases "own s b")
  case True
  note r = sane_buffer [OF assms(1,2) True]
  have "alters E {b} s (removed_state b s)"
    using r(6) own_less [OF assms(2)] True by (auto simp: alters_def own_def refs_def key_held_def)
  then show ?thesis using that r(5) own_less [OF assms(2) True] by (simp add: LockedBuffer_Destroy_def)
next
  case False
  then have z: "bufs s b = zero_Buffer" "b < nbufs s" using assms(3) by (simp_all add: handle_def)
  have s: "session E s" using assms(2) by (simp add: sane_def)
  have free: "locks s l = Unlocked" for l by (rule sane_free [OF assms(2)])
  have "b \<notin> set (blist s)" using z guarded_mapped(2) [OF session_D(2) [OF s, of b]] by (auto simp: zero_Buffer_def)
  moreover have "\<not> alive (bufs s b)" using z by (simp add: zero_Buffer_def)
  ultimately have "Destroy E b s = (Ret (), s)"
    using dead_runs(3) [of s b E] free by (simp add: Destroy_def bind_def or_panic_None list_remove_run remove_first_eq remove1_idem)
  then show ?thesis using that z assms(2) by (simp add: LockedBuffer_Destroy_def alters_refl)
qed

text \<open>The methods that change the data of a buffer.\<close>

lemma does_Bytes: "does E id s0 R (f (data (bufs s b)) s) \<Longrightarrow> does E id s0 R (bind (Bytes b) f s)"
  by (simp add: Bytes_def Data_def get_buf_def bind_def exec)

lemma does_IsAlive:
  assumes "sane E s" and "alive (bufs s b) \<Longrightarrow> does E id s0 R (f True s)" and "\<not> alive (bufs s b) \<Longrightarrow> does E id s0 R (f False s)"
  shows "does E id s0 R (bind (IsAlive b) f s)"
  using assms IsAlive_run [OF sane_free [OF assms(1)]] by (cases "alive (bufs s b)") (simp_all add: bind_def)

lemma does_nothing: "sane E s \<Longrightarrow> does E id s (\<lambda>_ _. True) (ret v s)"
  by (simp add: does_Ret alters_refl)

lemma does_CopyAt:
  assumes "sane E s" and "handle s b"
  shows "does E id s (\<lambda>_ _. True) (CopyAt b k src s)"
proof -
  have "does E id s (\<lambda>_ _. True) (bind (Bytes b) (\<lambda>d. bind (slice_from d k) (\<lambda>dst. Copy dst src)) s)"
    by (rule does_Bytes, rule go_start, rule does_slice(2) [OF assms(1) handle_within [OF assms]], rule go_last [OF _ assms(1) does_Copy])
      (simp_all add: alters_D(1))
  then show ?thesis
    unfolding CopyAt_def
    by (intro does_IsAlive [OF assms(1)]) (auto intro!: does_with_lock sane_free [OF assms(1)] obliviousI simp: Bytes_def does_nothing [OF assms(1), simplified])
qed

lemma does_MoveAt:
  assumes "sane E s" and "handle s b" and "within s src"
  shows "does E id s (\<lambda>_ _. True) (MoveAt b k src s)"
proof -
  have "does E id s (\<lambda>_ _. True) (bind (Bytes b) (\<lambda>d. bind (slice_from d k) (\<lambda>dst. Move dst src)) s)"
    by (rule does_Bytes, rule go_start, rule does_slice(2) [OF assms(1) handle_within [OF assms(1,2)]], rule go_last [OF _ assms(1) does_Move])
      (simp_all add: alters_D(1) alters_within [OF _ assms(3)])
  then show ?thesis
    unfolding MoveAt_def
    by (intro does_IsAlive [OF assms(1)]) (auto intro!: does_with_lock sane_free [OF assms(1)] obliviousI simp: Bytes_def does_nothing [OF assms(1), simplified])
qed

lemma does_Scramble_buffer:
  assumes "env_works E" and "sane E s" and "handle s b"
  shows "does E id s (\<lambda>_ _. True) (LockedBuffer_Scramble E b s)"
proof -
  have "does E id s (\<lambda>r _. r = None) (bind (Data b) (\<lambda>d. Scramble E d) s)"
    using does_Scramble [OF assms(1,2) handle_within [OF assms(2,3)]] by (simp add: Data_def get_buf_def bind_def exec)
  then have "does E id s (\<lambda>r _. r = None) (scramble E b s)"
    unfolding scramble_def by (rule does_with_lock [rotated 2]) (intro obliviousI sane_free [OF assms(2)])+
  then have "does E id s (\<lambda>_ _. True) (Buffer_Scramble E b s)"
    unfolding Buffer_Scramble_def or_panic_def by (rule go_start) (simp add: does_Ret)
  then show ?thesis
    unfolding LockedBuffer_Scramble_def by (intro does_IsAlive [OF assms(2)]) (simp_all add: does_nothing [OF assms(2), simplified])
qed

lemma does_Wipe_buffer:
  assumes "sane E s" and "handle s b"
  shows "does E id s (\<lambda>_ _. True) (LockedBuffer_Wipe b s)"
proof -
  have "does E id s (\<lambda>_ _. True) (bind (Bytes b) (\<lambda>d. Wipe d) s)"
    by (rule does_Bytes, rule does_Wipe [OF assms(1) handle_within [OF assms]])
  then show ?thesis
    unfolding LockedBuffer_Wipe_def
    by (intro does_IsAlive [OF assms(1)]) (auto intro!: does_with_lock sane_free [OF assms(1)] obliviousI simp: Bytes_def does_nothing [OF assms(1), simplified])
qed


subsection \<open>Purging\<close>

lemma purged_rests:
  assumes "sane E s"
  shows "rests E s (purged s)"
proof -
  have s: "session E s" "clean s" using assms by (simp_all add: sane_def)
  have can: "\<forall>b \<in> set (blist s). canary_ok s b" using s(2) by (simp add: clean_def)
  have "handle (purged s) b" if "handle s b" for b
  proof (cases "b \<in> set (blist s)")
    case True
    then show ?thesis using purged_listed(2) [OF s(1)] can session_D(3) [OF s(1)] by (simp add: handle_def)
  next
    case False
    then show ?thesis using that purged_unlisted [OF s(1)] by (auto simp: handle_def own_def)
  qed
  moreover have "key_held (purged s)" if "key_held s"
  proof -
    have "bufs (purged s) b = zero_Buffer" if "b \<in> refs s (key s)" for b
      using that \<open>key_held s\<close> purged_listed(2) [OF s(1), of b] purged_unlisted [OF s(1), of b] can
      by (cases "b \<in> set (blist s)") (auto simp: key_held_def)
    then show ?thesis by (simp add: key_held_def refs_def)
  qed
  ultimately show ?thesis using purged_session(1) [OF s(1) can] by (simp add: rests_def sane_def clean_def)
qed

lemma sane_Purge:
  assumes "env_works E" and "sane E s"
  shows "Purge E s = (Ret (), purged s)"
proof -
  note ok = env_works_D [OF assms(1)]
  have s: "session E s" "clean s" using assms(2) by (simp_all add: sane_def)
  show ?thesis by (rule Purge_run_ok [OF ok(1,2) session_D(4,1) [OF s(1)]]) (use s(2) in \<open>simp add: clean_def\<close>)
qed

lemma does_Panic: "env_works E \<Longrightarrow> sane E s \<Longrightarrow> does E id s Q (Panic E v s)"
  using purged_rests by (simp add: Panic_def bind_def sane_Purge does_panic)

lemma does_SafePanic: "env_works E \<Longrightarrow> sane E s \<Longrightarrow> does E id s Q (SafePanic E v s)"
  by (simp add: SafePanic_def does_Panic)

subsection \<open>Enclaves\<close>

lemma does_view_key:
  assumes "env_works E" and "sane E s"
  shows "does E id s (\<lambda>r t. \<exists>k. r = Inr k \<and> own t k \<and> nbufs s \<le> k) (view_key E s)"
proof -
  have s: "session E s" "clean s" using assms(2) by (simp_all add: sane_def)
  obtain t k where t: "view_key E s = (Ret (Inr k), t)" "session E t" "extends s t" "k \<in> set (blist t)" "nbufs s \<le> k" "k \<notin> refs t (key t)"
      "\<And>b. b < nbufs s \<Longrightarrow> b \<notin> refs s (key s) \<Longrightarrow> b \<notin> refs t (key t)" "clean s \<Longrightarrow> clean t" "coffer_ok t (key t)"
    using view_key_run [OF assms(1) s(1)] by metis
  have "alters E {} s t" by (rule alters_extends [OF t(3) assms(2) _ t(7)]) (use t(2,8,9) s(2) in \<open>simp_all add: sane_def\<close>)
  then show ?thesis using t by (simp add: does_Ret own_def)
qed

text \<open>A read of memory gives the bytes of the slice.\<close>

lemma go_read:
  assumes "\<And>bs. length bs = slen sl \<Longrightarrow> does E id s R (f bs t)"
  shows "does E id s R (bind (read_all sl) f t)"
  using assms length_contents [OF readable_fits, of "mem t" sl] by (simp add: bind_def read_all_def does_stuck)

lemma does_Encrypt:
  assumes "env_works E" and "sane E s"
  shows "does E id s (\<lambda>r _. \<forall>c. r = Inr c \<longrightarrow> int (slen c) = int (slen p) + Overhead E) (Encrypt E p k s)"
proof (cases "slen k = 32")
  case True
  have len: "length (sbSeal E m n kb) = length m + sbOverhead E" for m n kb
    using env_works_D(6) [OF assms(1)] by (simp add: secretbox_ok_def)
  have "does E id s (\<lambda>r _. \<forall>c. r = Inr c \<longrightarrow> int (slen c) = int (slen p) + Overhead E)
     (bind (gc_new (replicate 24 0)) (\<lambda>nonce.
        bind (or_panic E (Scramble E nonce)) (\<lambda>_.
        bind (read_all nonce) (\<lambda>n.
        bind (read_all p) (\<lambda>m.
        bind (read_all k) (\<lambda>kb.
        bind (gc_new (n @ sbSeal E m n kb)) (\<lambda>c.
        ret (Inr c))))))) s)"
  proof (rule go_start, rule does_gc_new [OF assms(2)], rule go_step)
    fix N u assume u: "alters E {} s u" "within u N \<and> slen N = length (replicate 24 (0 :: byte))"
    show "alters E {} s u" "sane E s" by (rule u assms)+
    show "does E id u (\<lambda>_ _. True) (or_panic E (Scramble E N) u)"
      unfolding or_panic_def by (rule go_start, rule does_Scramble [OF assms(1)]) (use u in \<open>simp_all add: alters_D(1) does_Ret\<close>)
    fix v w assume w: "alters E {} s w"
    note sw = alters_D(1) [OF w]
    show "does E id s (\<lambda>r _. \<forall>c. r = Inr c \<longrightarrow> int (slen c) = int (slen p) + Overhead E)
        (bind (read_all N) (\<lambda>n. bind (read_all p) (\<lambda>m. bind (read_all k) (\<lambda>kb. bind (gc_new (n @ sbSeal E m n kb)) (\<lambda>c. ret (Inr c))))) w)"
      by (rule go_read, rule go_read, rule go_read, rule go_step, rule w, rule assms, rule does_gc_new [OF sw], rule does_return)
        (use u(2) in \<open>simp_all add: len Overhead_def\<close>)
  qed
  then show ?thesis using True by (simp add: Encrypt_def)
next
  case False
  then show ?thesis using assms(2) by (simp add: Encrypt_def does_Ret alters_refl)
qed

lemma does_NewEnclave:
  assumes "env_works E" and "sane E s" and "within s sl"
  shows "does E id s (\<lambda>r _. \<forall>e. r = Inr e \<longrightarrow> int (slen (ciphertext e)) = int (slen sl) + Overhead E) (NewEnclave E sl s)"
    (is "does E id s ?Q _")
proof (cases "slen sl < 1")
  case True
  then show ?thesis using assms(2) by (simp add: NewEnclave_def does_Ret alters_refl)
next
  case False
  have "does E id s ?Q (bind (view_key E) (\<lambda>r.
        case r of
          Inl e \<Rightarrow> ret (Inl e)
        | Inr k \<Rightarrow>
            bind (Data k) (\<lambda>kd.
            bind (Encrypt E sl kd) (\<lambda>r.
            case r of
              Inl e \<Rightarrow> Panic E (PErr e)
            | Inr c \<Rightarrow> bind (Destroy E k) (\<lambda>_. bind (Wipe sl) (\<lambda>_. ret (Inr \<lparr>ciphertext = c\<rparr>)))))) s)"
  proof (rule go_start, rule does_view_key [OF assms(1,2)], elim exE conjE, hypsubst, unfold sum.case Data_def, rule go_run)
    fix u k assume u: "alters E {} s u" and k: "own u k" "nbufs s \<le> k"
    show "bind (get_buf k) (\<lambda>B. ret (data B)) u = (Ret (data (bufs u k)), u)" by (simp add: get_buf_def exec)
    show "does E id s ?Q (bind (Encrypt E sl (data (bufs u k))) (\<lambda>r. case r of Inl e \<Rightarrow> Panic E (PErr e)
        | Inr c \<Rightarrow> bind (Destroy E k) (\<lambda>_. bind (Wipe sl) (\<lambda>_. ret (Inr \<lparr>ciphertext = c\<rparr>)))) u)"
    proof (rule go_step, rule u, rule assms, rule does_Encrypt [OF assms(1) alters_D(1) [OF u]])
      fix r :: "err + slice" and w assume w: "alters E {} s w" "alters E {} u w" "\<forall>c. r = Inr c \<longrightarrow> int (slen c) = int (slen sl) + Overhead E"
      show "does E id s ?Q ((case r of Inl e \<Rightarrow> Panic E (PErr e)
        | Inr c \<Rightarrow> bind (Destroy E k) (\<lambda>_. bind (Wipe sl) (\<lambda>_. ret (Inr \<lparr>ciphertext = c\<rparr>)))) w)"
      proof (cases r)
        case (Inl e)
        then show ?thesis by (simp, intro go_last [OF w(1) assms(2) does_Panic [OF assms(1) alters_D(1) [OF w(1)]]])
      next
        case (Inr c)
        have "handle w k" using alters_D(3) [OF w(2) k(1)] by (simp add: handle_def)
        then obtain x where x: "LockedBuffer_Destroy E k w = (Ret (), x)" "alters E {k} w x"
          by (rule handle_destroy [OF assms(1) alters_D(1) [OF w(1)]])
        have sx: "alters E {} s x" by (rule alters_trans [OF w(1) x(2) assms(2)]) (use k(2) in simp)
        have "does E id s ?Q (bind (Wipe sl) (\<lambda>_. ret (Inr \<lparr>ciphertext = c\<rparr>)) x)"
          by (rule go_step, rule sx, rule assms, rule does_Wipe [OF alters_D(1) [OF sx] alters_within [OF sx assms(3)]], rule does_return)
            (use w(3) Inr in simp_all)
        then show ?thesis using x(1) Inr by (simp add: LockedBuffer_Destroy_def bind_def)
      qed
    qed
  qed
  then show ?thesis using False by (simp add: NewEnclave_def)
qed

lemma does_memguard_NewEnclave:
  assumes "env_works E" and "sane E s" and "within s sl"
  shows "does E id s (\<lambda>r _. \<forall>e. r = Some e \<longrightarrow> int (slen (ciphertext e)) = int (slen sl) + Overhead E) (memguard_NewEnclave E sl s)"
  unfolding memguard_NewEnclave_def
proof (rule go_start, rule does_NewEnclave [OF assms])
  fix r :: "err + Enclave" and u assume u: "alters E {} s u" "\<forall>e. r = Inr e \<longrightarrow> int (slen (ciphertext e)) = int (slen sl) + Overhead E"
  then show "does E id s (\<lambda>r _. \<forall>e. r = Some e \<longrightarrow> int (slen (ciphertext e)) = int (slen sl) + Overhead E)
      ((case r of Inl e \<Rightarrow> if e = ErrNullEnclave then ret None else Panic E (PErr e) | Inr e \<Rightarrow> ret (Some e)) u)"
    using go_last [OF u(1) assms(2) does_Panic [OF assms(1) alters_D(1) [OF u(1)], where Q = "\<lambda>_ _. False"]]
    by (cases r) (auto simp: does_Ret)
qed


text \<open>A read lock that is free.\<close>

lemma does_with_rlock_at:
  assumes "oblivious_at [l] m s" and "locks s l = Unlocked" and "does E id s0 Q (m s)"
  shows "does E id s0 Q (with_rlock l m s)"
proof -
  obtain r t where m: "m s = (r, t)" by fastforce
  note go = oblivious_at_run [OF assms(1) m, of "RLocked 1"]
  have free: "locks t l = Unlocked" using oblivious_at_locks [OF assms(1) m] assms(2) by simp
  have restore: "release l (set_rw l (RLocked 1) t) = t" using free by (simp add: release_def set_rw_def fun_upd_idem)
  show ?thesis
    using assms(2,3) go restore m by (cases r) (simp_all add: with_rlock_def deferred_def does_stuck)
qed

lemma does_with_rlock:
  assumes "oblivious l m" and "locks s l = Unlocked" and "does E id s0 Q (m s)"
  shows "does E id s0 Q (with_rlock l m s)"
  by (rule does_with_rlock_at, rule oblivious_atI) (use assms in simp_all)

lemma compare_look: "snd (compare_loop is x y v s) = s"
proof (induction "is" arbitrary: v)
  case (Cons i "is")
  obtain a where a: "idx_get x i s = (a, s)" using slice_look(3) [of x i s] by (cases "idx_get x i s") auto
  obtain b where b: "idx_get y i s = (b, s)" using slice_look(3) [of y i s] by (cases "idx_get y i s") auto
  show ?case using a b Cons by (cases a; cases b) (simp_all add: bind_def)
qed simp

lemma Equal_look: "snd (Equal x y s) = s"
proof -
  have "snd (ConstantTimeCompare x y s) = s"
    using compare_look [of "[0..<slen x]" x y 0 s]
    by (cases "compare_loop [0..<slen x] x y 0 s"; cases "fst (compare_loop [0..<slen x] x y 0 s)") (auto simp: ConstantTimeCompare_def bind_def)
  then show ?thesis
    by (cases "ConstantTimeCompare x y s"; cases "fst (ConstantTimeCompare x y s)") (auto simp: Equal_def bind_def)
qed

lemma does_EqualTo:
  assumes "sane E s"
  shows "does E id s (\<lambda>_ _. True) (EqualTo b buf s)"
  unfolding EqualTo_def
  by (rule does_with_rlock [rotated 2], rule does_Bytes, rule does_mono, rule does_look_id, rule assms, rule Equal_look)
    (auto simp: Bytes_def sane_free [OF assms] intro!: obliviousI)

text \<open>Sealing a buffer that was made in the meantime.\<close>

lemma does_Seal:
  assumes "env_works E" and "alters E {} s0 s" and "sane E s0" and "handle s b" and "nbufs s0 \<le> b"
  shows "does E id s0 (\<lambda>r _. \<forall>e. r = Some e \<longrightarrow> int (slen (ciphertext e)) = int (slen (data (bufs s b))) + Overhead E) (LockedBuffer_Seal E b s)"
proof (cases "own s b")
  case True
  note sane = alters_D(1) [OF assms(2)]
  have s: "session E s" "b \<in> set (blist s)" using sane True by (simp_all add: sane_def own_def)
  define u where "u = melted_state b s"
  note h = handle_change [OF assms(1) sane assms(4), folded u_def]
  have ou: "own u b" by (rule h(8) [OF True])
  have su: "session E u" "b \<in> set (blist u)" using alters_D(1) [OF h(6)] ou by (simp_all add: sane_def own_def)
  have au: "alters E {} s0 u" by (rule alters_trans [OF assms(2) h(6) assms(3)]) (use assms(5) in simp)
  have d: "data (bufs u b) = data (bufs s b)" by (simp add: u_def)
  let ?Q = "\<lambda>r _. \<forall>e. r = Inr e \<longrightarrow> int (slen (ciphertext e)) = int (slen (data (bufs s b))) + Overhead E"
  have ne: "does E id u ?Q (NewEnclave E (data (bufs u b)) u)"
    unfolding d [symmetric]
    by (rule does_NewEnclave [OF assms(1) alters_D(1) [OF h(6)] handle_within [OF alters_D(1) [OF h(6)] h(7)]])
  have data: "bind (Data b) (NewEnclave E) u = NewEnclave E (data (bufs u b)) u" by (simp add: Data_def get_buf_def bind_def exec)
  have "oblivious_at [BufLock b] (bind (Data b) (NewEnclave E)) u"
    by (rule oblivious_at_step [of "Data b", OF Data_run oblivious_atI [OF oblivious_Data(1)]])
      (rule oblivious_at_NewEnclave [OF assms(1) su], use session_D(3) [OF su] ou in \<open>simp add: own_def\<close>)
  then have cl: "does E id u ?Q (with_rlock (BufLock b) (bind (Data b) (NewEnclave E)) u)"
    by (rule does_with_rlock_at) (use ne data sane_free [OF alters_D(1) [OF h(6)]] in simp_all)
  have "does E id s0 ?Q (bind (with_rlock (BufLock b) (bind (Data b) (NewEnclave E))) (\<lambda>r.
       case r of Inl e \<Rightarrow> ret (Inl e) | Inr e \<Rightarrow> bind (Destroy E b) (\<lambda>_. ret (Inr e))) u)"
  proof (rule go_step, rule au, rule assms, rule cl)
    fix r :: "err + Enclave" and w assume w: "alters E {} s0 w" "alters E {} u w" "?Q r w"
    show "does E id s0 ?Q ((case r of Inl e \<Rightarrow> ret (Inl e) | Inr e \<Rightarrow> bind (Destroy E b) (\<lambda>_. ret (Inr e))) w)"
    proof (cases r)
      case (Inl e)
      then show ?thesis using w(1) by (simp add: does_Ret)
    next
      case (Inr e)
      have "handle w b" using alters_D(3) [OF w(2) ou] by (simp add: handle_def)
      then obtain x where x: "LockedBuffer_Destroy E b w = (Ret (), x)" "alters E {b} w x"
        by (rule handle_destroy [OF assms(1) alters_D(1) [OF w(1)]])
      have "alters E {} s0 x" by (rule alters_trans [OF w(1) x(2) assms(3)]) (use assms(5) in simp)
      then show ?thesis using w(3) Inr x(1) by (simp add: bind_def LockedBuffer_Destroy_def does_Ret)
    qed
  qed
  then have "does E id s0 ?Q (Seal E b s)"
    using Seal_begin [OF assms(1) s] by (simp add: Seal_def bind_def u_def)
  then show ?thesis
    unfolding LockedBuffer_Seal_def
  proof (rule go_start)
    fix r :: "err + Enclave" and w assume w: "alters E {} s0 w" "?Q r w"
    show "does E id s0 (\<lambda>r _. \<forall>e. r = Some e \<longrightarrow> int (slen (ciphertext e)) = int (slen (data (bufs s b))) + Overhead E)
      ((case r of Inl e \<Rightarrow> if e = ErrBufferExpired then ret None else Panic E (PErr e) | Inr e \<Rightarrow> ret (Some e)) w)"
      using go_last [OF w(1) assms(3) does_Panic [OF assms(1) alters_D(1) [OF w(1)], where Q = "\<lambda>_ _. False"]] w
      by (cases r) (auto simp: does_Ret)
  qed
next
  case False
  note sane = alters_D(1) [OF assms(2)]
  have "Alive b s = (Ret False, s)"
    using IsAlive_run [OF sane_free [OF sane]] handle_alive [OF sane assms(4)] False by (simp add: IsAlive_def)
  then have "LockedBuffer_Seal E b s = (Ret None, s)" by (simp add: LockedBuffer_Seal_def Seal_def bind_def)
  then show ?thesis using assms(2) by (simp add: does_Ret)
qed

text \<open>Opening an enclave, whatever its ciphertext decrypts to.\<close>

lemma does_core_NewBuffer:
  assumes "env_works E" and "sane E s" and "n \<le> 2 ^ 62"
  shows "does E id s (\<lambda>r t. \<forall>b. r = Inr b \<longrightarrow> nbufs s \<le> b \<and> own t b \<and> int (slen (data (bufs t b))) = n) (NewBuffer E n s)"
proof (cases "n < 1")
  case True
  then show ?thesis using assms(2) by (simp add: NewBuffer_def does_Ret alters_refl)
next
  case False
  then obtain k where k: "n = int k" "0 < k" using zero_le_imp_eq_int [of n] by auto
  have n: "int k \<le> 2 ^ 62" using assms(3) k(1) by simp
  have "does E id s (\<lambda>b t. nbufs s \<le> b \<and> made n t b) (memguard_NewBuffer E n s)" by (rule does_NewBuffer [OF assms])
  then have "alters E {} s (newbuf_state E k s) \<and> made n (newbuf_state E k s) (nbufs s)"
    using memguard_NewBuffer_run(1) [OF assms(1,2) k(2) n] by (simp add: k(1) does_def)
  then show ?thesis
    using NewBuffer_run [OF assms(1) k(2) n sane_free [OF assms(2)]] False by (simp add: k(1) does_Ret made_def)
qed

lemma does_Decrypt:
  assumes "sane E s" and "within s out"
  shows "does E id s (\<lambda>_ _. True) (Decrypt E c k out s)"
proof (cases "slen k \<noteq> 32 \<or> int (scap out) < int (slen c) - Overhead E")
  case True
  then show ?thesis using assms(1) by (simp add: Decrypt_def does_Ret alters_refl)
next
  case False
  have "does E id s (\<lambda>_ _. True)
       (bind (gc_new (replicate 24 0)) (\<lambda>nonce.
        bind (slice_upto c 24) (\<lambda>head.
        bind (Copy nonce head) (\<lambda>_.
        bind (slice_from c 24) (\<lambda>box.
        bind (read_all box) (\<lambda>bb.
        bind (read_all nonce) (\<lambda>n.
        bind (read_all k) (\<lambda>kb.
        case sbOpen E bb n kb of
          None \<Rightarrow> ret (Inl ErrDecryptionFailed)
        | Some m \<Rightarrow>
            bind (gc_new m) (\<lambda>msl.
            bind (slice_upto out (int (scap out))) (\<lambda>out.
            bind (Move out msl) (\<lambda>_.
            ret (Inr (int (slen msl)))))))))))))
       s)"
  proof (rule go_start, rule does_gc_new [OF assms(1)], rule go_step, assumption, rule assms, rule does_look_id, erule alters_D(1),
        rule slice_look, hypsubst, rule go_step, assumption, rule assms, rule does_Copy, erule alters_D(1), erule conjunct1,
        rule go_step, assumption, rule assms, rule does_look_id, erule alters_D(1), rule slice_look, hypsubst, rule go_read, rule go_read,
        rule go_read)
    fix bb n kb and u
    assume u: "alters E {} s u"
    note su = alters_D(1) [OF u] and wu = alters_within [OF u assms(2)]
    show "does E id s (\<lambda>_ _. True) ((case sbOpen E bb n kb of None \<Rightarrow> ret (Inl ErrDecryptionFailed)
        | Some m \<Rightarrow> bind (gc_new m) (\<lambda>msl. bind (slice_upto out (int (scap out))) (\<lambda>out. bind (Move out msl) (\<lambda>_. ret (Inr (int (slen msl))))))) u)"
    proof (cases "sbOpen E bb n kb")
      case None
      then show ?thesis using u by (simp add: does_Ret)
    next
      case (Some m)
      have "does E id s (\<lambda>_ _. True) (bind (gc_new m) (\<lambda>msl. bind (slice_upto out (int (scap out))) (\<lambda>out. bind (Move out msl) (\<lambda>_. ret (Inr (int (slen msl)))))) u)"
      proof (rule go_step, rule u, rule assms, rule does_gc_new [OF su], rule go_step, assumption, rule assms, rule does_slice(1),
            erule alters_D(1), rule alters_within [OF _ assms(2)], assumption, rule go_step, assumption, rule assms, rule does_Move,
            erule alters_D(1), assumption)
      qed (auto intro: alters_within does_Ret)
      then show ?thesis using Some by simp
    qed
  qed
  then show ?thesis using False by (simp add: Decrypt_def)
qed


lemma go_freeze:
  assumes "env_works E" and "alters E {} s0 t" and "sane E s0" and "handle t b" and "nbufs s0 \<le> b"
    and "\<And>u. alters E {} s0 u \<Longrightarrow> alters E {b} t u \<Longrightarrow> handle u b \<Longrightarrow> (own t b \<Longrightarrow> own u b) \<Longrightarrow> data (bufs u b) = data (bufs t b) \<Longrightarrow>
      does E id s0 R (f () u)"
  shows "does E id s0 R (bind (LockedBuffer_Freeze E b) f t)"
proof -
  note h = handle_change [OF assms(1) alters_D(1) [OF assms(2)] assms(4)]
  have "alters E {} s0 (frozen_state b t)" by (rule alters_trans [OF assms(2) h(2) assms(3)]) (use assms(5) in simp)
  then show ?thesis using h(1) assms(6) [OF _ h(2,3,4)] by (simp add: bind_def)
qed

lemma go_destroy:
  assumes "env_works E" and "alters E {} s0 t" and "sane E s0" and "handle t b" and "nbufs s0 \<le> b"
    and "\<And>u. alters E {} s0 u \<Longrightarrow> alters E {b} t u \<Longrightarrow> b < nbufs u \<Longrightarrow> bufs u b = zero_Buffer \<Longrightarrow> does E id s0 R (f () u)"
  shows "does E id s0 R (bind (LockedBuffer_Destroy E b) f t)"
proof -
  obtain u where u: "LockedBuffer_Destroy E b t = (Ret (), u)" "alters E {b} t u" "b < nbufs u" "bufs u b = zero_Buffer"
    by (rule handle_destroy [OF assms(1) alters_D(1) [OF assms(2)] assms(4)])
  have "alters E {} s0 u" by (rule alters_trans [OF assms(2) u(2) assms(3)]) (use assms(5) in simp)
  then show ?thesis using u assms(6) by (simp add: bind_def)
qed

lemma does_Open:
  assumes "env_works E" and "sane E s" and "int (slen (ciphertext e)) \<le> 2 ^ 62"
  shows "does E id s (\<lambda>r t. \<forall>b. r = Inr b \<longrightarrow> own t b \<and> nbufs s \<le> b \<and> int (slen (data (bufs t b))) + Overhead E = int (slen (ciphertext e))) (Open E e s)"
    (is "does E id s ?Q _")
proof -
  have n: "int (slen (ciphertext e)) - Overhead E \<le> 2 ^ 62" using assms(3) by (simp add: Overhead_def)
  show ?thesis
    unfolding Open_def
  proof (rule go_start, rule does_core_NewBuffer [OF assms(1,2) n])
    fix r :: "err + nat" and u assume u: "alters E {} s u" "\<forall>b. r = Inr b \<longrightarrow> nbufs s \<le> b \<and> own u b \<and> int (slen (data (bufs u b))) = int (slen (ciphertext e)) - Overhead E"
    note su = alters_D(1) [OF u(1)]
    show "does E id s ?Q ((case r of Inl _ \<Rightarrow> Panic E (PStr ''<memguard:core> ciphertext has invalid length'')
      | Inr b \<Rightarrow> bind (view_key E) (\<lambda>r. case r of Inl err \<Rightarrow> ret (Inl err)
        | Inr k \<Rightarrow> bind (Data k) (\<lambda>kd. bind (Data b) (\<lambda>bd. bind (Decrypt E (ciphertext e) kd bd) (\<lambda>r. case r of
            Inl err \<Rightarrow> ret (Inl err) | Inr _ \<Rightarrow> bind (Destroy E k) (\<lambda>_. ret (Inr b))))))) u)"
    proof (cases r)
      case (Inl err)
      then show ?thesis using go_last [OF u(1) assms(2) does_Panic [OF assms(1) su, where Q = "\<lambda>_ _. False"]] by simp
    next
      case (Inr b)
      have b: "nbufs s \<le> b" "own u b" "int (slen (data (bufs u b))) + Overhead E = int (slen (ciphertext e))" using u(2) Inr by auto
      have "does E id s ?Q (bind (view_key E) (\<lambda>r. case r of Inl err \<Rightarrow> ret (Inl err)
        | Inr k \<Rightarrow> bind (Data k) (\<lambda>kd. bind (Data b) (\<lambda>bd. bind (Decrypt E (ciphertext e) kd bd) (\<lambda>r. case r of
            Inl err \<Rightarrow> ret (Inl err) | Inr _ \<Rightarrow> bind (Destroy E k) (\<lambda>_. ret (Inr b)))))) u)"
      proof (rule go_step, rule u, rule assms, rule does_view_key [OF assms(1) su], elim exE conjE, hypsubst, unfold sum.case)
        fix w k assume w: "alters E {} s w" "alters E {} u w" and k: "own w k" "nbufs u \<le> k"
        note sw = alters_D(1) [OF w(1)]
        have bw: "own w b" "b \<noteq> k" "bufs w b = bufs u b" using alters_D(3,4) [OF w(2) b(2)] own_less [OF su b(2)] k(2) by auto
        have hw: "handle w b" "nbufs s \<le> k" using bw k(2) alters_D(2) [OF u(1)] by (simp_all add: handle_def)
        have "does E id s ?Q (bind (Decrypt E (ciphertext e) (data (bufs w k)) (data (bufs w b))) (\<lambda>r. case r of
            Inl err \<Rightarrow> ret (Inl err) | Inr _ \<Rightarrow> bind (Destroy E k) (\<lambda>_. ret (Inr b))) w)"
        proof (rule go_step, rule w, rule assms, rule does_Decrypt [OF sw handle_within [OF sw hw(1)]])
          fix r :: "err + int" and x assume x: "alters E {} s x" "alters E {} w x"
          have ow: "own x k" "own x b" "bufs x b = bufs u b" using alters_D(3,4) [OF x(2)] k(1) bw by simp_all
          show "does E id s ?Q ((case r of Inl err \<Rightarrow> ret (Inl err) | Inr _ \<Rightarrow> bind (Destroy E k) (\<lambda>_. ret (Inr b))) x)"
          proof (cases r)
            case (Inr m)
            have "does E id s ?Q (bind (LockedBuffer_Destroy E k) (\<lambda>_. ret (Inr b)) x)"
              by (rule go_destroy [OF assms(1) x(1) assms(2) _ hw(2)])
                (use ow bw b in \<open>auto simp: handle_def dest: alters_D(3,4) intro!: does_Ret\<close>)
            then show ?thesis using Inr by (simp add: LockedBuffer_Destroy_def)
          qed (use x(1) in \<open>simp add: does_Ret\<close>)
        qed
        then show "does E id s ?Q (bind (Data k) (\<lambda>kd. bind (Data b) (\<lambda>bd. bind (Decrypt E (ciphertext e) kd bd) (\<lambda>r. case r of
            Inl err \<Rightarrow> ret (Inl err) | Inr _ \<Rightarrow> bind (Destroy E k) (\<lambda>_. ret (Inr b))))) w)"
          by (simp add: Data_def get_buf_def bind_def exec)
      qed
      then show ?thesis using Inr by simp
    qed
  qed
qed

lemma does_Enclave_Open:
  assumes "env_works E" and "sane E s" and "int (slen (ciphertext e)) \<le> 2 ^ 62"
  shows "does E id s (\<lambda>r t. \<forall>b. r = Inr b \<longrightarrow> own t b \<and> nbufs s \<le> b \<and> int (slen (data (bufs t b))) + Overhead E = int (slen (ciphertext e))) (Enclave_Open E e s)"
    (is "does E id s ?Q _")
  unfolding Enclave_Open_def
proof (rule go_start, rule does_Open [OF assms])
  fix r :: "err + nat" and u assume u: "alters E {} s u" "?Q r u"
  show "does E id s ?Q ((case r of Inl err \<Rightarrow> if err \<noteq> ErrDecryptionFailed then Panic E (PErr err) else ret (Inl err)
      | Inr b \<Rightarrow> bind (Freeze E b) (\<lambda>_. ret (Inr b))) u)"
  proof (cases r)
    case (Inl err)
    then show ?thesis
      using go_last [OF u(1) assms(2) does_Panic [OF assms(1) alters_D(1) [OF u(1)], where Q = "\<lambda>_ _. False"]] u(1)
      by (auto simp: does_Ret)
  next
    case (Inr b)
    then have b: "own u b" "nbufs s \<le> b" "int (slen (data (bufs u b))) + Overhead E = int (slen (ciphertext e))" using u(2) by auto
    have "does E id s ?Q (bind (LockedBuffer_Freeze E b) (\<lambda>_. ret (Inr b)) u)"
      by (rule go_freeze [OF assms(1) u(1) assms(2) _ b(2)]) (use b in \<open>auto simp: handle_def intro!: does_Ret\<close>)
    then show ?thesis using Inr by (simp add: LockedBuffer_Freeze_def)
  qed
qed

subsection \<open>Constructors\<close>

lemma does_Size: "does E id s0 R (f (int (slen (data (bufs s b)))) s) \<Longrightarrow> does E id s0 R (bind (Size b) f s)"
  by (simp add: Size_def Bytes_def Data_def get_buf_def bind_def exec)

lemma does_NewBufferFromBytes:
  assumes "env_works E" and "sane E s" and "within s src" and "int (slen src) \<le> 2 ^ 62"
  shows "does E id s (\<lambda>b t. nbufs s \<le> b \<and> handle t b) (NewBufferFromBytes E src s)"
    (is "does E id s ?Q _")
  unfolding NewBufferFromBytes_def
proof (rule go_start, rule does_NewBuffer [OF assms(1,2,4)], rule does_Size, elim conjE)
  fix b u assume u: "alters E {} s u" and b: "nbufs s \<le> b" "made (int (slen src)) u b"
  note su = alters_D(1) [OF u]
  have "does E id s ?Q (bind (LockedBuffer_Move b src) (\<lambda>_. bind (LockedBuffer_Freeze E b) (\<lambda>_. ret b)) u)"
    unfolding LockedBuffer_Move_def
  proof (rule go_step, rule u, rule assms, rule does_MoveAt [OF su made_handle [OF b(2)] alters_within [OF u assms(3)]])
    fix w assume w: "alters E {} s w" "alters E {} u w"
    have "handle w b" using alters_handle [OF w(2) made_handle [OF b(2)]] by simp
    then show "does E id s ?Q (bind (LockedBuffer_Freeze E b) (\<lambda>_. ret b) w)"
      by (rule go_freeze [OF assms(1) w(1) assms(2) _ b(1)]) (rule does_return, use b(1) in simp_all)
  qed
  then show "does E id s ?Q ((if int (slen (data (bufs u b))) = 0 then ret b
      else bind (LockedBuffer_Move b src) (\<lambda>_. bind (LockedBuffer_Freeze E b) (\<lambda>_. ret b))) u)"
    using u b(1) made_handle [OF b(2)] by (simp add: does_Ret)
qed

lemma does_NewBufferRandom:
  assumes "env_works E" and "sane E s" and "n \<le> 2 ^ 62"
  shows "does E id s (\<lambda>b t. nbufs s \<le> b \<and> handle t b) (NewBufferRandom E n s)"
    (is "does E id s ?Q _")
  unfolding NewBufferRandom_def
proof (rule go_start, rule does_NewBuffer [OF assms], rule does_Size, elim conjE)
  fix b u assume u: "alters E {} s u" and b: "nbufs s \<le> b" "made n u b"
  note su = alters_D(1) [OF u]
  have "does E id s ?Q (bind (LockedBuffer_Scramble E b) (\<lambda>_. bind (LockedBuffer_Freeze E b) (\<lambda>_. ret b)) u)"
  proof (rule go_step, rule u, rule assms, rule does_Scramble_buffer [OF assms(1) su made_handle [OF b(2)]])
    fix w assume w: "alters E {} s w" "alters E {} u w"
    have "handle w b" using alters_handle [OF w(2) made_handle [OF b(2)]] by simp
    then show "does E id s ?Q (bind (LockedBuffer_Freeze E b) (\<lambda>_. ret b) w)"
      by (rule go_freeze [OF assms(1) w(1) assms(2) _ b(1)]) (rule does_return, use b(1) in simp_all)
  qed
  then show "does E id s ?Q ((if int (slen (data (bufs u b))) = 0 then ret b
      else bind (LockedBuffer_Scramble E b) (\<lambda>_. bind (LockedBuffer_Freeze E b) (\<lambda>_. ret b))) u)"
    using u b(1) made_handle [OF b(2)] by (simp add: does_Ret)
qed

lemma does_NewEnclaveRandom:
  assumes "env_works E" and "sane E s" and "n \<le> 2 ^ 62"
  shows "does E id s (\<lambda>_ _. True) (NewEnclaveRandom E n s)"
  unfolding NewEnclaveRandom_def
proof (rule go_start, rule does_NewBufferRandom [OF assms])
  fix b u assume "alters E {} s u" "nbufs s \<le> b \<and> handle u b"
  then show "does E id s (\<lambda>_ _. True) (LockedBuffer_Seal E b u)"
    by (intro does_mono [OF does_Seal [OF assms(1) _ assms(2)]]) simp_all
qed


end
