(* ===== verification/Reader_Calls.thy ===== *)
theory Reader_Calls
  imports Calls
begin

text \<open>
  The calls that work with a reader, the constructors of \<^verbatim>\<open>buffer.go\<close> and the methods of a \<^verbatim>\<open>Stream\<close>, under the judgement of
  theory \<open>Calls\<close>: for every reader that keeps the session and returns a length that fits, and for streams with any contents.
\<close>

subsection \<open>Readers\<close>

text \<open>
  A reader that leaves the buffers that exist alone and says truthfully how much it has read; \<open>I\<close> is an invariant of its own state.
\<close>

definition tame_reader :: "env \<Rightarrow> ('r \<Rightarrow> bool) \<Rightarrow> 'r reader \<Rightarrow> bool" where
  "tame_reader E I rd \<longleftrightarrow> (\<forall>r s p. sane E s \<and> I r \<and> within s p \<longrightarrow>
     does E snd s (\<lambda>(n, e) u. I (fst u) \<and> 0 \<le> n \<and> n \<le> int (slen p)) (rd p (r, s)))"

lemma rd_go:
  assumes "does E id s0 Q (m t)" and "\<And>v u. alters E {} s0 u \<Longrightarrow> Q v u \<Longrightarrow> does E snd s0 R (f v (r, u))"
  shows "does E snd s0 R (bind (on_world m) f (r, t))"
  by (rule does_bind, rule does_on_world, rule assms(1)) (use assms(2) in auto)

lemma rd_step:
  assumes "alters E {} s0 t" and "sane E s0" and "does E id t Q (m t)"
    and "\<And>v u. alters E {} s0 u \<Longrightarrow> alters E {} t u \<Longrightarrow> Q v u \<Longrightarrow> does E snd s0 R (f v (r, u))"
  shows "does E snd s0 R (bind (on_world m) f (r, t))"
  by (rule rd_go, rule does_shift, rule assms, rule assms, rule assms) (use assms(4) in auto)

lemma rd_run:
  assumes "m t = (Ret v, t)" and "does E snd s0 R (f v (r, t))"
  shows "does E snd s0 R (bind (on_world m) f (r, t))"
  using assms by (simp add: bind_def exec)

lemma rd_read:
  assumes "alters E {} s0 t" and "sane E s0" and "tame_reader E I rd" and "I r" and "within t p"
    and "\<And>n e r' u. alters E {} s0 u \<Longrightarrow> alters E {} t u \<Longrightarrow> I r' \<Longrightarrow> 0 \<le> n \<Longrightarrow> n \<le> int (slen p) \<Longrightarrow> does E snd s0 R (f (n, e) (r', u))"
  shows "does E snd s0 R (bind (rd p) f (r, t))"
proof -
  have "does E snd t (\<lambda>(n, e) u. I (fst u) \<and> 0 \<le> n \<and> n \<le> int (slen p)) (rd p (r, t))"
    using assms(3-5) alters_D(1) [OF assms(1)] by (simp add: tame_reader_def)
  from does_shift [OF assms(1) this assms(2)] show ?thesis
    by (rule does_bind) (use assms(6) in auto)
qed

lemma rd_return: "alters E {} s u \<Longrightarrow> Q v (r, u) \<Longrightarrow> does E snd s Q (ret v (r, u))"
  by (simp add: does_Ret)

text \<open>Slices and their lengths; a bad index panics.\<close>

lemma rd_slice:
  assumes "alters E {} s0 t" and "within t sl"
    and "\<And>p. within t p \<Longrightarrow> 0 \<le> i \<Longrightarrow> i \<le> int (slen sl) \<Longrightarrow> int (slen p) = int (slen sl) - i \<Longrightarrow> does E snd s0 R (f p (r, t))"
  shows "does E snd s0 R (bind (on_world (slice_from sl i)) f (r, t))"
proof (cases "slice_from sl i t")
  case (Pair v u)
  then have "u = t" using slice_look(2) [of sl i t] by simp
  show ?thesis
  proof (cases v)
    case (Ret p)
    have "0 \<le> i \<and> i \<le> int (slen sl) \<and> int (slen p) = int (slen sl) - i"
      using Pair Ret by (cases sl) (auto split: if_splits)
    then show ?thesis using assms(3) within_from [OF assms(2)] Pair Ret \<open>u = t\<close> by (simp add: bind_def on_world_def)
  next
    case (Panicked q)
    then show ?thesis using Pair \<open>u = t\<close> alters_rests [OF assms(1)] by (simp add: bind_def on_world_def does_panic)
  qed (use Pair in \<open>simp_all add: bind_def on_world_def does_stuck\<close>)
qed

lemma rd_range:
  assumes "alters E {} s0 t" and "within t sl"
    and "\<And>p. within t p \<Longrightarrow> int (slen p) = j - i \<Longrightarrow> does E snd s0 R (f p (r, t))"
  shows "does E snd s0 R (bind (on_world (slice_range sl i j)) f (r, t))"
proof (cases "slice_upto sl j t")
  case (Pair v u)
  then have "u = t" using slice_look(1) [of sl j t] by simp
  show ?thesis
  proof (cases v)
    case (Ret q)
    have q: "within t q" "int (slen q) = j"
      using within_upto [OF assms(2)] Pair Ret \<open>u = t\<close> by (cases sl; auto split: if_splits)+
    have "does E snd s0 R (bind (on_world (slice_from q i)) f (r, t))"
      by (rule rd_slice [OF assms(1) q(1)]) (use assms(3) q(2) in simp)
    moreover have "slice_range sl i j t = slice_from q i t" using Pair Ret \<open>u = t\<close> by (simp add: slice_range_def bind_def)
    ultimately show ?thesis by (simp add: bind_def on_world_def)
  next
    case (Panicked q)
    then show ?thesis using Pair \<open>u = t\<close> alters_rests [OF assms(1)] by (simp add: bind_def on_world_def does_panic slice_range_def)
  qed (use Pair in \<open>simp_all add: bind_def on_world_def does_stuck slice_range_def\<close>)
qed

lemma rd_Bytes: "does E snd s0 R (f (data (bufs t b)) (r, t)) \<Longrightarrow> does E snd s0 R (bind (on_world (Bytes b)) f (r, t))"
  by (rule rd_run) (simp_all add: Bytes_def Data_def get_buf_def bind_def exec)

lemma rd_Size: "does E snd s0 R (f (int (slen (data (bufs t b)))) (r, t)) \<Longrightarrow> does E snd s0 R (bind (on_world (Size b)) f (r, t))"
  by (rule rd_run) (simp_all add: Size_def Bytes_def Data_def get_buf_def bind_def exec)

text \<open>A new buffer stays what it is while others change.\<close>

lemma made_alters: "made n t d \<Longrightarrow> alters E M t u \<Longrightarrow> d \<notin> M \<Longrightarrow> made n u d"
  by (auto simp: made_def alters_def split: if_splits)

lemma made_size: "made n t d \<Longrightarrow> 0 \<le> n \<Longrightarrow> int (slen (data (bufs t d))) = n"
  by (auto simp: made_def zero_Buffer_def split: if_splits)

subsection \<open>The helpers of the constructors\<close>

lemma does_take_data:
  assumes "env_works E" and "alters E {} s0 t" and "sane E s0" and "handle t b" and "nbufs s0 \<le> b" and "n \<le> 2 ^ 62"
  shows "does E id s0 (\<lambda>_ _. True) (take_data E b n t)"
  unfolding take_data_def
proof (rule go_step, rule assms, rule assms, rule does_NewBuffer [OF assms(1) alters_D(1) [OF assms(2)] assms(6)], rule does_Bytes,
    rule go_step, assumption, rule assms, rule does_look_id, erule alters_D(1), rule slice_look, hypsubst, elim conjE)
  fix d u p assume u: "alters E {} s0 u" "alters E {} t u" and d: "nbufs t \<le> d" "made n u d"
  have h: "handle u d" "handle u b" "d \<noteq> b" "nbufs s0 \<le> d"
    using made_handle [OF d(2)] alters_handle [OF u(2) assms(4)] handle_less [OF alters_D(1) [OF assms(2)] assms(4)] d(1) alters_D(2) [OF assms(2)]
    by auto
  show "does E id s0 (\<lambda>_ _. True) (bind (LockedBuffer_Copy d p) (\<lambda>_. bind (LockedBuffer_Freeze E d) (\<lambda>_. bind (LockedBuffer_Destroy E b) (\<lambda>_. ret d))) u)"
    unfolding LockedBuffer_Copy_def
  proof (rule go_step, rule u, rule assms, rule does_CopyAt [OF alters_D(1) [OF u(1)] h(1)])
    fix v w assume w: "alters E {} s0 w" "alters E {} u w"
    have hw: "handle w d" "handle w b" using alters_handle [OF w(2)] h by simp_all
    show "does E id s0 (\<lambda>_ _. True) (bind (LockedBuffer_Freeze E d) (\<lambda>_. bind (LockedBuffer_Destroy E b) (\<lambda>_. ret d)) w)"
    proof (rule go_freeze [OF assms(1) w(1) assms(3) hw(1) h(4)])
      fix x assume x: "alters E {} s0 x" "alters E {d} w x"
      have "handle x b" using alters_handle [OF x(2) hw(2)] h(3) by simp
      then show "does E id s0 (\<lambda>_ _. True) (bind (LockedBuffer_Destroy E b) (\<lambda>_. ret d) x)"
        by (rule go_destroy [OF assms(1) x(1) assms(3) _ assms(5)]) (simp add: does_Ret)
    qed
  qed
qed

lemma does_no_data:
  assumes "env_works E" and "alters E {} s0 t" and "sane E s0" and "handle t b" and "nbufs s0 \<le> b"
  shows "does E id s0 (\<lambda>_ _. True) (no_data E b t)"
  unfolding no_data_def
proof (rule go_destroy [OF assms])
  fix u assume u: "alters E {} s0 u"
  show "does E id s0 (\<lambda>_ _. True) (newNullBuffer u)"
    by (rule go_last [OF u assms(3) does_newNullBuffer [OF alters_D(1) [OF u]]]) simp
qed

lemma does_grow:
  assumes "env_works E" and "alters E {} s0 t" and "sane E s0" and "handle t b" and "nbufs s0 \<le> b"
    and "int (slen (data (bufs t b))) + int (pageSize E) \<le> 2 ^ 62"
  shows "does E id s0 (\<lambda>d u. nbufs s0 \<le> d \<and> made (int (slen (data (bufs t b))) + int (pageSize E)) u d) (grow E b t)"
    (is "does E id s0 ?Q _")
  unfolding grow_def
proof (rule does_Size, rule go_step, rule assms, rule assms, rule does_NewBuffer [OF assms(1) alters_D(1) [OF assms(2)] assms(6)],
    rule does_Bytes, elim conjE)
  fix d u assume u: "alters E {} s0 u" "alters E {} t u" and d: "nbufs t \<le> d" "made (int (slen (data (bufs t b))) + int (pageSize E)) u d"
  have h: "handle u d" "handle u b" "d \<noteq> b" "nbufs s0 \<le> d"
    using made_handle [OF d(2)] alters_handle [OF u(2) assms(4)] handle_less [OF alters_D(1) [OF assms(2)] assms(4)] d(1) alters_D(2) [OF assms(2)]
    by auto
  show "does E id s0 ?Q (bind (LockedBuffer_Copy d (data (bufs u b))) (\<lambda>_. bind (LockedBuffer_Destroy E b) (\<lambda>_. ret d)) u)"
    unfolding LockedBuffer_Copy_def
  proof (rule go_step, rule u, rule assms, rule does_CopyAt [OF alters_D(1) [OF u(1)] h(1)])
    fix v w assume w: "alters E {} s0 w" "alters E {} u w"
    have hw: "handle w b" "made (int (slen (data (bufs t b))) + int (pageSize E)) w d"
      using alters_handle [OF w(2) h(2)] made_alters [OF d(2) w(2)] by simp_all
    show "does E id s0 ?Q (bind (LockedBuffer_Destroy E b) (\<lambda>_. ret d) w)"
      by (rule go_destroy [OF assms(1) w(1) assms(3) hw(1) assms(5)], rule does_return)
        (use made_alters [OF hw(2)] h(3,4) in auto)
  qed
qed

subsection \<open>The constructors\<close>

lemma does_read_full_loop:
  assumes "tame_reader E I rd" and "alters E {} s0 t" and "sane E s0" and "within t buf" and "I r" and "0 \<le> n" and "n \<le> int (slen buf)"
  shows "does E snd s0 (\<lambda>(n, e) u. I (fst u) \<and> 0 \<le> n \<and> n \<le> int (slen buf)) (read_full_loop rd fuel buf n err (r, t))"
  using assms(2,4-7)
proof (induction fuel arbitrary: r t n err)
  case 0
  then show ?case by (simp add: unfinished_def does_stuck)
next
  case (Suc fuel)
  note p = Suc.prems
  show ?case
  proof (cases "n < int (slen buf) \<and> err = None")
    case True
    have "does E snd s0 (\<lambda>(n, e) u. I (fst u) \<and> 0 \<le> n \<and> n \<le> int (slen buf))
       (bind (on_world (slice_from buf n)) (\<lambda>p. bind (rd p) (\<lambda>(nn, e). read_full_loop rd fuel buf (n + nn) e)) (r, t))"
    proof (rule rd_slice [OF p(1,2)], rule rd_read [OF p(1) assms(3,1) p(3)], assumption, unfold prod.case)
      fix sl m e r' u
      assume "int (slen sl) = int (slen buf) - n" and u: "alters E {} s0 u" "alters E {} t u" "I r'" "0 \<le> m" "m \<le> int (slen sl)"
      then show "does E snd s0 (\<lambda>(n, e) u. I (fst u) \<and> 0 \<le> n \<and> n \<le> int (slen buf)) (read_full_loop rd fuel buf (n + m) e (r', u))"
        using p(4) by (intro Suc.IH [OF u(1) alters_within [OF u(2) p(2)] u(3)]) simp_all
    qed
    then show ?thesis using True by simp
  next
    case False
    then have "read_full_loop rd (Suc fuel) buf n err (r, t) = (Ret (n, err), (r, t))" by auto
    then show ?thesis using p by (simp only:) (rule does_Ret, simp_all)
  qed
qed

lemma does_ReadFull:
  assumes "tame_reader E I rd" and "alters E {} s0 t" and "sane E s0" and "within t buf" and "I r"
  shows "does E snd s0 (\<lambda>(n, e) u. I (fst u) \<and> 0 \<le> n \<and> n \<le> int (slen buf)) (io_ReadFull rd fuel buf (r, t))"
  unfolding io_ReadFull_def
  by (rule does_bind, rule does_read_full_loop [OF assms]) (auto simp: does_Ret)

lemma rd_full:
  assumes "alters E {} s0 t" and "sane E s0" and "tame_reader E I rd" and "I r" and "within t p"
    and "\<And>n e r' u. alters E {} s0 u \<Longrightarrow> alters E {} t u \<Longrightarrow> I r' \<Longrightarrow> 0 \<le> n \<Longrightarrow> n \<le> int (slen p) \<Longrightarrow> does E snd s0 R (f (n, e) (r', u))"
  shows "does E snd s0 R (bind (io_ReadFull rd fuel p) f (r, t))"
proof -
  have "does E snd t (\<lambda>(n, e) u. I (fst u) \<and> 0 \<le> n \<and> n \<le> int (slen p)) (io_ReadFull rd fuel p (r, t))"
    by (rule does_ReadFull [OF assms(3) alters_refl _ assms(5,4)]) (rule alters_D(1) [OF assms(1)])+
  from does_shift [OF assms(1) this assms(2)] show ?thesis
    by (rule does_bind) (use assms(6) in auto)
qed

text \<open>What the constructors do with the data read so far.\<close>

lemma rd_ends:
  assumes "env_works E" and "alters E {} s t" and "sane E s" and "handle t b" and "nbufs s \<le> b" and "k \<le> 2 ^ 62"
  shows "does E snd s (\<lambda>_ _. True) (bind (on_world (no_data E b)) (\<lambda>d. ret (d, e)) (r, t))"
    and "does E snd s (\<lambda>_ _. True) (bind (on_world (take_data E b k)) (\<lambda>d. ret (d, e)) (r, t))"
  by (rule rd_go, rule does_no_data [OF assms(1-5)] does_take_data [OF assms]; simp add: does_Ret)+

lemma does_NewBufferFromReader:
  assumes "env_works E" and "tame_reader E I rd" and "sane E s" and "I r" and "n \<le> 2 ^ 62"
  shows "does E snd s (\<lambda>_ _. True) (NewBufferFromReader E rd fuel n (r, s))"
  unfolding NewBufferFromReader_def
proof (rule rd_go, rule does_NewBuffer [OF assms(1,3,5)], rule rd_Size, elim conjE)
  fix b t assume t: "alters E {} s t" and b: "nbufs s \<le> b" "made n t b"
  have size: "int (slen (data (bufs t b))) \<le> 2 ^ 62" using made_size [OF b(2)] b(2) assms(5) by (cases "n < 1") (auto simp: made_def zero_Buffer_def)
  let ?next = "\<lambda>(n, err). case err of
         Some e \<Rightarrow>
           if n = 0 then bind (on_world (no_data E b)) (\<lambda>d. ret (d, Some e))
           else bind (on_world (take_data E b n)) (\<lambda>d. ret (d, Some e))
       | None \<Rightarrow> bind (on_world (LockedBuffer_Freeze E b)) (\<lambda>_. ret (b, None))"
  have "does E snd s (\<lambda>_ _. True) (bind (on_world (Bytes b)) (\<lambda>bs. bind (io_ReadFull rd fuel bs) ?next) (r, t))"
  proof (rule rd_Bytes, rule rd_full [OF t assms(3,2,4) handle_within [OF alters_D(1) [OF t] made_handle [OF b(2)]]])
    fix k e r' u assume u: "alters E {} s u" "alters E {} t u" and k: "0 \<le> k" "k \<le> int (slen (data (bufs t b)))"
    have h: "handle u b" using alters_handle [OF u(2) made_handle [OF b(2)]] by simp
    have small: "k \<le> 2 ^ 62" using k(2) size by simp
    note ends = rd_ends [OF assms(1) u(1) assms(3) h b(1) small]
    have "does E snd s (\<lambda>_ _. True) (bind (on_world (LockedBuffer_Freeze E b)) (\<lambda>_. ret (b, None)) (r', u))"
    proof -
      have "does E id s (\<lambda>_ _. True) (bind (LockedBuffer_Freeze E b) (\<lambda>_. ret ()) u)"
        by (rule go_freeze [OF assms(1) u(1) assms(3) h b(1)]) (simp add: does_Ret)
      then show ?thesis
        using handle_change(1) [OF assms(1) alters_D(1) [OF u(1)] h] by (simp add: bind_def on_world_def does_def)
    qed
    then show "does E snd s (\<lambda>_ _. True) (?next (k, e) (r', u))" using ends by (auto split: option.split)
  qed
  then show "does E snd s (\<lambda>_ _. True) ((if int (slen (data (bufs t b))) = 0 then ret (b, None)
      else bind (on_world (Bytes b)) (\<lambda>bs. bind (io_ReadFull rd fuel bs) ?next)) (r, t))"
    using t by (simp add: does_Ret)
qed

text \<open>A buffer that is full grows by a page.\<close>

lemma does_more:
  assumes "env_works E" and "alters E {} s0 t" and "sane E s0" and "made k t b" and "nbufs s0 \<le> b" and "0 \<le> k" and "k + int (pageSize E) \<le> 2 ^ 62"
  shows "does E id s0 (\<lambda>d u. nbufs s0 \<le> d \<and> made (if full then k + int (pageSize E) else k) u d) ((if full then grow E b else ret b) t)"
proof (cases full)
  case True
  have k: "int (slen (data (bufs t b))) = k" by (rule made_size [OF assms(4,6)])
  have "int (slen (data (bufs t b))) + int (pageSize E) \<le> 2 ^ 62" using assms(7) k by simp
  from does_grow [OF assms(1-3) made_handle [OF assms(4)] assms(5) this] show ?thesis using True k by simp
next
  case False
  then show ?thesis using assms(2,4,5) by (simp add: does_Ret)
qed

lemma does_until_loop:
  assumes "env_works E" and "tame_reader E I rd" and "sane E s0" and "alters E {} s0 t" and "I r" and "made k t b" and "nbufs s0 \<le> b"
    and "int i \<le> k" and "k + int fuel * int (pageSize E) \<le> 2 ^ 62"
  shows "does E snd s0 (\<lambda>_ _. True) (until_loop E rd delim fuel b i (r, t))"
  using assms(4-9)
proof (induction fuel arbitrary: r t k b i)
  case 0
  then show ?case by (simp add: unfinished_def does_stuck)
next
  case (Suc fuel)
  note p = Suc.prems
  have page: "0 < int (pageSize E)" using env_works_D(7) [OF assms(1)] by (auto simp: page_ok_def)
  have f: "0 \<le> int fuel * int (pageSize E)" "int (Suc fuel) * int (pageSize E) = int (pageSize E) + int fuel * int (pageSize E)"
    by (simp_all add: algebra_simps)
  have k: "0 \<le> k" "k + int (pageSize E) \<le> 2 ^ 62" using p(5,6) f by linarith+
  have size: "int (slen (data (bufs t b))) = k" by (rule made_size [OF p(3) k(1)])
  let ?k = "if int i = int (slen (data (bufs t b))) then k + int (pageSize E) else k"
  have i: "int i < ?k" "0 \<le> ?k" "?k + int fuel * int (pageSize E) \<le> 2 ^ 62" "?k \<le> 2 ^ 62"
    using p(5,6) size page f k by (auto split: if_splits)
  have small: "int i \<le> 2 ^ 62" using i by linarith
  show ?case
    unfolding until_loop.simps
  proof (rule rd_Size, rule rd_go, rule does_more [OF assms(1) p(1) assms(3) p(3,4) k], elim conjE, rule rd_Bytes)
    fix d u assume u: "alters E {} s0 u" and d: "nbufs s0 \<le> d" "made ?k u d"
    note wd = handle_within [OF alters_D(1) [OF u] made_handle [OF d(2)]]
    show "does E snd s0 (\<lambda>_ _. True) (bind (on_world (slice_range (data (bufs u d)) (int i) (int i + 1))) (\<lambda>p. bind (rd p) (\<lambda>(n, err).
       if n \<noteq> 1 then
         (case err of
            None \<Rightarrow> until_loop E rd delim fuel d i
          | Some e \<Rightarrow>
              if i = 0 then bind (on_world (no_data E d)) (\<lambda>d. ret (d, Some e))
              else bind (on_world (take_data E d (int i))) (\<lambda>d. ret (d, Some e)))
       else
         bind (on_world (Bytes d)) (\<lambda>bs.
         bind (on_world (idx_get bs i)) (\<lambda>v.
         if v = delim then
           (if i = 0 then bind (on_world (no_data E d)) (\<lambda>d. ret (d, None))
            else bind (on_world (take_data E d (int i))) (\<lambda>d. ret (d, None)))
         else until_loop E rd delim fuel d (Suc i))))) (r, u))"
    proof (rule rd_range [OF u wd], rule rd_read [OF u assms(3,2) p(2)], assumption, unfold prod.case)
      fix sl n e r' w assume w: "alters E {} s0 w" "alters E {} u w" "I r'"
      have dw: "made ?k w d" by (rule made_alters [OF d(2) w(2)]) simp
      note hw = made_handle [OF dw]
      note ends = rd_ends [OF assms(1) w(1) assms(3) hw d(1) small]
      have again: "does E snd s0 (\<lambda>_ _. True) (until_loop E rd delim fuel d i (r', w))"
          "does E snd s0 (\<lambda>_ _. True) (until_loop E rd delim fuel d (Suc i) (r', w))"
        by (rule Suc.IH [OF w(1,3) dw d(1) _ i(3)]; use i(1) in linarith)+
      have "does E snd s0 (\<lambda>_ _. True) (bind (on_world (Bytes d)) (\<lambda>bs. bind (on_world (idx_get bs i)) (\<lambda>v.
         if v = delim then
           (if i = 0 then bind (on_world (no_data E d)) (\<lambda>d. ret (d, None))
            else bind (on_world (take_data E d (int i))) (\<lambda>d. ret (d, None)))
         else until_loop E rd delim fuel d (Suc i))) (r', w))"
        by (rule rd_Bytes, rule rd_step, rule w, rule assms, rule does_look_id, rule alters_D(1), rule w, rule slice_look)
          (use ends again in auto)
      then show "does E snd s0 (\<lambda>_ _. True) ((if n \<noteq> 1 then
         (case e of
            None \<Rightarrow> until_loop E rd delim fuel d i
          | Some e \<Rightarrow>
              if i = 0 then bind (on_world (no_data E d)) (\<lambda>d. ret (d, Some e))
              else bind (on_world (take_data E d (int i))) (\<lambda>d. ret (d, Some e)))
       else
         bind (on_world (Bytes d)) (\<lambda>bs.
         bind (on_world (idx_get bs i)) (\<lambda>v.
         if v = delim then
           (if i = 0 then bind (on_world (no_data E d)) (\<lambda>d. ret (d, None))
            else bind (on_world (take_data E d (int i))) (\<lambda>d. ret (d, None)))
         else until_loop E rd delim fuel d (Suc i)))) (r', w))"
        using ends again by (auto split: option.split)
    qed
  qed
qed

lemma does_NewBufferFromReaderUntil:
  assumes "env_works E" and "tame_reader E I rd" and "sane E s" and "I r" and "int (Suc fuel) * int (pageSize E) \<le> 2 ^ 62"
  shows "does E snd s (\<lambda>_ _. True) (NewBufferFromReaderUntil E rd fuel delim (r, s))"
proof -
  have f: "0 \<le> int fuel * int (pageSize E)" "int (pageSize E) + int fuel * int (pageSize E) \<le> 2 ^ 62"
    using assms(5) by (simp_all add: algebra_simps)
  then have n: "int (pageSize E) \<le> 2 ^ 62" by linarith
  show ?thesis
    unfolding NewBufferFromReaderUntil_def
    by (rule rd_go, rule does_NewBuffer [OF assms(1,3) n], elim conjE, rule does_until_loop [OF assms(1,2,3) _ assms(4)])
      (use f(2) in auto)
qed

lemma does_entire_loop:
  assumes "env_works E" and "tame_reader E I rd" and "sane E s0" and "alters E {} s0 t" and "I r" and "made k t b" and "nbufs s0 \<le> b"
    and "0 \<le> k" and "0 \<le> n" and "n \<le> k" and "k + int fuel * int (pageSize E) \<le> 2 ^ 62"
  shows "does E snd s0 (\<lambda>_ _. True) (entire_loop E rd fuel b n (r, t))"
  using assms(4-11)
proof (induction fuel arbitrary: r t k b n)
  case 0
  then show ?case by (simp add: unfinished_def does_stuck)
next
  case (Suc fuel)
  note p = Suc.prems
  have f: "0 \<le> int fuel * int (pageSize E)" "int (Suc fuel) * int (pageSize E) = int (pageSize E) + int fuel * int (pageSize E)"
    by (simp_all add: algebra_simps)
  have k: "k + int (pageSize E) \<le> 2 ^ 62" "k \<le> 2 ^ 62" "k + int fuel * int (pageSize E) \<le> 2 ^ 62" using p(8) f by linarith+
  have size: "int (slen (data (bufs t b))) = k" by (rule made_size [OF p(3,5)])
  note wb = handle_within [OF alters_D(1) [OF p(1)] made_handle [OF p(3)]]
  show ?case
    unfolding entire_loop.simps Let_def
  proof (rule rd_Bytes, rule rd_slice [OF p(1) wb], rule rd_read [OF p(1) assms(3,2) p(2)], assumption, unfold prod.case size)
    fix sl m e r' w assume sl: "int (slen sl) = k - n" and w: "alters E {} s0 w" "alters E {} t w" "I r'" and m: "0 \<le> m" "m \<le> int (slen sl)"
    have bw: "made k w b" by (rule made_alters [OF p(3) w(2)]) simp
    have size': "int (slen (data (bufs w b))) = k" by (rule made_size [OF bw p(5)])
    have q: "0 \<le> n + m" "n + m \<le> k" "n + m \<le> 2 ^ 62" using m sl p(6) k(2) by linarith+
    note ends = rd_ends [OF assms(1) w(1) assms(3) made_handle [OF bw] p(4) q(3)]
    have again: "does E snd s0 (\<lambda>_ _. True) (entire_loop E rd fuel b n (r', w))"
      by (rule Suc.IH [OF w(1,3) bw p(4-7) k(3)])
    have "does E snd s0 (\<lambda>_ _. True) (bind (on_world (Bytes b)) (\<lambda>bs. bind (on_world (slice_from bs (n + m))) (\<lambda>p.
        bind (on_world (if slen p = 0 then grow E b else ret b)) (\<lambda>b. entire_loop E rd fuel b (n + m)))) (r', w))"
    proof (rule rd_Bytes, rule rd_slice [OF w(1) handle_within [OF alters_D(1) [OF w(1)] made_handle [OF bw]]])
      fix sl'
      show "does E snd s0 (\<lambda>_ _. True) (bind (on_world (if slen sl' = 0 then grow E b else ret b)) (\<lambda>b. entire_loop E rd fuel b (n + m)) (r', w))"
      proof (rule rd_go, rule does_more [OF assms(1) w(1) assms(3) bw p(4,5) k(1)], elim conjE)
        fix d u assume u: "alters E {} s0 u" "nbufs s0 \<le> d" "made (if slen sl' = 0 then k + int (pageSize E) else k) u d"
        have fits: "0 \<le> (if slen sl' = 0 then k + int (pageSize E) else k)" "n + m \<le> (if slen sl' = 0 then k + int (pageSize E) else k)"
            "(if slen sl' = 0 then k + int (pageSize E) else k) + int fuel * int (pageSize E) \<le> 2 ^ 62"
          using p(5,8) q(2) f by (simp_all split: if_splits)
        show "does E snd s0 (\<lambda>_ _. True) (entire_loop E rd fuel d (n + m) (r', u))"
          by (rule Suc.IH [OF u(1) w(3) u(3,2) fits(1) q(1) fits(2,3)])
      qed
    qed
    then show "does E snd s0 (\<lambda>_ _. True) ((if m = 0 \<and> e = None then entire_loop E rd fuel b n
       else case e of
         Some e \<Rightarrow>
           (if n + m = 0 then bind (on_world (no_data E b)) (\<lambda>d. ret (d, if e = EOF then None else Some e))
            else bind (on_world (take_data E b (n + m))) (\<lambda>d. ret (d, if e = EOF then None else Some e)))
       | None \<Rightarrow>
           bind (on_world (Bytes b)) (\<lambda>bs. bind (on_world (slice_from bs (n + m))) (\<lambda>p.
           bind (on_world (if slen p = 0 then grow E b else ret b)) (\<lambda>b. entire_loop E rd fuel b (n + m))))) (r', w))"
      using ends again by (auto split: option.split)
  qed
qed

lemma does_NewBufferFromEntireReader:
  assumes "env_works E" and "tame_reader E I rd" and "sane E s" and "I r" and "int (Suc fuel) * int (pageSize E) \<le> 2 ^ 62"
  shows "does E snd s (\<lambda>_ _. True) (NewBufferFromEntireReader E rd fuel (r, s))"
proof -
  have f: "0 \<le> int fuel * int (pageSize E)" "int (pageSize E) + int fuel * int (pageSize E) \<le> 2 ^ 62"
    using assms(5) by (simp_all add: algebra_simps)
  then have n: "int (pageSize E) \<le> 2 ^ 62" by linarith
  show ?thesis
    unfolding NewBufferFromEntireReader_def
    by (rule rd_go, rule does_NewBuffer [OF assms(1,3) n], elim conjE, rule does_entire_loop [OF assms(1,2,3) _ assms(4)])
      (use f(2) in auto)
qed

subsection \<open>bytes.Reader\<close>

lemma rd_gets: "does E snd s0 R (f (g (r, t)) (r, t)) \<Longrightarrow> does E snd s0 R (bind (gets g) f (r, t))"
  by simp

lemma go_upto:
  assumes "sane E s" and "\<And>p. (within s sl \<Longrightarrow> within s p) \<Longrightarrow> int (slen p) = j \<Longrightarrow> does E id s R (f p s)"
  shows "does E id s R (bind (slice_upto sl j) f s)"
proof (cases "slice_upto sl j s")
  case (Pair v u)
  then have "u = s" using slice_look(1) [of sl j s] by simp
  show ?thesis
  proof (cases v)
    case (Ret p)
    have "int (slen p) = j" using Pair Ret by (cases sl) (auto split: if_splits)
    then show ?thesis using assms(2) within_upto [of s sl j p s] Pair Ret \<open>u = s\<close> by (simp add: bind_def)
  next
    case (Panicked x)
    then show ?thesis using Pair \<open>u = s\<close> alters_rests [OF alters_refl [OF assms(1)]] by (simp add: bind_def does_panic)
  qed (use Pair in \<open>simp_all add: bind_def does_stuck\<close>)
qed

lemma does_go_copy:
  assumes "sane E s" and "within s dst"
  shows "does E id s (\<lambda>n _. 0 \<le> n \<and> n \<le> int (slen dst)) (go_copy dst src s)"
proof -
  define n where "n = int (min (slen dst) (slen src))"
  have n: "0 \<le> n" "n \<le> int (slen dst)" by (simp_all add: n_def)
  have "does E id s (\<lambda>n _. 0 \<le> n \<and> n \<le> int (slen dst))
      (bind (slice_upto src n) (\<lambda>p. bind (read_all p) (\<lambda>bs. bind (slice_upto dst n) (\<lambda>q. bind (write_all q bs) (\<lambda>_. ret n)))) s)"
  proof (rule go_upto [OF assms(1)], rule go_read, rule go_upto [OF assms(1)])
    fix p q and bs :: "byte list"
    assume "int (slen p) = n" "length bs = slen p" "within s dst \<Longrightarrow> within s q" "int (slen q) = n"
    then show "does E id s (\<lambda>n _. 0 \<le> n \<and> n \<le> int (slen dst)) (bind (write_all q bs) (\<lambda>_. ret n) s)"
      using does_write_all [OF assms(1), of q bs] assms(2) n by (simp add: does_def bind_def split: prod.splits outcome.splits)
  qed
  then show ?thesis by (simp add: go_copy_def Let_def n_def)
qed

text \<open>The reader of package \<^verbatim>\<open>bytes\<close>, on any slice.\<close>

lemma bytes_Read_tame: "tame_reader E (\<lambda>r. True) bytes_Read"
  unfolding tame_reader_def
proof (intro allI impI, elim conjE)
  fix r s p assume s: "sane E s" "within s p"
  show "does E snd s (\<lambda>(n, e) u. True \<and> 0 \<le> n \<and> n \<le> int (slen p)) (bytes_Read p (r, s))"
    unfolding bytes_Read_def
  proof (rule rd_gets)
    have "does E snd s (\<lambda>(n, e) u. True \<and> 0 \<le> n \<and> n \<le> int (slen p)) (bind (on_world (slice_from (rs r) (ri r))) (\<lambda>src.
       bind (on_world (go_copy p src)) (\<lambda>n. bind (modify (\<lambda>(r, s). (r\<lparr>ri := ri r + n\<rparr>, s))) (\<lambda>_. ret (n, None :: err option)))) (r, s))"
      by (rule rd_go, rule does_look_id [OF s(1)], rule slice_look, hypsubst, rule rd_go, rule does_go_copy [OF s]) (simp add: does_Ret)
    then show "does E snd s (\<lambda>(n, e) u. True \<and> 0 \<le> n \<and> n \<le> int (slen p)) ((if int (slen (rs (fst (r, s)))) \<le> ri (fst (r, s)) then ret (0, Some EOF)
     else bind (on_world (slice_from (rs (fst (r, s))) (ri (fst (r, s))))) (\<lambda>src.
       bind (on_world (go_copy p src)) (\<lambda>n. bind (modify (\<lambda>(r, s). (r\<lparr>ri := ri r + n\<rparr>, s))) (\<lambda>_. ret (n, None))))) (r, s))"
      using alters_refl [OF s(1), of "{}"] by (simp add: does_Ret)
  qed
qed


subsection \<open>Streams\<close>

text \<open>
  A stream whose chunks are of a size that an address space can hold. Nothing is said of what they contain: a chunk may have been
  sealed under a key that was purged.
\<close>

definition sound :: "Stream \<Rightarrow> bool" where
  "sound q \<longleftrightarrow> (\<forall>e. Some e \<in> set (queue q) \<longrightarrow> int (slen (ciphertext e)) \<le> 2 ^ 62)"

lemma sound_simps [simp]:
  "sound (q\<lparr>slocked := b\<rparr>) = sound q" "sound NewStream"
  "sound (q\<lparr>queue := x # es\<rparr>) \<longleftrightarrow> (\<forall>e. x = Some e \<longrightarrow> int (slen (ciphertext e)) \<le> 2 ^ 62) \<and> sound (q\<lparr>queue := es\<rparr>)"
  "sound (q\<lparr>queue := es @ [x]\<rparr>) \<longleftrightarrow> sound (q\<lparr>queue := es\<rparr>) \<and> (\<forall>e. x = Some e \<longrightarrow> int (slen (ciphertext e)) \<le> 2 ^ 62)"
  by (auto simp: sound_def NewStream_def)

lemma sound_tail: "sound q \<Longrightarrow> queue q = x # es \<Longrightarrow> sound (q\<lparr>queue := es\<rparr>) \<and> (\<forall>e. x = Some e \<longrightarrow> int (slen (ciphertext e)) \<le> 2 ^ 62)"
  by (auto simp: sound_def)

lemma does_with_stream:
  assumes "does E snd s0 Q (m (q\<lparr>slocked := True\<rparr>, s))" and "\<And>v q' u. Q v (q', u) \<Longrightarrow> R v (q'\<lparr>slocked := False\<rparr>, u)"
  shows "does E snd s0 R (with_stream m (q, s))"
proof -
  obtain r q' u where m: "m (q\<lparr>slocked := True\<rparr>, s) = (r, (q', u))" by (cases "m (q\<lparr>slocked := True\<rparr>, s)") auto
  show ?thesis
    using assms m by (cases r) (auto simp: with_stream_def defer_do_def bind_def exec does_def)
qed

lemma does_stream_next:
  assumes "env_works E" and "sane E s" and "sound q"
  shows "does E snd s (\<lambda>(b, e) u. sound (fst u) \<and> (e = None \<longrightarrow> own (snd u) b \<and> nbufs s \<le> b \<and> int (slen (data (bufs (snd u) b))) + Overhead E \<le> 2 ^ 62)) (stream_next E (q, s))"
    (is "does E snd s ?Q _")
proof -
  have null: "does E snd s ?Q (bind (on_world newNullBuffer) (\<lambda>b. ret (b, Some err)) (q', t))" if "sound q'" "alters E {} s t" for q' t err
    by (rule rd_step, rule that, rule assms, rule does_newNullBuffer [OF alters_D(1) [OF that(2)]]) (use that in \<open>simp add: does_Ret\<close>)
  have s: "alters E {} s s" by (rule alters_refl [OF assms(2)])
  show ?thesis
  proof (cases "queue q")
    case Nil
    then show ?thesis using null [OF assms(3) s] by (simp add: stream_next_def pop_def bind_def exec)
  next
    case (Cons x es)
    note tail = sound_tail [OF assms(3) Cons]
    let ?q = "q\<lparr>queue := es\<rparr>"
    have nxt: "stream_next E (q, s) = (case x of
       None \<Rightarrow> bind (on_world newNullBuffer) (\<lambda>b. ret (b, Some EOF))
     | Some e \<Rightarrow> bind (on_world (Enclave_Open E e)) (\<lambda>r. case r of
           Inl err \<Rightarrow> bind (on_world newNullBuffer) (\<lambda>b. ret (b, Some err)) | Inr b \<Rightarrow> ret (b, None))) (?q, s)"
      using Cons by (simp add: stream_next_def pop_def bind_def exec)
    show ?thesis
    proof (cases x)
      case None
      then show ?thesis using nxt null [OF _ s] tail by simp
    next
      case (Some e)
      have "does E snd s ?Q (bind (on_world (Enclave_Open E e)) (\<lambda>r. case r of
           Inl err \<Rightarrow> bind (on_world newNullBuffer) (\<lambda>b. ret (b, Some err)) | Inr b \<Rightarrow> ret (b, None)) (?q, s))"
      proof (rule rd_go, rule does_Enclave_Open [OF assms(1,2)])
        show "int (slen (ciphertext e)) \<le> 2 ^ 62" using tail Some by simp
        fix r :: "err + nat" and u assume "alters E {} s u" "\<forall>b. r = Inr b \<longrightarrow> own u b \<and> nbufs s \<le> b \<and> int (slen (data (bufs u b))) + Overhead E = int (slen (ciphertext e))"
        then show "does E snd s ?Q ((case r of Inl err \<Rightarrow> bind (on_world newNullBuffer) (\<lambda>b. ret (b, Some err)) | Inr b \<Rightarrow> ret (b, None)) (?q, u))"
          using null tail Some by (cases r) (fastforce simp: does_Ret)+
      qed
      then show ?thesis using nxt Some by simp
    qed
  qed
qed

lemma does_Stream_Next:
  assumes "env_works E" and "sane E s" and "sound q"
  shows "does E snd s (\<lambda>_ u. sound (fst u)) (Stream_Next E (q, s))"
  unfolding Stream_Next_def
  by (rule does_with_stream, rule does_stream_next [OF assms(1,2)]) (use assms(3) in auto)

text \<open>What \<^verbatim>\<open>Read\<close> pushes back: no more than what was in a chunk.\<close>

lemma does_push_back:
  assumes "env_works E" and "sane E t" and "own t b" and "sound q" and "int (slen (data (bufs t b))) + Overhead E \<le> 2 ^ 62"
  shows "does E snd t (\<lambda>_ u. sound (fst u)) (push_back E b p (q, t))"
proof -
  let ?n = "int (slen (data (bufs t b))) - int (slen p)"
  have n: "?n \<le> 2 ^ 62" and o: "Overhead E \<le> 2 ^ 62" using assms(5) by (simp_all add: Overhead_def)
  have tt: "alters E {} t t" by (rule alters_refl [OF assms(2)])
  show ?thesis
    unfolding push_back_def
  proof (rule rd_Size, rule rd_go, rule does_NewBuffer [OF assms(1,2) n], rule rd_Bytes, elim conjE)
    fix c u assume u: "alters E {} t u" and c: "nbufs t \<le> c" "made ?n u c"
    note su = alters_D(1) [OF u]
    have "handle u b" using alters_D(3) [OF u assms(3)] by (simp add: handle_def)
    note wb = handle_within [OF su this]
    show "does E snd t (\<lambda>_ u. sound (fst u)) (bind (on_world (slice_from (data (bufs u b)) (int (slen p)))) (\<lambda>p.
        bind (on_world (LockedBuffer_Copy c p)) (\<lambda>_. bind (on_world (LockedBuffer_Seal E c)) (\<lambda>e. push e))) (q, u))"
      unfolding LockedBuffer_Copy_def
    proof (rule rd_slice [OF u wb], rule rd_step [OF u assms(2)], rule does_CopyAt [OF su made_handle [OF c(2)]])
      fix w assume w: "alters E {} t w" "alters E {} u w"
      have cw: "made ?n w c" by (rule made_alters [OF c(2) w(2)]) simp
      have "int (slen (data (bufs w c))) + Overhead E \<le> 2 ^ 62"
        using made_size [OF cw] cw assms(5) o by (cases "?n < 1") (auto simp: made_def zero_Buffer_def)
      then show "does E snd t (\<lambda>_ u. sound (fst u)) (bind (on_world (LockedBuffer_Seal E c)) (\<lambda>e. push e) (q, w))"
        by - (rule rd_go, rule does_Seal [OF assms(1) w(1) assms(2) made_handle [OF cw] c(1)],
          use assms(4) in \<open>simp add: push_def exec does_Ret\<close>)
    qed
  qed
qed

text \<open>The buffer of the chunk is destroyed however \<^verbatim>\<open>Read\<close> ends.\<close>

lemma does_defer_destroy:
  assumes "env_works E" and "alters E {} s0 t" and "sane E s0" and "handle t b" and "nbufs s0 \<le> b" and "does E snd t Q (m (r, t))"
    and "\<And>v r' u w. Q v (r', u) \<Longrightarrow> R v (r', w)"
  shows "does E snd s0 R (defer_do (on_world (LockedBuffer_Destroy E b)) m (r, t))"
proof -
  obtain x r' w where m: "m (r, t) = (x, (r', w))" by (cases "m (r, t)") auto
  have D: "\<exists>u. LockedBuffer_Destroy E b w = (Ret (), u) \<and> alters E {b} w u" if "sane E w" "handle w b"
    using handle_destroy [OF assms(1) that] by metis
  have other: "c \<noteq> b" if "handle s0 c" for c using handle_less [OF assms(3) that] assms(5) by auto
  show ?thesis
  proof (cases x)
    case (Ret v)
    then have w: "alters E {} t w" "Q v (r', w)" using assms(6) m by (simp_all add: does_def)
    obtain u where u: "LockedBuffer_Destroy E b w = (Ret (), u)" "alters E {b} w u"
      using D [OF alters_D(1) [OF w(1)] alters_handle [OF w(1) assms(4)]] by auto
    have "alters E {} s0 w" by (rule alters_trans [OF assms(2) w(1) assms(3)]) simp
    then have "alters E {} s0 u" by (rule alters_trans [OF _ u(2) assms(3)]) (use assms(5) in simp)
    then show ?thesis using m Ret u(1) assms(7) [OF w(2)] by (simp add: defer_do_def bind_def on_world_def does_Ret)
  next
    case (Panicked p)
    then have w: "rests E t w" using assms(6) m by (simp add: does_def)
    then have h: "sane E w" "handle w b" using assms(4) by (simp_all add: rests_def)
    obtain u where u: "LockedBuffer_Destroy E b w = (Ret (), u)" "alters E {b} w u" using D [OF h] by auto
    have "rests E s0 w" by (rule rests_trans [OF alters_rests [OF assms(2)] w])
    moreover have "key_held w \<longrightarrow> key_held u" using u(2) by (simp add: alters_def)
    ultimately have "rests E s0 u" using alters_handle [OF u(2)] alters_D(1) [OF u(2)] other by (auto simp: rests_def)
    then show ?thesis using m Panicked u(1) by (simp add: defer_do_def bind_def on_world_def does_panic)
  qed (use m in \<open>simp_all add: defer_do_def does_stuck\<close>)
qed

lemma does_Stream_Read:
  assumes "env_works E" and "sane E s" and "sound q" and "within s p"
  shows "does E snd s (\<lambda>(n, e) u. sound (fst u) \<and> 0 \<le> n \<and> n \<le> int (slen p)) (Stream_Read E p (q, s))"
  unfolding Stream_Read_def
proof (rule does_with_stream)
  let ?Q = "\<lambda>(n, e :: err option) (u :: Stream \<times> world). sound (fst u) \<and> 0 \<le> n \<and> n \<le> int (slen p)"
  let ?q = "q\<lparr>slocked := True\<rparr>"
  show "does E snd s ?Q (bind (stream_next E) (\<lambda>(b, err). case err of
        Some e \<Rightarrow> ret (0, Some e)
      | None \<Rightarrow> defer_do (on_world (LockedBuffer_Destroy E b))
            (bind (on_world (Bytes b)) (\<lambda>d.
             bind (on_world (Copy p d)) (\<lambda>_.
             bind (on_world (Size b)) (\<lambda>n.
             if int (slen p) < n then bind (push_back E b p) (\<lambda>_. ret (int (slen p), None))
             else bind (on_world (Size b)) (\<lambda>n. ret (n, None))))))) (?q, s))"
  proof (rule does_bind, rule does_stream_next [OF assms(1,2)])
    show "sound ?q" using assms(3) by simp
    fix v :: "nat \<times> err option" and u
    assume u: "alters E {} s (snd u)"
      and v: "(case v of (b, e) \<Rightarrow> \<lambda>u. sound (fst u) \<and> (e = None \<longrightarrow> own (snd u) b \<and> nbufs s \<le> b \<and> int (slen (data (bufs (snd u) b))) + Overhead E \<le> 2 ^ 62)) u"
    obtain b e where be: "v = (b, e)" by fastforce
    obtain q' t where q': "u = (q', t)" by fastforce
    show "does E snd s ?Q ((case v of (b, err) \<Rightarrow> (case err of
        Some e \<Rightarrow> ret (0, Some e)
      | None \<Rightarrow> defer_do (on_world (LockedBuffer_Destroy E b))
            (bind (on_world (Bytes b)) (\<lambda>d.
             bind (on_world (Copy p d)) (\<lambda>_.
             bind (on_world (Size b)) (\<lambda>n.
             if int (slen p) < n then bind (push_back E b p) (\<lambda>_. ret (int (slen p), None))
             else bind (on_world (Size b)) (\<lambda>n. ret (n, None)))))))) u)"
    proof (cases e)
      case (Some err)
      then show ?thesis using u v by (simp add: be does_Ret)
    next
      case None
      have t: "alters E {} s t" "sound q'" "own t b" "nbufs s \<le> b" "int (slen (data (bufs t b))) + Overhead E \<le> 2 ^ 62"
        using u v None by (simp_all add: be q')
      note st = alters_D(1) [OF t(1)]
      have body: "does E snd t ?Q (bind (on_world (Bytes b)) (\<lambda>d.
             bind (on_world (Copy p d)) (\<lambda>_.
             bind (on_world (Size b)) (\<lambda>n.
             if int (slen p) < n then bind (push_back E b p) (\<lambda>_. ret (int (slen p), None))
             else bind (on_world (Size b)) (\<lambda>n. ret (n, None))))) (q', t))"
      proof (rule rd_Bytes, rule rd_go, rule does_Copy [OF st alters_within [OF t(1) assms(4)]], rule rd_Size)
        fix v w assume w: "alters E {} t w"
        have b: "own w b" "bufs w b = bufs t b" using alters_D(3,4) [OF w t(3)] by simp_all
        have "does E snd t ?Q (bind (push_back E b p) (\<lambda>_. ret (int (slen p), None)) (q', w))"
        proof (rule does_bind, rule does_shift [where w = snd, OF w _ st])
          show "does E snd w (\<lambda>_ u. sound (fst u)) (push_back E b p (q', w))"
            by (rule does_push_back [OF assms(1) alters_D(1) [OF w] b(1) t(2)]) (use t(5) b(2) in simp)
        qed (auto intro: does_Ret)
        moreover have "does E snd t ?Q (bind (on_world (Size b)) (\<lambda>n. ret (n, None)) (q', w))" if "\<not> int (slen p) < int (slen (data (bufs w b)))"
          by (rule rd_Size) (use that w t(2) in \<open>simp add: does_Ret\<close>)
        ultimately show "does E snd t ?Q ((if int (slen p) < int (slen (data (bufs w b))) then bind (push_back E b p) (\<lambda>_. ret (int (slen p), None))
             else bind (on_world (Size b)) (\<lambda>n. ret (n, None))) (q', w))" by simp
      qed
      have h: "handle t b" using t(3) by (simp add: handle_def)
      show ?thesis
        unfolding be q' prod.case None option.case
        by (rule does_defer_destroy [OF assms(1) t(1) assms(2) h t(4)], rule body) auto
    qed
  qed
qed auto

lemma Stream_Read_tame:
  assumes "env_works E"
  shows "tame_reader E sound (Stream_Read E)"
  using does_Stream_Read [OF assms] unfolding tame_reader_def by blast

lemma does_write_loop:
  assumes "env_works E" and "sane E s0" and "int (chunk E) + Overhead E \<le> 2 ^ 62" and "within s0 buf" and "alters E {} s0 s" and "sound q"
  shows "does E snd s0 (\<lambda>_ u. sound (fst u)) (write_loop E buf i (q, s))"
  using assms(5,6)
proof (induction "slen buf - i" arbitrary: i q s rule: less_induct)
  case less
  show ?case
  proof (cases "i < slen buf \<and> 0 < chunk E")
    case True
    have rest: "does E snd s0 (\<lambda>_ u. sound (fst u)) (bind (on_world (memguard_NewEnclave E p)) (\<lambda>e. bind (join e) (\<lambda>_. write_loop E buf (i + chunk E))) (q, s))"
      if p: "within s p" "slen p \<le> chunk E" for p
    proof (rule rd_step [OF less.prems(1) assms(2)], rule does_memguard_NewEnclave [OF assms(1) alters_D(1) [OF less.prems(1)] p(1)])
      fix e :: "Enclave option" and u assume u: "alters E {} s0 u" "\<forall>x. e = Some x \<longrightarrow> int (slen (ciphertext x)) = int (slen p) + Overhead E"
      have small: "int (slen p) + Overhead E \<le> 2 ^ 62" using p(2) assms(3) by simp
      have "sound (q\<lparr>queue := queue q @ [e]\<rparr>)" using u(2) small less.prems(2) by auto
      then have "does E snd s0 (\<lambda>_ u. sound (fst u)) (write_loop E buf (i + chunk E) (q\<lparr>queue := queue q @ [e]\<rparr>, u))"
        by (intro less.hyps u(1)) (use True in auto)
      then show "does E snd s0 (\<lambda>_ u. sound (fst u)) (bind (join e) (\<lambda>_. write_loop E buf (i + chunk E)) (q, u))"
        by (simp add: join_def exec)
    qed
    have w: "within s buf" by (rule alters_within [OF less.prems(1) assms(4)])
    have "does E snd s0 (\<lambda>_ u. sound (fst u)) (bind (on_world (if slen buf < i + chunk E then slice_from buf (int (slen buf - slen buf mod chunk E))
                        else slice_range buf (int i) (int (i + chunk E))))
        (\<lambda>p. bind (on_world (memguard_NewEnclave E p)) (\<lambda>e. bind (join e) (\<lambda>_. write_loop E buf (i + chunk E)))) (q, s))"
    proof (cases "slen buf < i + chunk E")
      case short: True
      have "slen buf mod chunk E \<le> slen buf" "slen buf mod chunk E \<le> chunk E" using True by (simp_all add: less_imp_le)
      then show ?thesis unfolding if_P [OF short] by (intro rd_slice [OF less.prems(1) w] rest) auto
    next
      case False
      show ?thesis unfolding if_not_P [OF False] by (rule rd_range [OF less.prems(1) w], rule rest) auto
    qed
    then show ?thesis using True by (subst write_loop.simps) simp
  next
    case False
    then have "write_loop E buf i (q, s) = ret () (q, s)" by (subst write_loop.simps) auto
    then show ?thesis using less.prems by (simp add: does_Ret)
  qed
qed

lemma does_Stream_Write:
  assumes "env_works E" and "sane E s" and "int (chunk E) + Overhead E \<le> 2 ^ 62" and "within s buf" and "sound q"
  shows "does E snd s (\<lambda>_ u. sound (fst u)) (Stream_Write E buf (q, s))"
  unfolding Stream_Write_def
proof (rule does_with_stream)
  show "does E snd s (\<lambda>_ u. sound (fst u)) (bind (write_loop E buf 0) (\<lambda>_. ret (int (slen buf), None)) (q\<lparr>slocked := True\<rparr>, s))"
    by (rule does_bind, rule does_write_loop [OF assms(1-4) alters_refl [OF assms(2)]]) (use assms(5) in \<open>auto intro: does_Ret\<close>)
qed simp

lemma size_loop_look: "snd (size_loop E es n x) = x"
  by (induction E es n rule: size_loop.induct) simp_all

lemma does_Stream_Size:
  assumes "sane E s" and "sound q"
  shows "does E snd s (\<lambda>_ u. sound (fst u)) (Stream_Size E (q, s))"
  unfolding Stream_Size_def
proof (rule does_with_stream)
  let ?x = "(q\<lparr>slocked := True\<rparr>, s)"
  show "does E snd s (\<lambda>_ u. sound (fst u)) (bind (gets (\<lambda>(q, s). queue q)) (\<lambda>l. size_loop E l 0) ?x)"
    using does_look [of E snd ?x "size_loop E (queue q) 0" "\<lambda>_ u. sound (fst u)"] assms by (simp add: size_loop_look)
qed simp

lemma does_Flush:
  assumes "env_works E" and "sane E s" and "sound q" and "int (Suc fuel) * int (pageSize E) \<le> 2 ^ 62"
  shows "does E snd s (\<lambda>_ _. True) (Flush E fuel (q, s))"
  unfolding Flush_def by (rule does_NewBufferFromEntireReader [OF assms(1) Stream_Read_tame [OF assms(1)] assms(2,3,4)])

end
