(* ===== verification/Client.thy ===== *)
theory Client
  imports Reader_Calls Exiting
begin

text \<open>
  A program that uses the exported package: any sequence of calls of its functions and methods, each with any arguments a program
  can have, and with the re-key goroutine and writes of the program to its memory in between. Every state it can reach is a
  session with intact canaries.
\<close>

subsection \<open>Runs of a program\<close>

text \<open>
  The process goes on when a call returns, or panics and the panic is recovered; after a fault or \<^verbatim>\<open>os.Exit\<close> there is no process,
  and a loop out of fuel is not at its end.
\<close>

definition goes_on :: "'a outcome \<Rightarrow> bool" where
  "goes_on r \<longleftrightarrow> (case r of Ret _ \<Rightarrow> True | Panicked _ \<Rightarrow> True | _ \<Rightarrow> False)"

text \<open>
  The arguments: a buffer the program has (\<open>handle\<close>: frozen or not, destroyed or null), a slice it may write to (\<open>within\<close>), any
  other slice, any enclave and any stream (\<open>sound\<close>), any reader that does not itself destroy buffers (\<open>tame_reader\<close>). Sizes are at
  most \<open>2 ^ 62\<close> bytes. Calls come one after the other.
\<close>

inductive client :: "env \<Rightarrow> ('r \<Rightarrow> bool) \<Rightarrow> 'r reader set \<Rightarrow> world \<Rightarrow> bool" for E I Rd where
  launch: "client E I Rd init_world"
| store: "client E I Rd s \<Longrightarrow> within s sl \<Longrightarrow> idx_set sl i v s = (r, t) \<Longrightarrow> goes_on r \<Longrightarrow> client E I Rd t"
| alloc: "client E I Rd s \<Longrightarrow> gc_new bs s = (r, t) \<Longrightarrow> goes_on r \<Longrightarrow> client E I Rd t"
| tick: "client E I Rd s \<Longrightarrow> c = key s \<or> is_destroyed s c \<Longrightarrow> rekey_tick E c s = (r, t) \<Longrightarrow> client E I Rd t"
  \<comment> \<open>buffer.go\<close>
| new: "client E I Rd s \<Longrightarrow> n \<le> 2 ^ 62 \<Longrightarrow> memguard_NewBuffer E n s = (r, t) \<Longrightarrow> goes_on r \<Longrightarrow> client E I Rd t"
| from_bytes: "client E I Rd s \<Longrightarrow> within s src \<Longrightarrow> int (slen src) \<le> 2 ^ 62 \<Longrightarrow>
    NewBufferFromBytes E src s = (r, t) \<Longrightarrow> goes_on r \<Longrightarrow> client E I Rd t"
| from_reader: "client E I Rd s \<Longrightarrow> rd \<in> Rd \<Longrightarrow> I q \<Longrightarrow> n \<le> 2 ^ 62 \<Longrightarrow>
    NewBufferFromReader E rd fuel n (q, s) = (r, (q', t)) \<Longrightarrow> goes_on r \<Longrightarrow> client E I Rd t"
| until_byte: "client E I Rd s \<Longrightarrow> rd \<in> Rd \<Longrightarrow> I q \<Longrightarrow> int (Suc fuel) * int (pageSize E) \<le> 2 ^ 62 \<Longrightarrow>
    NewBufferFromReaderUntil E rd fuel delim (q, s) = (r, (q', t)) \<Longrightarrow> goes_on r \<Longrightarrow> client E I Rd t"
| entire: "client E I Rd s \<Longrightarrow> rd \<in> Rd \<Longrightarrow> I q \<Longrightarrow> int (Suc fuel) * int (pageSize E) \<le> 2 ^ 62 \<Longrightarrow>
    NewBufferFromEntireReader E rd fuel (q, s) = (r, (q', t)) \<Longrightarrow> goes_on r \<Longrightarrow> client E I Rd t"
| random: "client E I Rd s \<Longrightarrow> n \<le> 2 ^ 62 \<Longrightarrow> NewBufferRandom E n s = (r, t) \<Longrightarrow> goes_on r \<Longrightarrow> client E I Rd t"
| freeze: "client E I Rd s \<Longrightarrow> handle s b \<Longrightarrow> LockedBuffer_Freeze E b s = (r, t) \<Longrightarrow> goes_on r \<Longrightarrow> client E I Rd t"
| melt: "client E I Rd s \<Longrightarrow> handle s b \<Longrightarrow> LockedBuffer_Melt E b s = (r, t) \<Longrightarrow> goes_on r \<Longrightarrow> client E I Rd t"
| seal: "client E I Rd s \<Longrightarrow> handle s b \<Longrightarrow> LockedBuffer_Seal E b s = (r, t) \<Longrightarrow> goes_on r \<Longrightarrow> client E I Rd t"
| copy: "client E I Rd s \<Longrightarrow> handle s b \<Longrightarrow> LockedBuffer_Copy b src s = (r, t) \<Longrightarrow> goes_on r \<Longrightarrow> client E I Rd t"
| copy_at: "client E I Rd s \<Longrightarrow> handle s b \<Longrightarrow> CopyAt b k src s = (r, t) \<Longrightarrow> goes_on r \<Longrightarrow> client E I Rd t"
| move: "client E I Rd s \<Longrightarrow> handle s b \<Longrightarrow> within s src \<Longrightarrow> LockedBuffer_Move b src s = (r, t) \<Longrightarrow> goes_on r \<Longrightarrow> client E I Rd t"
| move_at: "client E I Rd s \<Longrightarrow> handle s b \<Longrightarrow> within s src \<Longrightarrow> MoveAt b k src s = (r, t) \<Longrightarrow> goes_on r \<Longrightarrow> client E I Rd t"
| scramble: "client E I Rd s \<Longrightarrow> handle s b \<Longrightarrow> LockedBuffer_Scramble E b s = (r, t) \<Longrightarrow> goes_on r \<Longrightarrow> client E I Rd t"
| wipe: "client E I Rd s \<Longrightarrow> handle s b \<Longrightarrow> LockedBuffer_Wipe b s = (r, t) \<Longrightarrow> goes_on r \<Longrightarrow> client E I Rd t"
| destroy: "client E I Rd s \<Longrightarrow> handle s b \<Longrightarrow> LockedBuffer_Destroy E b s = (r, t) \<Longrightarrow> goes_on r \<Longrightarrow> client E I Rd t"
| equal_to: "client E I Rd s \<Longrightarrow> EqualTo b buf s = (r, t) \<Longrightarrow> goes_on r \<Longrightarrow> client E I Rd t"
| size: "client E I Rd s \<Longrightarrow> Size b s = (r, t) \<Longrightarrow> goes_on r \<Longrightarrow> client E I Rd t"
| flag: "client E I Rd s \<Longrightarrow> m \<in> {IsAlive b, IsMutable b} \<Longrightarrow> m s = (r, t) \<Longrightarrow> goes_on r \<Longrightarrow> client E I Rd t"
| slices: "client E I Rd s \<Longrightarrow> m \<in> {Bytes b, String b} \<Longrightarrow> m s = (r, t) \<Longrightarrow> goes_on r \<Longrightarrow> client E I Rd t"
| reader: "client E I Rd s \<Longrightarrow> Reader b s = (r, t) \<Longrightarrow> goes_on r \<Longrightarrow> client E I Rd t"
| view: "client E I Rd s \<Longrightarrow> m \<in> {Uint16 b, Uint32 b, Uint64 b, Int8 b, Int16 b, Int32 b, Int64 b} \<Longrightarrow> m s = (r, t) \<Longrightarrow> goes_on r \<Longrightarrow>
    client E I Rd t"
| byte_array: "client E I Rd s \<Longrightarrow> m \<in> {ByteArray8 b, ByteArray16 b, ByteArray32 b, ByteArray64 b} \<Longrightarrow> m s = (r, t) \<Longrightarrow> goes_on r \<Longrightarrow>
    client E I Rd t"
  \<comment> \<open>enclave.go\<close>
| enclave: "client E I Rd s \<Longrightarrow> within s src \<Longrightarrow> memguard_NewEnclave E src s = (r, t) \<Longrightarrow> goes_on r \<Longrightarrow> client E I Rd t"
| enclave_random: "client E I Rd s \<Longrightarrow> n \<le> 2 ^ 62 \<Longrightarrow> NewEnclaveRandom E n s = (r, t) \<Longrightarrow> goes_on r \<Longrightarrow> client E I Rd t"
| open_enclave: "client E I Rd s \<Longrightarrow> int (slen (ciphertext e)) \<le> 2 ^ 62 \<Longrightarrow> Enclave_Open E e s = (r, t) \<Longrightarrow> goes_on r \<Longrightarrow> client E I Rd t"
  \<comment> \<open>stream.go\<close>
| stream_write: "client E I Rd s \<Longrightarrow> sound q \<Longrightarrow> int (chunk E) + Overhead E \<le> 2 ^ 62 \<Longrightarrow> within s src \<Longrightarrow>
    Stream_Write E src (q, s) = (r, (q', t)) \<Longrightarrow> goes_on r \<Longrightarrow> client E I Rd t"
| stream_read: "client E I Rd s \<Longrightarrow> sound q \<Longrightarrow> within s dst \<Longrightarrow> Stream_Read E dst (q, s) = (r, (q', t)) \<Longrightarrow> goes_on r \<Longrightarrow> client E I Rd t"
| stream_next: "client E I Rd s \<Longrightarrow> sound q \<Longrightarrow> Stream_Next E (q, s) = (r, (q', t)) \<Longrightarrow> goes_on r \<Longrightarrow> client E I Rd t"
| stream_size: "client E I Rd s \<Longrightarrow> sound q \<Longrightarrow> Stream_Size E (q, s) = (r, (q', t)) \<Longrightarrow> goes_on r \<Longrightarrow> client E I Rd t"
| stream_flush: "client E I Rd s \<Longrightarrow> sound q \<Longrightarrow> int (Suc fuel) * int (pageSize E) \<le> 2 ^ 62 \<Longrightarrow>
    Flush E fuel (q, s) = (r, (q', t)) \<Longrightarrow> goes_on r \<Longrightarrow> client E I Rd t"
  \<comment> \<open>memguard.go\<close>
| scramble_bytes: "client E I Rd s \<Longrightarrow> within s sl \<Longrightarrow> ScrambleBytes E sl s = (r, t) \<Longrightarrow> goes_on r \<Longrightarrow> client E I Rd t"
| wipe_bytes: "client E I Rd s \<Longrightarrow> within s sl \<Longrightarrow> WipeBytes sl s = (r, t) \<Longrightarrow> goes_on r \<Longrightarrow> client E I Rd t"
| purge: "client E I Rd s \<Longrightarrow> memguard_Purge E s = (r, t) \<Longrightarrow> goes_on r \<Longrightarrow> client E I Rd t"
| safe_panic: "client E I Rd s \<Longrightarrow> SafePanic E v s = (r :: unit outcome, t) \<Longrightarrow> goes_on r \<Longrightarrow> client E I Rd t"
| safe_exit: "client E I Rd s \<Longrightarrow> SafeExit E c s = (r, t) \<Longrightarrow> goes_on r \<Longrightarrow> client E I Rd t"

subsection \<open>Facts: every call keeps the session\<close>

text \<open>The invariant, and what the judgement of theory \<open>Calls\<close> says of it.\<close>

definition tidy_session :: "env \<Rightarrow> world \<Rightarrow> bool" where
  "tidy_session E s \<longleftrightarrow> sane E s \<and> key_held s"

lemma tidy_does:
  assumes "tidy_session E s" and "does E w s Q x" and "goes_on (fst x)"
  shows "tidy_session E (w (snd x))"
  using assms by (cases x; cases "fst x") (auto simp: does_def goes_on_def tidy_session_def alters_def rests_def)

lemma tidy_go: "tidy_session E s \<Longrightarrow> does E id s Q x \<Longrightarrow> x = (r, t) \<Longrightarrow> goes_on r \<Longrightarrow> tidy_session E t"
  using tidy_does [of E s id Q x] by simp

lemma tidy_rd: "tidy_session E s \<Longrightarrow> does E snd s Q x \<Longrightarrow> x = (r, (q, t)) \<Longrightarrow> goes_on r \<Longrightarrow> tidy_session E t"
  using tidy_does [of E s snd Q x] by simp

lemma tidy_change:
  assumes "tidy_session E s" and "alters E M s t"
  shows "tidy_session E t"
  using assms by (simp add: tidy_session_def alters_def)

lemma tidy_look: "tidy_session E s \<Longrightarrow> m s = (r, t) \<Longrightarrow> snd (m s) = s \<Longrightarrow> tidy_session E t"
  by simp

text \<open>The methods that only read.\<close>

lemma Bytes_look: "snd (Bytes b s) = s" "snd (String b s) = s" "snd (Size b s) = s" "snd (Reader b s) = s"
  by (simp_all add: Bytes_def Data_def get_buf_def Size_def String_def Reader_def bind_def exec)

lemma flag_look:
  assumes "sane E s"
  shows "snd (IsAlive b s) = s" "snd (IsMutable b s) = s"
  using IsAlive_run [OF sane_free [OF assms]] IsMutable_run [OF sane_free [OF assms]] by simp_all

lemma does_first_byte:
  assumes "sane E s" and "\<And>p. does E id s R (f p s)"
  shows "does E id s R (bind (first_byte b) f s)"
proof -
  have "does E id s (\<lambda>_ t. t = s) (first_byte b s)"
    unfolding first_byte_def
    by (rule does_Bytes) (use alters_refl [OF assms(1), of "{}"] alters_rests in \<open>auto split: slice.split intro: does_Ret does_panic\<close>)
  then show ?thesis by (rule go_start) (use assms(2) in simp)
qed

lemma does_Alive: "sane E s \<Longrightarrow> does E id s R (f (alive (bufs s b)) s) \<Longrightarrow> does E id s R (bind (Alive b) f s)"
  using IsAlive_run [OF sane_free, of E s b] by (simp add: IsAlive_def bind_def)

lemma does_typed_view:
  assumes "sane E s"
  shows "does E id s (\<lambda>_ _. True) (typed_view w b s)"
proof -
  note s = alters_refl [OF assms, of "{}"]
  have "does E id s (\<lambda>_ _. True) (bind (Size b) (\<lambda>n. let size = n div w in if size < 1 then ret None
        else bind (first_byte b) (\<lambda>(a, i). ret (Some \<lparr>vbase = a, voff = i, vlen = size, vcap = size\<rparr>))) s)"
    unfolding Let_def by (rule does_Size) (auto split: prod.split intro!: does_first_byte [OF assms] does_Ret s)
  then have "does E id s (\<lambda>_ _. True) (with_rlock (BufLock b) (bind (Size b) (\<lambda>n. let size = n div w in if size < 1 then ret None
        else bind (first_byte b) (\<lambda>(a, i). ret (Some \<lparr>vbase = a, voff = i, vlen = size, vcap = size\<rparr>)))) s)"
    by (rule does_with_rlock [rotated 2])
      (auto simp: sane_free [OF assms] Size_def Bytes_def first_byte_def Let_def intro!: obliviousI split: slice.split)
  then show ?thesis unfolding typed_view_def by (intro does_Alive [OF assms]) (simp add: does_Ret s)
qed

lemma does_Int8:
  assumes "sane E s"
  shows "does E id s (\<lambda>_ _. True) (Int8 b s)"
proof -
  note s = alters_refl [OF assms, of "{}"]
  have "does E id s (\<lambda>_ _. True) (bind (first_byte b) (\<lambda>(a, i). bind (Size b) (\<lambda>n. ret (Some \<lparr>vbase = a, voff = i, vlen = n, vcap = n\<rparr>))) s)"
    by (rule does_first_byte [OF assms]) (auto split: prod.split intro!: does_Size does_Ret s)
  then have "does E id s (\<lambda>_ _. True) (with_rlock (BufLock b) (bind (first_byte b) (\<lambda>(a, i). bind (Size b)
      (\<lambda>n. ret (Some \<lparr>vbase = a, voff = i, vlen = n, vcap = n\<rparr>)))) s)"
    by (rule does_with_rlock [rotated 2]) (unfold case_prod_beta, intro obliviousI, rule sane_free [OF assms])
  then show ?thesis unfolding Int8_def by (intro does_Alive [OF assms]) (simp add: does_Ret s)
qed

lemma does_byte_array:
  assumes "sane E s"
  shows "does E id s (\<lambda>_ _. True) (byte_array k b s)"
proof -
  note s = alters_refl [OF assms, of "{}"]
  have "does E id s (\<lambda>_ _. True) (bind (Bytes b) (\<lambda>d. if int (slen d) < k then ret None else bind (first_byte b) (\<lambda>p. ret (Some p))) s)"
    by (rule does_Bytes) (auto intro!: does_first_byte [OF assms] does_Ret s)
  then have "does E id s (\<lambda>_ _. True) (with_rlock (BufLock b)
      (bind (Bytes b) (\<lambda>d. if int (slen d) < k then ret None else bind (first_byte b) (\<lambda>p. ret (Some p)))) s)"
    by (rule does_with_rlock [rotated 2]) (intro obliviousI, rule sane_free [OF assms])
  then show ?thesis unfolding byte_array_def by (intro does_Alive [OF assms]) (simp add: does_Ret s)
qed

lemmas view_defs = Uint16_def Uint32_def Uint64_def Int16_def Int32_def Int64_def ByteArray8_def ByteArray16_def ByteArray32_def ByteArray64_def

lemma tidy_tick:
  assumes "env_works E" and "tidy_session E s" and "c = key s \<or> is_destroyed s c" and "rekey_tick E c s = (r, t)"
  shows "tidy_session E t"
proof -
  have s: "sane E s" "session E s" "key_held s" using assms(2) by (simp_all add: tidy_session_def sane_def)
  have "key_held t"
  proof (cases "is_destroyed s c")
    case True
    then have "t = s\<lparr>rekeyers := remove1 c (rekeyers s)\<rparr>" using rekey_tick_expired [OF session_D(1) [OF s(2)] True] assms(4) by simp
    then show ?thesis using s(3) by (simp add: key_held_def refs_def)
  next
    case False
    then have "keyed E s" using assms(1,3) s(1,2) by (auto simp: keyed_def sane_def session_def)
    then obtain u where "key_tick E s = (Ret (), u)" "keyed E u" by (rule key_tick_run) (rule that)
    then show ?thesis using assms(3,4) False coffer_held by (auto simp: keyed_def key_tick_def)
  qed
  then show ?thesis using sane_tick [OF assms(1) s(1) assms(3,4)] by (simp add: tidy_session_def)
qed

lemma tidy_exit:
  assumes "env_works E" and "tidy_session E s" and "SafeExit E c s = (r, t)"
  shows "\<not> goes_on r"
proof -
  have s: "session E s" "clean s" "key_held s" using assms(2) by (simp_all add: tidy_session_def sane_def)
  obtain r' t' where "Exit E c s = (r', t')" "if clean s then r' = Exited c else \<exists>e. r' = Panicked (PErr e)"
    by (rule Exit_ends [OF assms(1) s(1)]) (use s(3) that in \<open>simp_all add: key_held_def\<close>)
  then show ?thesis using s(2) assms(3) by (auto simp: SafeExit_def goes_on_def)
qed

lemma tidy_seal:
  assumes "env_works E" and "tidy_session E s" and "handle s b" and "LockedBuffer_Seal E b s = (r, t)" and "goes_on r"
  shows "tidy_session E t"
proof (cases "own s b")
  case False
  have s: "sane E s" using assms(2) by (simp add: tidy_session_def)
  have "Alive b s = (Ret False, s)"
    using IsAlive_run [OF sane_free [OF s]] handle_alive [OF s assms(3)] False by (simp add: IsAlive_def)
  then show ?thesis using assms(2,4) by (simp add: LockedBuffer_Seal_def Seal_def bind_def)
next
  case True
  have s: "session E s" "clean s" "b \<in> set (blist s)" "b \<notin> refs s (key s)" using assms(2) True by (simp_all add: tidy_session_def sane_def own_def)
  obtain u e where u: "Seal E b s = (Ret (Inr e), u)" "session E u" "coffer_ok u (key u)" "clean s \<Longrightarrow> clean u"
    by (rule Seal_run [OF assms(1) s(1,3,4) clean_D [OF s(2,3)]]) (rule that)
  then have "t = u" using assms(4) by (simp add: LockedBuffer_Seal_def bind_def)
  then show ?thesis using u(2-4) s(2) coffer_held by (simp add: tidy_session_def sane_def)
qed

lemma client_tidy:
  assumes "client E I Rd s" and "env_works E" and "\<forall>rd \<in> Rd. tame_reader E I rd"
  shows "tidy_session E s"
  using assms(1)
proof (induction rule: client.induct)
  case launch
  show ?case using init_sane [of E] by (simp add: tidy_session_def key_held_def refs_def) (simp add: init_world_def zero_Coffer_def)
next
  case (store s sl i v r t)
  show ?case by (rule tidy_go [OF store.IH does_idx_set]) (use store in \<open>simp_all add: tidy_session_def\<close>)
next
  case (alloc s bs r t)
  show ?case by (rule tidy_go [OF alloc.IH does_gc_new]) (use alloc in \<open>simp_all add: tidy_session_def\<close>)
next
  case (tick s c r t)
  show ?case by (rule tidy_tick [OF assms(2) tick.IH tick(2,3)])
next
  case (new s n r t)
  show ?case by (rule tidy_go [OF new.IH does_NewBuffer [OF assms(2)]]) (use new in \<open>simp_all add: tidy_session_def\<close>)
next
  case (from_bytes s src r t)
  show ?case by (rule tidy_go [OF from_bytes.IH does_NewBufferFromBytes [OF assms(2)]]) (use from_bytes in \<open>simp_all add: tidy_session_def\<close>)
next
  case (from_reader s rd q n fuel r q' t)
  show ?case by (rule tidy_rd [OF from_reader.IH does_NewBufferFromReader [OF assms(2) bspec [OF assms(3) from_reader(2)]]]) (use from_reader in \<open>simp_all add: tidy_session_def\<close>)
next
  case (until_byte s rd q fuel delim r q' t)
  show ?case by (rule tidy_rd [OF until_byte.IH does_NewBufferFromReaderUntil [OF assms(2) bspec [OF assms(3) until_byte(2)]]]) (use until_byte in \<open>simp_all add: tidy_session_def\<close>)
next
  case (entire s rd q fuel r q' t)
  show ?case by (rule tidy_rd [OF entire.IH does_NewBufferFromEntireReader [OF assms(2) bspec [OF assms(3) entire(2)]]]) (use entire in \<open>simp_all add: tidy_session_def\<close>)
next
  case (random s n r t)
  show ?case by (rule tidy_go [OF random.IH does_NewBufferRandom [OF assms(2)]]) (use random in \<open>simp_all add: tidy_session_def\<close>)
next
  case (freeze s b r t)
  then have "sane E s" by (simp add: tidy_session_def)
  note h = handle_change [OF assms(2) this freeze(2)]
  show ?case using tidy_change [OF freeze.IH h(2)] h(1) freeze(3) by simp
next
  case (melt s b r t)
  then have "sane E s" by (simp add: tidy_session_def)
  note h = handle_change [OF assms(2) this melt(2)]
  show ?case using tidy_change [OF melt.IH h(6)] h(5) melt(3) by simp
next
  case (seal s b r t)
  show ?case by (rule tidy_seal [OF assms(2) seal.IH seal(2-4)])
next
  case (copy s b src r t)
  show ?case by (rule tidy_go [OF copy.IH does_CopyAt]) (use copy in \<open>simp_all add: tidy_session_def LockedBuffer_Copy_def\<close>)
next
  case (copy_at s b k src r t)
  show ?case by (rule tidy_go [OF copy_at.IH does_CopyAt]) (use copy_at in \<open>simp_all add: tidy_session_def\<close>)
next
  case (move s b src r t)
  show ?case by (rule tidy_go [OF move.IH does_MoveAt]) (use move in \<open>simp_all add: tidy_session_def LockedBuffer_Move_def\<close>)
next
  case (move_at s b src k r t)
  show ?case by (rule tidy_go [OF move_at.IH does_MoveAt]) (use move_at in \<open>simp_all add: tidy_session_def\<close>)
next
  case (scramble s b r t)
  show ?case by (rule tidy_go [OF scramble.IH does_Scramble_buffer [OF assms(2)]]) (use scramble in \<open>simp_all add: tidy_session_def\<close>)
next
  case (wipe s b r t)
  show ?case by (rule tidy_go [OF wipe.IH does_Wipe_buffer]) (use wipe in \<open>simp_all add: tidy_session_def\<close>)
next
  case (destroy s b r t)
  then have "sane E s" by (simp add: tidy_session_def)
  from handle_destroy [OF assms(2) this destroy(2)] show ?case using tidy_change [OF destroy.IH] destroy(3) by auto
next
  case (equal_to s b buf r t)
  show ?case by (rule tidy_go [OF equal_to.IH does_EqualTo]) (use equal_to in \<open>simp_all add: tidy_session_def\<close>)
next
  case (size s b r t)
  then show ?case using Bytes_look(3) [of b s] by simp
next
  case (flag s m b r t)
  then show ?case using flag_look [of E s b] by (auto simp: tidy_session_def)
next
  case (slices s m b r t)
  then show ?case using Bytes_look(1,2) [of b s] by auto
next
  case (reader s b r t)
  then show ?case using Bytes_look(4) [of b s] by simp
next
  case (view s m b r t)
  have "does E id s (\<lambda>_ _. True) (m s)"
    using view(2) view.IH by (auto simp: tidy_session_def view_defs intro: does_typed_view does_Int8)
  then show ?case by (rule tidy_go [OF view.IH _ view(3,4)])
next
  case (byte_array s m b r t)
  have "does E id s (\<lambda>_ _. True) (m s)"
    using byte_array(2) byte_array.IH by (auto simp: tidy_session_def view_defs intro: does_byte_array)
  then show ?case by (rule tidy_go [OF byte_array.IH _ byte_array(3,4)])
next
  case (enclave s src r t)
  show ?case by (rule tidy_go [OF enclave.IH does_memguard_NewEnclave [OF assms(2)]]) (use enclave in \<open>simp_all add: tidy_session_def\<close>)
next
  case (enclave_random s n r t)
  show ?case by (rule tidy_go [OF enclave_random.IH does_NewEnclaveRandom [OF assms(2)]]) (use enclave_random in \<open>simp_all add: tidy_session_def\<close>)
next
  case (open_enclave s e r t)
  show ?case by (rule tidy_go [OF open_enclave.IH does_Enclave_Open [OF assms(2)]]) (use open_enclave in \<open>simp_all add: tidy_session_def\<close>)
next
  case (stream_write s q src r q' t)
  show ?case by (rule tidy_rd [OF stream_write.IH does_Stream_Write [OF assms(2)]]) (use stream_write in \<open>simp_all add: tidy_session_def\<close>)
next
  case (stream_read s q dst r q' t)
  show ?case by (rule tidy_rd [OF stream_read.IH does_Stream_Read [OF assms(2)]]) (use stream_read in \<open>simp_all add: tidy_session_def\<close>)
next
  case (stream_next s q r q' t)
  show ?case by (rule tidy_rd [OF stream_next.IH does_Stream_Next [OF assms(2)]]) (use stream_next in \<open>simp_all add: tidy_session_def\<close>)
next
  case (stream_size s q r q' t)
  show ?case by (rule tidy_rd [OF stream_size.IH does_Stream_Size]) (use stream_size in \<open>simp_all add: tidy_session_def\<close>)
next
  case (stream_flush s q fuel r q' t)
  show ?case by (rule tidy_rd [OF stream_flush.IH does_Flush [OF assms(2)]]) (use stream_flush in \<open>simp_all add: tidy_session_def\<close>)
next
  case (scramble_bytes s sl r t)
  show ?case by (rule tidy_go [OF scramble_bytes.IH does_ScrambleBytes [OF assms(2)]]) (use scramble_bytes in \<open>simp_all add: tidy_session_def\<close>)
next
  case (wipe_bytes s sl r t)
  show ?case by (rule tidy_go [OF wipe_bytes.IH does_Wipe]) (use wipe_bytes in \<open>simp_all add: tidy_session_def WipeBytes_def\<close>)
next
  case (purge s r t)
  then show ?case using sane_Purge [OF assms(2)] purged_rests by (auto simp: tidy_session_def memguard_Purge_def rests_def)
next
  case (safe_panic s v r t)
  show ?case by (rule tidy_go [OF safe_panic.IH does_SafePanic [OF assms(2)]]) (use safe_panic in \<open>simp_all add: tidy_session_def\<close>)
next
  case (safe_exit s c r t)
  then show ?case using tidy_exit [OF assms(2)] by blast
qed

text \<open>Exactly the mutable buffers can be written.\<close>

lemma sane_writable:
  assumes "sane E s" and "b \<in> set (blist s)"
  shows "writable (mem s) (data (bufs s b)) \<longleftrightarrow> mutable (bufs s b)"
proof -
  have g: "guarded E s b" using assms by (simp add: sane_def session_D(2))
  show ?thesis
    using guarded_data(2) [OF g] frozen_data [OF g _ guarded_data(5) [OF g]] idx_set_run [OF guarded_data(5) [OF g], of s]
    by fastforce
qed

subsection \<open>The invariant of the package\<close>

text \<open>
  C3. The invariant of the package. A program makes any sequence of calls of the exported functions and methods of buffer.go,
  enclave.go, stream.go and memguard.go, one at a time: with buffers that are frozen, destroyed or null, slices of the heap or of its
  own buffers, streams and enclaves with any contents (so opening may fail), any readers that leave its other buffers alone, sizes
  up to 2^62 bytes; calls may panic and be recovered; the re-key goroutine and writes of the program to its memory come in
  between. The system calls succeed. Then in every state it reaches no lock is held, every listed buffer is alive, mapped between two
  inaccessible guard pages, locked into memory, readable, and writable exactly when it is mutable, has an intact canary, and
  shares no memory with another; the key is either destroyed or complete, and its buffers are listed or reset.
\<close>

theorem client_session:
  assumes "env_works E" and "\<forall>rd \<in> Rd. tame_reader E I rd" and "client E I Rd s"
  shows "locks_free s \<and> distinct (map (\<lambda>b. buf_base (bufs s b)) (blist s)) \<and>
     (\<forall>b \<in> set (blist s). guarded E s b \<and> canary_ok s b \<and> readable (mem s) (data (bufs s b)) \<and>
        (writable (mem s) (data (bufs s b)) \<longleftrightarrow> mutable (bufs s b))) \<and>
     (is_destroyed s (key s) \<or> coffer_ok s (key s)) \<and>
     (\<forall>b \<in> refs s (key s). b \<in> set (blist s) \<or> bufs s b = zero_Buffer)"
proof -
  have s: "sane E s" "session E s" "clean s" "key_held s"
    using client_tidy [OF assms(3,1,2)] by (simp_all add: tidy_session_def sane_def)
  show ?thesis
    using s(2,3) guarded_data(1) [OF session_D(2) [OF s(2)]] sane_writable [OF s(1)] s(4) [unfolded key_held_def]
    by (simp add: session_def clean_def)
qed

theorem client_session_witness:
  "\<exists>t u. NewBufferRandom simE 4 w_buf = (Ret 1, t) \<and> memguard_Purge simE t = (Ret (), u) \<and>
     (\<forall>rd \<in> {bytes_Read}. tame_reader simE (\<lambda>_. True) rd) \<and> client simE (\<lambda>_. True) {bytes_Read} t \<and> client simE (\<lambda>_. True) {bytes_Read} u \<and>
     guarded simE t 0 \<and> guarded simE t 1 \<and> \<not> writable (mem t) (data (bufs t 1)) \<and> locks_free u"
proof -
  let ?client = "client simE (\<lambda>_. True) {bytes_Read}"
  have rd: "\<forall>rd \<in> {bytes_Read}. tame_reader simE (\<lambda>_. True) rd" by (simp add: bytes_Read_tame)
  have "memguard_NewBuffer simE 5 init_world = (Ret 0, w_buf)"
    using NewBuffer_run [OF simE_works, of 5 init_world] by (simp add: memguard_NewBuffer_def bind_def w_buf_def init_world_def)
  then have c: "?client w_buf" by (rule client.new [OF client.launch, rotated]) (simp_all add: goes_on_def)
  obtain t where t: "NewBufferRandom simE 4 w_buf = (Ret 1, t)" "\<not> mutable (bufs t 1)" "blist t = [0, 1]"
    using NewBufferRandom_random [OF simE_works w_buf_sane(1), of 4] w_buf_sane(6,12) by auto
  have ct: "?client t" by (rule client.random [OF c _ t(1)]) (simp_all add: goes_on_def)
  have "sane simE t" using client_tidy [OF ct simE_works rd] by (simp add: tidy_session_def)
  then have p: "memguard_Purge simE t = (Ret (), purged t)" using sane_Purge [OF simE_works] by (simp add: memguard_Purge_def)
  have cu: "?client (purged t)" by (rule client.purge [OF ct p]) (simp add: goes_on_def)
  show ?thesis
    using client_session [OF simE_works rd ct] client_session [OF simE_works rd cu] rd ct cu p t by auto
qed

end
