(* ===== verification/Fault_Props.thy ===== *)
theory Fault_Props
  imports Faults Sim
begin

text \<open>
  The properties of a purge under an operating system that may refuse any request at any time, each followed by its
  instance with a system that never unmaps memory.
\<close>

definition leakyE :: env where
  "leakyE = simE\<lparr>mcFree := (\<lambda>k m sl. (Some (OSErr ''EINVAL''), m))\<rparr>"

lemma leaky_facts: "memcall_ok leakyE" "session leakyE w_buf" "0 \<in> set (blist w_buf)"
proof -
  show "memcall_ok leakyE" using simE_ok(1) by (simp add: memcall_ok_def leakyE_def)
  have g: "guarded leakyE s b = guarded simE s b" for s b
    by (simp add: guarded_def mapped_def laid_out_def leakyE_def Let_def)
  show "session leakyE w_buf" using w_buf_sane(4) by (simp add: session_def g)
  show "0 \<in> set (blist w_buf)" using w_buf_sane(6) by simp
qed

text \<open>
  C8. \<^verbatim>\<open>Purge\<close> comes to an end whatever the system calls do: it never faults and never blocks, and afterwards no buffer is
  listed. Every buffer that was is unmapped and reset, or its data is overwritten with zeros where it is, or it was
  frozen, its pages could not be made writable, and a warning names it. \<^verbatim>\<open>Purge\<close> returns exactly when every buffer is
  unmapped, and panics otherwise.
\<close>

theorem Purge_under_faults:
  assumes "memcall_ok E" and "session E s"
  shows "\<exists>r t. Purge E s = (r, t) \<and> (r = Ret () \<or> (\<exists>e. r = Panicked (PErr e))) \<and> blist t = [] \<and>
     (r = Ret () \<longleftrightarrow> (\<forall>b \<in> set (blist s). bufs t b = zero_Buffer \<and> regs (mem t) (buf_base (bufs s b)) = no_region)) \<and>
     (\<forall>b \<in> set (blist s).
        (bufs t b = zero_Buffer \<and> regs (mem t) (buf_base (bufs s b)) = no_region) \<or>
        contents (mem t) (data (bufs s b)) = replicate (slen (data (bufs s b))) 0 \<or>
        (b \<in> set (warnings t) \<and> \<not> mutable (bufs s b)))"
proof -
  have "\<forall>b \<in> set (blist s). held E s b" "distinct (map (\<lambda>b. buf_base (bufs s b)) (blist s))"
    using guarded_held session_D(2) [OF assms(2)] assms(2) by (auto simp: session_def)
  then show ?thesis
    by (rule Purge_faults [OF assms(1) session_D(1) [OF assms(2)]])
      (auto simp: left_over_def gone_def wiped_def warned_def)
qed

theorem Purge_under_faults_witness:
  "\<exists>r t. Purge leakyE w_buf = (r, t) \<and> blist t = [] \<and>
     (bufs t 0 = zero_Buffer \<or> contents (mem t) (data (bufs w_buf 0)) = replicate 5 0 \<or> 0 \<in> set (warnings t))"
  using Purge_under_faults [OF leaky_facts(1,2)] leaky_facts(3) w_buf_sane(8) by metis

text \<open>
  C36. \<^verbatim>\<open>Destroy\<close> of a buffer either returns with the buffer unmapped and off the list and the others untouched, or, when the
  canary is damaged or a system call fails, purges the whole session and panics.
\<close>

theorem Destroy_under_faults:
  assumes "memcall_ok E" and "session E s" and "b \<in> set (blist s)"
  shows "(\<exists>t. Destroy E b s = (Ret (), t) \<and> gone s t b \<and> blist t = remove1 b (blist s) \<and> (\<forall>c \<in> set (blist t). keep s t c)) \<or>
     (\<exists>p t. Destroy E b s = (Panicked p, t) \<and> blist t = [] \<and> (\<forall>c \<in> set (blist s). left_over s t c))"
  by (rule Destroy_faults [OF assms]) blast+

theorem Destroy_under_faults_witness:
  "\<exists>r t. Destroy leakyE 0 w_buf = (r, t) \<and> (gone w_buf t 0 \<or> left_over w_buf t 0)"
  using Destroy_under_faults [OF leaky_facts] leaky_facts(3) by blast

end
