(* ===== verification/Casting.thy ===== *)
theory Casting
  imports View_Props Locked_Props Reader_Spec
begin

text \<open>
  The example \<^verbatim>\<open>examples/casting/casting.go\<close>: guarded memory handed out as a pointer to an array or to a
  struct, and as a slice of structs. The layout of the struct is computed as the Go compiler does on
  a 64-bit machine. The lemmas show that the elements are the bytes of the buffer, one after the
  other, that a write to one element changes no other, and where the multiplication of
  \<^verbatim>\<open>SecureStructSlice\<close> overflows.
\<close>

subsection \<open>Layout of a struct\<close>

text \<open>The fields as pairs of size and alignment; each starts at the next multiple of its alignment.\<close>

definition align_up :: "nat \<Rightarrow> nat \<Rightarrow> nat" where
  "align_up n a = (n + a - 1) div a * a"

fun field_offsets :: "nat \<Rightarrow> (nat \<times> nat) list \<Rightarrow> nat list" where
  "field_offsets n [] = []"
| "field_offsets n ((k, a) # fs) = align_up n a # field_offsets (align_up n a + k) fs"

fun fields_end :: "nat \<Rightarrow> (nat \<times> nat) list \<Rightarrow> nat" where
  "fields_end n [] = n"
| "fields_end n ((k, a) # fs) = fields_end (align_up n a + k) fs"

definition struct_size :: "(nat \<times> nat) list \<Rightarrow> nat" where
  "struct_size fs = align_up (fields_end 0 fs) (foldr max (map snd fs) 1)"

subsection \<open>examples/casting/casting.go\<close>

text \<open>\<^verbatim>\<open>type Secure struct\<close>, and its fields: 32 bytes, two and one 64-bit integers, a bool.\<close>

record Secure =
  Key :: "byte list"
  Salt :: "64 word list"
  Counter :: "64 word"
  Something :: bool

definition secure_fields :: "(nat \<times> nat) list" where
  "secure_fields = [(32, 1), (2 * 8, 8), (8, 8), (1, 1)]"

text \<open>\<^verbatim>\<open>unsafe.Sizeof(*s)\<close>\<close>

definition Sizeof_Secure :: nat where
  "Sizeof_Secure = struct_size secure_fields"

text \<open>The struct a pointer points to.\<close>

definition secure_at :: "mem \<Rightarrow> base \<times> nat \<Rightarrow> Secure" where
  "secure_at m p =
     (let at = (\<lambda>i k. contents m (Slice (fst p) (snd p + i) k k)); os = field_offsets 0 secure_fields in
      \<lparr>Key = at (os ! 0) 32, Salt = [le_word (at (os ! 1) 8), le_word (at (os ! 1 + 8) 8)],
       Counter = le_word (at (os ! 2) 8), Something = (at (os ! 3) 1 \<noteq> [0])\<rparr>)"

definition ByteArray10 :: "env \<Rightarrow> (nat \<times> (base \<times> nat)) go" where
  "ByteArray10 E = bind (memguard_NewBuffer E 10) (\<lambda>b. bind (first_byte b) (\<lambda>p. ret (b, p)))"

definition Uint64Array4 :: "env \<Rightarrow> (nat \<times> (base \<times> nat)) go" where
  "Uint64Array4 E = bind (memguard_NewBuffer E 32) (\<lambda>b. bind (first_byte b) (\<lambda>p. ret (b, p)))"

definition SecureStruct :: "env \<Rightarrow> (nat \<times> (base \<times> nat)) go" where
  "SecureStruct E = bind (memguard_NewBuffer E (int Sizeof_Secure)) (\<lambda>b. bind (first_byte b) (\<lambda>p. ret (b, p)))"

definition SecureStructArray :: "env \<Rightarrow> (nat \<times> (base \<times> nat)) go" where
  "SecureStructArray E =
     bind (memguard_NewBuffer E (go_int (int Sizeof_Secure * 2))) (\<lambda>b. bind (first_byte b) (\<lambda>p. ret (b, p)))"

definition SecureStructSlice :: "env \<Rightarrow> int \<Rightarrow> (nat option \<times> tview option) go" where
  "SecureStructSlice E sz =
     (if sz < 1 then ret (None, None)
      else
        bind (memguard_NewBuffer E (go_int (int Sizeof_Secure * sz))) (\<lambda>b.
        bind (first_byte b) (\<lambda>(a, i).
        ret (Some b, Some \<lparr>vbase = a, voff = i, vlen = sz, vcap = sz\<rparr>))))"

subsection \<open>Facts\<close>

lemma secure_layout [simp]: "Sizeof_Secure = 64" "field_offsets 0 secure_fields = [0, 32, 48, 56]"
  by (simp_all add: Sizeof_Secure_def struct_size_def secure_fields_def align_up_def)

text \<open>A struct is read from the 64 bytes at its address.\<close>

lemma secure_at_cong:
  assumes "contents m (Slice a i 64 c) = contents m' (Slice a' i' 64 c')"
  shows "secure_at m (a, i) = secure_at m' (a', i')"
proof -
  have "contents m (Slice a (i + j) k d) = contents m' (Slice a' (i' + j) k d)" if "j + k \<le> 64" for j k d
  proof -
    have "sub j k (contents m (Slice a i 64 c)) = sub j k (contents m' (Slice a' i' 64 c'))" using assms by simp
    then show ?thesis using that by (simp add: sub_sub)
  qed
  from this [of 0 32] this [of 32 8] this [of 40 8] this [of 48 8] this [of 56 1] show ?thesis
    by (simp add: secure_at_def Let_def)
qed

text \<open>A new buffer and the address of its first byte.\<close>

lemma new_with_address:
  assumes "env_works E" and "sane E s" and "0 < n" and "int n \<le> 2 ^ 62"
  obtains i q where "bind (memguard_NewBuffer E (int n)) (\<lambda>b. bind (first_byte b) (f b)) s =
      f (nbufs s) (Sys i, q) (newbuf_state E n s)"
    and "data (bufs (newbuf_state E n s) (nbufs s)) = Slice (Sys i) q n n"
proof -
  note N = memguard_NewBuffer_run [OF assms]
  let ?t = "newbuf_state E n s" and ?b = "nbufs s"
  have t: "session E ?t" "?b \<in> set (blist ?t)" using N(3,4) by (simp_all add: sane_def own_def)
  obtain i q where d: "data (bufs ?t ?b) = Slice (Sys i) q n n"
    by (rule session_bases [OF t]) (use N(6) that in auto)
  from that [OF _ d] show ?thesis using N(1) first_byte_run [OF d assms(3)] by (simp add: bind_def)
qed

lemma new_writable:
  assumes "env_works E" and "sane E s" and "0 < n" and "int n \<le> 2 ^ 62"
  shows "writable (mem (newbuf_state E n s)) (data (bufs (newbuf_state E n s) (nbufs s)))"
proof -
  note N = memguard_NewBuffer_run [OF assms]
  show ?thesis
    by (rule guarded_data(2) [OF session_D(2) N(5)]) (use N(3,4) in \<open>auto simp: sane_def own_def\<close>)
qed

text \<open>The elements of a slice of structs over the data of a buffer.\<close>

definition structs :: "mem \<Rightarrow> tview \<Rightarrow> nat \<Rightarrow> Secure" where
  "structs m v k = secure_at m (vbase v, voff v + k * Sizeof_Secure)"

lemma element_bytes:
  assumes "k < n"
  shows "contents m (Slice a (q + k * 64) 64 c) = sub (k * 64) 64 (contents m (Slice a q (64 * n) d))"
proof -
  have "k * 64 + 64 \<le> 64 * n" using assms by (simp add: algebra_simps)
  then show ?thesis by (simp add: sub_sub)
qed

lemma element_apart: "j \<noteq> k \<Longrightarrow> apart (Slice a (q + k * 64) 64 c) (Slice a (q + j * 64) 64 c)"
  by (cases "j < k") (auto dest!: less_imp_Suc_add simp: linorder_not_less le_less)

lemma element_writable:
  assumes "writable m (Slice a q (64 * n) d)" and "k < n"
  shows "writable m (Slice a (q + k * 64) 64 c)"
proof -
  have "k * 64 + 64 \<le> 64 * n" using assms(2) by (simp add: algebra_simps)
  then have "rprot (regs m a) (q + (k * 64 + j)) = ReadWrite" if "j < 64" for j
    using assms(1) that by simp
  then show ?thesis using assms \<open>k * 64 + 64 \<le> 64 * n\<close> by (auto simp: add.assoc)
qed

definition zero_Secure :: Secure where
  "zero_Secure = \<lparr>Key = replicate 32 0, Salt = [0, 0], Counter = 0, Something = False\<rparr>"

lemma secure_zero:
  assumes "contents m (Slice a q 64 c) = replicate 64 0"
  shows "secure_at m (a, q) = zero_Secure"
proof -
  have "contents m (Slice a (q + j) k d) = replicate k 0" if "j + k \<le> 64" for j k d
  proof -
    have "sub j k (contents m (Slice a q 64 c)) = replicate k 0" using assms that by simp
    then show ?thesis using that by (simp add: sub_sub)
  qed
  from this [of 0 32] this [of 32 8] this [of 40 8] this [of 48 8] this [of 56 1] show ?thesis
    by (simp add: secure_at_def Let_def zero_Secure_def le_word_def eval_nat_numeral)
qed

lemma go_int_wrap: "go_int (18446744073709551616 + x) = go_int x"
proof -
  have "word_of_int (18446744073709551616 + x) = (word_of_int x :: 64 word)"
    unfolding word_of_int_eq_iff take_bit_eq_mod by simp
  then show ?thesis by (simp only: go_int_def)
qed

text \<open>The first byte after the data of a buffer is in the guard page.\<close>

lemma guard_page:
  assumes "guarded E s b" and "data (bufs s b) = Slice a q n c" and "0 < k"
  shows "\<not> readable (mem s) (Slice a (q + n) k d)"
proof (rule mappedE [OF guarded_mapped(1) [OF assms(1)]])
  fix i n' c'
  assume B: "buf_base (bufs s b) = Sys i" "inner (bufs s b) = Slice (Sys i) (pageSize E) (n' + c') (n' + c')"
    "data (bufs s b) = Slice (Sys i) (pageSize E + c') n' n'" "0 < pageSize E"
  then have "rprot (regs (mem s) (Sys i)) (pageSize E + (n' + c') + 0) = NoAccess"
    using assms(1) unfolding guarded_def Let_def by (metis slen.simps(2))
  with B assms(2,3) show ?thesis by (auto simp: add_ac)
qed

subsection \<open>The properties\<close>

text \<open>
  \<^verbatim>\<open>SecureStructSlice(n)\<close> gives a buffer and a slice of \<open>n\<close> zero structs that lie in its data, one after
  the other: every struct can be written, and writing one changes no other.
\<close>

theorem SecureStructSlice_elements:
  assumes "env_works E" and "sane E s" and "0 < n" and "64 * int n \<le> 2 ^ 62"
  shows "\<exists>t b v. SecureStructSlice E (int n) s = (Ret (Some b, Some v), t) \<and> sane E t \<and> blist t = blist s @ [b] \<and>
     vlen v = int n \<and> slen (data (bufs t b)) = 64 * n \<and>
     (\<forall>k < n. structs (mem t) v k = zero_Secure \<and> writable (mem t) (elem_slice 64 v k) \<and>
        (\<forall>bs j. length bs = 64 \<longrightarrow> j < n \<longrightarrow> j \<noteq> k \<longrightarrow> structs (put (mem t) (elem_slice 64 v k) bs) v j = structs (mem t) v j) \<and>
        (\<forall>bs. length bs = 64 \<longrightarrow> contents (put (mem t) (elem_slice 64 v k) bs) (data (bufs t b)) =
           overwrite (k * 64) bs (contents (mem t) (data (bufs t b)))))"
proof -
  have n: "0 < 64 * n" "int (64 * n) \<le> 2 ^ 62" using assms(3,4) by simp_all
  note N = memguard_NewBuffer_run [OF assms(1,2) n]
  let ?b = "nbufs s" and ?t = "newbuf_state E (64 * n) s"
  obtain i q where r: "\<And>f. True" and d: "data (bufs ?t ?b) = Slice (Sys i) q (64 * n) (64 * n)"
    and run: "bind (memguard_NewBuffer E (int (64 * n))) (\<lambda>b. bind (first_byte b) ((\<lambda>b (a, i). ret (Some b, Some \<lparr>vbase = a, voff = i,
       vlen = int n, vcap = int n\<rparr>)) b)) s = (\<lambda>b (a, i). ret (Some b, Some \<lparr>vbase = a, voff = i, vlen = int n, vcap = int n\<rparr>)) ?b (Sys i, q) ?t"
    by (rule new_with_address [OF assms(1,2) n]) (rule that [OF TrueI])
  let ?v = "\<lparr>vbase = Sys i, voff = q, vlen = int n, vcap = int n\<rparr>"
  have "go_int (int Sizeof_Secure * int n) = int (64 * n)" using assms(4) by (subst go_int_id) simp_all
  then have S: "SecureStructSlice E (int n) s = (Ret (Some ?b, Some ?v), ?t)"
    using run assms(3) by (simp add: SecureStructSlice_def)
  note w = new_writable [OF assms(1,2) n, unfolded d]
  have el: "elem_slice 64 ?v k = Slice (Sys i) (q + k * 64) 64 64" for k by (simp add: elem_slice_def)
  have zero: "structs (mem ?t) ?v k = zero_Secure" if "k < n" for k
  proof -
    have "k * 64 + 64 \<le> 64 * n" using that by (simp add: algebra_simps)
    then have "contents (mem ?t) (Slice (Sys i) (q + k * 64) 64 64) = replicate 64 0"
      using element_bytes [OF that, of "mem ?t" "Sys i" q 64 "64 * n"] N(8) unfolding d by simp
    then show ?thesis by (simp add: structs_def secure_zero del: contents.simps)
  qed
  have wr: "writable (mem ?t) (elem_slice 64 ?v k)" if "k < n" for k unfolding el by (rule element_writable [OF w that])
  have other: "structs (put (mem ?t) (elem_slice 64 ?v k) bs) ?v j = structs (mem ?t) ?v j"
    if "k < n" "length bs = 64" "j \<noteq> k" for k j bs
  proof -
    have "contents (put (mem ?t) (elem_slice 64 ?v k) bs) (Slice (Sys i) (q + j * 64) 64 64) = contents (mem ?t) (Slice (Sys i) (q + j * 64) 64 64)"
      by (rule contents_put_apart) (use that wr [OF that(1)] element_apart [of j k] in \<open>simp_all add: el writable_fits del: writable.simps fits.simps apart.simps\<close>)
    then show ?thesis unfolding structs_def by (simp only: secure_layout tview.simps) (rule secure_at_cong)
  qed
  have all: "contents (put (mem ?t) (elem_slice 64 ?v k) bs) (data (bufs ?t ?b)) = overwrite (k * 64) bs (contents (mem ?t) (data (bufs ?t ?b)))"
    if "k < n" "length bs = 64" for k bs
  proof -
    have "k * 64 + 64 \<le> 64 * n" using that(1) by (simp add: algebra_simps)
    then have p: "part_of (data (bufs ?t ?b)) (k * 64) (elem_slice 64 ?v k)" by (simp add: d el)
    have "length (contents (mem ?t) (data (bufs ?t ?b))) = 64 * n" using N(8) by simp
    then show ?thesis
      using put_part [OF p writable_fits [OF w [folded d]]] \<open>k * 64 + 64 \<le> 64 * n\<close> that(2) w [folded d]
      by (simp add: el writable_fits N(6))
  qed
  show ?thesis
    by (intro exI [of _ ?t] exI [of _ ?b] exI [of _ ?v]) (use S N(3,6,9) zero wr other all in auto)
qed

theorem SecureStructSlice_elements_witness:
  "\<exists>t b v. SecureStructSlice simE 2 w_buf = (Ret (Some b, Some v), t) \<and> structs (mem t) v 1 = zero_Secure \<and>
     slen (data (bufs t b)) = 128"
  using SecureStructSlice_elements [OF simE_works w_buf_sane(1), of 2] by (force simp: eval_nat_numeral)

text \<open>
  The pointers to one object: the address of the first byte of a zeroed buffer of exactly the size of
  the object.
\<close>

definition points_to_new :: "env \<Rightarrow> nat \<Rightarrow> world \<Rightarrow> (nat \<times> (base \<times> nat)) go \<Rightarrow> bool" where
  "points_to_new E n s m \<longleftrightarrow>
     (\<exists>t b a q. m s = (Ret (b, (a, q)), t) \<and> sane E t \<and> blist t = blist s @ [b] \<and> data (bufs t b) = Slice a q n n \<and>
        contents (mem t) (data (bufs t b)) = replicate n 0 \<and> writable (mem t) (data (bufs t b)))"

lemma new_pointer:
  assumes "env_works E" and "sane E s" and "0 < n" and "int n \<le> 2 ^ 62"
  shows "points_to_new E n s (bind (memguard_NewBuffer E (int n)) (\<lambda>b. bind (first_byte b) (\<lambda>p. ret (b, p))))"
proof -
  note N = memguard_NewBuffer_run [OF assms]
  obtain i q where "bind (memguard_NewBuffer E (int n)) (\<lambda>b. bind (first_byte b) (\<lambda>p. ret (b, p))) s =
      (Ret (nbufs s, (Sys i, q)), newbuf_state E n s)" "data (bufs (newbuf_state E n s) (nbufs s)) = Slice (Sys i) q n n"
    by (rule new_with_address [OF assms, of "\<lambda>b p. ret (b, p)"]) (use that in \<open>simp add: exec\<close>)
  then show ?thesis
    using N(3,8,9) new_writable [OF assms] unfolding points_to_new_def
    by (intro exI [of _ "newbuf_state E n s"] exI [of _ "nbufs s"] exI [of _ "Sys i"] exI [of _ q]) simp
qed

text \<open>
  The array of ten bytes, the array of four integers, the struct and the array of two structs each lie
  over a new buffer of 10, 32, 64 and 128 zero bytes.
\<close>

theorem casting_pointers:
  assumes "env_works E" and "sane E s"
  shows "points_to_new E 10 s (ByteArray10 E) \<and> points_to_new E 32 s (Uint64Array4 E) \<and>
     points_to_new E 64 s (SecureStruct E) \<and> points_to_new E 128 s (SecureStructArray E)"
  using new_pointer [OF assms, of 10] new_pointer [OF assms, of 32] new_pointer [OF assms, of 64] new_pointer [OF assms, of 128]
  by (simp add: ByteArray10_def Uint64Array4_def SecureStruct_def SecureStructArray_def)

theorem casting_pointers_witness:
  "\<exists>t b a q. SecureStruct simE w_buf = (Ret (b, (a, q)), t) \<and> secure_at (mem t) (a, q) = zero_Secure"
proof -
  obtain t b a q where "SecureStruct simE w_buf = (Ret (b, (a, q)), t)" "data (bufs t b) = Slice a q 64 64"
      "contents (mem t) (data (bufs t b)) = replicate 64 0"
    using casting_pointers [OF simE_works w_buf_sane(1)] unfolding points_to_new_def by blast
  then show ?thesis using secure_zero [of "mem t" a q 64] by auto
qed

text \<open>
  C40. The multiplication of \<^verbatim>\<open>SecureStructSlice\<close> is not checked for overflow: for \<open>2 ^ 58 + 1\<close> structs it wraps
  around to 64 bytes, and the slice that is returned claims \<open>2 ^ 58 + 1\<close> structs over a buffer that
  has room for one. Its second element lies in the guard page.
\<close>

theorem SecureStructSlice_overflow:
  assumes "env_works E" and "sane E s"
  shows "\<exists>t b v. SecureStructSlice E (2 ^ 58 + 1) s = (Ret (Some b, Some v), t) \<and> vlen v = 2 ^ 58 + 1 \<and>
     slen (data (bufs t b)) = 64 \<and> \<not> readable (mem t) (elem_slice 64 v 1)"
proof -
  have n: "0 < (64 :: nat)" "int 64 \<le> 2 ^ 62" by simp_all
  note N = memguard_NewBuffer_run [OF assms n]
  let ?b = "nbufs s" and ?t = "newbuf_state E 64 s"
  obtain i q where d: "data (bufs ?t ?b) = Slice (Sys i) q 64 64"
    and run: "bind (memguard_NewBuffer E (int 64)) (\<lambda>b. bind (first_byte b) ((\<lambda>b (a, i). ret (Some b, Some \<lparr>vbase = a, voff = i,
       vlen = 2 ^ 58 + 1, vcap = 2 ^ 58 + 1\<rparr>)) b)) s =
       (\<lambda>b (a, i). ret (Some b, Some \<lparr>vbase = a, voff = i, vlen = 2 ^ 58 + 1, vcap = 2 ^ 58 + 1\<rparr>)) ?b (Sys i, q) ?t"
    by (rule new_with_address [OF assms n]) (rule that)
  let ?v = "\<lparr>vbase = Sys i, voff = q, vlen = 2 ^ 58 + 1, vcap = 2 ^ 58 + 1\<rparr>"
  have "go_int (int Sizeof_Secure * (2 ^ 58 + 1)) = 64" using go_int_wrap [of 64] by simp
  then have S: "SecureStructSlice E (2 ^ 58 + 1) s = (Ret (Some ?b, Some ?v), ?t)"
    using run by (simp add: SecureStructSlice_def)
  have t: "session E ?t" "?b \<in> set (blist ?t)" using N(3,4) by (simp_all add: sane_def own_def)
  have "\<not> readable (mem ?t) (Slice (Sys i) (q + 64) 64 64)"
    by (rule guard_page [OF session_D(2) [OF t] d]) simp
  then show ?thesis
    by (intro exI [of _ ?t] exI [of _ ?b] exI [of _ ?v]) (use S N(6) in \<open>simp add: elem_slice_def\<close>)
qed

theorem SecureStructSlice_overflow_witness:
  "\<exists>t b v. SecureStructSlice simE 288230376151711745 w_buf = (Ret (Some b, Some v), t) \<and> slen (data (bufs t b)) = 64"
  using SecureStructSlice_overflow [OF simE_works w_buf_sane(1)] by auto

end
