(* ===== verification/Examples.thy ===== *)
theory Examples
  imports Stream_Fifo Reader_Props Locked_Props
begin

text \<open>
  Programs of \<^verbatim>\<open>examples/\<close> that use the package: \<^verbatim>\<open>stdin.ReadKeyFromStdin\<close>,
  \<^verbatim>\<open>openVerify\<close> of \<^verbatim>\<open>deadlock/x01\<close> and \<^verbatim>\<open>POC\<close> of \<^verbatim>\<open>deadlock/x02\<close>. Each is composed of the operations modelled in
  the other theories, and its result is derived from their lemmas alone.
\<close>

subsection \<open>examples/stdin/stdin.go\<close>

text \<open>\<^verbatim>\<open>ReadKeyFromStdin\<close>; the standard input is a parameter. The delimiter is \<^verbatim>\<open>'\n'\<close>.\<close>

definition ReadKeyFromStdin :: "env \<Rightarrow> 'r reader \<Rightarrow> nat \<Rightarrow> ('r, Enclave option \<times> err option) rgo" where
  "ReadKeyFromStdin E stdin fuel =
     bind (NewBufferFromReaderUntil E stdin fuel 10) (\<lambda>(key, err).
     case err of
       Some e \<Rightarrow> ret (None, Some e)
     | None \<Rightarrow>
         bind (on_world (Size key)) (\<lambda>n.
         if n = 0 then ret (None, Some (ErrText ''no input received''))
         else bind (on_world (LockedBuffer_Seal E key)) (\<lambda>e. ret (e, None))))"

subsection \<open>examples/deadlock/x01/poc.go\<close>

text \<open>\<^verbatim>\<open>bytes.Equal\<close>\<close>

definition bytes_Equal :: "slice \<Rightarrow> slice \<Rightarrow> bool go" where
  "bytes_Equal x y = bind (read_all x) (\<lambda>xs. bind (read_all y) (\<lambda>ys. ret (xs = ys)))"

definition openVerify :: "env \<Rightarrow> Enclave \<Rightarrow> slice \<Rightarrow> err option go" where
  "openVerify E lock expected =
     bind (Enclave_Open E lock) (\<lambda>r.
     case r of
       Inl err \<Rightarrow> ret (Some err)
     | Inr lb \<Rightarrow>
         defer_do (LockedBuffer_Destroy E lb)
           (bind (Bytes lb) (\<lambda>d.
            bind (bytes_Equal d expected) (\<lambda>eq.
            if \<not> eq then ret (Some (ErrText ''open verify fail'')) else ret None))))"

subsection \<open>examples/deadlock/x02/poc.go\<close>

text \<open>
  The process after \<^verbatim>\<open>prlimit\<close> lowered the limit of locked memory to zero: \<^verbatim>\<open>Lock\<close> fails with the given error.
\<close>

definition lowered :: "env \<Rightarrow> err \<Rightarrow> env" where
  "lowered E e = E\<lparr>mcLock := (\<lambda>k m sl. (Some e, m))\<rparr>"

text \<open>\<^verbatim>\<open>POC\<close>; \<open>limited\<close> is the error of \<^verbatim>\<open>prlimit\<close>, and \<open>e\<close> the error the locking of memory gives below the limit.\<close>

definition nil_deref :: panicval where
  "nil_deref = PRuntime ''invalid memory address or nil pointer dereference''"

definition POC :: "env \<Rightarrow> err option \<Rightarrow> err \<Rightarrow> unit go" where
  "POC E limited e =
     bind (NewEnclaveRandom E 32) (\<lambda>enclave.
     case limited of
       Some err \<Rightarrow> go_panic (PErr (ErrText (''error lowering memlock rlimit: '' @ err_text err)))
     | None \<Rightarrow>
         (case enclave of
            None \<Rightarrow> go_panic nil_deref
          | Some x \<Rightarrow>
              bind (Enclave_Open (lowered E e) x) (\<lambda>r.
              case r of
                Inl err \<Rightarrow> go_panic (PErr err)
              | Inr keyBytes \<Rightarrow> defer_do (LockedBuffer_Destroy (lowered E e) keyBytes) (ret ()))))"

subsection \<open>Facts: the key from the standard input\<close>

lemma ReadKeyFromStdin_run:
  assumes "io_reader E rd ok rest final idle home" and "keyed E s" and "ok r s"
    and "int (length (rest r s) + pageSize E) + Overhead E \<le> 2 ^ 62" and "length (rest r s) + idle r s < fuel" and "home \<le> nbufs s"
  defines "k \<equiv> takeWhile (\<lambda>x. x \<noteq> 10) (rest r s)"
  shows "\<exists>e r' t. ReadKeyFromStdin E rd fuel (r, s) = (Ret (e, if 10 \<notin> set (rest r s) then Some (final r s)
           else if k = [] then Some (ErrText ''no input received'') else None), (r', t)) \<and>
     (if 10 \<notin> set (rest r s) then e = None \<and> (\<exists>d. gives E s t d (rest r s))
      else keyed E t \<and> extends s t \<and> blist t = blist s \<and> (if k = [] then e = None else \<exists>x. e = Some x \<and> sealed E t x k))"
proof -
  have "0 \<le> Overhead E" by (simp add: Overhead_def)
  then have small: "int (length (rest r s) + pageSize E) \<le> 2 ^ 62" using assms(4) by simp
  obtain d r' t where t: "NewBufferFromReaderUntil E rd fuel 10 (r, s) =
       (Ret (d, if 10 \<in> set (rest r s) then None else Some (final r s)), (r', t))" "gives E s t d k"
    using io_reader.NewBufferFromReaderUntil_run [OF assms(1-3) small assms(5,6), of 10] unfolding k_def by blast
  show ?thesis
  proof (cases "10 \<in> set (rest r s)")
    case False
    then have "k = rest r s" unfolding k_def by (auto simp: takeWhile_eq_all_conv)
    moreover have "ReadKeyFromStdin E rd fuel (r, s) = (Ret (None, Some (final r s)), (r', t))"
      using t(1) False by (simp add: ReadKeyFromStdin_def bind_def)
    ultimately show ?thesis
      by (intro exI [of _ None] exI [of _ r'] exI [of _ t]) (use t(2) False in \<open>simp only: if_True if_False not_False_eq_True; blast\<close>)
  next
    case True
    show ?thesis
    proof (cases "k = []")
      case empty: True
      then have g: "keyed E t" "extends s t" "blist t = blist s" "bufs t d = zero_Buffer" using t(2) by (simp_all add: gives_def)
      have "ReadKeyFromStdin E rd fuel (r, s) = (Ret (None, Some (ErrText ''no input received'')), (r', t))"
        using t(1) True g(4) by (simp add: ReadKeyFromStdin_def bind_def on_world_def)
      then show ?thesis
        by (intro exI [of _ None] exI [of _ r'] exI [of _ t]) (simp add: True empty g)
    next
      case False
      then have w: "work E s t d" "contents (mem t) (data (bufs t d)) = k" using t(2) by (simp_all add: gives_def)
      have len: "slen (data (bufs t d)) = length k" using guarded_data(7) [OF work_D(12) [OF w(1)]] by (simp add: w(2) [symmetric])
      have "length k \<le> length (rest r s)" unfolding k_def by (rule length_takeWhile_le)
      then have le: "int (slen (data (bufs t d))) + Overhead E \<le> 2 ^ 62" using assms(4) len by simp
      obtain e u where u: "LockedBuffer_Seal E d t = (Ret (Some e), u)" "keyed E u" "extends s u" "blist u = blist s"
          "sealed E u e (contents (mem t) (data (bufs t d)))"
        by (rule work_seal [OF w(1) le]) (rule that)
      have "ReadKeyFromStdin E rd fuel (r, s) = (Ret (Some e, None), (r', u))"
        using t(1) True False u(1) len by (simp add: ReadKeyFromStdin_def bind_def on_world_def)
      then show ?thesis
        by (intro exI [of _ "Some e"] exI [of _ r'] exI [of _ u]) (simp add: True False u(2-4) u(5) [unfolded w(2)])
    qed
  qed
qed

subsection \<open>Facts: opening and comparing\<close>

text \<open>Bytes on the garbage-collected heap that are expected to stay.\<close>

definition expects :: "world \<Rightarrow> slice \<Rightarrow> byte list \<Rightarrow> bool" where
  "expects s p m \<longleftrightarrow> (\<exists>j i n c. p = Slice (GC j) i n c \<and> j < gcnext (mem s)) \<and> readable (mem s) p \<and> contents (mem s) p = m"

lemma expects_kept: "heap_kept s t \<Longrightarrow> expects s p m \<Longrightarrow> expects t p m"
  by (fastforce simp: expects_def heap_kept_def)

lemma openVerify_run:
  assumes "keyed E s" and "sealed E s e m" and "target s p"
  obtains t where "openVerify E e p s = (Ret (if contents (mem s) p = m then None else Some (ErrText ''open verify fail'')), t)"
    and "keyed E t" and "extends s t" and "key t = key s" and "blist t = blist s" and "calm E s t"
proof -
  obtain t where t: "Enclave_Open E e s = (Ret (Inr (nbufs s)), t)" "work E s t (nbufs s)"
      "contents (mem t) (data (bufs t (nbufs s))) = m"
    by (rule Enclave_Open_run [OF assms(1,2)]) (rule that)
  note w = work_D [OF t(2)]
  let ?b = "nbufs s" and ?u = "removed_state (nbufs s) t"
  have rd: "readable (mem t) (data (bufs t ?b))" by (rule guarded_data(1) [OF w(12)])
  note x = target_extends [OF assms(3) w(1,3,4)]
  have rp: "readable (mem t) p" by (rule writable_readable [OF target_access(1) [OF x(1) keyed_D(2) [OF w(2)]]])
  let ?res = "if contents (mem s) p = m then None else Some (ErrText ''open verify fail'')"
  have body: "bind (Bytes ?b) (\<lambda>d. bind (bytes_Equal d p) (\<lambda>eq. if \<not> eq then ret (Some (ErrText ''open verify fail'')) else ret None)) t = (Ret ?res, t)"
    using rd rp t(3) x(2) by (auto simp: bind_def bytes_Equal_def read_all_def exec)
  note z = work_end [OF t(2)]
  have "openVerify E e p s = (Ret ?res, ?u)"
    using t(1) z(1) body by (simp add: openVerify_def bind_def defer_do_def)
  then show ?thesis by (rule that) (use z calm_trans [OF w(10) z(6)] in simp_all)
qed

subsection \<open>Facts: below the limit of locked memory\<close>

lemma lowered_calls [simp]:
  "memcall_Alloc (lowered E e) = memcall_Alloc E" "memcall_Free (lowered E e) = memcall_Free E"
  "memcall_Protect (lowered E e) = memcall_Protect E" "memcall_Unlock (lowered E e) = memcall_Unlock E"
  "memcall_Lock (lowered E e) sl s = (Ret (Some e), s\<lparr>mcalls := Suc (mcalls s)\<rparr>)"
  "pageSize (lowered E e) = pageSize E" "sbOverhead (lowered E e) = sbOverhead E"
  by (simp_all add: lowered_def fun_eq_iff memcall_Alloc_def memcall_Free_def memcall_Protect_def memcall_Unlock_def memcall_Lock_def)

text \<open>A purge locks no memory.\<close>

lemma lowered_Purge [simp]: "Purge (lowered E e) = Purge E" "(Panic (lowered E e) v :: 'a go) = Panic E v"
proof -
  have d: "destroy (lowered E e) b = destroy E b" for b
    by (cases b) (simp_all only: destroy.simps destroy_body_def release_memory_def lowered_calls(1-4))
  have l: "purge_loop (lowered E e) bs err = purge_loop E bs err" for bs err
    by (induction bs arbitrary: err) (simp_all only: purge_loop.simps d lowered_calls(1-4))
  show "Purge (lowered E e) = Purge E" unfolding Purge_def purge_session_def l ..
  then show "(Panic (lowered E e) v :: 'a go) = Panic E v" by (simp add: Panic_def)
qed

lemma lowered_slices [simp]:
  "roundToPageSize (lowered E e) = roundToPageSize E" "make_slices (lowered E e) = make_slices E" "Overhead (lowered E e) = Overhead E"
  by (simp_all add: fun_eq_iff roundToPageSize_def make_slices_def Overhead_def)

lemma bind_Panic: "bind (Panic E v) f = Panic E v"
  by (rule ext) (simp add: Panic_def bind_assoc bind_def run_then_case split: prod.split outcome.split)

lemma NewBuffer_lowered:
  assumes "env_works E" and "sane E s" and "0 < n" and "int n \<le> 2 ^ 62"
  obtains u where "NewBuffer (lowered E e) (int n) s = Panic E (PErr e) u" and "sane E u" and "extends s u" and "blist u = blist s"
proof -
  note ok = env_works_D [OF assms(1)]
  have page: "page_ok E" using assms(1) by auto
  have s: "session E s" "clean s" using assms(2) by (simp_all add: sane_def)
  obtain c where c: "roundToPageSize E (int n) = int (n + c)" "c < pageSize E" "int (pageSize E) < 2 ^ 60"
    using round_nat [OF page assms(3,4)] by blast
  let ?a = "Sys (sysnext (mem s))" and ?len = "2 * pageSize E + (n + c)"
  have len: "go_int (2 * int (pageSize E) + int (n + c)) = int ?len"
    using c assms(4) by (subst go_int_id) auto
  define t1 where "t1 = s\<lparr>bufs := (bufs s)(nbufs s := zero_Buffer), nbufs := Suc (nbufs s)\<rparr>"
  define t2 where "t2 = t1\<lparr>mem := map_region ?len (mem s), mcalls := Suc (mcalls s)\<rparr>"
  define B where "B = (buffer_at E n (n + c) ?a)\<lparr>alive := False, mutable := False\<rparr>"
  define t3 where "t3 = t2\<lparr>bufs := (bufs s)(nbufs s := B), mcalls := Suc (Suc (mcalls s))\<rparr>"
  have s1: "new_Buffer s = (Ret (nbufs s), t1)" by (simp add: new_Buffer_def t1_def)
  have s2: "memcall_Alloc E (int ?len) t1 = (Ret (Inr (Slice ?a 0 ?len ?len)), t2)"
    using memcall_runs(1) [OF ok(1,2), of "int ?len" t1, unfolded nat_int] assms(3)
    by (simp add: t1_def t2_def del: of_nat_add of_nat_mult)
  have s3: "make_slices E (Slice ?a 0 ?len ?len) (int (n + c)) (int n) t2 = (Ret B, t2)"
    using c assms by (subst make_slices_run [OF page]) (simp_all add: B_def buffer_at_def Let_def)
  have s4: "upd_buf (nbufs s) (\<lambda>_. B) t2 = (Ret (), t3\<lparr>mcalls := Suc (mcalls s)\<rparr>)"
    by (simp add: upd_buf_def t3_def t2_def t1_def exec)
  have "bind (or_panic (lowered E e) (memcall_Lock (lowered E e) (inner B))) f (t3\<lparr>mcalls := Suc (mcalls s)\<rparr>) =
      bind (Panic E (PErr e)) f t3" for f :: "unit \<Rightarrow> 'x go"
    by (simp add: or_panic_def bind_def t3_def)
  then have s5: "bind (arm (lowered E e) B) f (t3\<lparr>mcalls := Suc (mcalls s)\<rparr>) = Panic E (PErr e) t3" for f :: "unit \<Rightarrow> 'x go"
    by (simp add: arm_def bind_assoc bind_Panic)
  have run: "NewBuffer (lowered E e) (int n) s = Panic E (PErr e) t3"
    using assms(3) by (simp add: NewBuffer_def c(1) len [simplified] s1 s2 [simplified] s3 [simplified] s4 s5 bind_Ret)
  have b: "b < nbufs s" "bufs t3 b = bufs s b" "keep s t3 b" if "b \<in> set (blist s)" for b
  proof -
    show "b < nbufs s" by (rule session_D(3) [OF s(1) that])
    then show "bufs t3 b = bufs s b" by (simp add: t3_def t2_def t1_def)
    moreover have "buf_base (bufs s b) \<noteq> ?a"
      using guarded_mapped(1) [OF session_D(2) [OF s(1) that]] by (auto elim!: mappedE)
    ultimately show "keep s t3 b" by (simp add: keep_def t3_def t2_def t1_def map_region_def)
  qed
  have o: "blist t3 = blist s" "nbufs t3 = Suc (nbufs s)" "locks t3 = locks s" "coffers t3 = coffers s" "ncoffers t3 = ncoffers s"
      "key t3 = key s" "gcnext (mem t3) = gcnext (mem s)" "regs (mem t3) (GC j) = regs (mem s) (GC j)" "sysnext (mem s) \<le> sysnext (mem t3)" for j
    by (simp_all add: t3_def t2_def t1_def map_region_def)
  have same: "bufs t3 b = bufs s b" if "b < nbufs s" for b using that by (simp add: t3_def t2_def t1_def)
  have ext: "extends s t3" using b(3) same o by (simp add: extends_def)
  have "session E t3"
    by (rule session_same_list [OF s(1)])
      (use o same session_refs [OF s(1)] keep_guarded [OF b(3) session_D(2) [OF s(1)]] b(2) in auto)
  moreover have "clean t3" by (rule clean_keep [OF s(2,1)]) (use b(3) o(1) in auto)
  ultimately show ?thesis using that [OF run _ ext o(1)] by (simp add: sane_def)
qed

text \<open>The run of \<^verbatim>\<open>POC\<close>: the key is sealed, and opening it below the limit purges the session and panics.\<close>

lemma NewEnclaveRandom_run:
  assumes "env_works E" and "sane E s" and "0 < k" and "int k + Overhead E \<le> 2 ^ 62"
  obtains e t i where "NewEnclaveRandom E (int k) s = (Ret (Some e), t)" and "keyed E t" and "sealed E t e (rand_bytes E i k)"
proof -
  have "0 \<le> Overhead E" by (simp add: Overhead_def)
  then have k: "int k \<le> 2 ^ 62" using assms(4) by simp
  obtain t i where t: "NewBufferRandom E (int k) s = (Ret (nbufs s), t)" "sane E t" "own t (nbufs s)"
      "contents (mem t) (data (bufs t (nbufs s))) = rand_bytes E i k"
    by (rule NewBufferRandom_run [OF assms(1-3) k]) (rule that)
  have st: "session E t" "clean t" and b: "nbufs s \<in> set (blist t)" "nbufs s \<notin> refs t (key t)"
    using t(2,3) by (simp_all add: sane_def own_def)
  obtain u e where u: "Seal E (nbufs s) t = (Ret (Inr e), u)" "session E u" "coffer_ok u (key u)" "clean t \<Longrightarrow> clean u"
      "holds E u e (contents (mem t) (data (bufs t (nbufs s))))"
    by (rule Seal_run [OF assms(1) st(1) b clean_D [OF st(2) b(1)]]) (rule that)
  have "sealed E u e (rand_bytes E i k)"
    using u(5) t(4) holds_slen(1) [OF env_works_D(6) [OF assms(1)] u(5)] assms(3,4)
    by (auto simp: sealed_def Overhead_def simp flip: length_greater_0_conv)
  moreover have "NewEnclaveRandom E (int k) s = (Ret (Some e), u)"
    using t(1) u(1) by (simp add: NewEnclaveRandom_def LockedBuffer_Seal_def bind_def exec)
  moreover have "keyed E u" using assms(1) u(2-4) st(2) by (simp add: keyed_def)
  ultimately show ?thesis by (intro that)
qed

lemma Open_lowered:
  assumes "keyed E s" and "sealed E s x m"
  obtains t where "(Open (lowered E e) x :: (err + nat) go) s = (Panicked (PErr e), t)" and "blist t = []"
    and "\<forall>b \<in> set (blist s). bufs t b = zero_Buffer \<and> regs (mem t) (buf_base (bufs s b)) = no_region"
proof -
  note k = keyed_D [OF assms(1)] and ok = env_works_D [OF keyed_D(1) [OF assms(1)]]
  have h: "holds E s x m" "m \<noteq> []" "int (slen (ciphertext x)) \<le> 2 ^ 62" using assms(2) by (simp_all add: sealed_def)
  have len: "int (slen (ciphertext x)) - Overhead E = int (length m)"
    using holds_slen(1) [OF ok(6) h(1)] by (simp add: Overhead_def)
  have "0 \<le> Overhead E" by (simp add: Overhead_def)
  then have n: "0 < length m" "int (length m) \<le> 2 ^ 62" using h(2,3) len by auto
  obtain u where u: "NewBuffer (lowered E e) (int (length m)) s = Panic E (PErr e) u" "sane E u" "extends s u" "blist u = blist s"
    by (rule NewBuffer_lowered [OF k(1,5) n]) (rule that)
  have su: "session E u" "\<forall>b \<in> set (blist u). canary_ok u b" using u(2) by (simp_all add: sane_def clean_def)
  have "(Panic E (PErr e) :: (err + nat) go) u = (Panicked (PErr e), purged u)"
    using Purge_run_ok [OF ok(1,2) session_D(4,1) [OF su(1)] su(2)] by (simp add: Panic_def bind_def exec)
  then have run: "Open (lowered E e) x s = (Panicked (PErr e), purged u)"
    using u(1) len by (simp add: Open_def bind_def)
  have "bufs (purged u) b = zero_Buffer \<and> regs (mem (purged u)) (buf_base (bufs s b)) = no_region" if "b \<in> set (blist s)" for b
  proof -
    have "bufs u b = bufs s b" using extends_D(1) [OF u(3) that] by (simp add: keep_def)
    then show ?thesis using purged_listed(2) [OF su(1), of b] su(2) that u(4) by simp
  qed
  then show ?thesis using that [OF run] by simp
qed

lemma POC_run:
  assumes "env_works E" and "sane E s" and "32 + Overhead E \<le> 2 ^ 62"
  shows "\<exists>t. POC E None e s = (Panicked (PErr e), t) \<and> blist t = []"
proof -
  obtain x t i where t: "NewEnclaveRandom E (int 32) s = (Ret (Some x), t)" "keyed E t" "sealed E t x (rand_bytes E i 32)"
    by (rule NewEnclaveRandom_run [OF assms(1,2), of 32]) (use assms(3) that in simp_all)
  obtain u where u: "(Open (lowered E e) x :: (err + nat) go) t = (Panicked (PErr e), u)" "blist u = []"
    by (rule Open_lowered [OF t(2,3)]) (rule that)
  then have "Enclave_Open (lowered E e) x t = (Panicked (PErr e), u)" by (simp add: Enclave_Open_def bind_def)
  then show ?thesis using t(1) u(2) by (simp add: POC_def bind_def)
qed

subsection \<open>The properties\<close>

text \<open>
  \<^verbatim>\<open>ReadKeyFromStdin\<close> of any input that keeps the contract of an \<^verbatim>\<open>io.Reader\<close>: the bytes before the first newline are
  returned sealed, and no buffer is left; an empty line is the error \<^verbatim>\<open>no input received\<close>. When the input ends
  without a newline its error is returned, and the buffer with what was read stays allocated: nobody destroys it.
\<close>

theorem ReadKeyFromStdin_seals:
  assumes "io_reader E rd ok rest final idle home" and "keyed E s" and "ok r s"
    and "int (length (rest r s) + pageSize E) + Overhead E \<le> 2 ^ 62" and "length (rest r s) + idle r s < fuel" and "home \<le> nbufs s"
  shows "let line = takeWhile (\<lambda>x. x \<noteq> 10) (rest r s) in
     \<exists>e r' t. ReadKeyFromStdin E rd fuel (r, s) = (Ret (e, if 10 \<notin> set (rest r s) then Some (final r s)
           else if line = [] then Some (ErrText ''no input received'') else None), (r', t)) \<and>
       (if 10 \<notin> set (rest r s) then e = None \<and> (\<exists>d. gives E s t d (rest r s))
        else keyed E t \<and> extends s t \<and> blist t = blist s \<and> (if line = [] then e = None else \<exists>x. e = Some x \<and> sealed E t x line))"
  unfolding Let_def by (rule ReadKeyFromStdin_run [OF assms])

text \<open>The input \<open>[1, 10, 3]\<close> on the garbage-collected heap.\<close>

definition w_line :: world where "w_line = snd (gc_new [1, 10, 3] w_key)"

definition line_rd :: bytes_Reader where "line_rd = \<lparr>rs = w_sl, ri = 0\<rparr>"

lemma w_line_facts: "keyed simE w_line" "br_inv simE 0 line_rd w_line" "br_rest line_rd w_line = [1, 10, 3]"
proof -
  have run: "gc_new [1, 10, 3] w_key = (Ret w_sl, w_line)" by (simp add: w_line_def w_sl_def gc_new_def)
  note gc = gc_new_access [OF run] and st = gc_step_new [OF run]
  have o: "coffers w_line = coffers w_key" "blist w_line = blist w_key" "key w_line = key w_key" "bufs w_line = bufs w_key"
    using st by (simp_all add: gc_step_def same_objs_def)
  have s: "session simE w_line" by (rule gc_step_session [OF st w_key_facts(3)])
  have c: "clean w_line"
    by (rule clean_intact [OF w_key_facts(4) intact_extends [OF gc_step_extends [OF st w_key_facts(3)] w_key_facts(3)] o(2)])
  have k: "coffer_ok w_line (key w_line)" using w_key_facts(5) o by (simp add: coffer_ok_def part_ok_def cong: option.case_cong)
  show kd: "keyed simE w_line" using s c k simE_works by (simp add: keyed_def)
  have "readable (mem w_line) w_sl" by (rule writable_readable [OF gc(3)])
  then have "source_ok 0 w_line w_sl"
    unfolding source_ok_def
    by (intro disjI2 exI [of _ "gcnext (mem w_key)"] exI [of _ 0] exI [of _ 3]) (use gc(6) in \<open>simp add: w_sl_def\<close>)
  then show "br_inv simE 0 line_rd w_line" using kd by (simp add: br_inv_def line_rd_def)
  show "br_rest line_rd w_line = [1, 10, 3]" using gc(2) by (simp add: br_rest_def line_rd_def)
qed

theorem ReadKeyFromStdin_seals_witness:
  "\<exists>e r' t. ReadKeyFromStdin simE bytes_Read 5 (line_rd, w_line) = (Ret (Some e, None), (r', t)) \<and> sealed simE t e [1]"
proof -
  have "int (length (br_rest line_rd w_line) + pageSize simE) + Overhead simE \<le> 2 ^ 62"
    using w_line_facts(3) by (simp add: simE_def Overhead_def)
  from ReadKeyFromStdin_seals [OF w_reader w_line_facts(1,2) this, of 5] show ?thesis
    using w_line_facts(3) by auto
qed

text \<open>
  \<^verbatim>\<open>openVerify\<close> of an enclave returns nil exactly when the enclave was made of the expected bytes, and the error otherwise;
  the buffer it opens is destroyed on both ways.
\<close>

theorem openVerify_compares:
  assumes "keyed E s" and "sealed E s e m" and "target s p"
  shows "\<exists>t. openVerify E e p s = (Ret (if contents (mem s) p = m then None else Some (ErrText ''open verify fail'')), t) \<and>
     keyed E t \<and> sealed E t e m \<and> extends s t \<and> blist t = blist s"
  using openVerify_run [OF assms] sealed_calm [OF _ assms(2)] by metis

theorem openVerify_compares_witness:
  "\<exists>e t. Some e \<in> set (queue st_q) \<and> openVerify simE e w_sl st_w = (Ret (Some (ErrText ''open verify fail'')), t) \<and> blist t = blist st_w"
proof -
  obtain e m es where e: "queue st_q = Some e # es" "sealed simE st_w e m"
    using st_facts(2,5) by (cases "queue st_q") (auto simp: stream_ok_def)
  have "m = [1, 2, 3]"
    using sealed_open_bytes [OF simE_ok(3) e(2)] st_facts(5) e(1) by simp
  then show ?thesis
    using openVerify_compares [OF st_facts(1) e(2) st_facts(3)] st_facts(6) e(1)
    by (intro exI [of _ e]) auto
qed

text \<open>
  \<^verbatim>\<open>POC\<close> of \<^verbatim>\<open>deadlock/x02\<close>: when the limit of locked memory is lowered to zero after the key was sealed, opening it does not
  block. The session is purged, so that no buffer is listed any more, and the process panics with the error of the lock.
\<close>

theorem POC_panics:
  assumes "env_works E" and "sane E s" and "32 + Overhead E \<le> 2 ^ 62"
  shows "\<exists>t. POC E None e s = (Panicked (PErr e), t) \<and> blist t = []"
  by (rule POC_run [OF assms])

theorem POC_panics_witness: "\<exists>t. POC simE None (OSErr ''ENOMEM'') init_world = (Panicked (PErr (OSErr ''ENOMEM'')), t) \<and> blist t = []"
proof -
  have "32 + Overhead simE \<le> 2 ^ 62" by (simp add: simE_def Overhead_def)
  then show ?thesis by (rule POC_panics [OF simE_works init_sane])
qed

end
