(* ===== verification/Stream_Example.thy ===== *)
theory Stream_Example
  imports Stream_Fifo Reader_Props Locked_Props
begin

text \<open>
  \<^verbatim>\<open>SlowRandByte\<close> of \<^verbatim>\<open>examples/stream/stream.go\<close>: random bytes are written to a stream from a guarded buffer
  and read back one page at a time. The lemmas show that the loop ends, that the result is the
  exclusive or of the bytes, and that no buffer is left behind.
\<close>

subsection \<open>examples/stream/stream.go\<close>

text \<open>\<^verbatim>\<open>for i := range n { parity = parity ^ buf.Bytes()[i] }\<close>\<close>

fun xor_bytes :: "nat \<Rightarrow> nat list \<Rightarrow> byte \<Rightarrow> byte go" where
  "xor_bytes b [] parity = ret parity"
| "xor_bytes b (i # is) parity =
     bind (Bytes b) (\<lambda>d. bind (idx_get d i) (\<lambda>v. xor_bytes b is (parity XOR v)))"

fun slow_loop :: "env \<Rightarrow> nat \<Rightarrow> nat \<Rightarrow> byte \<Rightarrow> (Stream, byte) rgo" where
  "slow_loop E 0 b parity = unfinished"
| "slow_loop E (Suc fuel) b parity =
     bind (on_world (Bytes b)) (\<lambda>d.
     bind (Stream_Read E d) (\<lambda>(n, err).
     case err of
       Some e \<Rightarrow> if e = EOF then ret parity else on_world (SafePanic E (PErr e))
     | None \<Rightarrow>
         bind (on_world (xor_bytes b [0..<nat n] parity)) (\<lambda>parity.
         slow_loop E fuel b parity)))"

text \<open>A computation that creates a stream of its own.\<close>

definition with_new_stream :: "(Stream, 'a) rgo \<Rightarrow> 'a go" where
  "with_new_stream m s = (case m (NewStream, s) of (r, (q, t)) \<Rightarrow> (r, t))"

definition SlowRandByte :: "env \<Rightarrow> nat \<Rightarrow> byte go" where
  "SlowRandByte E fuel =
     bind (NewBufferRandom E (1024 * 16)) (\<lambda>b.
     bind (LockedBuffer_Melt E b) (\<lambda>_.
     with_new_stream
       (bind (on_world (Bytes b)) (\<lambda>d.
        bind (Stream_Write E d) (\<lambda>_.
        bind (on_world (LockedBuffer_Destroy E b)) (\<lambda>_.
        bind (on_world (memguard_NewBuffer E (int (pageSize E)))) (\<lambda>buf.
        defer_do (on_world (LockedBuffer_Destroy E buf)) (slow_loop E fuel buf 0))))))))"

subsection \<open>Facts\<close>

lemma xor_bytes_run:
  assumes "readable (mem s) (data (bufs s b))" and "\<forall>i \<in> set is. i < slen (data (bufs s b))"
  shows "xor_bytes b is p s = (Ret (fold (XOR) (map ((!) (contents (mem s) (data (bufs s b)))) is) p), s)"
  using assms(2)
proof (induction "is" arbitrary: p)
  case (Cons i "is")
  then show ?case using assms(1) by (simp add: bind_def idx_get_run xor.commute)
qed (simp add: exec)

lemma xor_prefix:
  assumes "readable (mem s) (data (bufs s b))" and "n \<le> slen (data (bufs s b))"
  shows "xor_bytes b [0..<n] p s = (Ret (fold (XOR) (take n (contents (mem s) (data (bufs s b)))) p), s)"
proof -
  have "map ((!) xs) [0..<n] = take n xs" if "n \<le> length xs" for xs :: "byte list"
    using that by (intro nth_equalityI) auto
  then show ?thesis using xor_bytes_run [OF assms(1), of "[0..<n]" p] assms by (simp add: readable_fits)
qed

text \<open>The whole data of a buffer of the program as a destination.\<close>

lemma target_data:
  assumes "session E s" and "own s b" and "mutable (bufs s b)"
  shows "target s (data (bufs s b))"
proof -
  have "b \<in> set (blist s)" using assms(2) by (simp add: own_def)
  then have "part_of (data (bufs s b)) 0 (data (bufs s b))" by (rule session_bases [OF assms(1)]) simp
  then show ?thesis using assms(2,3) unfolding target_def by blast
qed

lemma target_own:
  assumes "session E s" and "b \<in> set (blist s)" and "target s (data (bufs s b))"
  shows "own s b"
  using assms(3)
proof (cases rule: target_cases)
  case (buf c k)
  have c: "c \<in> set (blist s)" using buf(1) by (simp add: own_def)
  have "slice_base (data (bufs s b)) = buf_base (bufs s c)" by (rule part_access(3) [OF buf(3) assms(1) c buf(2)])
  then have "buf_base (bufs s b) = buf_base (bufs s c)"
    using mapped_bases(4) [OF guarded_mapped(1) [OF session_D(2) [OF assms(1,2)]]] by simp
  then show ?thesis using session_D(6) [OF assms(1,2) c] buf(1) by auto
next
  case (gc j i n c)
  have False by (rule session_bases [OF assms(1,2)]) (use gc(1) in simp)
  then show ?thesis ..
qed

text \<open>The loop of \<^verbatim>\<open>SlowRandByte\<close> with a working buffer.\<close>

lemma slow_loop_run:
  assumes "work E s0 s b" and "mutable (bufs s b)" and "stream_ok E q s" and "length (queue_bytes E s (queue q)) < fuel"
  shows "\<exists>q' t. slow_loop E fuel b p (q, s) = (Ret (fold (XOR) (queue_bytes E s (queue q)) p), (q', t)) \<and> work E s0 t b"
  using assms
proof (induction fuel arbitrary: q s p)
  case (Suc fuel)
  note w = work_D [OF Suc.prems(1)]
  note k = keyed_D [OF w(2)]
  have sb: "secretbox_ok E" by (rule env_works_D(6) [OF k(1)])
  let ?d = "data (bufs s b)"
  have g: "fits (mem s) ?d" "0 < slen ?d" by (rule guarded_data [OF w(12)])+
  have tg: "target s ?d" by (rule target_data [OF k(2) w(9) Suc.prems(2)])
  have self: "part_of ?d 0 ?d" by (rule session_bases [OF k(2) w(7)]) simp
  have q: "queue_ok E s (queue q)" using Suc.prems(3) by (simp add: stream_ok_def)
  have cl: "clear (queue q) ?d" by (rule buffer_clear [OF w(2) q w(7) self])
  let ?m = "concat (take 1 (queue_chunks E s (queue q)))"
  let ?n = "min (slen ?d) (length ?m)" and ?bs = "copied (contents (mem s) ?d) ?m"
  obtain q' t where t: "Stream_Read E ?d (q, s) = (Ret (int ?n, if queue q = [] then Some EOF else None), (q', t))"
      "received E ?d ?bs s t" "stream_ok E q' t" "queue_bytes E t (queue q') = drop ?n (queue_bytes E s (queue q))"
    by (rule Stream_Read_run [OF w(2) Suc.prems(3) tg cl]) (rule that)
  note x = work_received [OF Suc.prems(1) self t(2)]
  show ?case
  proof (cases "queue q")
    case Nil
    then have "slow_loop E (Suc fuel) b p (q, s) = (Ret (fold (XOR) (queue_bytes E s (queue q)) p), (q', t))"
      using t(1) by (simp add: bind_def exec on_world_def)
    then show ?thesis using x(1) by blast
  next
    case (Cons y es)
    then obtain e m where e: "queue q = Some e # es" "sealed E s e m" using q by auto
    have m: "?m = m" "m \<noteq> []" "queue_bytes E s (queue q) = m @ queue_bytes E s es"
      using sealed_open_bytes [OF sb e(2)] e by (simp_all add: sealed_def)
    have n: "0 < ?n" "?n \<le> length (queue_bytes E s (queue q))" using m g(2) by simp_all
    have c: "take ?n (contents (mem t) ?d) = take ?n (queue_bytes E s (queue q))"
    proof -
      have "contents (mem t) ?d = ?bs" using x(2,3) t(2) g(1) by (simp add: received_def)
      moreover have "take ?n ?bs = take ?n m" using g(1) m(1) by (auto simp: copied_def)
      ultimately show ?thesis using m by simp
    qed
    have r: "readable (mem t) (data (bufs t b))" by (rule guarded_data(1) [OF work_D(12) [OF x(1)]])
    let ?p = "fold (XOR) (take ?n (queue_bytes E s (queue q))) p"
    have xr: "xor_bytes b [0..<?n] p t = (Ret ?p, t)"
      using xor_prefix [OF r, of ?n p] x(2) c by simp
    have "length (queue_bytes E t (queue q')) < fuel" using n Suc.prems(4) unfolding t(4) length_drop by linarith
    then obtain q'' u where u: "slow_loop E fuel b ?p (q', t) = (Ret (fold (XOR) (queue_bytes E t (queue q')) ?p), (q'', u))" "work E s0 u b"
      using Suc.IH [OF x(1) _ t(3), of ?p] Suc.prems(2) x(2) by auto
    have "fold (XOR) (queue_bytes E t (queue q')) ?p = fold (XOR) (queue_bytes E s (queue q)) p"
      unfolding t(4) by (simp only: fold_append [symmetric, THEN fun_cong, unfolded comp_def] append_take_drop_id)
    then have "slow_loop E (Suc fuel) b p (q, s) = (Ret (fold (XOR) (queue_bytes E s (queue q)) p), (q'', u))"
      using t(1) xr u(1) Cons by (simp add: bind_def exec on_world_def)
    then show ?thesis using u(2) by blast
  qed
qed simp

text \<open>
  The first half of the program: random bytes are written to a new stream, and their buffer is destroyed. \<open>K\<close> is the rest.
\<close>

lemma slow_write_run:
  assumes "ready E s" and "16384 + Overhead E \<le> 2 ^ 62"
  obtains q t i where "\<And>K :: (Stream, 'a) rgo. bind (NewBufferRandom E (1024 * 16)) (\<lambda>b. bind (LockedBuffer_Melt E b) (\<lambda>_. with_new_stream
       (bind (on_world (Bytes b)) (\<lambda>d. bind (Stream_Write E d) (\<lambda>_. bind (on_world (LockedBuffer_Destroy E b)) (\<lambda>_. K)))))) s =
       (case K (q, t) of (r, (q, u)) \<Rightarrow> (r, u))"
    and "keyed E t" and "extends s t" and "queue_ok E t (queue q)" and "queue_bytes E t (queue q) = rand_bytes E i 16384" and "\<not> slocked q"
    and "coffer_ok s (key s) \<Longrightarrow> blist t = blist s"
proof -
  note r = ready_D [OF assms(1)]
  have sane: "sane E s" using r(2,3) by (simp add: sane_def)
  let ?b = "nbufs s"
  obtain t1 i where t1: "NewBufferRandom E (int 16384) s = (Ret ?b, t1)" "sane E t1" "own t1 ?b" "\<not> mutable (bufs t1 ?b)"
      "blist t1 = blist s @ [?b]" "extends s t1" "key t1 = key s" "contents (mem t1) (data (bufs t1 ?b)) = rand_bytes E i 16384"
      "slen (data (bufs t1 ?b)) = 16384"
    by (rule NewBufferRandom_run [OF r(1) sane, of 16384]) (use that in simp_all)
  have s1: "session E t1" "?b \<in> set (blist t1)" "?b \<notin> refs t1 (key t1)" using t1(2,3) by (simp_all add: sane_def own_def)
  let ?t2 = "melted_state ?b t1"
  note m = sane_buffer(3,4) [OF r(1) t1(2,3)]
  have e2: "extends s ?t2" by (rule frozen_extends(2) [OF t1(6) r(2) s1(1,2)]) simp
  have s2: "session E ?t2" "clean ?t2" using m(2) by (simp_all add: sane_def)
  have o2: "own ?t2 ?b" using t1(3) by (simp add: own_def refs_def)
  have mu: "mutable (bufs ?t2 ?b)"
    using t1(4) guarded_mapped(2) [OF session_D(2) [OF s1(1,2)]] by (simp add: melted_state_def)
  let ?d = "data (bufs ?t2 ?b)"
  have d: "?d = data (bufs t1 ?b)" "slen ?d = 16384" "contents (mem ?t2) ?d = rand_bytes E i 16384" using t1(8,9) by simp_all
  have tg: "target ?t2 ?d" by (rule target_data [OF s2(1) o2 mu])
  have bk: "backed E ?t2 (queue NewStream)" "\<not> slocked NewStream" "clear (queue NewStream) ?d"
    using r(1) s2 by (simp_all add: backed_def ready_def NewStream_def clear_def)
  have sz: "int (slen ?d) + Overhead E \<le> 2 ^ 62" using assms(2) d(2) by simp
  obtain q t3 where t3: "Stream_Write E ?d (NewStream, ?t2) = (Ret (int (slen ?d), None), (q, t3))" "backed E t3 (queue q)" "\<not> slocked q"
      "queue_bytes E t3 (queue q) = queue_bytes E ?t2 (queue NewStream) @ contents (mem ?t2) ?d"
      "extends (?t2\<lparr>mem := put (mem ?t2) ?d (replicate (slen ?d) 0)\<rparr>) t3"
      "coffer_ok ?t2 (key ?t2) \<Longrightarrow> key t3 = key ?t2 \<and> key_value E t3 = key_value E ?t2 \<and> blist t3 = blist ?t2"
      "coffer_ok ?t2 (key ?t2) \<or> 0 < slen ?d \<Longrightarrow> coffer_ok t3 (key t3)" "\<And>r. target ?t2 r \<Longrightarrow> target t3 r"
    by (rule Stream_Write_run [OF bk(1,2) tg bk(3) sz]) (rule that)
  have k3: "keyed E t3" using t3(2,7) d(2) by (simp add: keyed_ready backed_def)
  have qb: "queue_bytes E t3 (queue q) = rand_bytes E i 16384" using t3(4) d(3) by (simp add: NewStream_def)
  have q3: "queue_ok E t3 (queue q)" using t3(2) by (simp add: backed_def)
  have new: "?b \<notin> set (blist s)" using session_D(3) [OF r(2), of ?b] by blast
  have b2: "?b \<in> set (blist ?t2)" using s1(2) by simp
  have "extends s (?t2\<lparr>mem := put (mem ?t2) ?d (replicate (slen ?d) 0)\<rparr>)"
    by (rule put_new_extends(1) [OF e2 r(2) s2(1) b2 new]) simp
  then have e3: "extends s t3" using t3(5) by (rule extends_trans)
  have b3: "?b \<in> set (blist t3)" "bufs t3 ?b = bufs ?t2 ?b"
    using extends_D(1,2) [OF t3(5), of ?b] b2 by (simp_all add: keep_def)
  have o3: "own t3 ?b" by (rule target_own [OF keyed_D(2) [OF k3] b3(1)]) (use t3(8) [OF tg] b3(2) in simp)
  let ?t4 = "removed_state ?b t3"
  note rm = own_remove [OF k3 o3]
  have e4: "extends s ?t4"
    by (rule removed_extends(1) [OF e3 r(2) keyed_D(2) [OF k3] b3(1)]) (use o3 in \<open>simp_all add: own_def\<close>)
  have sb: "secretbox_ok E" by (rule env_works_D(6) [OF r(1)])
  note q4 = queue_calm [OF sb rm(3) q3]
  have melt: "LockedBuffer_Melt E ?b t1 = (Ret (), ?t2)" using m(1) by (simp add: LockedBuffer_Melt_def)
  have body: "bind (on_world (Bytes ?b)) (\<lambda>d. bind (Stream_Write E d) (\<lambda>_. bind (on_world (LockedBuffer_Destroy E ?b)) (\<lambda>_. K)))
      (NewStream, ?t2) = K (q, ?t4)" for K :: "(Stream, 'a) rgo"
    using t3(1) rm(1) by (simp add: bind_def exec on_world_def)
  have bl: "blist ?t4 = blist s" if "coffer_ok s (key s)"
  proof -
    have "keyed E s" using that assms(1) by (simp add: keyed_ready)
    then have "coffer_ok ?t2 (key ?t2)"
      by (rule keyed_D(4) [OF extends_keyed [OF _ e2 _ s2]]) (simp add: t1(7))
    then have "blist t3 = blist s @ [?b]" using t3(6) t1(5) by simp
    then show ?thesis using new by (simp add: remove1_append)
  qed
  show ?thesis
    by (rule that [OF _ rm(2) e4 q4(1) _ t3(3) bl])
      (use t1(1) melt body q4(2) qb in \<open>simp_all add: bind_Ret with_new_stream_def\<close>)
qed

text \<open>The whole program.\<close>

lemma SlowRandByte_run:
  assumes "ready E s" and "int (16384 + pageSize E) + Overhead E \<le> 2 ^ 62" and "16384 < fuel"
  obtains t i where "SlowRandByte E fuel s = (Ret (fold (XOR) (rand_bytes E i 16384) 0), t)" and "keyed E t" and "extends s t"
    and "coffer_ok s (key s) \<Longrightarrow> blist t = blist s"
proof -
  note r = ready_D [OF assms(1)]
  have sb: "secretbox_ok E" by (rule env_works_D(6) [OF r(1)])
  have le: "16384 + Overhead E \<le> 2 ^ 62" using assms(2) by simp
  obtain q t i where t: "\<And>K :: (Stream, byte) rgo. bind (NewBufferRandom E (1024 * 16)) (\<lambda>b. bind (LockedBuffer_Melt E b) (\<lambda>_. with_new_stream
       (bind (on_world (Bytes b)) (\<lambda>d. bind (Stream_Write E d) (\<lambda>_. bind (on_world (LockedBuffer_Destroy E b)) (\<lambda>_. K)))))) s =
       (case K (q, t) of (r, (q, u)) \<Rightarrow> (r, u))"
      "keyed E t" "extends s t" "queue_ok E t (queue q)" "queue_bytes E t (queue q) = rand_bytes E i 16384" "\<not> slocked q"
      "coffer_ok s (key s) \<Longrightarrow> blist t = blist s"
    by (rule slow_write_run [OF assms(1) le]) (rule that)
  have pos: "0 < pageSize E" "int (pageSize E) \<le> 2 ^ 62"
    using env_works_D(7) [OF r(1)] assms(2) by (auto simp: page_ok_def Overhead_def)
  let ?u = "newbuf_state E (pageSize E) t"
  note n = work_new [OF t(2) pos]
  note qu = queue_calm [OF sb work_D(10) [OF n(2)] t(4)]
  have so: "stream_ok E q ?u" using qu(1) t(6) by (simp add: stream_ok_def)
  have fu: "length (queue_bytes E ?u (queue q)) < fuel" using qu(2) t(5) assms(3) by (simp add: rand_bytes_def)
  obtain q' v where v: "slow_loop E fuel (nbufs t) 0 (q, ?u) = (Ret (fold (XOR) (rand_bytes E i 16384) 0), (q', v))" "work E t v (nbufs t)"
    using slow_loop_run [OF n(2,3) so fu, of 0] qu(2) t(5) by auto
  note z = work_end [OF v(2)]
  have "SlowRandByte E fuel s = (Ret (fold (XOR) (rand_bytes E i 16384) 0), removed_state (nbufs t) v)"
    unfolding SlowRandByte_def t(1) using n(1) v(1) z(1) by (simp add: bind_def exec on_world_def defer_do_def)
  then show ?thesis by (rule that) (use z t(3,7) extends_trans [OF t(3) z(3)] in simp_all)
qed

subsection \<open>The property\<close>

text \<open>
  C37. \<^verbatim>\<open>SlowRandByte\<close> returns the exclusive or of 16384 consecutive bytes of the random source, for every page
  size. The loop ends: fuel for one read more than there are bytes is enough. Everything that existed is
  unchanged, and a process that has a key is left with the buffers it had.
\<close>

theorem SlowRandByte_parity:
  assumes "ready E s" and "int (16384 + pageSize E) + Overhead E \<le> 2 ^ 62" and "16384 < fuel"
  shows "\<exists>t i. SlowRandByte E fuel s = (Ret (fold (XOR) (rand_bytes E i 16384) 0), t) \<and> keyed E t \<and> extends s t \<and>
     (coffer_ok s (key s) \<longrightarrow> blist t = blist s)"
  by (rule SlowRandByte_run [OF assms]) blast

theorem SlowRandByte_parity_witness:
  "\<exists>t i. SlowRandByte simE 16385 w_user = (Ret (fold (XOR) (rand_bytes simE i 16384) 0), t) \<and> blist t = blist w_user"
proof -
  have "ready simE w_user" using w_user_facts(8) by (simp add: keyed_ready)
  moreover have "int (16384 + pageSize simE) + Overhead simE \<le> 2 ^ 62" by (simp add: simE_def Overhead_def)
  ultimately show ?thesis using SlowRandByte_parity [of simE w_user 16385] w_user_facts(3) by fastforce
qed

end
