(* ===== verification/Socket_Example.thy ===== *)
theory Socket_Example
  imports Examples
begin

text \<open>
  The example \<^verbatim>\<open>examples/socketkey/socketkey.go\<close>: a client sends a random key over a socket, and the server reads it into a guarded
  buffer, seals it and opens it again. The package \<^verbatim>\<open>net\<close> is a parameter; the call of \<^verbatim>\<open>CatchSignal\<close>, which only registers a handler
  (theory \<open>Signals\<close>), and the printing are left out. The client runs to its end before the server reads:
  what it wrote waits in the socket. The lemmas show that the key arrives whatever pieces the socket transfers it in,
  and that nothing is left when the function returns.
\<close>

subsection \<open>examples/socketkey/socketkey.go\<close>






subsection \<open>What the program relies on\<close>



subsection \<open>Facts: the client\<close>






subsection \<open>Facts: the server\<close>


subsection \<open>Facts: the program\<close>


subsection \<open>A connection\<close>






subsection \<open>The property\<close>



end
