(* ===== verification/Threads.thy ===== *)
theory Threads
  imports Prelude
begin

text \<open>
  Goroutines that interleave. A \<open>thread\<close> is a computation cut into actions: an action runs without interruption, and between
  two actions any other thread, or the background of the program, may run. Running a thread alone is an ordinary computation
  (\<open>run_thread\<close>). The locale \<open>sharing\<close> gives rules for threads that share a state and each own a set of objects: a thread
  relies on the others to leave its objects alone, and guarantees the same to them. What is proved of one thread
  then holds of any number of threads under every schedule.
\<close>

subsection \<open>Threads\<close>

datatype ('s, 'a) thread = Done "'a outcome" | Act "'s \<Rightarrow> ('s, 'a) thread \<times> 's"

text \<open>A thread that runs alone.\<close>

primrec run_thread :: "('s, 'a) thread \<Rightarrow> ('s, 'a) comp" where
  "run_thread (Done r) = (\<lambda>s. (r, s))"
| "run_thread (Act g) = (\<lambda>s. case (map_prod run_thread id \<circ> g) s of (k, t) \<Rightarrow> k t)"

definition atom :: "('s, 'a) comp \<Rightarrow> ('s, 'a) thread" where
  "atom m = Act (\<lambda>s. case m s of (r, t) \<Rightarrow> (Done r, t))"

fun go_on :: "'a outcome \<Rightarrow> ('a \<Rightarrow> ('s, 'b) thread) \<Rightarrow> ('s, 'b) thread" where
  "go_on (Ret v) f = f v"
| "go_on (Panicked p) f = Done (Panicked p)"
| "go_on Crash f = Done Crash"
| "go_on Blocked f = Done Blocked"
| "go_on (Exited c) f = Done (Exited c)"
| "go_on Unfinished f = Done Unfinished"

primrec tbind :: "('s, 'a) thread \<Rightarrow> ('a \<Rightarrow> ('s, 'b) thread) \<Rightarrow> ('s, 'b) thread" where
  "tbind (Done r) f = go_on r f"
| "tbind (Act g) f = Act (map_prod (\<lambda>th. tbind th f) id \<circ> g)"

text \<open>\<^verbatim>\<open>defer f()\<close> in a thread.\<close>

fun at_end :: "'a outcome \<Rightarrow> ('s, unit) thread \<Rightarrow> ('s, 'a) thread" where
  "at_end (Ret v) f = tbind f (\<lambda>_. Done (Ret v))"
| "at_end (Panicked p) f = tbind f (\<lambda>_. Done (Panicked p))"
| "at_end r f = Done r"

primrec tfinally :: "('s, unit) thread \<Rightarrow> ('s, 'a) thread \<Rightarrow> ('s, 'a) thread" where
  "tfinally f (Done r) = at_end r f"
| "tfinally f (Act g) = Act (map_prod (tfinally f) id \<circ> g)"

text \<open>
  A pool of threads over one state. A step is the next action of one thread, a step of the background, or the start of a
  new thread.
\<close>

inductive sched :: "('s \<Rightarrow> 's \<Rightarrow> bool) \<Rightarrow> ('s, 'a) thread set \<Rightarrow> ('s, 'a) thread list \<times> 's \<Rightarrow> ('s, 'a) thread list \<times> 's \<Rightarrow> bool"
  for bg new where
  act: "i < length ths \<Longrightarrow> ths ! i = Act g \<Longrightarrow> g s = (th, t) \<Longrightarrow> sched bg new (ths, s) (ths[i := th], t)"
| background: "bg s t \<Longrightarrow> sched bg new (ths, s) (ths, t)"
| spawn: "th \<in> new \<Longrightarrow> sched bg new (ths, s) (ths @ [th], s)"

inductive_cases sched_cases: "sched bg new (ths, s) (ths', t)"

subsection \<open>Facts: running alone\<close>

lemma thread_induct [case_names Done Act]:
  fixes P :: "('s, 'a) thread \<Rightarrow> bool"
  assumes "\<And>r. P (Done r)" and "\<And>g. (\<And>s. P (fst (g s))) \<Longrightarrow> P (Act g)"
  shows "P th"
proof (induction th rule: thread.induct)
  fix r show "P (Done r)" by (rule assms(1))
next
  fix g :: "'s \<Rightarrow> ('s, 'a) thread \<times> 's"
  assume "\<And>p k. p \<in> range g \<Longrightarrow> k \<in> Basic_BNFs.fsts p \<Longrightarrow> P k"
  then show "P (Act g)" by (intro assms(2)) (blast intro: fsts.intros)
qed

lemma run_Act: "run_thread (Act g) s = run_thread (fst (g s)) (snd (g s))"
  by (simp add: map_prod_def split: prod.split)

lemma run_atom [simp]: "run_thread (atom m) = m"
  by (rule ext) (simp add: atom_def split: prod.split)

lemma run_go_on: "run_thread (go_on r f) s = run_then (r, s) (\<lambda>v. run_thread (f v))"
  by (cases r) simp_all

lemma run_tbind [simp]: "run_thread (tbind th f) = bind (run_thread th) (\<lambda>v. run_thread (f v))"
proof (induction th rule: thread_induct)
  case (Done r)
  show ?case by (rule ext) (simp add: run_go_on bind_def)
next
  case (Act g)
  show ?case by (rule ext) (simp add: run_Act Act bind_def del: run_thread.simps)
qed

lemma run_Done: "run_thread (Done (Ret v)) = ret v" "run_thread (Done (Panicked p)) = go_panic p"
  by (rule ext, simp)+

lemma run_at_end: "run_thread (at_end r f) s = defer_do (run_thread f) (Pair r) s"
  by (cases r) (simp_all add: defer_do_def run_Done del: run_thread.simps, simp_all)

lemma run_tfinally [simp]: "run_thread (tfinally f th) = defer_do (run_thread f) (run_thread th)"
proof (induction th rule: thread_induct)
  case (Done r)
  show ?case by (rule ext) (simp add: run_at_end)
next
  case (Act g)
  show ?case by (rule ext) (simp add: run_Act Act defer_do_def del: run_thread.simps)
qed

lemma tbind_assoc: "tbind (tbind th f) g = tbind th (\<lambda>v. tbind (f v) g)"
proof (induction th rule: thread_induct)
  case (Done r)
  show ?case by (cases r) simp_all
next
  case (Act h)
  have "tbind (tbind (fst (h s)) f) g = tbind (fst (h s)) (\<lambda>v. tbind (f v) g)" for s by (rule Act)
  then show ?case by (simp add: fun_eq_iff map_prod_def split_beta)
qed

text \<open>Whatever the others have done before, the actions of one thread can be scheduled one after the other.\<close>

lemma sched_run:
  assumes "i < length ths" and "run_thread (ths ! i) s = (r, t)"
  shows "(sched bg new)\<^sup>*\<^sup>* (ths, s) (ths[i := Done r], t)"
  using assms
proof (induction "ths ! i" arbitrary: ths s rule: thread_induct)
  case (Done q)
  then have "run_thread (Done q) s = (r, t)" "ths[i := Done q] = ths" by (metis, metis list_update_id)
  then show ?case by simp
next
  case (Act g)
  let ?ths = "ths[i := fst (g s)]"
  have "sched bg new (ths, s) (?ths, snd (g s))"
    by (rule sched.act [OF Act.prems(1) Act.hyps(2) [symmetric]]) simp
  moreover have "(sched bg new)\<^sup>*\<^sup>* (?ths, snd (g s)) (?ths[i := Done r], t)"
    by (rule Act.hyps(1)) (use Act in \<open>simp_all add: run_Act del: run_thread.simps flip: Act.hyps(2)\<close>)
  ultimately show ?case by simp
qed

text \<open>The same for the first part of a thread.\<close>

lemma sched_first:
  assumes "i < length ths" and "ths ! i = tbind th f" and "run_thread th s = (r, t)"
  shows "(sched bg new)\<^sup>*\<^sup>* (ths, s) (ths[i := go_on r f], t)"
  using assms
proof (induction th arbitrary: ths s rule: thread_induct)
  case (Done q)
  then have "q = r" "s = t" by simp_all
  with Done(2) have "ths[i := go_on r f] = ths" by (metis list_update_id tbind.simps(1))
  then show ?case using \<open>s = t\<close> by simp
next
  case (Act g)
  let ?th = "fst (g s)" and ?u = "snd (g s)"
  have "sched bg new (ths, s) (ths[i := tbind ?th f], ?u)"
    by (rule sched.act [OF Act.prems(1), of "map_prod (\<lambda>th. tbind th f) id \<circ> g"]) (use Act.prems(2) in \<open>simp_all add: map_prod_def split_beta\<close>)
  moreover have "(sched bg new)\<^sup>*\<^sup>* (ths[i := tbind ?th f], ?u) ((ths[i := tbind ?th f])[i := go_on r f], t)"
    by (rule Act.IH) (use Act.prems in \<open>simp_all add: run_Act del: run_thread.simps\<close>)
  ultimately show ?case by simp
qed

subsection \<open>Schedules in which threads wait\<close>

text \<open>
  An action that ends as \<open>Blocked\<close> is a call that has to wait: it is not enabled, and the thread stays where it is. A
  schedule is an infinite run in which only enabled actions happen. It is fair to the thread \<open>i\<close> if the thread acts again
  unless it is disabled again and again. An action changes a thread, because what is left of it is a part of it.
\<close>

definition waits :: "('s \<Rightarrow> ('s, 'a) thread \<times> 's) \<Rightarrow> 's \<Rightarrow> bool" where
  "waits g s \<longleftrightarrow> fst (g s) = Done Blocked"

inductive turn :: "('s \<Rightarrow> 's \<Rightarrow> bool) \<Rightarrow> ('s, 'a) thread list \<times> 's \<Rightarrow> ('s, 'a) thread list \<times> 's \<Rightarrow> bool" for bg where
  act: "i < length ths \<Longrightarrow> ths ! i = Act g \<Longrightarrow> \<not> waits g s \<Longrightarrow> g s = (th, t) \<Longrightarrow> turn bg (ths, s) (ths[i := th], t)"
| background: "bg s t \<Longrightarrow> turn bg (ths, s) (ths, t)"

inductive_cases turn_cases: "turn bg (ths, s) (ths', t)"

definition enabled :: "('s, 'a) thread list \<times> 's \<Rightarrow> nat \<Rightarrow> bool" where
  "enabled x i \<longleftrightarrow> (\<exists>g. fst x ! i = Act g \<and> \<not> waits g (snd x))"

definition schedule :: "('s \<Rightarrow> 's \<Rightarrow> bool) \<Rightarrow> (nat \<Rightarrow> ('s, 'a) thread list \<times> 's) \<Rightarrow> bool" where
  "schedule bg f \<longleftrightarrow> (\<forall>n. turn bg (f n) (f (Suc n)))"

definition fair :: "(nat \<Rightarrow> ('s, 'a) thread list \<times> 's) \<Rightarrow> nat \<Rightarrow> bool" where
  "fair f i \<longleftrightarrow> (\<forall>n. (\<forall>m \<ge> n. enabled (f m) i) \<longrightarrow> (\<exists>m \<ge> n. fst (f (Suc m)) ! i \<noteq> fst (f m) ! i))"

lemma turn_sched: "turn bg x y \<Longrightarrow> sched bg {} x y"
  by (induction rule: turn.induct) (auto intro: sched.intros)

lemma turn_thread:
  assumes "turn bg (ths, s) (ths', t)"
  shows "length ths' = length ths" and "ths' ! i = ths ! i \<or> (\<exists>g s. ths ! i = Act g \<and> ths' ! i = fst (g s))"
proof -
  have "length ths' = length ths \<and> (ths' ! i = ths ! i \<or> (\<exists>g s. ths ! i = Act g \<and> ths' ! i = fst (g s)))"
    using assms
  proof (rule turn_cases)
    fix j g th assume "ths' = ths[j := th]" "j < length ths" "ths ! j = Act g" "g s = (th, t)"
    then show ?thesis by (cases "j = i") (auto intro!: exI [of _ s])
  qed simp_all
  then show "length ths' = length ths" "ths' ! i = ths ! i \<or> (\<exists>g s. ths ! i = Act g \<and> ths' ! i = fst (g s))" by simp_all
qed

lemma schedule_thread:
  assumes "schedule bg f"
  shows "length (fst (f n)) = length (fst (f 0))"
    and "fst (f (Suc n)) ! i = fst (f n) ! i \<or> (\<exists>g s. fst (f n) ! i = Act g \<and> fst (f (Suc n)) ! i = fst (g s))"
proof -
  have t: "turn bg (fst (f n), snd (f n)) (fst (f (Suc n)), snd (f (Suc n)))" for n using assms by (simp add: schedule_def)
  show "length (fst (f n)) = length (fst (f 0))" by (induction n) (simp_all add: turn_thread(1) [OF t])
  show "fst (f (Suc n)) ! i = fst (f n) ! i \<or> (\<exists>g s. fst (f n) ! i = Act g \<and> fst (f (Suc n)) ! i = fst (g s))"
    by (rule turn_thread(2) [OF t])
qed

lemma schedule_reach: "schedule bg f \<Longrightarrow> (sched bg {})\<^sup>*\<^sup>* (f 0) (f n)"
  by (induction n) (auto simp: schedule_def intro: rtranclp.rtrancl_into_rtrancl turn_sched)

text \<open>A thread acts only finitely often, so every schedule settles: from some time on only the background moves.\<close>

lemma thread_settles:
  assumes "schedule bg f"
  shows "\<exists>n. \<forall>m \<ge> n. fst (f m) ! i = fst (f n) ! i"
proof -
  have "\<exists>n. \<forall>m \<ge> n. fst (f m) ! i = fst (f n) ! i" if "fst (f k) ! i = th" for th k
    using that
  proof (induction th arbitrary: k rule: thread_induct)
    case (Done r)
    have "fst (f (k + d)) ! i = Done r" for d
    proof (induction d)
      case (Suc d)
      then show ?case using schedule_thread(2) [OF assms, of "k + d" i] by auto
    qed (use Done in simp)
    then show ?case using Done le_Suc_ex by (metis (no_types, lifting))
  next
    case (Act g)
    show ?case
    proof (cases "\<forall>m \<ge> k. fst (f m) ! i = Act g")
      case True
      then have "\<forall>m \<ge> k. fst (f m) ! i = fst (f k) ! i" using Act.prems by simp
      then show ?thesis by blast
    next
      case False
      then obtain d where "fst (f (k + d)) ! i \<noteq> Act g" using le_Suc_ex by blast
      then obtain e where e: "fst (f (k + e)) ! i \<noteq> Act g" "\<forall>d < e. fst (f (k + d)) ! i = Act g"
        using exists_least_iff [of "\<lambda>d. fst (f (k + d)) ! i \<noteq> Act g"] by blast
      then obtain d where d: "e = Suc d" using Act.prems by (cases e) auto
      have "fst (f (k + d)) ! i = Act g" using e(2) d by simp
      then obtain s where "fst (f (Suc (k + d))) ! i = fst (g s)" using schedule_thread(2) [OF assms, of "k + d" i] e(1) d by auto
      then show ?thesis by (rule Act.IH)
    qed
  qed
  then show ?thesis by blast
qed

lemma schedule_settles:
  assumes "schedule bg f"
  shows "\<exists>n. \<forall>m \<ge> n. fst (f m) = fst (f n)"
proof -
  obtain N where N: "\<And>i m. N i \<le> m \<Longrightarrow> fst (f m) ! i = fst (f (N i)) ! i"
    using thread_settles [OF assms] by metis
  define n where "n = Max (insert 0 (N ` {i. i < length (fst (f 0))}))"
  have n: "N i \<le> n" if "i < length (fst (f 0))" for i unfolding n_def by (rule Max_ge) (use that in auto)
  have "fst (f m) = fst (f n)" if "n \<le> m" for m
  proof (rule nth_equalityI)
    show "length (fst (f m)) = length (fst (f n))"
      by (rule trans [OF schedule_thread(1) [OF assms] schedule_thread(1) [OF assms, symmetric]])
    fix i assume "i < length (fst (f m))"
    then have i: "N i \<le> n" by (intro n) (simp only: schedule_thread(1) [OF assms, of m])
    show "fst (f m) ! i = fst (f n) ! i" by (rule trans [OF N [OF order_trans [OF i that]] N [OF i, symmetric]])
  qed
  then show ?thesis by blast
qed

text \<open>A thread that has not ended when the schedule has settled waits again and again.\<close>

lemma settled_waits:
  assumes "fair f i" and "\<And>m. n \<le> m \<Longrightarrow> fst (f m) = ths" and "n \<le> k" and "\<And>m. k \<le> m \<Longrightarrow> enabled (f m) i"
  shows False
proof -
  obtain m where "k \<le> m" "fst (f (Suc m)) ! i \<noteq> fst (f m) ! i" using assms(1,4) unfolding fair_def by blast
  then show False using assms(2) [of m] assms(2) [of "Suc m"] assms(3) by simp
qed

lemma fair_all_end:
  assumes "schedule bg f" and "\<And>i. i < k \<Longrightarrow> fair f i" and "\<And>i n. i < k \<Longrightarrow> (\<exists>r. fst (f n) ! i = Done r) \<or> enabled (f n) i"
  shows "\<exists>n. \<forall>m \<ge> n. \<forall>i < k. \<exists>r. fst (f m) ! i = Done r"
proof -
  obtain n where n: "\<forall>m \<ge> n. fst (f m) = fst (f n)" using schedule_settles [OF assms(1)] by blast
  have "\<exists>r. fst (f n) ! i = Done r" if i: "i < k" for i
  proof (rule ccontr)
    assume r: "\<nexists>r. fst (f n) ! i = Done r"
    have e: "enabled (f m) i" if m: "n \<le> m" for m
    proof -
      have "fst (f m) = fst (f n)" using n m by blast
      then show ?thesis using assms(3) [OF i, of m] r by simp
    qed
    have th: "fst (f m) = fst (f n)" if "n \<le> m" for m using n that by blast
    show False by (rule settled_waits [OF assms(2) [OF i] th order_refl e])
  qed
  then have "\<forall>i < k. \<exists>r. fst (f m) ! i = Done r" if "n \<le> m" for m
  proof -
    have "fst (f m) = fst (f n)" using n that by blast
    with \<open>\<And>i. i < k \<Longrightarrow> \<exists>r. fst (f n) ! i = Done r\<close> show ?thesis by simp
  qed
  then show ?thesis by blast
qed

text \<open>A finite run to the end of all threads is the beginning of a fair schedule, when the background always has a step.\<close>

lemma fair_schedule:
  assumes "(turn bg)\<^sup>*\<^sup>* x (ths, u)" and "\<And>i. i < k \<Longrightarrow> \<exists>r. ths ! i = Done r"
    and "I u" and "\<And>s. I s \<Longrightarrow> bg s (h s) \<and> I (h s)"
  shows "\<exists>f. schedule bg f \<and> f 0 = x \<and> (\<forall>i < k. fair f i)"
proof -
  obtain l where "((turn bg) ^^ l) x (ths, u)" using assms(1) by (auto simp: rtranclp_power)
  then obtain p where p: "p 0 = x" "p l = (ths, u)" "\<And>i. i < l \<Longrightarrow> turn bg (p i) (p (Suc i))"
    unfolding relpowp_fun_conv by blast
  define f where "f n = (if n \<le> l then p n else (ths, (h ^^ (n - l)) u))" for n
  have I: "I ((h ^^ n) u)" for n using assms(3,4) by (induction n) auto
  have late: "f (l + n) = (ths, (h ^^ n) u)" for n using p(2) by (cases n) (auto simp: f_def)
  have "turn bg (f n) (f (Suc n))" for n
  proof (cases "n < l")
    case True
    then show ?thesis using p(3) by (simp add: f_def)
  next
    case False
    then obtain d where d: "n = l + d" using le_Suc_ex by (metis not_less)
    have "turn bg (f (l + d)) (f (l + Suc d))"
      unfolding late using assms(4) [OF I [of d]] by (auto intro: turn.background)
    then show ?thesis by (simp add: d)
  qed
  then have "schedule bg f" by (simp add: schedule_def)
  moreover have "fair f i" if i: "i < k" for i
    unfolding fair_def
  proof (intro allI impI)
    fix n assume "\<forall>m \<ge> n. enabled (f m) i"
    then have "enabled (f (l + n)) i" by simp
    then show "\<exists>m \<ge> n. fst (f (Suc m)) ! i \<noteq> fst (f m) ! i" using assms(2) [OF i] unfolding late by (auto simp: enabled_def)
  qed
  ultimately show ?thesis using p(1) by (intro exI [of _ f]) (simp add: f_def)
qed

text \<open>The actions of one thread, when none of them waits.\<close>

lemma turn_run:
  assumes "i < length ths" and "run_thread (ths ! i) s = (r, t)" and "r \<noteq> Blocked"
  shows "(turn bg)\<^sup>*\<^sup>* (ths, s) (ths[i := Done r], t)"
  using assms
proof (induction "ths ! i" arbitrary: ths s rule: thread_induct)
  case (Done q)
  then have "run_thread (Done q) s = (r, t)" "ths[i := Done q] = ths" by (metis, metis list_update_id)
  then show ?case by simp
next
  case (Act g)
  let ?ths = "ths[i := fst (g s)]"
  have "run_thread (fst (g s)) (snd (g s)) = (r, t)" using Act.prems(2) Act.hyps(2) by (metis run_Act)
  then have "\<not> waits g s" using Act.prems(3) by (auto simp: waits_def)
  then have "turn bg (ths, s) (?ths, snd (g s))"
    by (intro turn.act [OF Act.prems(1) Act.hyps(2) [symmetric]]) simp_all
  moreover have "(turn bg)\<^sup>*\<^sup>* (?ths, snd (g s)) (?ths[i := Done r], t)"
    by (rule Act.hyps(1)) (use Act in \<open>simp_all add: run_Act del: run_thread.simps flip: Act.hyps(2)\<close>)
  ultimately show ?case by simp
qed

subsection \<open>Threads that share a state\<close>

text \<open>
  \<open>ok\<close> is an invariant of the state, \<open>own s c\<close> says that the object \<open>c\<close> exists, \<open>same s t c\<close> that it is unchanged, and
  \<open>calm s t\<close> that what all threads share is unchanged. The steps \<open>bg\<close> of the background leave all objects alone. \<open>W\<close> holds in
  the states in which a thread may have to wait.
\<close>

locale waiting =
  fixes ok :: "'s \<Rightarrow> bool" and own :: "'s \<Rightarrow> 'c \<Rightarrow> bool" and same :: "'s \<Rightarrow> 's \<Rightarrow> 'c \<Rightarrow> bool"
    and calm :: "'s \<Rightarrow> 's \<Rightarrow> bool" and bg :: "'s \<Rightarrow> 's \<Rightarrow> bool" and W :: "'s \<Rightarrow> bool"
  assumes same_refl: "same s s c" and same_trans: "same s t c \<Longrightarrow> same t u c \<Longrightarrow> same s u c"
    and calm_refl: "calm s s" and calm_trans: "calm s t \<Longrightarrow> calm t u \<Longrightarrow> calm s u"
    and bg: "ok s \<Longrightarrow> bg s t \<Longrightarrow> ok t \<and> calm s t \<and> (\<forall>c. own t c \<longleftrightarrow> own s c) \<and> (\<forall>c. own s c \<longrightarrow> same s t c)"
begin

text \<open>What a thread that owns \<open>M\<close> needs of a state, and what it relies on.\<close>

definition valid :: "'c set \<Rightarrow> 's \<Rightarrow> bool" where
  "valid M s \<longleftrightarrow> ok s \<and> (\<forall>c \<in> M. own s c)"

definition rely :: "'c set \<Rightarrow> 's \<Rightarrow> 's \<Rightarrow> bool" where
  "rely M s t \<longleftrightarrow> valid M t \<and> calm s t \<and> (\<forall>c \<in> M. same s t c)"

text \<open>
  What an action of a thread guarantees that owned \<open>M\<close> before it and owns \<open>M'\<close> after it: the objects of the others
  are unchanged, and the new ones did not exist.
\<close>

definition guar :: "'c set \<Rightarrow> 'c set \<Rightarrow> 's \<Rightarrow> 's \<Rightarrow> bool" where
  "guar M M' s t \<longleftrightarrow> ok t \<and> calm s t \<and> (\<forall>c. own s c \<and> c \<notin> M \<longrightarrow> same s t c) \<and>
     (\<forall>c. own t c \<longleftrightarrow> own s c \<and> c \<notin> M \<or> c \<in> M') \<and> (\<forall>c \<in> M'. c \<in> M \<or> \<not> own s c)"

text \<open>\<open>safe P th M s\<close>: whatever the others do, \<open>th\<close> keeps its guarantee or waits, and \<open>P\<close> holds when it ends.\<close>

inductive safe :: "('a outcome \<Rightarrow> 'c set \<Rightarrow> 's \<Rightarrow> bool) \<Rightarrow> ('s, 'a) thread \<Rightarrow> 'c set \<Rightarrow> 's \<Rightarrow> bool" for P where
  finished: "(\<And>t. rely M s t \<Longrightarrow> P r M t) \<Longrightarrow> safe P (Done r) M s"
| action: "(\<And>t. rely M s t \<Longrightarrow> W t \<and> waits g t \<or> (\<exists>M'. guar M M' t (snd (g t)) \<and> safe P (fst (g t)) M' (snd (g t)))) \<Longrightarrow>
    safe P (Act g) M s"

lemma rely_refl: "valid M s \<Longrightarrow> rely M s s"
  by (simp add: rely_def same_refl calm_refl)

lemma rely_trans: "rely M s t \<Longrightarrow> rely M t u \<Longrightarrow> rely M s u"
  using same_trans calm_trans by (fastforce simp: rely_def)

lemma rely_valid: "rely M s t \<Longrightarrow> valid M t"
  by (simp add: rely_def)

lemma guar_valid: "guar M M' s t \<Longrightarrow> valid M' t"
  by (simp add: guar_def valid_def)

text \<open>What one thread guarantees the others can rely on.\<close>

lemma guar_rely: "guar M M' s t \<Longrightarrow> valid N s \<Longrightarrow> N \<inter> M = {} \<Longrightarrow> rely N s t"
  by (fastforce simp: guar_def rely_def valid_def)

lemma guar_trans:
  assumes "guar M M' s t" and "guar M' M'' t u"
  shows "guar M M'' s u"
proof -
  have "same s u c" if "own s c" "c \<notin> M" for c
  proof -
    have "own t c" "c \<notin> M'" using assms(1) that by (auto simp: guar_def)
    with assms that show ?thesis by (intro same_trans [of s t c u]) (auto simp: guar_def)
  qed
  moreover have "calm s u" using assms by (intro calm_trans [of s t u]) (auto simp: guar_def)
  moreover have "own u c \<longleftrightarrow> own s c \<and> c \<notin> M \<or> c \<in> M''" for c using assms unfolding guar_def by blast
  moreover have "c \<in> M \<or> \<not> own s c" if "c \<in> M''" for c using assms that unfolding guar_def by blast
  ultimately show ?thesis using assms(2) by (simp add: guar_def)
qed

lemma bg_guar: "ok s \<Longrightarrow> bg s t \<Longrightarrow> guar {} {} s t"
  using bg [of s t] by (auto simp: guar_def)

subsection \<open>Rules for one thread\<close>

lemma safe_rely:
  assumes "safe P th M s" and "rely M s t"
  shows "safe P th M t"
  using assms(1)
proof cases
  case (finished r)
  then show ?thesis using rely_trans [OF assms(2)] by (auto intro: safe.finished)
next
  case (action g)
  show ?thesis unfolding action(1) by (rule safe.action) (rule action(2) [OF rely_trans [OF assms(2)]])
qed

lemma safe_atom:
  assumes "\<And>t. rely M s t \<Longrightarrow> \<exists>r u M'. m t = (r, u) \<and> guar M M' t u \<and> (\<forall>w. rely M' u w \<longrightarrow> P r M' w)"
  shows "safe P (atom m) M s"
  unfolding atom_def
proof (rule safe.action)
  fix t assume "rely M s t"
  then obtain r u M' where "m t = (r, u)" "guar M M' t u" "\<forall>w. rely M' u w \<longrightarrow> P r M' w" using assms by blast
  then show "W t \<and> waits (\<lambda>s. case m s of (r, t) \<Rightarrow> (Done r, t)) t \<or> (\<exists>M'. guar M M' t (snd (case m t of (r, t) \<Rightarrow> (Done r, t))) \<and>
      safe P (fst (case m t of (r, t) \<Rightarrow> (Done r, t))) M' (snd (case m t of (r, t) \<Rightarrow> (Done r, t))))"
    by (intro disjI2 exI [of _ M']) (simp add: safe.finished)
qed

lemma safe_done: "P r M s \<Longrightarrow> (\<And>t. rely M s t \<Longrightarrow> P r M s \<Longrightarrow> P r M t) \<Longrightarrow> safe P (Done r) M s"
  by (rule safe.finished) blast

text \<open>Going on with another thread after \<open>th\<close>; \<open>G\<close> is \<open>tbind\<close> or \<open>tfinally\<close>.\<close>

lemma safe_seq:
  assumes "safe P th M s" and "valid M s"
    and "\<And>g. G (Act g) = Act (map_prod G id \<circ> g)" and "\<And>r M' t. valid M' t \<Longrightarrow> P r M' t \<Longrightarrow> safe Q (G (Done r)) M' t"
    and "G (Done Blocked) = Done Blocked"
  shows "safe Q (G th) M s"
  using assms(1,2)
proof (induction rule: safe.induct)
  case (finished M s r)
  then show ?case by (blast intro: assms(4) rely_refl)
next
  case (action M s g)
  show ?case
    unfolding assms(3)
  proof (rule safe.action)
    fix t assume "rely M s t"
    then consider "W t" "waits g t"
      | M' where "guar M M' t (snd (g t))" "valid M' (snd (g t)) \<longrightarrow> safe Q (G (fst (g t))) M' (snd (g t))"
      using action.IH by blast
    then show "W t \<and> waits (map_prod G id \<circ> g) t \<or> (\<exists>M'. guar M M' t (snd ((map_prod G id \<circ> g) t)) \<and>
        safe Q (fst ((map_prod G id \<circ> g) t)) M' (snd ((map_prod G id \<circ> g) t)))"
    proof cases
      case 1
      then show ?thesis using assms(5) by (simp add: waits_def map_prod_def split_beta)
    next
      case 2
      then show ?thesis using guar_valid by (intro disjI2 exI [of _ M']) (auto simp: map_prod_def split_beta)
    qed
  qed
qed

lemma safe_bind:
  assumes "safe P th M s" and "valid M s" and "\<And>r M' t. valid M' t \<Longrightarrow> P r M' t \<Longrightarrow> safe Q (go_on r f) M' t"
  shows "safe Q (tbind th f) M s"
  by (rule safe_seq [OF assms(1,2), of "\<lambda>th. tbind th f"]) (use assms(3) in simp_all)

lemma safe_finally:
  assumes "safe P th M s" and "valid M s" and "\<And>r M' t. valid M' t \<Longrightarrow> P r M' t \<Longrightarrow> safe Q (at_end r f) M' t"
  shows "safe Q (tfinally f th) M s"
  by (rule safe_seq [OF assms(1,2)]) (use assms(3) in simp_all)

text \<open>What all share is unchanged at the end.\<close>

lemma safe_calm:
  assumes "safe P th M s" and "calm s0 s"
  shows "safe (\<lambda>r M t. P r M t \<and> calm s0 t) th M s"
  using assms
proof (induction rule: safe.induct)
  case (finished M s r)
  then show ?case by (intro safe.finished) (use calm_trans in \<open>auto simp: rely_def\<close>)
next
  case (action M s g)
  show ?case
  proof (rule safe.action)
    fix t assume t: "rely M s t"
    have "calm s0 (snd (g t))" if "guar M M' t (snd (g t))" for M'
      using that t action.prems calm_trans [of s0 s t] calm_trans [of s0 t "snd (g t)"] by (simp add: rely_def guar_def)
    with action.IH [OF t]
    show "W t \<and> waits g t \<or> (\<exists>M'. guar M M' t (snd (g t)) \<and> safe (\<lambda>r M t. P r M t \<and> calm s0 t) (fst (g t)) M' (snd (g t)))" by blast
  qed
qed

text \<open>One action and what follows it.\<close>

lemma safe_wait:
  assumes "\<And>t. rely M s t \<Longrightarrow> W t \<and> fst (m t) = Blocked \<or> (\<exists>v u M'. m t = (Ret v, u) \<and> guar M M' t u \<and> safe P (f v) M' u)"
  shows "safe P (tbind (atom m) f) M s"
  unfolding atom_def tbind.simps
proof (rule safe.action)
  let ?g = "map_prod (\<lambda>th. tbind th f) id \<circ> (\<lambda>s. case m s of (r, t) \<Rightarrow> (Done r, t))"
  fix t assume "rely M s t"
  then consider "W t" "fst (m t) = Blocked" | v u M' where "m t = (Ret v, u)" "guar M M' t u" "safe P (f v) M' u" using assms by blast
  then show "W t \<and> waits ?g t \<or> (\<exists>M'. guar M M' t (snd (?g t)) \<and> safe P (fst (?g t)) M' (snd (?g t)))"
  proof cases
    case 1
    then have "waits ?g t" by (cases "m t") (simp add: waits_def)
    with 1 show ?thesis by blast
  next
    case 2
    then show ?thesis by (intro disjI2 exI [of _ M']) simp
  qed
qed

lemma safe_then:
  assumes "\<And>t. rely M s t \<Longrightarrow> \<exists>v u M'. m t = (Ret v, u) \<and> guar M M' t u \<and> safe P (f v) M' u"
  shows "safe P (tbind (atom m) f) M s"
  by (rule safe_wait) (use assms in blast)

text \<open>An action that only reads, with a result the others cannot change.\<close>

lemma safe_read:
  assumes "\<And>t. rely M s t \<Longrightarrow> m t = (Ret v, t)" and "safe P (f v) M s"
  shows "safe P (tbind (atom m) f) M s"
proof (rule safe_then)
  fix t assume t: "rely M s t"
  have "guar M M t t" using t same_refl calm_refl by (auto simp: guar_def rely_def valid_def)
  with assms(1) [OF t] safe_rely [OF assms(2) t]
  show "\<exists>v u M'. m t = (Ret v, u) \<and> guar M M' t u \<and> safe P (f v) M' u" by blast
qed

text \<open>The next action of a thread.\<close>

lemma safe_next:
  assumes "safe P (Act g) M s" and "valid M s"
  shows "W s \<and> waits g s \<or> (\<exists>M'. guar M M' s (snd (g s)) \<and> safe P (fst (g s)) M' (snd (g s)))"
  using assms(1)
proof cases
  case action
  then show ?thesis using rely_refl [OF assms(2)] by blast
qed

subsection \<open>Pools\<close>

text \<open>
  The objects are those of \<open>H\<close>, which belong to no thread and are as they were in \<open>s0\<close>, and those the threads own; no
  object has two owners.
\<close>

definition pool :: "(nat \<Rightarrow> 'a outcome \<Rightarrow> 'c set \<Rightarrow> 's \<Rightarrow> bool) \<Rightarrow> 'c set \<Rightarrow> 's \<Rightarrow> ('s, 'a) thread list \<Rightarrow> 's \<Rightarrow> bool" where
  "pool P H s0 ths s \<longleftrightarrow> rely H s0 s \<and>
     (\<exists>M. (\<forall>i < length ths. safe (P i) (ths ! i) (M i) s \<and> M i \<inter> H = {}) \<and>
        (\<forall>i < length ths. \<forall>j < length ths. i \<noteq> j \<longrightarrow> M i \<inter> M j = {}) \<and>
        (\<forall>c. own s c \<longleftrightarrow> c \<in> H \<or> (\<exists>i < length ths. c \<in> M i)))"

lemma poolE:
  assumes "pool P H s0 ths s"
  obtains M where "rely H s0 s" and "\<And>i. i < length ths \<Longrightarrow> safe (P i) (ths ! i) (M i) s \<and> valid (M i) s \<and> M i \<inter> H = {}"
    and "\<And>i j. i < length ths \<Longrightarrow> j < length ths \<Longrightarrow> i \<noteq> j \<Longrightarrow> M i \<inter> M j = {}"
    and "\<And>c. own s c \<longleftrightarrow> c \<in> H \<or> (\<exists>i < length ths. c \<in> M i)"
proof -
  from assms obtain M where M: "rely H s0 s" "\<forall>i < length ths. safe (P i) (ths ! i) (M i) s \<and> M i \<inter> H = {}"
      "\<forall>i < length ths. \<forall>j < length ths. i \<noteq> j \<longrightarrow> M i \<inter> M j = {}"
      "\<forall>c. own s c \<longleftrightarrow> c \<in> H \<or> (\<exists>i < length ths. c \<in> M i)"
    unfolding pool_def by blast
  then have "valid (M i) s" if "i < length ths" for i using that by (auto simp: valid_def rely_def)
  with M show ?thesis by (intro that [of M]) simp_all
qed

lemma pool_init:
  assumes "ok s" and "\<And>i. i < length ths \<Longrightarrow> safe (P i) (ths ! i) (M i) s \<and> M i \<inter> H = {}"
    and "\<And>i j. i < length ths \<Longrightarrow> j < length ths \<Longrightarrow> i \<noteq> j \<Longrightarrow> M i \<inter> M j = {}"
    and "\<And>c. own s c \<longleftrightarrow> c \<in> H \<or> (\<exists>i < length ths. c \<in> M i)"
  shows "pool P H s ths s"
  using assms rely_refl [of H s] unfolding pool_def valid_def by blast

lemma pool_start:
  assumes "ok s" and "\<And>c. own s c \<longleftrightarrow> c \<in> H"
  shows "pool P H s [] s"
  by (rule pool_init) (use assms in simp_all)

lemma pool_step:
  assumes "pool P H s0 ths s" and "i < length ths" and M: "\<And>j. j < length ths \<Longrightarrow> safe (P j) (ths ! j) (M j) s \<and> valid (M j) s \<and> M j \<inter> H = {}"
    and dis: "\<And>j k. j < length ths \<Longrightarrow> k < length ths \<Longrightarrow> j \<noteq> k \<Longrightarrow> M j \<inter> M k = {}"
    and all: "\<And>c. own s c \<longleftrightarrow> c \<in> H \<or> (\<exists>j < length ths. c \<in> M j)"
    and g: "guar (M i) M' s t" "safe (P i) th M' t"
  shows "pool P H s0 (ths[i := th]) t"
proof -
  have H: "rely H s0 s" using assms(1) by (simp add: pool_def)
  have "rely H s t" by (rule guar_rely [OF g(1) rely_valid [OF H]]) (use M assms(2) in blast)
  with H have home: "rely H s0 t" by (rule rely_trans)
  have other: "safe (P j) (ths ! j) (M j) t" if "j < length ths" "j \<noteq> i" for j
    by (rule safe_rely [OF _ guar_rely [OF g(1)]]) (use M that dis assms(2) in blast)+
  have fresh: "c \<in> M i \<or> \<not> own s c" if "c \<in> M'" for c using g(1) that by (auto simp: guar_def)
  let ?M = "M(i := M')"
  have "own t c \<longleftrightarrow> c \<in> H \<or> (\<exists>j < length (ths[i := th]). c \<in> ?M j)" for c
  proof -
    have "own t c \<longleftrightarrow> own s c \<and> c \<notin> M i \<or> c \<in> M'" using g(1) by (simp add: guar_def)
    moreover have "own s c \<and> c \<notin> M i \<longleftrightarrow> c \<in> H \<or> (\<exists>j < length ths. j \<noteq> i \<and> c \<in> M j)"
      using all [of c] M [OF assms(2)] dis [OF assms(2)] by blast
    moreover have "(\<exists>j < length ths. c \<in> ?M j) \<longleftrightarrow> c \<in> M' \<or> (\<exists>j < length ths. j \<noteq> i \<and> c \<in> M j)"
      using assms(2) by auto
    ultimately show ?thesis by auto
  qed
  moreover have "safe (P j) (ths[i := th] ! j) (?M j) t \<and> ?M j \<inter> H = {}" if "j < length (ths[i := th])" for j
    using that other [of j] g(2) M [of j] M [OF assms(2)] fresh all by (cases "j = i") auto
  moreover have "?M j \<inter> ?M k = {}" if "j < length (ths[i := th])" "k < length (ths[i := th])" "j \<noteq> k" for j k
    using that dis [of j k] fresh all dis [OF assms(2)] by (auto split: if_splits)
  ultimately show ?thesis using home unfolding pool_def by blast
qed

lemma safe_Done: "safe P (Done r) M s \<Longrightarrow> valid M s \<Longrightarrow> P r M s"
  by (erule safe.cases) (auto intro: rely_refl)

lemma pool_done:
  assumes "pool P H s0 ths s" and "i < length ths" and "ths ! i = Done r"
  shows "\<exists>M. P i r M s"
proof (rule poolE [OF assms(1)])
  fix M assume "\<And>i. i < length ths \<Longrightarrow> safe (P i) (ths ! i) (M i) s \<and> valid (M i) s \<and> M i \<inter> H = {}"
  from this [OF assms(2)] show ?thesis using safe_Done [of "P i" r "M i" s] assms(3) by auto
qed

text \<open>When all threads have ended, an object belongs to \<open>H\<close> or is part of a result.\<close>

lemma pool_end:
  assumes "pool P H s0 ths s" and "\<And>i. i < length ths \<Longrightarrow> \<exists>r. ths ! i = Done r" and "own s c"
  shows "c \<in> H \<or> (\<exists>i r M. i < length ths \<and> P i r M s \<and> c \<in> M)"
proof (rule poolE [OF assms(1)])
  fix M assume M: "\<And>i. i < length ths \<Longrightarrow> safe (P i) (ths ! i) (M i) s \<and> valid (M i) s \<and> M i \<inter> H = {}"
    and own: "\<And>c. own s c \<longleftrightarrow> c \<in> H \<or> (\<exists>i < length ths. c \<in> M i)"
  show ?thesis
  proof (cases "c \<in> H")
    case False
    then obtain i where i: "i < length ths" "c \<in> M i" using own [of c] assms(3) by auto
    then obtain r where "ths ! i = Done r" using assms(2) by auto
    then have "P i r (M i) s" using M [OF i(1)] by (auto intro: safe_Done)
    with i show ?thesis by blast
  qed simp
qed

text \<open>When all threads that have ended own nothing, and all have ended, there are no other objects than before.\<close>

lemma pool_all_done:
  assumes "pool P H s0 ths s" and "\<And>i. i < length ths \<Longrightarrow> \<exists>r. ths ! i = Done r" and "\<And>i r M t. P i r M t \<Longrightarrow> M = {}"
  shows "own s c \<longleftrightarrow> c \<in> H"
proof
  assume "own s c"
  from pool_end [OF assms(1,2) this] show "c \<in> H" using assms(3) by blast
next
  assume "c \<in> H"
  then show "own s c" using assms(1) by (simp add: pool_def rely_def valid_def)
qed

end

text \<open>Threads that never wait.\<close>

locale sharing = waiting ok own same calm bg "\<lambda>_. False"
  for ok :: "'s \<Rightarrow> bool" and own :: "'s \<Rightarrow> 'c \<Rightarrow> bool" and same :: "'s \<Rightarrow> 's \<Rightarrow> 'c \<Rightarrow> bool"
    and calm :: "'s \<Rightarrow> 's \<Rightarrow> bool" and bg :: "'s \<Rightarrow> 's \<Rightarrow> bool"
begin

text \<open>A thread that runs alone to its end.\<close>

lemma safe_act:
  assumes "safe P (Act g) M s" and "valid M s"
  shows "\<exists>M'. guar M M' s (snd (g s)) \<and> safe P (fst (g s)) M' (snd (g s))"
  using safe_next [OF assms] by simp

lemma safe_run:
  assumes "safe P th M s" and "valid M s"
  shows "\<exists>r t M'. run_thread th s = (r, t) \<and> guar M M' s t \<and> P r M' t"
  using assms
proof (induction th arbitrary: M s rule: thread_induct)
  case (Done r)
  have "guar M M s s" using Done.prems(2) same_refl calm_refl by (auto simp: guar_def valid_def)
  moreover from Done.prems(1) have "P r M s" by cases (blast intro: rely_refl Done.prems(2))
  ultimately show ?case by auto
next
  case (Act g)
  obtain M' where M': "guar M M' s (snd (g s))" "safe P (fst (g s)) M' (snd (g s))" using safe_act [OF Act.prems] by blast
  obtain r t M'' where "run_thread (fst (g s)) (snd (g s)) = (r, t)" "guar M' M'' (snd (g s)) t" "P r M'' t"
    using Act.IH [OF M'(2) guar_valid [OF M'(1)]] by blast
  then show ?case using guar_trans [OF M'(1)] by (auto simp: run_Act simp del: run_thread.simps)
qed

text \<open>Every schedule keeps the pool, when new threads are safe.\<close>

lemma pool_sched:
  assumes "sched bg new (ths, s) (ths', t)" and p: "pool P H s0 ths s"
    and new: "\<And>th u i. th \<in> new \<Longrightarrow> rely H s0 u \<Longrightarrow> safe (P i) th {} u"
  shows "pool P H s0 ths' t"
  using assms(1)
proof (rule sched_cases)
  fix i g th
  assume i: "ths' = ths[i := th]" "i < length ths" "ths ! i = Act g" "g s = (th, t)"
  from p show ?thesis
  proof (rule poolE)
    fix M assume M: "rely H s0 s" "\<And>j. j < length ths \<Longrightarrow> safe (P j) (ths ! j) (M j) s \<and> valid (M j) s \<and> M j \<inter> H = {}"
      "\<And>j k. j < length ths \<Longrightarrow> k < length ths \<Longrightarrow> j \<noteq> k \<Longrightarrow> M j \<inter> M k = {}"
      "\<And>c. own s c \<longleftrightarrow> c \<in> H \<or> (\<exists>j < length ths. c \<in> M j)"
    have "safe (P i) (Act g) (M i) s" "valid (M i) s" using M(2) [OF i(2)] i(3) by simp_all
    from safe_act [OF this] obtain M' where g: "guar (M i) M' s t" "safe (P i) th M' t" by (auto simp: i(4))
    show ?thesis unfolding i(1) by (rule pool_step [OF p i(2)]) (fact M(2-4) g)+
  qed
next
  assume b: "ths' = ths" "bg s t"
  from p show ?thesis
  proof (rule poolE)
    fix M assume M: "rely H s0 s" "\<And>j. j < length ths \<Longrightarrow> safe (P j) (ths ! j) (M j) s \<and> valid (M j) s \<and> M j \<inter> H = {}"
      "\<And>j k. j < length ths \<Longrightarrow> k < length ths \<Longrightarrow> j \<noteq> k \<Longrightarrow> M j \<inter> M k = {}"
      "\<And>c. own s c \<longleftrightarrow> c \<in> H \<or> (\<exists>j < length ths. c \<in> M j)"
    have "ok s" using M(1) by (simp add: rely_def valid_def)
    note g = bg_guar [OF this b(2)]
    have "rely H s0 t" by (rule rely_trans [OF M(1) guar_rely [OF g rely_valid [OF M(1)]]]) simp
    moreover have "safe (P j) (ths ! j) (M j) t" if "j < length ths" for j
      by (rule safe_rely [OF _ guar_rely [OF g]]) (use M(2) [OF that] in simp_all)
    moreover have "own t c \<longleftrightarrow> own s c" for c using bg [OF \<open>ok s\<close> b(2)] by simp
    ultimately show ?thesis using M(2-4) b(1) unfolding pool_def by blast
  qed
next
  fix th
  assume n: "ths' = ths @ [th]" "t = s" "th \<in> new"
  from p show ?thesis
  proof (rule poolE)
    fix M assume M: "rely H s0 s" "\<And>j. j < length ths \<Longrightarrow> safe (P j) (ths ! j) (M j) s \<and> valid (M j) s \<and> M j \<inter> H = {}"
      "\<And>j k. j < length ths \<Longrightarrow> k < length ths \<Longrightarrow> j \<noteq> k \<Longrightarrow> M j \<inter> M k = {}"
      "\<And>c. own s c \<longleftrightarrow> c \<in> H \<or> (\<exists>j < length ths. c \<in> M j)"
    let ?M = "M(length ths := {})"
    have "safe (P j) ((ths @ [th]) ! j) (?M j) s \<and> ?M j \<inter> H = {}" if "j < length (ths @ [th])" for j
      using that M(2) [of j] new [OF n(3) M(1)] by (auto simp: nth_append less_Suc_eq)
    moreover have "?M j \<inter> ?M k = {}" if "j < length (ths @ [th])" "k < length (ths @ [th])" "j \<noteq> k" for j k
      using that M(3) [of j k] by (auto simp: less_Suc_eq)
    moreover have "own s c \<longleftrightarrow> c \<in> H \<or> (\<exists>j < length (ths @ [th]). c \<in> ?M j)" for c
    proof -
      have "(\<exists>j < length (ths @ [th]). c \<in> ?M j) \<longleftrightarrow> (\<exists>j < length ths. c \<in> M j)"
        by (auto simp: less_Suc_eq) (metis less_irrefl)
      then show ?thesis using M(4) [of c] by simp
    qed
    ultimately show ?thesis using M(1) n(1,2) unfolding pool_def by blast
  qed
qed

text \<open>A thread of the pool that has ended satisfies its postcondition; every other one can run to its end.\<close>

lemma pool_thread:
  assumes "pool P H s0 ths s" and "i < length ths"
  obtains r t where "run_thread (ths ! i) s = (r, t)" and "\<exists>M. P i r M t" and "(sched bg new)\<^sup>*\<^sup>* (ths, s) (ths[i := Done r], t)"
proof -
  obtain M where M: "safe (P i) (ths ! i) M s" "valid M s" using assms(2) by (rule_tac poolE [OF assms(1)]) blast
  obtain r t M' where "run_thread (ths ! i) s = (r, t)" "P i r M' t" using safe_run [OF M] by blast
  then show ?thesis using sched_run [OF assms(2)] by (intro that) blast+
qed

end

end
