(* ===== verification/Locking.thy ===== *)
theory Locking
  imports Threads Stream_Spec
begin

text \<open>
  The state that goroutines share, with the mutexes they hold between two actions. Without such mutexes it satisfies the
  invariant \<open>keyed\<close> of the session. The closure in \<^verbatim>\<open>Seal\<close> holds the read lock of a buffer over several actions:
  \<open>shared\<close> is \<open>keyed\<close> but for such locks. The contract \<open>sharing\<close> is interpreted for both, and an action that does not
  reach for the locks that are held has the same effect on both.
\<close>

subsection \<open>The state without its mutexes\<close>

abbreviation bare :: "world \<Rightarrow> world" where
  "bare s \<equiv> s\<lparr>locks := \<lambda>_. Unlocked\<rparr>"

abbreviation relock :: "world \<Rightarrow> world \<Rightarrow> world" where
  "relock s t \<equiv> t\<lparr>locks := locks s\<rparr>"

lemma mutex_part [simp]: "part (s\<lparr>locks := h\<rparr>) p = part s p"
  by (simp add: part_def cong: option.case_cong)

lemma mutex_state [simp]:
  "refs (s\<lparr>locks := h\<rparr>) c = refs s c" "own (s\<lparr>locks := h\<rparr>) b = own s b" "guarded E (s\<lparr>locks := h\<rparr>) b = guarded E s b"
  "canary_ok (s\<lparr>locks := h\<rparr>) b = canary_ok s b" "coffer_value E (s\<lparr>locks := h\<rparr>) c = coffer_value E s c"
  "key_value E (s\<lparr>locks := h\<rparr>) = key_value E s" "holds E (s\<lparr>locks := h\<rparr>) e m = holds E s e m"
  "sealed E (s\<lparr>locks := h\<rparr>) e m = sealed E s e m"
  by (simp_all add: refs_def own_def guarded_def mapped_def canary_ok_def coffer_value_def key_value_def holds_def sealed_def)

lemma mutex_step [simp]:
  "keep (s\<lparr>locks := h\<rparr>) t b = keep s t b" "keep s (t\<lparr>locks := h\<rparr>) b = keep s t b"
  "calm E (s\<lparr>locks := h\<rparr>) t = calm E s t" "calm E s (t\<lparr>locks := h\<rparr>) = calm E s t"
  by (simp_all add: keep_def calm_def heap_kept_def)

text \<open>What an action does that reaches for none of the locks \<open>ls\<close>.\<close>

lemma oblivious_at_bare:
  assumes "oblivious_at ls m (bare s)" and "m (bare s) = (r, t)" and "locks_free t" and "\<And>l. locks s l \<noteq> Unlocked \<longleftrightarrow> l \<in> set ls"
  shows "m s = (r, relock s t)"
proof -
  have "locks s l = Unlocked" if "l \<notin> set ls" for l using assms(4) that by blast
  then have "set_rws ls (locks s) (bare s) = s" "set_rws ls (locks s) t = relock s t"
    using assms(3) by (auto simp: set_rws_def locks_free_def fun_eq_iff intro!: world.equality)
  then show ?thesis using assms(1,2) unfolding oblivious_at_def by (metis (no_types, lifting) case_prod_conv)
qed

definition quiet :: "world \<Rightarrow> 'a go \<Rightarrow> bool" where
  "quiet s m \<longleftrightarrow> (\<forall>ls. foreign s ls \<and> (\<forall>l \<in> set ls. locks s l \<noteq> Unlocked) \<longrightarrow> oblivious_at ls m (bare s))"

lemma quietI: "(\<And>ls. foreign s ls \<Longrightarrow> (\<And>l. l \<in> set ls \<Longrightarrow> locks s l \<noteq> Unlocked) \<Longrightarrow> oblivious_at ls m (bare s)) \<Longrightarrow> quiet s m"
  by (simp add: quiet_def)

lemma quiet_oblivious: "(\<And>l. oblivious l m) \<Longrightarrow> quiet s m"
  by (rule quietI) (rule oblivious_atI)

text \<open>\<open>L\<close> says whether goroutines may hold locks of their buffers between actions.\<close>

definition shared :: "env \<Rightarrow> bool \<Rightarrow> world \<Rightarrow> bool" where
  "shared E L s \<longleftrightarrow> keyed E (bare s) \<and> (\<forall>l. locks s l \<noteq> Unlocked \<longrightarrow> L \<and> (\<exists>b. l = BufLock b \<and> own s b))"

definition kept :: "world \<Rightarrow> world \<Rightarrow> nat \<Rightarrow> bool" where
  "kept s t b \<longleftrightarrow> keep s t b \<and> locks t (BufLock b) = locks s (BufLock b)"

lemma shared_D:
  assumes "shared E L s"
  shows "keyed E (bare s)" and "locks s (BufLock b) \<noteq> Unlocked \<Longrightarrow> own s b"
  using assms by (auto simp: shared_def)

lemma keyed_shared: "keyed E s \<Longrightarrow> shared E L s"
proof -
  assume k: "keyed E s"
  then have "bare s = s" using keyed_D(7) [OF k] by (auto intro!: world.equality)
  then show ?thesis using k keyed_D(7) [OF k] by (simp add: shared_def)
qed

lemma shared_keyed: "shared E False s \<Longrightarrow> keyed E s"
proof -
  assume s: "shared E False s"
  then have "locks s = (\<lambda>_. Unlocked)" by (auto simp: shared_def)
  then have "bare s = s" by (auto intro!: world.equality)
  then show ?thesis using s by (simp add: shared_def)
qed

text \<open>The locks that are held.\<close>

lemma quiet_run:
  assumes "shared E L s" and "quiet s m" and "m (bare s) = (r, t)" and "locks_free t"
  shows "m s = (r, relock s t)"
proof -
  have "{l. locks s l \<noteq> Unlocked} \<subseteq> BufLock ` set (blist s)" using assms(1) by (auto simp: shared_def own_def)
  then obtain ls where ls: "set ls = {l. locks s l \<noteq> Unlocked}" by (metis finite_list finite_subset finite_imageI finite_set)
  have "session E (bare s)" by (rule keyed_D(2) [OF shared_D(1) [OF assms(1)]])
  then have "foreign s ls" using assms(1) session_D(3) [of E "bare s"] ls by (fastforce simp: foreign_def shared_def own_def)
  then have "oblivious_at ls m (bare s)" using assms(2) ls by (simp add: quiet_def)
  from oblivious_at_bare [where m = m, OF this] show ?thesis using assms(3,4) ls by simp
qed

subsection \<open>Facts: periods of the re-key goroutine\<close>

lemma own_cong: "blist t = blist s \<Longrightarrow> refs t (key t) = refs s (key s) \<Longrightarrow> own t = own s"
  by (simp add: own_def fun_eq_iff)

lemma tick_keyed:
  assumes "keyed E s"
  obtains t where "key_tick E s = (Ret (), t)" and "keyed E t" and "calm E s t" and "\<And>c. own t c \<longleftrightarrow> own s c"
    and "\<And>c. own s c \<Longrightarrow> keep s t c"
proof -
  note k = keyed_D [OF assms]
  obtain t where t: "Rekey E (key s) s = (Ret None, t)" "same_objs s t" "\<And>b. b \<in> set (blist s) \<Longrightarrow> b \<notin> refs s (key s) \<Longrightarrow> keep s t b"
    by (rule Rekey_run [OF k(1,2,4)]) (rule that)
  have run: "key_tick E s = (Ret (), t)" using t(1) by (simp add: key_tick_def rekey_tick_def bind_def exec)
  have "keyed E t" "calm E s t" using key_tick_run [OF assms] run by (metis Pair_inject calm_def)+
  with t(2,3) show ?thesis by (intro that [OF run]) (auto simp: own_def refs_def same_objs_def)
qed

lemma oblivious_at_Rekey:
  assumes "\<forall>b \<in> refs s c. BufLock b \<notin> set ls" and "CofLock c \<notin> set ls"
  shows "oblivious_at ls (Rekey E c) s"
  unfolding Rekey_def
proof (rule oblivious_at_with_lock [OF assms(2)], rule oblivious_at_bind)
  show "oblivious_at ls (destroyed c) (set_rw (CofLock c) WLocked s)"
    by (rule oblivious_at_destroyed) (use assms(1) in \<open>simp add: refs_def set_rw_def\<close>)
qed (rule oblivious_atI, intro obliviousI)

lemma quiet_tick: "quiet s (rekey_tick E (key s))"
proof (rule quietI)
  fix ls assume "foreign s ls"
  then have "oblivious_at ls (Rekey E (key s)) (bare s)" by (intro oblivious_at_Rekey) (auto simp: foreign_def)
  then show "oblivious_at ls (rekey_tick E (key s)) (bare s)"
    unfolding rekey_tick_def
    by (rule oblivious_at_bind) (rule oblivious_atI, intro obliviousI, simp add: set_rw_updates)
qed

lemma tick_shared:
  assumes "shared E L s" and "key_tick E s = (Ret (), t)"
  shows "shared E L t \<and> calm E s t \<and> (\<forall>c. own t c \<longleftrightarrow> own s c) \<and> (\<forall>c. own s c \<longrightarrow> kept s t c)"
proof -
  obtain u where u: "key_tick E (bare s) = (Ret (), u)" "keyed E u" "calm E (bare s) u" "\<And>c. own u c \<longleftrightarrow> own (bare s) c"
      "\<And>c. own (bare s) c \<Longrightarrow> keep (bare s) u c"
    by (rule tick_keyed [OF shared_D(1) [OF assms(1)]]) (rule that)
  have "rekey_tick E (key s) (bare s) = (Ret (), u)" using u(1) by (simp add: key_tick_def)
  from quiet_run [OF assms(1) quiet_tick this session_D(1) [OF keyed_D(2) [OF u(2)]]]
  have t: "t = relock s u" using assms(2) by (simp add: key_tick_def)
  moreover have "bare (relock s u) = u" using keyed_D(7) [OF u(2)] by (auto intro!: world.equality)
  ultimately show ?thesis using assms(1) u(2-5) by (auto simp: shared_def kept_def)
qed

subsection \<open>What a goroutine relies on\<close>

interpretation kt: sharing "keyed E" own keep "calm E" "\<lambda>s t. key_tick E s = (Ret (), t)" for E
proof
  fix s t assume "keyed E s" "key_tick E s = (Ret (), t)"
  then show "keyed E t \<and> calm E s t \<and> (\<forall>c. own t c \<longleftrightarrow> own s c) \<and> (\<forall>c. own s c \<longrightarrow> keep s t c)"
    by (metis tick_keyed Pair_inject)
qed (use keep_refl keep_trans calm_refl calm_trans in \<open>blast+\<close>)

lemma kept_refl: "kept s s b"
  by (simp add: kept_def keep_refl)

lemma kept_trans: "kept s t b \<Longrightarrow> kept t u b \<Longrightarrow> kept s u b"
  using keep_trans by (auto simp: kept_def)

interpretation mt: sharing "shared E L" own kept "calm E" "\<lambda>s t. key_tick E s = (Ret (), t)" for E L
  by unfold_locales (use tick_shared kept_refl kept_trans calm_refl calm_trans in \<open>blast+\<close>)

lemma kvalid_D:
  assumes "kt.valid E M t" and "b \<in> M"
  shows "keyed E t" and "own t b" and "b \<in> set (blist t)" and "b \<notin> refs t (key t)" and "guarded E t b" and "canary_ok t b"
proof -
  show k: "keyed E t" and o: "own t b" using assms by (simp_all add: kt.valid_def)
  from o show b: "b \<in> set (blist t)" "b \<notin> refs t (key t)" by (simp_all add: own_def)
  show "guarded E t b" "canary_ok t b" using keyed_D(2,3) [OF k] b by (auto simp: session_D clean_D)
qed

lemma mt_kt: "mt.valid E L M t \<Longrightarrow> kt.valid E M (bare t)"
  by (auto simp: mt.valid_def kt.valid_def dest: shared_D(1))

lemma valid_D:
  assumes "mt.valid E L M t"
  shows "keyed E (bare t)" and "shared E L t" and "b \<in> M \<Longrightarrow> own t b" and "b \<in> M \<Longrightarrow> b \<in> set (blist t)"
    and "b \<in> M \<Longrightarrow> b \<notin> refs t (key t)" and "b \<in> M \<Longrightarrow> guarded E t b" and "b \<in> M \<Longrightarrow> canary_ok t b"
  using kvalid_D [OF mt_kt [OF assms]] assms by (auto simp: mt.valid_def dest: shared_D(1))

lemma rely_D:
  assumes "mt.rely E L M s t" and "b \<in> M"
  shows "keep s t b" and "bufs t b = bufs s b" and "locks t (BufLock b) = locks s (BufLock b)"
  using assms by (auto simp: mt.rely_def kept_def keep_def)

lemma rely_calm: "mt.rely E L M s t \<Longrightarrow> calm E s t"
  by (simp add: mt.rely_def)

lemma rely_contents:
  assumes "mt.rely E L M s t" and "mt.valid E L M s" and "b \<in> M"
  shows "contents (mem t) (data (bufs t b)) = contents (mem s) (data (bufs s b))"
proof -
  have "keep (bare s) t b" using rely_D(1) [OF assms(1,3)] by simp
  from kept_data(1) [OF this keyed_D(2) [OF valid_D(1) [OF assms(2)]]] show ?thesis using valid_D(4) [OF assms(2,3)] by simp
qed

text \<open>A guarantee without locks is one with them, when no buffer is given up whose lock is held.\<close>

lemma lift_guar:
  assumes "mt.valid E L M t" and "kt.guar E M M' (bare t) u" and "\<And>c. c \<in> M \<Longrightarrow> c \<notin> M' \<Longrightarrow> locks t (BufLock c) = Unlocked"
  shows "mt.guar E L M M' t (relock t u)"
proof -
  have g: "keyed E u" "calm E t u" "\<And>c. own t c \<Longrightarrow> c \<notin> M \<Longrightarrow> keep t u c"
      "\<And>c. own u c \<longleftrightarrow> own t c \<and> c \<notin> M \<or> c \<in> M'" "\<And>c. c \<in> M' \<Longrightarrow> c \<in> M \<or> \<not> own t c"
    using assms(2) by (auto simp: kt.guar_def)
  have "bare (relock t u) = u" using keyed_D(7) [OF g(1)] by (auto intro!: world.equality)
  then have "shared E L (relock t u)"
    using g(1,4) assms(3) valid_D(2) [OF assms(1)] by (fastforce simp: shared_def)
  then show ?thesis using g by (auto simp: mt.guar_def kept_def)
qed

text \<open>One action, computed without locks, and what follows it.\<close>

lemma lift_run:
  assumes "mt.valid E L M t" and "m (bare t) = (r, u)" and "quiet t m" and "kt.guar E M M' (bare t) u"
  shows "m t = (r, relock t u)"
  by (rule quiet_run [OF valid_D(2) [OF assms(1)] assms(3,2)]) (use assms(4) keyed_D(2) session_D(1) in \<open>auto simp: kt.guar_def\<close>)

lemma lift_then:
  assumes "\<And>t. mt.rely E L M s t \<Longrightarrow> \<exists>v u M'. m (bare t) = (Ret v, u) \<and> quiet t m \<and> kt.guar E M M' (bare t) u \<and>
      (\<forall>c \<in> M - M'. locks t (BufLock c) = Unlocked) \<and> mt.safe E L P (f v) M' (relock t u)"
  shows "mt.safe E L P (tbind (atom m) f) M s"
proof (rule mt.safe_then)
  fix t assume t: "mt.rely E L M s t"
  note v = mt.rely_valid [OF t]
  obtain x u M' where x: "m (bare t) = (Ret x, u)" "quiet t m" "kt.guar E M M' (bare t) u"
      "\<forall>c \<in> M - M'. locks t (BufLock c) = Unlocked" "mt.safe E L P (f x) M' (relock t u)"
    using assms [OF t] by blast
  from lift_run [OF v x(1-3)] lift_guar [OF v x(3)] x(4,5)
  show "\<exists>x u M'. m t = (Ret x, u) \<and> mt.guar E L M M' t u \<and> mt.safe E L P (f x) M' u" by blast
qed

subsection \<open>Facts: the actions\<close>

text \<open>An action that does not change the state, and one that makes a buffer.\<close>

lemma read_guar: "kt.valid E M t \<Longrightarrow> kt.guar E M M t t"
  by (auto simp: kt.guar_def kt.valid_def calm_refl keep_refl)

lemma work_guar:
  assumes "kt.valid E M t" and "work E t u b"
  shows "kt.guar E M (insert b M) t u" and "\<And>c. c \<in> M \<Longrightarrow> keep t u c"
proof -
  note w = work_D [OF assms(2)]
  have kp: "keep t u c" if "own t c" for c using extends_D(1) [OF w(3)] that by (simp add: own_def)
  then show "keep t u c" if "c \<in> M" for c using assms(1) that by (simp add: kt.valid_def)
  have own: "own u c \<longleftrightarrow> own t c \<or> c = b" for c using w(5,8,13) by (auto simp: own_def)
  moreover have "\<not> own t b" using w(11) by (simp add: own_def)
  ultimately show "kt.guar E M (insert b M) t u" using assms(1) w(2,10) kp by (auto simp: kt.guar_def kt.valid_def)
qed

text \<open>Freezing and destroying an own buffer, and writing to it.\<close>

lemma freeze_guar:
  assumes "kt.valid E M t" and "b \<in> M"
  defines "u \<equiv> frozen_state b t"
  shows "Freeze E b t = (Ret (), u)" and "kt.guar E M M t u"
    and "contents (mem u) (data (bufs u b)) = contents (mem t) (data (bufs t b))" and "\<not> mutable (bufs u b)"
proof -
  note v = kvalid_D [OF assms(1,2)]
  note k = keyed_D [OF v(1)] and ok = env_works_D [OF keyed_D(1) [OF v(1)]]
  show "Freeze E b t = (Ret (), u)" unfolding u_def by (rule Freeze_run [OF ok(1,2) k(7)])
  show "contents (mem u) (data (bufs u b)) = contents (mem t) (data (bufs t b))" by (simp add: u_def)
  show "\<not> mutable (bufs u b)" using guarded_mapped(2) [OF v(5)] by (simp add: u_def frozen_state_def)
  have kp: "keep t u c" if "c \<in> set (blist t)" "c \<noteq> b" for c unfolding u_def by (rule frozen_other(1) [OF k(2) v(3) that])
  have o: "blist u = blist t" "key u = key t" "coffers u = coffers t" by (simp_all add: u_def)
  have val: "coffer_value E u (key t) = coffer_value E t (key t)" "coffer_ok u (key t)"
    using keep_value [OF k(2,4), of u] kp v(4) o by auto
  have "heap_kept t u"
    using guarded_mapped(1) [OF v(5)] by (auto elim!: mappedE simp: heap_kept_def u_def frozen_state_def)
  then have "calm E t u" using val(1) o by (simp add: calm_def key_value_def)
  moreover have "clean u" using k(3) by (simp add: clean_def u_def frozen_canary)
  moreover have "session E u" unfolding u_def by (rule frozen_session(1) [OF k(2) v(3,4)])
  ultimately have "keyed E u" "calm E t u" using k(1) val(2) o by (simp_all add: keyed_def)
  moreover have "own u = own t" by (rule own_cong) (use o in \<open>simp_all add: refs_def\<close>)
  ultimately show "kt.guar E M M t u" using kp assms(1,2) by (auto simp: kt.guar_def kt.valid_def own_def)
qed

lemma remove_guar:
  assumes "kt.valid E M t" and "b \<in> M"
  defines "u \<equiv> removed_state b t"
  shows "Destroy E b t = (Ret (), u)" and "kt.guar E M (M - {b}) t u" and "\<And>c. c \<in> M \<Longrightarrow> c \<noteq> b \<Longrightarrow> keep t u c"
proof -
  note v = kvalid_D [OF assms(1,2)]
  note r = own_remove [OF v(1,2), folded u_def]
  show "Destroy E b t = (Ret (), u)" using r(1) by (simp add: LockedBuffer_Destroy_def)
  have "own u c \<longleftrightarrow> own t c \<and> c \<noteq> b" for c
    using session_D(5) [OF keyed_D(2) [OF v(1)]] by (auto simp: own_def u_def refs_def)
  with r(2-4) assms(1,2) show "kt.guar E M (M - {b}) t u" by (auto simp: kt.guar_def kt.valid_def own_def)
  show "keep t u c" if "c \<in> M" "c \<noteq> b" for c using r(4) [of c] assms(1) that by (simp add: kt.valid_def own_def)
qed

lemma put_guar:
  assumes "kt.valid E M t" and "b \<in> M" and len: "length bs = slen (data (bufs t b))"
    and g: "gc_step (t\<lparr>mem := put (mem t) (data (bufs t b)) bs\<rparr>) u"
  shows "kt.guar E M M t u" and "contents (mem u) (data (bufs u b)) = bs" and "bufs u = bufs t"
proof -
  note v = kvalid_D [OF assms(1,2)]
  define w where "w = t\<lparr>mem := put (mem t) (data (bufs t b)) bs\<rparr>"
  note w = own_write [OF v(1,2) len, folded w_def] and g = g [folded w_def]
  note k = keyed_D [OF w(1)]
  have same: "bufs u = bufs w" "blist u = blist w" "key u = key w" "coffers u = coffers w"
    using g by (simp_all add: gc_step_def same_objs_def)
  have e: "extends w u" and s: "session E u" using gc_step_extends [OF g k(2)] gc_step_session [OF g k(2)] by simp_all
  have "clean u" by (rule clean_intact [OF k(3) intact_extends [OF e k(2)] same(2)])
  then have kd: "keyed E u" by (rule extends_keyed [OF w(1) e same(3) s])
  have calm: "calm E t u" by (rule calm_trans [OF w(2) extends_calm [OF w(1) e same(3)]])
  have obj: "bufs w = bufs t" "blist w = blist t" "key w = key t" "coffers w = coffers t" by (simp_all add: w_def)
  show "bufs u = bufs t" using same obj by simp
  have "keep t u c" if "c \<in> set (blist t)" "c \<noteq> b" for c
    by (rule keep_trans [OF w(4) [OF that] gc_step_keep [OF g k(2)]]) (use that obj in simp)
  moreover have "own u = own t" by (rule own_cong) (use same obj in \<open>simp_all add: refs_def\<close>)
  ultimately show "kt.guar E M M t u" using kd calm assms(1,2) by (auto simp: kt.guar_def kt.valid_def own_def)
  have "b \<in> set (blist w)" using v(3) obj by simp
  then show "contents (mem u) (data (bufs u b)) = bs"
    using kept_data(1) [OF gc_step_keep [OF g k(2)] k(2), of b] w(3) by simp
qed

subsection \<open>Facts: actions that reach for no lock of another buffer\<close>

abbreviation idle :: "world \<Rightarrow> nat \<Rightarrow> bool" where
  "idle s b \<equiv> locks s (BufLock b) = Unlocked"

lemma new_idle: "shared E L s \<Longrightarrow> \<not> own s b \<Longrightarrow> idle s b"
  using shared_D(2) by blast

lemma quiet_Destroy:
  assumes "mt.valid E L M s" and "b \<in> M" and "idle s b"
  shows "quiet s (Destroy E b)"
proof (rule quietI)
  fix ls assume f: "foreign s ls" and l: "\<And>l. l \<in> set ls \<Longrightarrow> locks s l \<noteq> Unlocked"
  note v = valid_D [OF assms(1)]
  note ok = env_works_D [OF keyed_D(1) [OF v(1)]]
  have "guarded E (bare s) b" "canary_ok (bare s) b" using v(6,7) assms(2) by simp_all
  moreover have "BufLock b \<notin> set ls" "ListLock \<notin> set ls" using f l [of "BufLock b"] assms(3) by (auto simp: foreign_def)
  ultimately show "oblivious_at ls (Destroy E b) (bare s)" by (intro oblivious_at_Destroy [OF ok(1,2)]) simp_all
qed

lemma quiet_NewBuffer: "keyed E (bare s) \<Longrightarrow> 0 < n \<Longrightarrow> int n \<le> 2 ^ 62 \<Longrightarrow> quiet s (NewBuffer E (int n))"
  by (rule quietI, rule NewBuffer_oblivious_at) (auto simp: foreign_def dest: keyed_D(1))

lemma foreign_bare [simp]: "foreign (bare s) ls = foreign s ls"
  by (simp add: foreign_def)

lemma quiet_key:
  assumes "keyed E (bare s)"
  shows "quiet s (getOrCreateKey E)" and "quiet s (View E (key s))"
proof -
  note k = keyed_D [OF assms]
  show "quiet s (getOrCreateKey E)" by (rule quietI, rule oblivious_at_getOrCreateKey [OF k(1,2)]) simp
  show "quiet s (View E (key s))" by (rule quietI, rule oblivious_at_View [OF k(1,2)]) (use k(4) in \<open>auto simp: foreign_def\<close>)
qed

lemma quiet_Encrypt: "keyed E (bare s) \<Longrightarrow> quiet s (Encrypt E p k)"
  by (rule quietI, rule oblivious_at_Encrypt) (auto dest: keyed_D(1) env_works_D(3))

lemma oblivious_Decrypt: "oblivious l (Decrypt E c k d)"
  unfolding Decrypt_def by (intro obliviousI)+

lemma oblivious_protect: "BufLock b \<noteq> l \<Longrightarrow> oblivious l (freeze E b)" "BufLock b \<noteq> l \<Longrightarrow> oblivious l (melt E b)"
  unfolding freeze_def melt_def by (intro obliviousI; simp)+

lemma quiet_protect:
  assumes "keyed E (bare s)" and "idle s b"
  shows "quiet s (Freeze E b)" and "quiet s (Melt E b)"
proof -
  note ok = env_works_D [OF keyed_D(1) [OF assms(1)]]
  have ne: "BufLock b \<noteq> l" if "l \<in> set ls" "\<And>l. l \<in> set ls \<Longrightarrow> locks s l \<noteq> Unlocked" for l ls using that assms(2) by auto
  obtain t where t: "freeze E b (bare s) = (Ret None, t)"
    using freeze_run [OF ok(1,2), of "bare s" b] dead_runs(1) [of "bare s" b E] by (cases "alive (bufs s b)") auto
  obtain u where u: "melt E b (bare s) = (Ret None, u)"
    using melt_run [OF ok(1,2), of "bare s" b] dead_runs(2) [of "bare s" b E] by (cases "alive (bufs s b)") auto
  have "oblivious_at ls (or_panic E (freeze E b)) (bare s) \<and> oblivious_at ls (or_panic E (melt E b)) (bare s)"
    if "\<And>l. l \<in> set ls \<Longrightarrow> locks s l \<noteq> Unlocked" for ls
  proof
    have "oblivious_at ls (freeze E b) (bare s)" "oblivious_at ls (melt E b) (bare s)"
      by (rule oblivious_atI, use ne [OF _ that] in \<open>auto intro: oblivious_protect\<close>)+
    then show "oblivious_at ls (or_panic E (freeze E b)) (bare s)" "oblivious_at ls (or_panic E (melt E b)) (bare s)"
      using t u by (blast intro: oblivious_at_or_panic)+
  qed
  then show "quiet s (Freeze E b)" "quiet s (Melt E b)" by (simp_all add: Freeze_def Melt_def quiet_def)
qed

end
