(* ===== verification/Concurrent.thy ===== *)
theory Concurrent
  imports Locking
begin

text \<open>
  Calls of the package that run concurrently. The bodies of \<^verbatim>\<open>core.Open\<close> and \<^verbatim>\<open>Enclave.Open\<close> are cut into their calls of
  the buffer and coffer functions; each of these holds a mutex, or works on a buffer nobody else has, and is one action. Between two
  actions other goroutines run, and so does the re-key goroutine. The contract \<open>sharing\<close> is interpreted on the state of the
  package: a goroutine owns buffers, the key and the garbage-collected heap are shared.
\<close>

subsection \<open>core/enclave.go and enclave.go, action by action\<close>

definition Open_with_key :: "env \<Rightarrow> Enclave \<Rightarrow> nat \<Rightarrow> err + nat \<Rightarrow> (world, err + nat) thread" where
  "Open_with_key E e b r =
     (case r of
        Inl err \<Rightarrow> Done (Ret (Inl err))
      | Inr k \<Rightarrow>
          tbind (atom (Data k)) (\<lambda>kd.
          tbind (atom (Data b)) (\<lambda>bd.
          tbind (atom (Decrypt E (ciphertext e) kd bd)) (\<lambda>r.
          case r of
            Inl err \<Rightarrow> Done (Ret (Inl err))
          | Inr _ \<Rightarrow> tbind (atom (Destroy E k)) (\<lambda>_. Done (Ret (Inr b)))))))"

definition Open_thread :: "env \<Rightarrow> Enclave \<Rightarrow> (world, err + nat) thread" where
  "Open_thread E e =
     tbind (atom (NewBuffer E (int (slen (ciphertext e)) - Overhead E))) (\<lambda>r.
     case r of
       Inl _ \<Rightarrow> atom (Panic E (PStr ''<memguard:core> ciphertext has invalid length''))
     | Inr b \<Rightarrow>
         tbind (atom (getOrCreateKey E)) (\<lambda>c.
         tbind (atom (View E c)) (Open_with_key E e b)))"

definition Enclave_Open_thread :: "env \<Rightarrow> Enclave \<Rightarrow> (world, err + nat) thread" where
  "Enclave_Open_thread E e =
     tbind (Open_thread E e) (\<lambda>r.
     case r of
       Inl err \<Rightarrow> if err \<noteq> ErrDecryptionFailed then atom (Panic E (PErr err)) else Done (Ret (Inl err))
     | Inr b \<Rightarrow> tbind (atom (Freeze E b)) (\<lambda>_. Done (Ret (Inr b))))"

text \<open>Running alone, the threads are the functions of the other theories.\<close>

lemma Open_thread_alone: "run_thread (Open_thread E e) = Open E e"
proof -
  have r: "run_thread (Done (Ret v)) = ret v" for v :: "err + nat" by (rule ext) simp
  show ?thesis
    unfolding Open_thread_def Open_with_key_def Open_def view_key_def bind_assoc
    by (simp only: run_tbind run_atom sum.case_distrib [of run_thread] r)
qed

lemma Enclave_Open_thread_alone: "run_thread (Enclave_Open_thread E e) = Enclave_Open E e"
proof -
  have r: "run_thread (Done (Ret v)) = ret v" for v :: "err + nat" by (rule ext) simp
  show ?thesis
    unfolding Enclave_Open_thread_def Enclave_Open_def
    by (simp only: run_tbind run_atom Open_thread_alone sum.case_distrib [of run_thread] if_distrib [of run_thread] r)
qed

subsection \<open>Facts: opening an enclave while others run\<close>

text \<open>The result of opening: one buffer, which holds the bytes of the enclave and whose lock is free.\<close>

definition opened :: "env \<Rightarrow> byte list \<Rightarrow> (err + nat) outcome \<Rightarrow> nat set \<Rightarrow> world \<Rightarrow> bool" where
  "opened E m r M t \<longleftrightarrow> (\<exists>b. r = Ret (Inr b) \<and> M = {b} \<and> contents (mem t) (data (bufs t b)) = m \<and> idle t b)"

lemma opened_rely: "mt.rely E L M s t \<Longrightarrow> mt.valid E L M s \<Longrightarrow> opened E m r M s \<Longrightarrow> opened E m r M t"
  using rely_contents rely_D(3) by (fastforce simp: opened_def)

lemma opened_done:
  assumes "mt.valid E L {b} s" and "contents (mem s) (data (bufs s b)) = m" and "idle s b"
  shows "mt.safe E L (opened E m) (Done (Ret (Inr b))) {b} s"
proof (rule mt.safe_done)
  show "opened E m (Ret (Inr b)) {b} s" using assms(2,3) by (simp add: opened_def)
qed (rule opened_rely [OF _ assms(1)])

text \<open>The last steps: the view of the key is destroyed.\<close>

lemma Destroy_lifts:
  assumes "mt.valid E L M t" and "k \<in> M" and "idle t k"
  shows "Destroy E k (bare t) = (Ret (), removed_state k (bare t))" and "quiet t (Destroy E k)"
    and "kt.guar E M (M - {k}) (bare t) (removed_state k (bare t))"
    and "\<And>b. b \<in> M \<Longrightarrow> b \<noteq> k \<Longrightarrow> contents (mem (removed_state k (bare t))) (data (bufs (removed_state k (bare t)) b)) = contents (mem t) (data (bufs t b))"
proof -
  note r = remove_guar [OF mt_kt [OF assms(1)] assms(2)]
  show "Destroy E k (bare t) = (Ret (), removed_state k (bare t))" "kt.guar E M (M - {k}) (bare t) (removed_state k (bare t))"
    by (fact r(1,2))+
  show "quiet t (Destroy E k)" by (rule quiet_Destroy [OF assms])
  show "contents (mem (removed_state k (bare t))) (data (bufs (removed_state k (bare t)) b)) = contents (mem t) (data (bufs t b))"
    if "b \<in> M" "b \<noteq> k" for b
    using kept_data(1) [OF r(3) [OF that] keyed_D(2) [OF valid_D(1) [OF assms(1)]]] valid_D(4) [OF assms(1) that(1)] by simp
qed

lemma drop_key_safe:
  assumes "mt.valid E L {b, k} s" and "b \<noteq> k" and "contents (mem s) (data (bufs s b)) = m" and "idle s b" and "idle s k"
  shows "mt.safe E L (opened E m) (tbind (atom (Destroy E k)) (\<lambda>_. Done (Ret (Inr b)))) {b, k} s"
proof (rule lift_then)
  fix t assume t: "mt.rely E L {b, k} s t"
  note v = mt.rely_valid [OF t]
  have i: "idle t b" "idle t k" using rely_D(3) [OF t] assms(4,5) by simp_all
  let ?u = "removed_state k (bare t)"
  have M: "{b, k} - {k} = {b}" using assms(2) by auto
  note d = Destroy_lifts [OF v insertI2 [OF insertI1] i(2), unfolded M]
  have "contents (mem ?u) (data (bufs ?u b)) = m" using d(4) [of b] rely_contents [OF t assms(1)] assms(2,3) by simp
  moreover have "mt.valid E L {b} (relock t ?u)" by (rule mt.guar_valid [OF lift_guar [OF v d(3)]]) (use i in auto)
  ultimately have "mt.safe E L (opened E m) (Done (Ret (Inr b))) {b} (relock t ?u)" using i(1) by (intro opened_done) simp_all
  with d(1-3) i show "\<exists>x u M'. Destroy E k (bare t) = (Ret x, u) \<and> quiet t (Destroy E k) \<and> kt.guar E {b, k} M' (bare t) u \<and>
      (\<forall>c \<in> {b, k} - M'. idle t c) \<and> mt.safe E L (opened E m) (Done (Ret (Inr b))) M' (relock t u)"
    by (intro exI [of _ "()"] exI [of _ ?u] exI [of _ "{b}"]) auto
qed

text \<open>A buffer for the data, and the view of the key.\<close>

definition blank :: "env \<Rightarrow> world \<Rightarrow> Enclave \<Rightarrow> byte list \<Rightarrow> nat \<Rightarrow> bool" where
  "blank E s e m b \<longleftrightarrow> sealed E s e m \<and> mutable (bufs s b) \<and> slen (data (bufs s b)) = length m \<and> idle s b"

definition viewed :: "env \<Rightarrow> world \<Rightarrow> nat \<Rightarrow> bool" where
  "viewed E s k \<longleftrightarrow> contents (mem s) (data (bufs s k)) = key_value E s \<and> slen (data (bufs s k)) = 32 \<and> idle s k"

lemma blank_rely: "mt.rely E L M s t \<Longrightarrow> b \<in> M \<Longrightarrow> blank E s e m b \<Longrightarrow> blank E t e m b"
  using rely_D(2,3) sealed_calm [OF rely_calm] by (simp add: blank_def)

lemma viewed_rely: "mt.rely E L M s t \<Longrightarrow> mt.valid E L M s \<Longrightarrow> k \<in> M \<Longrightarrow> viewed E s k \<Longrightarrow> viewed E t k"
  using rely_contents [of E L M s t k] rely_D(2,3) [of E L M s t k] rely_calm [of E L M s t] by (simp add: viewed_def calm_def)

lemma decrypt_safe:
  assumes "mt.valid E L {b, k} s" and "b \<noteq> k" and "blank E s e m b" and "viewed E s k"
  shows "mt.safe E L (opened E m) (tbind (atom (Decrypt E (ciphertext e) (data (bufs s k)) (data (bufs s b)))) (\<lambda>r.
      case r of Inl err \<Rightarrow> Done (Ret (Inl err)) | Inr _ \<Rightarrow> tbind (atom (Destroy E k)) (\<lambda>_. Done (Ret (Inr b))))) {b, k} s"
proof (rule lift_then)
  fix t assume t: "mt.rely E L {b, k} s t"
  note v = mt.rely_valid [OF t]
  have bk: "b \<in> {b, k}" "k \<in> {b, k}" by simp_all
  note vb = kvalid_D [OF mt_kt [OF v] bk(1)] and vk = kvalid_D [OF mt_kt [OF v] bk(2)]
  have same: "bufs t b = bufs s b" "bufs t k = bufs s k" using rely_D(2) [OF t] by simp_all
  have B: "blank E t e m b" by (rule blank_rely [OF t bk(1) assms(3)])
  have K: "viewed E t k" by (rule viewed_rely [OF t assms(1) bk(2) assms(4)])
  let ?t = "bare t"
  have h: "holds E ?t e m" "m \<noteq> []" using B by (simp_all add: blank_def sealed_def)
  note kd = keyed_D [OF vb(1)]
  note sess = kd(2) and ok = env_works_D [OF kd(1)]
  note st = holds_stable [OF h(1)] and len = holds_slen [OF ok(6) h(1)]
  let ?d = "data (bufs t b)" and ?c = "ciphertext e"
  have d: "length m = slen ?d" using B by (simp add: blank_def)
  have "slen (data (bufs ?t b)) = scap (data (bufs ?t b))" by (rule session_bases [OF sess vb(3)]) simp
  then have cap: "slen ?d = scap ?d" by simp
  have wd: "writable (mem t) ?d" using guarded_data(2) [OF vb(5)] B by (simp add: blank_def)
  obtain n where n: "length n = 24" "contents (mem t) ?c = n @ sbSeal E m n (coffer_value E t (key t))"
    using h(1) by (auto simp: holds_def)
  have "sbOpen E (drop 24 (contents (mem t) ?c)) (take 24 (contents (mem t) ?c)) (contents (mem t) (data (bufs t k))) = Some m"
    using n K ok(6) by (simp add: secretbox_ok_def viewed_def key_value_def)
  moreover have "slen (data (bufs t k)) = 32" using K by (simp add: viewed_def)
  ultimately obtain u where u: "Decrypt E ?c (data (bufs t k)) ?d ?t = (Ret (Inr (int (length m))), u)"
      "gc_step (?t\<lparr>mem := put (mem ?t) ?d (copied (contents (mem t) ?d) m)\<rparr>) u"
    using Decrypt_run(2) [of "data (bufs t k)" ?c E ?d ?t m] h(1) len(1) d cap wd
      guarded_data(1) [OF vk(5)] old_data [OF sess vk(3)] old_data [OF sess vb(3)]
    by (auto simp: holds_def Overhead_def)
  have "copied (contents (mem t) ?d) m = m" using d writable_fits [OF wd] by simp
  then have g: "gc_step (?t\<lparr>mem := put (mem ?t) (data (bufs ?t b)) m\<rparr>) u" using u(2) by simp
  have d': "length m = slen (data (bufs ?t b))" using d by simp
  note p = put_guar [OF mt_kt [OF v] bk(1) d' g]
  have q: "quiet t (Decrypt E ?c (data (bufs t k)) ?d)" by (rule quiet_oblivious) (rule oblivious_Decrypt)
  have "mt.safe E L (opened E m) (tbind (atom (Destroy E k)) (\<lambda>_. Done (Ret (Inr b)))) {b, k} (relock t u)"
    by (rule drop_key_safe [OF mt.guar_valid [OF lift_guar [OF v p(1)]] assms(2)]) (use p(2) B K in \<open>simp_all add: blank_def viewed_def\<close>)
  then show "\<exists>x u M'. Decrypt E ?c (data (bufs s k)) (data (bufs s b)) ?t = (Ret x, u) \<and>
      quiet t (Decrypt E ?c (data (bufs s k)) (data (bufs s b))) \<and> kt.guar E {b, k} M' ?t u \<and> (\<forall>c \<in> {b, k} - M'. idle t c) \<and>
      mt.safe E L (opened E m) (case x of Inl err \<Rightarrow> Done (Ret (Inl err)) | Inr _ \<Rightarrow> tbind (atom (Destroy E k)) (\<lambda>_. Done (Ret (Inr b)))) M' (relock t u)"
    using u(1) p(1) same q by (intro exI [of _ "Inr (int (length m))"] exI [of _ u] exI [of _ "{b, k}"]) simp
qed

lemma with_key_safe:
  assumes "mt.valid E L {b, k} s" and "b \<noteq> k" and "blank E s e m b" and "viewed E s k"
  shows "mt.safe E L (opened E m) (Open_with_key E e b (Inr k)) {b, k} s"
  unfolding Open_with_key_def sum.case
proof (rule mt.safe_read [where v = "data (bufs s k)"])
  show "Data k t = (Ret (data (bufs s k)), t)" if "mt.rely E L {b, k} s t" for t using rely_D(2) [OF that] by simp
  show "mt.safe E L (opened E m) (tbind (atom (Data b)) (\<lambda>bd. tbind (atom (Decrypt E (ciphertext e) (data (bufs s k)) bd)) (\<lambda>r.
      case r of Inl err \<Rightarrow> Done (Ret (Inl err)) | Inr _ \<Rightarrow> tbind (atom (Destroy E k)) (\<lambda>_. Done (Ret (Inr b)))))) {b, k} s"
  proof (rule mt.safe_read [where v = "data (bufs s b)"])
    show "Data b t = (Ret (data (bufs s b)), t)" if "mt.rely E L {b, k} s t" for t using rely_D(2) [OF that] by simp
  qed (rule decrypt_safe [OF assms])
qed

text \<open>A view of the key.\<close>

lemma View_work:
  assumes "keyed E v"
  obtains w where "View E (key v) v = (Ret (Inr (nbufs v)), w)" and "work E v w (nbufs v)"
    and "contents (mem w) (data (bufs w (nbufs v))) = key_value E v" and "slen (data (bufs w (nbufs v))) = 32"
proof -
  note k = keyed_D [OF assms]
  obtain w where w: "View E (key v) v = (Ret (Inr (nbufs v)), w)" "extends v w" "session E w" "blist w = blist v @ [nbufs v]"
      "key w = key v" "contents (mem w) (data (bufs w (nbufs v))) = coffer_value E v (key v)"
      "slen (data (bufs w (nbufs v))) = 32" "canary_ok w (nbufs v)"
    by (rule View_run [OF k(1,2,4)]) (rule that)
  have "clean w" by (rule clean_keep [OF k(3,2)]) (use w(4,8) extends_D(1) [OF w(2)] in auto)
  then have "work E v w (nbufs v)" by (intro work_intro [OF assms w(2,5,4) _ w(3)]) simp_all
  then show ?thesis using w(1,6,7) by (intro that [of w]) (simp_all add: key_value_def)
qed

lemma view_then:
  assumes "\<And>t k w. mt.rely E L M s t \<Longrightarrow> mt.valid E L (insert k M) w \<Longrightarrow> k \<notin> M \<Longrightarrow> viewed E w k \<Longrightarrow> calm E t w \<Longrightarrow>
      (\<And>c. c \<in> M \<Longrightarrow> kept t w c) \<Longrightarrow> mt.safe E L P (f (Inr k)) (insert k M) w"
  shows "mt.safe E L P (tbind (atom (View E (key s))) f) M s"
proof (rule lift_then)
  fix t assume t: "mt.rely E L M s t"
  note v = mt.rely_valid [OF t]
  let ?t = "bare t" and ?k = "nbufs t"
  have key: "key s = key ?t" using rely_calm [OF t] by (simp add: calm_def)
  obtain w where w: "View E (key ?t) ?t = (Ret (Inr (nbufs ?t)), w)" "work E ?t w (nbufs ?t)"
    "contents (mem w) (data (bufs w (nbufs ?t))) = key_value E ?t" "slen (data (bufs w (nbufs ?t))) = 32"
    by (rule View_work [OF valid_D(1) [OF v]]) (rule that)
  have W: "work E ?t w ?k" using w(2) by simp
  note g = work_guar [OF mt_kt [OF v] W]
  have new: "\<not> own t ?k" using work_D(11) [OF W] by (simp add: own_def)
  then have kM: "?k \<notin> M" using valid_D(3) [OF v] by blast
  have mg: "mt.guar E L M (insert ?k M) t (relock t w)" by (rule lift_guar [OF v g(1)]) simp
  have cw: "calm E t w" using work_D(10) [OF W] by simp
  have "mt.safe E L P (f (Inr ?k)) (insert ?k M) (relock t w)"
  proof (rule assms [OF t mt.guar_valid [OF mg] kM])
    show "viewed E (relock t w) ?k"
      using w(3,4) cw new_idle [OF valid_D(2) [OF v] new] by (simp add: viewed_def calm_def)
    show "calm E t (relock t w)" using cw by simp
    show "kept t (relock t w) c" if "c \<in> M" for c using g(2) [OF that] by (simp add: kept_def)
  qed
  then show "\<exists>x u M'. View E (key s) ?t = (Ret x, u) \<and> quiet t (View E (key s)) \<and> kt.guar E M M' ?t u \<and> (\<forall>c \<in> M - M'. idle t c) \<and>
      mt.safe E L P (f x) M' (relock t u)"
    using w(1) g(1) quiet_key(2) [OF valid_D(1) [OF v]] key
    by (intro exI [of _ "Inr ?k"] exI [of _ w] exI [of _ "insert ?k M"]) auto
qed

text \<open>The key is read; it is in use, so no new one is made.\<close>

lemma key_then:
  assumes "mt.safe E L P (f (key s)) M s"
  shows "mt.safe E L P (tbind (atom (getOrCreateKey E)) f) M s"
proof (rule mt.safe_read [where v = "key s"])
  fix t assume t: "mt.rely E L M s t"
  note v = valid_D [OF mt.rely_valid [OF t]]
  note k = keyed_D [OF v(1)]
  have b: "getOrCreateKey E (bare t) = (Ret (key t), bare t)"
    by (rule getOrCreateKey_run [OF k(1,2)]) (use k(4) in auto)
  have "key t = key s" using rely_calm [OF t] by (simp add: calm_def)
  then show "getOrCreateKey E t = (Ret (key s), t)"
    using quiet_run [OF v(2) quiet_key(1) [OF v(1)] b] by (simp add: locks_free_def)
qed (rule assms)

lemma Open_thread_safe:
  assumes "sealed E s e m"
  shows "mt.safe E L (opened E m) (Open_thread E e) {} s"
  unfolding Open_thread_def
proof (rule lift_then)
  fix t assume t: "mt.rely E L {} s t"
  note v = mt.rely_valid [OF t]
  note k = valid_D(1) [OF v]
  have m: "sealed E (bare t) e m" using sealed_calm [OF rely_calm [OF t] assms] by simp
  note ok = env_works_D [OF keyed_D(1) [OF k]]
  have h: "holds E (bare t) e m" "m \<noteq> []" "int (slen (ciphertext e)) \<le> 2 ^ 62" using m by (simp_all add: sealed_def)
  have n: "0 < length m" "int (length m) \<le> 2 ^ 62" "int (slen (ciphertext e)) - Overhead E = int (length m)"
    using holds_slen(1) [OF ok(6) h(1)] h(2,3) by (auto simp: Overhead_def)
  let ?b = "nbufs (bare t)" and ?u = "newbuf_state E (length m) (bare t)"
  note N = work_new [OF k n(1,2)]
  have new: "NewBuffer E (int (slen (ciphertext e)) - Overhead E) (bare t) = (Ret (Inr ?b), ?u)"
    unfolding n(3) by (rule NewBuffer_run [OF keyed_D(1) [OF k] n(1,2)]) (rule keyed_D(7) [OF k])
  have g: "kt.guar E {} {?b} (bare t) ?u" by (rule work_guar(1) [OF mt_kt [OF v] N(2)])
  have mg: "mt.guar E L {} {?b} t (relock t ?u)" by (rule lift_guar [OF v g]) simp
  have "\<not> own t ?b" using work_D(11) [OF N(2)] by (simp add: own_def)
  then have B: "blank E (relock t ?u) e m ?b"
    using sealed_calm [OF work_D(10) [OF N(2)] m] N(3,5) new_idle [OF valid_D(2) [OF v]] by (simp add: blank_def)
  have "mt.safe E L (opened E m) (tbind (atom (getOrCreateKey E)) (\<lambda>c. tbind (atom (View E c)) (Open_with_key E e ?b))) {?b} (relock t ?u)"
  proof (rule key_then, rule view_then)
    fix v k w assume r: "mt.rely E L {?b} (relock t ?u) v" and w: "mt.valid E L {k, ?b} w" and "k \<notin> {?b}" and K: "viewed E w k"
      and c: "calm E v w" and kp: "\<And>c. c \<in> {?b} \<Longrightarrow> kept v w c"
    have "blank E v e m ?b" by (rule blank_rely [OF r insertI1 B])
    then have "blank E w e m ?b" using kp [OF insertI1] sealed_calm [OF c] by (simp add: blank_def kept_def keep_def)
    with w K \<open>k \<notin> {?b}\<close> show "mt.safe E L (opened E m) (Open_with_key E e ?b (Inr k)) {k, ?b} w"
      using with_key_safe [of E L ?b k w e m] by (auto simp: insert_commute)
  qed
  then show "\<exists>x u M'. NewBuffer E (int (slen (ciphertext e)) - Overhead E) (bare t) = (Ret x, u) \<and>
      quiet t (NewBuffer E (int (slen (ciphertext e)) - Overhead E)) \<and> kt.guar E {} M' (bare t) u \<and> (\<forall>c \<in> {} - M'. idle t c) \<and>
      mt.safe E L (opened E m) (case x of
         Inl _ \<Rightarrow> atom (Panic E (PStr ''<memguard:core> ciphertext has invalid length''))
       | Inr b \<Rightarrow> tbind (atom (getOrCreateKey E)) (\<lambda>c. tbind (atom (View E c)) (Open_with_key E e b))) M' (relock t u)"
    using new g quiet_NewBuffer [OF k n(1,2)] unfolding n(3) by (intro exI [of _ "Inr ?b"] exI [of _ ?u] exI [of _ "{?b}"]) simp
qed

lemma Enclave_Open_thread_safe:
  assumes "mt.valid E L {} s" and "sealed E s e m"
  shows "mt.safe E L (opened E m) (Enclave_Open_thread E e) {} s"
  unfolding Enclave_Open_thread_def
proof (rule mt.safe_bind [OF Open_thread_safe [OF assms(2)] assms(1)])
  fix r M t assume v: "mt.valid E L M t" and r: "opened E m r M t"
  then obtain b where b: "r = Ret (Inr b)" "M = {b}" "idle t b" by (auto simp: opened_def)
  have "mt.safe E L (opened E m) (tbind (atom (Freeze E b)) (\<lambda>_. Done (Ret (Inr b)))) {b} t"
  proof (rule lift_then)
    fix u assume u: "mt.rely E L {b} t u"
    note w = mt.rely_valid [OF u]
    note f = freeze_guar [OF mt_kt [OF w] insertI1]
    have i: "idle u b" using rely_D(3) [OF u] b(3) by simp
    have "contents (mem u) (data (bufs u b)) = m" using opened_rely [OF u _ r [unfolded b]] v b by (simp add: opened_def)
    then have "mt.safe E L (opened E m) (Done (Ret (Inr b))) {b} (relock u (frozen_state b (bare u)))"
      using f(3) i by (intro opened_done [OF mt.guar_valid [OF lift_guar [OF w f(2)]]]) simp_all
    then show "\<exists>x w M'. Freeze E b (bare u) = (Ret x, w) \<and> quiet u (Freeze E b) \<and> kt.guar E {b} M' (bare u) w \<and>
        (\<forall>c \<in> {b} - M'. idle u c) \<and> mt.safe E L (opened E m) (Done (Ret (Inr b))) M' (relock u w)"
      using f(1,2) quiet_protect(1) [OF valid_D(1) [OF w] i]
      by (intro exI [of _ "()"] exI [of _ "frozen_state b (bare u)"] exI [of _ "{b}"]) simp
  qed
  then show "mt.safe E L (opened E m) (go_on r (\<lambda>r. case r of
       Inl err \<Rightarrow> if err \<noteq> ErrDecryptionFailed then atom (Panic E (PErr err)) else Done (Ret (Inl err))
     | Inr b \<Rightarrow> tbind (atom (Freeze E b)) (\<lambda>_. Done (Ret (Inr b))))) M t"
    by (simp add: b)
qed

end
