(* ===== verification/Deadlock_Example.thy ===== *)
theory Deadlock_Example
  imports Concurrent Examples
begin

text \<open>
  The example \<^verbatim>\<open>examples/deadlock/x01/poc.go\<close>: twenty workers open enclaves in goroutines of their own until a context
  expires, while the key is re-keyed. The program is a transition system whose steps are the next action of some
  goroutine. The lemmas show that no schedule makes it panic, and that every goroutine can always go on to its end.
\<close>

subsection \<open>examples/deadlock/x01/poc.go\<close>

text \<open>\<^verbatim>\<open>openVerify\<close> as a goroutine.\<close>

definition openVerify_thread :: "env \<Rightarrow> Enclave \<Rightarrow> slice \<Rightarrow> (world, err option) thread" where
  "openVerify_thread E lock expected =
     tbind (Enclave_Open_thread E lock) (\<lambda>r.
     case r of
       Inl err \<Rightarrow> Done (Ret (Some err))
     | Inr lb \<Rightarrow>
         tfinally (atom (LockedBuffer_Destroy E lb))
           (tbind (atom (Bytes lb)) (\<lambda>d.
            tbind (atom (bytes_Equal d expected)) (\<lambda>eq.
            if \<not> eq then Done (Ret (Some (ErrText ''open verify fail''))) else Done (Ret None)))))"

text \<open>One round of the loop that prepares the data and its enclave; both slices have 32 bytes.\<close>

definition new_job :: "env \<Rightarrow> (Enclave option \<times> slice) go" where
  "new_job E =
     bind (gc_new (replicate 32 0)) (\<lambda>d.
     bind (gc_new (replicate 32 0)) (\<lambda>buf.
     bind (rand_Read E buf) (\<lambda>err.
     case err of
       Some _ \<Rightarrow> go_panic (PStr ''failed to read random data'')
     | None \<Rightarrow>
         bind (bind (read_all buf) (write_all d)) (\<lambda>_.
         bind (memguard_NewEnclave E buf) (\<lambda>e. ret (e, d))))))"

fun prepare :: "env \<Rightarrow> nat \<Rightarrow> (Enclave option \<times> slice) list go" where
  "prepare E 0 = ret []"
| "prepare E (Suc n) = bind (new_job E) (\<lambda>j. bind (prepare E n) (\<lambda>js. ret (j # js)))"

fun open_job :: "env \<Rightarrow> Enclave option \<times> slice \<Rightarrow> (world, err option) thread" where
  "open_job E (None, d) = Done (Panicked nil_deref)"
| "open_job E (Some e, d) = openVerify_thread E e d"

text \<open>
  A worker is at the head of its loop, waits in \<^verbatim>\<open>immediateOpen\<close> for the goroutine with the given number, or has
  returned. The state: whether the context has expired, the workers, the goroutines of \<^verbatim>\<open>immediateOpen\<close>, the state of the
  package, and the panic that ended the process.
\<close>

datatype worker = Choosing | Waiting nat | Returned

record x01 =
  expired :: bool
  workers :: "worker list"
  routines :: "(world, err option) thread list"
  now :: world
  died :: "panicval option"

definition x01_start :: "nat \<Rightarrow> world \<Rightarrow> x01" where
  "x01_start threads s = \<lparr>expired = False, workers = replicate threads Choosing, routines = [], now = s, died = None\<rparr>"

text \<open>The loop of a worker, and \<^verbatim>\<open>immediateOpen\<close> with the goroutines it starts.\<close>

inductive worker_loop :: "env \<Rightarrow> (Enclave option \<times> slice) list \<Rightarrow> x01 \<Rightarrow> x01 \<Rightarrow> bool" for E jobs where
  return: "expired x \<Longrightarrow> w < length (workers x) \<Longrightarrow> workers x ! w = Choosing \<Longrightarrow>
    worker_loop E jobs x (x\<lparr>workers := (workers x)[w := Returned]\<rparr>)"
| immediateOpen: "\<not> expired x \<Longrightarrow> w < length (workers x) \<Longrightarrow> workers x ! w = Choosing \<Longrightarrow> j < length jobs \<Longrightarrow>
    worker_loop E jobs x (x\<lparr>workers := (workers x)[w := Waiting (length (routines x))], routines := routines x @ [open_job E (jobs ! j)]\<rparr>)"

inductive x01_step :: "env \<Rightarrow> (Enclave option \<times> slice) list \<Rightarrow> x01 \<Rightarrow> x01 \<Rightarrow> bool" for E jobs where
  expire: "x01_step E jobs x (x\<lparr>expired := True\<rparr>)"
| loop: "worker_loop E jobs x y \<Longrightarrow> x01_step E jobs x y"
| run: "i < length (routines x) \<Longrightarrow> routines x ! i = Act g \<Longrightarrow> g (now x) = (th, t) \<Longrightarrow>
    x01_step E jobs x (x\<lparr>routines := (routines x)[i := th], now := t\<rparr>)"
| panicked: "i < length (routines x) \<Longrightarrow> routines x ! i = Done (Panicked p) \<Longrightarrow> x01_step E jobs x (x\<lparr>died := Some p\<rparr>)"
| receive: "w < length (workers x) \<Longrightarrow> workers x ! w = Waiting i \<Longrightarrow> i < length (routines x) \<Longrightarrow> routines x ! i = Done (Ret None) \<Longrightarrow>
    x01_step E jobs x (x\<lparr>workers := (workers x)[w := Choosing]\<rparr>)"
| receive_err: "w < length (workers x) \<Longrightarrow> workers x ! w = Waiting i \<Longrightarrow> i < length (routines x) \<Longrightarrow> routines x ! i = Done (Ret (Some err)) \<Longrightarrow>
    x01_step E jobs x (x\<lparr>died := Some (PErr err)\<rparr>)"
| abandon: "expired x \<Longrightarrow> w < length (workers x) \<Longrightarrow> workers x ! w = Waiting i \<Longrightarrow>
    x01_step E jobs x (x\<lparr>workers := (workers x)[w := Choosing]\<rparr>)"
| rekey: "key_tick E (now x) = (Ret (), t) \<Longrightarrow> x01_step E jobs x (x\<lparr>now := t\<rparr>)"

inductive x01_reach :: "env \<Rightarrow> (Enclave option \<times> slice) list \<Rightarrow> x01 \<Rightarrow> x01 \<Rightarrow> bool" for E jobs x where
  start: "x01_reach E jobs x x"
| step: "x01_reach E jobs x y \<Longrightarrow> died y = None \<Longrightarrow> x01_step E jobs y z \<Longrightarrow> x01_reach E jobs x z"

subsection \<open>Facts: one goroutine\<close>

lemma openVerify_thread_alone: "run_thread (openVerify_thread E e p) = openVerify E e p"
proof -
  have r: "run_thread (Done (Ret v)) = ret v" for v :: "err option" by (rule ext) simp
  show ?thesis
    unfolding openVerify_thread_def openVerify_def
    by (simp only: run_tbind run_tfinally run_atom Enclave_Open_thread_alone sum.case_distrib [of run_thread]
        if_distrib [of run_thread] r)
qed

definition verified :: "err option outcome \<Rightarrow> nat set \<Rightarrow> world \<Rightarrow> bool" where
  "verified r M t \<longleftrightarrow> r = Ret None \<and> M = {}"

lemma compare_safe:
  assumes "mt.valid E L {b} s" and "contents (mem s) (data (bufs s b)) = m" and "expects s p m" and "idle s b"
  shows "mt.safe E L (\<lambda>r M t. r = Ret None \<and> M = {b} \<and> idle t b) (tbind (atom (Bytes b)) (\<lambda>d. tbind (atom (bytes_Equal d p)) (\<lambda>eq.
      if \<not> eq then Done (Ret (Some (ErrText ''open verify fail''))) else Done (Ret None)))) {b} s"
proof (rule mt.safe_read [where v = "data (bufs s b)"])
  show "Bytes b t = (Ret (data (bufs s b)), t)" if "mt.rely E L {b} s t" for t
    using rely_D(2) [OF that] by (simp add: Bytes_def)
  show "mt.safe E L (\<lambda>r M t. r = Ret None \<and> M = {b} \<and> idle t b) (tbind (atom (bytes_Equal (data (bufs s b)) p)) (\<lambda>eq.
      if \<not> eq then Done (Ret (Some (ErrText ''open verify fail''))) else Done (Ret None))) {b} s"
  proof (rule mt.safe_read [where v = True])
    fix t assume t: "mt.rely E L {b} s t"
    have "readable (mem t) (data (bufs t b))" by (rule guarded_data(1) [OF valid_D(6) [OF mt.rely_valid [OF t] insertI1]])
    moreover have "expects t p m" using expects_kept [OF _ assms(3)] rely_calm [OF t] by (simp add: calm_def)
    ultimately show "bytes_Equal (data (bufs s b)) p t = (Ret True, t)"
      using rely_contents [OF t assms(1) insertI1] rely_D(2) [OF t insertI1] assms(2)
      by (simp add: bytes_Equal_def bind_def read_all_def expects_def exec)
  qed (use assms(4) rely_D(3) in \<open>auto intro: mt.safe_done\<close>)
qed

lemma openVerify_thread_safe:
  assumes "mt.valid E L {} s" and "sealed E s e m" and "expects s p m"
  shows "mt.safe E L verified (openVerify_thread E e p) {} s"
  unfolding openVerify_thread_def
proof (rule mt.safe_bind [OF mt.safe_calm [OF Enclave_Open_thread_safe [OF assms(1,2)] calm_refl] assms(1)])
  fix r M t assume v: "mt.valid E L M t" and "opened E m r M t \<and> calm E s t"
  then have r: "opened E m r M t" and exp: "expects t p m"
    using expects_kept [OF _ assms(3)] by (simp_all add: calm_def)
  then obtain b where b: "r = Ret (Inr b)" "M = {b}" "contents (mem t) (data (bufs t b)) = m" "idle t b" by (auto simp: opened_def)
  have "mt.safe E L verified (tfinally (atom (LockedBuffer_Destroy E b)) (tbind (atom (Bytes b)) (\<lambda>d. tbind (atom (bytes_Equal d p)) (\<lambda>eq.
      if \<not> eq then Done (Ret (Some (ErrText ''open verify fail''))) else Done (Ret None))))) {b} t"
  proof (rule mt.safe_finally [OF compare_safe])
    show "mt.valid E L {b} t" "mt.valid E L {b} t" using v b(2) by simp_all
    show "contents (mem t) (data (bufs t b)) = m" "expects t p m" "idle t b" using exp b(3,4) by simp_all
    fix q :: "err option outcome" and M u assume q: "q = Ret None \<and> M = {b} \<and> idle u b"
    have "mt.safe E L verified (tbind (atom (LockedBuffer_Destroy E b)) (\<lambda>_. Done (Ret None))) {b} u"
      unfolding LockedBuffer_Destroy_def
    proof (rule lift_then)
      fix w assume w: "mt.rely E L {b} u w"
      have i: "idle w b" using rely_D(3) [OF w] q by simp
      note d = Destroy_lifts [OF mt.rely_valid [OF w] insertI1 i]
      have "mt.safe E L verified (Done (Ret None)) {} (relock w (removed_state b (bare w)))"
        by (rule mt.safe_done) (simp_all add: verified_def)
      then show "\<exists>x v M'. Destroy E b (bare w) = (Ret x, v) \<and> quiet w (Destroy E b) \<and> kt.guar E {b} M' (bare w) v \<and>
          (\<forall>c \<in> {b} - M'. idle w c) \<and> mt.safe E L verified (Done (Ret None)) M' (relock w v)"
        using d(1-3) i by (intro exI [of _ "()"] exI [of _ "removed_state b (bare w)"] exI [of _ "{}"]) simp
    qed
    then show "mt.safe E L verified (at_end q (atom (LockedBuffer_Destroy E b))) M u" using q by simp
  qed
  then show "mt.safe E L verified (go_on r (\<lambda>r. case r of
       Inl err \<Rightarrow> Done (Ret (Some err))
     | Inr lb \<Rightarrow> tfinally (atom (LockedBuffer_Destroy E lb)) (tbind (atom (Bytes lb)) (\<lambda>d. tbind (atom (bytes_Equal d p)) (\<lambda>eq.
         if \<not> eq then Done (Ret (Some (ErrText ''open verify fail''))) else Done (Ret None)))))) M t"
    by (simp add: b)
qed

subsection \<open>Facts: the program\<close>

fun job_ok :: "env \<Rightarrow> world \<Rightarrow> Enclave option \<times> slice \<Rightarrow> bool" where
  "job_ok E s (e, d) \<longleftrightarrow> (\<exists>x m. e = Some x \<and> sealed E s x m \<and> expects s d m)"

lemma job_calm: "calm E s t \<Longrightarrow> job_ok E s j \<Longrightarrow> job_ok E t j"
  using sealed_calm expects_kept by (cases j) (fastforce simp: calm_def)

lemma open_job_safe: "mt.valid E L {} s \<Longrightarrow> job_ok E s j \<Longrightarrow> mt.safe E L verified (open_job E j) {} s"
  using openVerify_thread_safe by (cases j) fastforce

text \<open>Preparing the data and the enclaves; the first enclave creates the key.\<close>

lemma new_job_run:
  assumes "ready E s" and "32 + Overhead E \<le> 2 ^ 62"
  obtains j t where "new_job E s = (Ret j, t)" and "keyed E t" and "job_ok E t j" and "keyed E s \<Longrightarrow> calm E s t"
proof -
  note k = ready_D [OF assms(1)] and ok = env_works_D [OF ready_D(1) [OF assms(1)]]
  let ?z = "replicate 32 (0 :: byte)" and ?m = "rand_bytes E (rpos s) 32"
  obtain d s1 where s1: "gc_new ?z s = (Ret d, s1)" by (simp add: gc_new_def)
  obtain buf s2 where s2: "gc_new ?z s1 = (Ret buf, s2)" by (simp add: gc_new_def)
  note a1 = gc_new_access [OF s1] and a2 = gc_new_access [OF s2]
  let ?j = "gcnext (mem s)"
  have d: "d = Slice (GC ?j) 0 32 32" and buf: "buf = Slice (GC (Suc ?j)) 0 32 32" using a1(1,6) a2(1) by simp_all
  define s3 where "s3 = s2\<lparr>mem := put (mem s2) buf ?m, rpos := rpos s + 32\<rparr>"
  define s4 where "s4 = s3\<lparr>mem := put (mem s3) d ?m\<rparr>"
  have w2: "writable (mem s2) d" "writable (mem s2) buf"
    using a2(3) gc_step_old(3) [OF gc_step_new [OF s2], of d] a1(3,6) by (simp_all add: d)
  have rp: "rpos s2 = rpos s" using s1 s2 by (auto simp: gc_new_def)
  have rd: "rand_Read E buf s2 = (Ret None, s3)"
    using ok(3) w2(2) rp by (simp add: rand_Read_def rand_ok_def write_all_def bind_def exec s3_def buf)
  have len: "length ?m = 32" "slen buf = 32" "slen d = 32" by (simp_all add: rand_bytes_def buf d)
  have w3: "writable (mem s3) d" "writable (mem s3) buf" "contents (mem s3) buf = ?m"
    using w2 len writable_fits [OF w2(2)] by (simp_all add: s3_def)
  have cp: "bind (read_all buf) (write_all d) s3 = (Ret (), s4)"
    using w3 by (simp add: bind_def read_all_def write_all_def exec writable_readable s4_def)
  have g3: "gc_step s s3"
    unfolding s3_def buf gc_step_rpos by (rule gc_step_put [OF gc_step_trans [OF gc_step_new [OF s1] gc_step_new [OF s2]]]) simp
  have g: "gc_step s s4" unfolding s4_def d by (rule gc_step_put [OF g3 order_refl])
  note e = gc_step_extends [OF g k(2)] and sess = gc_step_session [OF g k(2)]
  have "clean s4" by (rule clean_intact [OF k(3) intact_extends [OF e k(2)]]) (use g in \<open>simp add: gc_step_def same_objs_def\<close>)
  then have st: "ready E s4" using k(1) sess by (simp add: ready_def)
  have buf4: "writable (mem s4) buf" "contents (mem s4) buf = ?m" "writable (mem s4) d" "contents (mem s4) d = ?m"
    using w3 len writable_fits [OF w3(1)] contents_put_apart [of d buf "mem s3" ?m] by (simp_all add: s4_def) (simp_all add: buf d)
  have next4: "gcnext (mem s4) = Suc (Suc ?j)" using a1(6) a2(6) by (simp add: s4_def s3_def)
  have tg: "target s4 buf" "0 < slen buf"
    unfolding target_def using buf4(1) next4 by (auto simp: buf)
  let ?y = "s4\<lparr>mem := put (mem s4) buf (replicate (slen buf) 0)\<rparr>"
  obtain t e where t: "NewEnclave E buf s4 = (Ret (Inr e), t)" "ready E t" "coffer_ok t (key t)" "holds E t e ?m"
      "coffer_ok s4 (key s4) \<Longrightarrow> key t = key s4 \<and> coffer_value E t (key t) = coffer_value E s4 (key s4) \<and> blist t = blist s4"
      "extends ?y t"
    by (rule NewEnclave_target [OF st tg, unfolded buf4(2)]) (rule that)
  have run: "new_job E s = (Ret (Some e, d), t)"
    using s1 s2 rd cp t(1) by (simp add: new_job_def bind_def memguard_NewEnclave_def exec)
  have kt: "keyed E t" using t(2,3) by (simp add: keyed_ready)
  have "sealed E t e ?m"
    using t(4) holds_slen(1) [OF ok(6) t(4)] len assms(2) by (auto simp: sealed_def Overhead_def simp flip: length_greater_0_conv)
  moreover have "writable (mem ?y) d" "contents (mem ?y) d = ?m"
    using buf4(3,4) writable_fits [OF buf4(1)] contents_put_apart [of buf d "mem s4" "replicate (slen buf) 0"]
    by (simp_all add: len) (simp add: buf d)
  then have "expects ?y d ?m"
    unfolding expects_def using next4 writable_readable [of "mem ?y" d] by (intro conjI) (simp add: d, simp_all)
  then have "expects t d ?m" by (rule expects_kept [OF heap_kept_extends [OF t(6)]])
  ultimately have job: "job_ok E t (Some e, d)" by auto
  have "calm E s t" if ks: "keyed E s"
  proof -
    have "gc_step s ?y" unfolding buf by (rule gc_step_put [OF g]) simp
    then have ext: "extends s t" using extends_trans [OF gc_step_extends [OF _ k(2)] t(6)] by blast
    have "key s4 = key s" using g by (simp add: gc_step_def same_objs_def)
    moreover have "coffer_ok s4 (key s)" using extends_value(2) [OF e k(2) keyed_D(4,6) [OF ks]] .
    ultimately show ?thesis using t(5) by (intro extends_calm [OF ks ext]) simp
  qed
  then show ?thesis by (rule that [OF run kt job])
qed

lemma prepare_run:
  assumes "ready E s" and "32 + Overhead E \<le> 2 ^ 62"
  shows "\<exists>js t. prepare E n s = (Ret js, t) \<and> length js = n \<and> ready E t \<and> (0 < n \<longrightarrow> keyed E t) \<and> (\<forall>j \<in> set js. job_ok E t j) \<and>
     (keyed E s \<longrightarrow> keyed E t \<and> calm E s t)"
  using assms(1)
proof (induction n arbitrary: s)
  case 0
  then show ?case using calm_refl by simp
next
  case (Suc n)
  obtain j t where j: "new_job E s = (Ret j, t)" "keyed E t" "job_ok E t j" "keyed E s \<Longrightarrow> calm E s t"
    by (rule new_job_run [OF Suc.prems assms(2)]) (rule that)
  have "ready E t" using j(2) by (simp add: keyed_ready)
  from Suc.IH [OF this] obtain js u where u: "prepare E n t = (Ret js, u)" "length js = n" "ready E u" "keyed E u" "calm E t u"
      "\<forall>j \<in> set js. job_ok E u j" using j(2) by blast
  have "prepare E (Suc n) s = (Ret (j # js), u)" using j(1) u(1) by (simp add: bind_def)
  moreover have "job_ok E u j" by (rule job_calm [OF u(5) j(3)])
  ultimately show ?case using u j(4) calm_trans by auto
qed

text \<open>The invariant of the program; \<open>t\<close> is the state in which the workers were started.\<close>

definition x01_inv :: "env \<Rightarrow> world \<Rightarrow> x01 \<Rightarrow> bool" where
  "x01_inv E t x \<longleftrightarrow> died x = None \<and> mt.pool E False (\<lambda>_. verified) (Collect (own t)) t (routines x) (now x)"

lemma routines_step:
  assumes "sched (\<lambda>s t. key_tick E s = (Ret (), t)) {open_job E j |j. j \<in> set jobs} (routines x, now x) (ths, u)"
    and "x01_inv E t x" and "\<forall>j \<in> set jobs. job_ok E t j"
  shows "mt.pool E False (\<lambda>_. verified) (Collect (own t)) t ths u"
proof (rule mt.pool_sched [OF assms(1)])
  show "mt.pool E False (\<lambda>_. verified) (Collect (own t)) t (routines x) (now x)" using assms(2) by (simp add: x01_inv_def)
  fix th v i assume "th \<in> {open_job E j |j. j \<in> set jobs}" and v: "mt.rely E False (Collect (own t)) t v"
  then obtain j where "th = open_job E j" "job_ok E v j" using assms(3) job_calm [OF rely_calm [OF v]] by auto
  then show "mt.safe E False verified th {} v" using v by (simp add: open_job_safe mt.rely_def mt.valid_def)
qed

lemma x01_inv_step:
  assumes "x01_step E jobs x y" and "x01_inv E t x" and "\<forall>j \<in> set jobs. job_ok E t j"
  shows "x01_inv E t y"
proof -
  have inv: "died x = None" "mt.pool E False (\<lambda>_. verified) (Collect (own t)) t (routines x) (now x)" using assms(2) by (simp_all add: x01_inv_def)
  have good: "r = Ret None" if "i < length (routines x)" "routines x ! i = Done r" for i r
    using mt.pool_done [OF inv(2) that] by (auto simp: verified_def)
  note step = routines_step [OF _ assms(2,3)]
  show ?thesis
    using assms(1)
  proof cases
    case loop
    from loop show ?thesis
    proof cases
      case (immediateOpen w j)
      then have "mt.pool E False (\<lambda>_. verified) (Collect (own t)) t (routines x @ [open_job E (jobs ! j)]) (now x)"
        using nth_mem [OF immediateOpen(5)] by (intro step [OF sched.spawn]) blast
      then show ?thesis using immediateOpen(1) inv(1) by (simp add: x01_inv_def)
    qed (use inv in \<open>simp_all add: x01_inv_def\<close>)
  next
    case (run i g th u)
    then show ?thesis using step [OF sched.act [OF run(2,3,4)]] inv(1) by (simp add: x01_inv_def)
  next
    case (panicked i p)
    then show ?thesis using good by fastforce
  next
    case (receive_err w i err)
    then show ?thesis using good by fastforce
  next
    case (rekey u)
    then show ?thesis using step [OF sched.background [where t = u]] inv(1) by (simp add: x01_inv_def)
  qed (use inv in \<open>simp_all add: x01_inv_def\<close>)
qed

lemma x01_inv_reach:
  assumes "x01_reach E jobs (x01_start n t) x" and "keyed E t" and "\<forall>j \<in> set jobs. job_ok E t j"
  shows "x01_inv E t x"
  using assms(1)
proof (induction rule: x01_reach.induct)
  case start
  show ?case using assms(2) mt.pool_start [of E False t "Collect (own t)"] keyed_shared by (simp add: x01_inv_def x01_start_def)
next
  case (step x y)
  then show ?case using x01_inv_step [OF _ _ assms(3)] by blast
qed

lemma x01_facts:
  assumes "x01_inv E t x"
  shows "died x = None \<and> keyed E (now x) \<and> (\<forall>b. own t b \<longrightarrow> own (now x) b \<and> keep t (now x) b) \<and>
        (\<forall>i < length (routines x). \<exists>u. run_thread (routines x ! i) (now x) = (Ret None, u)) \<and>
        (\<forall>i < length (routines x). \<forall>r. routines x ! i = Done r \<longrightarrow> r = Ret None) \<and>
        ((\<forall>i < length (routines x). \<exists>r. routines x ! i = Done r) \<longrightarrow> (\<forall>b. own (now x) b \<longleftrightarrow> own t b))"
proof (intro conjI allI impI)
  have p: "mt.pool E False (\<lambda>_. verified) (Collect (own t)) t (routines x) (now x)" using assms by (simp add: x01_inv_def)
  then have r: "mt.rely E False (Collect (own t)) t (now x)" by (simp add: mt.pool_def)
  show "died x = None" using assms by (simp add: x01_inv_def)
  show "keyed E (now x)" using r shared_keyed by (simp add: mt.rely_def mt.valid_def)
  show "own (now x) b" "keep t (now x) b" if "own t b" for b using r that by (simp_all add: mt.rely_def mt.valid_def kept_def)
  show "\<exists>u. run_thread (routines x ! i) (now x) = (Ret None, u)" if "i < length (routines x)" for i
    by (rule mt.pool_thread [OF p that]) (auto simp: verified_def)
  show "q = Ret None" if "i < length (routines x)" "routines x ! i = Done q" for i q
    using mt.pool_done [OF p that] by (auto simp: verified_def)
  show "own (now x) b \<longleftrightarrow> own t b" if "\<forall>i < length (routines x). \<exists>r. routines x ! i = Done r" for b
    using mt.pool_all_done [OF p, of b] that by (auto simp: verified_def)
qed

subsection \<open>The properties\<close>

text \<open>
  C7. The program of \<^verbatim>\<open>deadlock/x01\<close>: whatever the schedule of its goroutines, the re-key goroutine included, it never panics, and
  every goroutine that has ended found the data it expected. No goroutine is ever stuck: each can be run to its end from
  where it is. Buffers that existed before stay untouched, and when all goroutines have ended there are no others.
\<close>

theorem OpenEnclave_schedules:
  assumes "ready E s" and "32 + Overhead E \<le> 2 ^ 62" and "0 < n"
  shows "\<exists>jobs t. prepare E n s = (Ret jobs, t) \<and> length jobs = n \<and>
     (\<forall>x. x01_reach E jobs (x01_start threads t) x \<longrightarrow>
        died x = None \<and> keyed E (now x) \<and> (\<forall>b. own t b \<longrightarrow> own (now x) b \<and> keep t (now x) b) \<and>
        (\<forall>i < length (routines x). \<exists>u. run_thread (routines x ! i) (now x) = (Ret None, u)) \<and>
        (\<forall>i < length (routines x). \<forall>r. routines x ! i = Done r \<longrightarrow> r = Ret None) \<and>
        ((\<forall>i < length (routines x). \<exists>r. routines x ! i = Done r) \<longrightarrow> (\<forall>b. own (now x) b \<longleftrightarrow> own t b)))"
proof -
  obtain jobs t where t: "prepare E n s = (Ret jobs, t)" "length jobs = n" "keyed E t" "\<forall>j \<in> set jobs. job_ok E t j"
    using prepare_run [OF assms(1,2), of n] assms(3) by blast
  show ?thesis
    by (rule exI [of _ jobs], rule exI [of _ t]) (use t(1,2) x01_facts [OF x01_inv_reach [OF _ t(3,4)]] in blast)
qed

text \<open>Two workers; one goroutine is started and allocates its buffer.\<close>

theorem OpenEnclave_schedules_witness:
  "\<exists>jobs t x. prepare simE 2 init_world = (Ret jobs, t) \<and> x01_reach simE jobs (x01_start 2 t) x \<and> length (routines x) = 1 \<and>
     (\<exists>u. run_thread (routines x ! 0) (now x) = (Ret None, u))"
proof -
  have r: "ready simE init_world" using init_sane simE_works by (simp add: ready_def sane_def)
  have o: "32 + Overhead simE \<le> 2 ^ 62" by (simp add: simE_def Overhead_def)
  obtain jobs t where t: "prepare simE 2 init_world = (Ret jobs, t)" "length jobs = 2"
      "\<And>x. x01_reach simE jobs (x01_start 2 t) x \<Longrightarrow> \<forall>i < length (routines x). \<exists>u. run_thread (routines x ! i) (now x) = (Ret None, u)"
    using OpenEnclave_schedules [OF r o, of 2 2] by auto
  define x where "x = (x01_start 2 t)\<lparr>workers := [Waiting 0, Choosing], routines := [open_job simE (jobs ! 0)]\<rparr>"
  have "worker_loop simE jobs (x01_start 2 t) x"
    using worker_loop.immediateOpen [of "x01_start 2 t" 0 0 jobs simE] t(2) by (simp add: x_def x01_start_def eval_nat_numeral)
  then have "x01_step simE jobs (x01_start 2 t) x" by (rule x01_step.loop)
  then have "x01_reach simE jobs (x01_start 2 t) x"
    by (intro x01_reach.step [OF x01_reach.start]) (simp_all add: x01_start_def)
  from this t(3) [OF this] have "length (routines x) = 1 \<and> (\<exists>u. run_thread (routines x ! 0) (now x) = (Ret None, u))"
    by (simp add: x_def)
  with \<open>x01_reach _ _ _ x\<close> t(1) show ?thesis by blast
qed

end
