(* ===== verification/Sealing.thy ===== *)
theory Sealing
  imports Concurrent Sim
begin

text \<open>
  Goroutines that seal. The bodies of \<^verbatim>\<open>core.NewEnclave\<close>, \<^verbatim>\<open>core.Seal\<close> and \<^verbatim>\<open>LockedBuffer.Seal\<close> are cut into their actions. The closure in
  \<^verbatim>\<open>Seal\<close> holds the read lock of the buffer from its first action to its last, while other goroutines run. The lemmas
  show that goroutines which seal buffers of their own, and open the enclaves, do not disturb each other.
\<close>

subsection \<open>core/enclave.go and buffer.go, action by action\<close>

text \<open>A read lock that is held from one action to another: \<^verbatim>\<open>RLock\<close>, and \<^verbatim>\<open>defer RUnlock\<close>.\<close>

definition RLock :: "lockid \<Rightarrow> unit go" where
  "RLock l s =
     (case locks s l of
        Unlocked \<Rightarrow> (Ret (), set_rw l (RLocked 1) s)
      | RLocked n \<Rightarrow> (Ret (), set_rw l (RLocked (Suc n)) s)
      | WLocked \<Rightarrow> (Blocked, s))"

definition twith_rlock :: "lockid \<Rightarrow> (world, 'a) thread \<Rightarrow> (world, 'a) thread" where
  "twith_rlock l th = tbind (atom (RLock l)) (\<lambda>_. tfinally (atom (modify (release l))) th)"

definition NewEnclave_with_key :: "env \<Rightarrow> slice \<Rightarrow> err + nat \<Rightarrow> (world, err + Enclave) thread" where
  "NewEnclave_with_key E buf r =
     (case r of
        Inl e \<Rightarrow> Done (Ret (Inl e))
      | Inr k \<Rightarrow>
          tbind (atom (Data k)) (\<lambda>kd.
          tbind (atom (Encrypt E buf kd)) (\<lambda>r.
          case r of
            Inl e \<Rightarrow> atom (Panic E (PErr e))
          | Inr c \<Rightarrow>
              tbind (atom (Destroy E k)) (\<lambda>_.
              tbind (atom (Wipe buf)) (\<lambda>_.
              Done (Ret (Inr \<lparr>ciphertext = c\<rparr>)))))))"

definition NewEnclave_thread :: "env \<Rightarrow> slice \<Rightarrow> (world, err + Enclave) thread" where
  "NewEnclave_thread E buf =
     (if slen buf < 1 then Done (Ret (Inl ErrNullEnclave))
      else
        tbind (atom (getOrCreateKey E)) (\<lambda>c.
        tbind (atom (View E c)) (NewEnclave_with_key E buf)))"

definition Seal_thread :: "env \<Rightarrow> nat \<Rightarrow> (world, err + Enclave) thread" where
  "Seal_thread E b =
     tbind (atom (Alive b)) (\<lambda>a.
     if \<not> a then Done (Ret (Inl ErrBufferExpired))
     else
       tbind (atom (Melt E b)) (\<lambda>_.
       tbind (twith_rlock (BufLock b) (tbind (atom (Data b)) (NewEnclave_thread E))) (\<lambda>r.
       case r of
         Inl e \<Rightarrow> Done (Ret (Inl e))
       | Inr e \<Rightarrow> tbind (atom (Destroy E b)) (\<lambda>_. Done (Ret (Inr e))))))"

definition LockedBuffer_Seal_thread :: "env \<Rightarrow> nat \<Rightarrow> (world, Enclave option) thread" where
  "LockedBuffer_Seal_thread E b = tbind (Seal_thread E b) (\<lambda>r.
     case r of
       Inl e \<Rightarrow> if e = ErrBufferExpired then Done (Ret None) else atom (Panic E (PErr e))
     | Inr e \<Rightarrow> Done (Ret (Some e)))"

text \<open>\<^verbatim>\<open>memguard.NewEnclave\<close>\<close>

definition memguard_NewEnclave_thread :: "env \<Rightarrow> slice \<Rightarrow> (world, Enclave option) thread" where
  "memguard_NewEnclave_thread E src = tbind (NewEnclave_thread E src) (\<lambda>r.
     case r of
       Inl e \<Rightarrow> if e = ErrNullEnclave then Done (Ret None) else atom (Panic E (PErr e))
     | Inr e \<Rightarrow> Done (Ret (Some e)))"

text \<open>Running alone, the threads are the functions of the other theories.\<close>

lemma run_twith_rlock [simp]: "run_thread (twith_rlock l th) = with_rlock l (run_thread th)"
  by (rule ext)
    (simp add: twith_rlock_def with_rlock_def RLock_def bind_def defer_do_def deferred_def exec split: rwlock.split prod.split outcome.split)

lemma NewEnclave_thread_alone: "run_thread (NewEnclave_thread E buf) = NewEnclave E buf"
proof -
  have r: "run_thread (Done (Ret v)) = ret v" for v :: "err + Enclave" by (rule ext) simp
  show ?thesis
    unfolding NewEnclave_thread_def NewEnclave_with_key_def NewEnclave_def view_key_def bind_assoc
    by (simp only: run_tbind run_atom sum.case_distrib [of run_thread] if_distrib [of run_thread] r)
qed

lemma memguard_NewEnclave_thread_alone: "run_thread (memguard_NewEnclave_thread E src) = memguard_NewEnclave E src"
proof -
  have r: "run_thread (Done (Ret v)) = ret v" for v :: "Enclave option" by (rule ext) simp
  show ?thesis
    unfolding memguard_NewEnclave_thread_def memguard_NewEnclave_def
    by (simp only: run_tbind run_atom NewEnclave_thread_alone sum.case_distrib [of run_thread] if_distrib [of run_thread] r)
qed

lemma Seal_thread_alone: "run_thread (Seal_thread E b) = Seal E b"
proof -
  have r: "run_thread (Done (Ret v)) = ret v" for v :: "err + Enclave" by (rule ext) simp
  show ?thesis
    unfolding Seal_thread_def Seal_def
    by (simp only: run_tbind run_atom run_twith_rlock NewEnclave_thread_alone sum.case_distrib [of run_thread] if_distrib [of run_thread] r)
qed

lemma LockedBuffer_Seal_thread_alone: "run_thread (LockedBuffer_Seal_thread E b) = LockedBuffer_Seal E b"
proof -
  have r: "run_thread (Done (Ret v)) = ret v" for v :: "Enclave option" by (rule ext) simp
  show ?thesis
    unfolding LockedBuffer_Seal_thread_def LockedBuffer_Seal_def
    by (simp only: run_tbind run_atom Seal_thread_alone sum.case_distrib [of run_thread] if_distrib [of run_thread] r)
qed

subsection \<open>Facts: the actions\<close>

lemma keyed_melted:
  assumes "keyed E s" and "own s b"
  shows "keyed E (melted_state b s)"
proof -
  note k = keyed_D [OF assms(1)]
  have b: "b \<in> set (blist s)" "b \<notin> refs s (key s)" using assms(2) by (simp_all add: own_def)
  note o = melted_facts [OF k(2) b(1)]
  show ?thesis
    using k(1,3) frozen_session(2) [OF k(2) b] melted_value(2) [OF k(2) b k(4)] o(1,2)
    by (simp add: keyed_def clean_def melted_canary)
qed

lemma melt_guar:
  assumes "kt.valid E M t" and "b \<in> M"
  defines "u \<equiv> melted_state b t"
  shows "Melt E b t = (Ret (), u)" and "kt.guar E M M t u" and "contents (mem u) (data (bufs u b)) = contents (mem t) (data (bufs t b))"
    and "data (bufs u b) = data (bufs t b)" and "mutable (bufs u b)"
proof -
  note v = kvalid_D [OF assms(1,2)]
  note k = keyed_D [OF v(1)]
  show "Melt E b t = (Ret (), u)" unfolding u_def by (rule Seal_begin(2) [OF k(1,2) v(3)])
  note o = melted_facts [OF k(2) v(3), folded u_def]
  show "contents (mem u) (data (bufs u b)) = contents (mem t) (data (bufs t b))" "data (bufs u b) = data (bufs t b)" "mutable (bufs u b)"
    using o by simp_all
  have kp: "keep t u c" if "c \<in> set (blist t)" "c \<noteq> b" for c unfolding u_def by (rule frozen_other(2) [OF k(2) v(3) that])
  have "heap_kept t u"
    using guarded_mapped(1) [OF v(5)] by (auto elim!: mappedE simp: heap_kept_def u_def melted_state_def)
  then have "calm E t u" using melted_value(1) [OF k(2) v(3,4) k(4), folded u_def] o(2) by (simp add: calm_def key_value_def)
  moreover have "keyed E u" unfolding u_def by (rule keyed_melted [OF v(1,2)])
  moreover have "own u = own t" by (rule own_cong) (use o in simp_all)
  ultimately show "kt.guar E M M t u" using kp assms(1,2) by (auto simp: kt.guar_def kt.valid_def own_def)
qed

lemma gc_guar:
  assumes "kt.valid E M t" and g: "gc_step t u"
  shows "kt.guar E M M t u" and "\<And>c. c \<in> M \<Longrightarrow> keep t u c"
proof -
  have k: "keyed E t" using assms(1) by (simp add: kt.valid_def)
  note kd = keyed_D [OF k]
  have same: "bufs u = bufs t" "blist u = blist t" "key u = key t" "coffers u = coffers t"
    using g by (simp_all add: gc_step_def same_objs_def)
  have e: "extends t u" and s: "session E u" using gc_step_extends [OF g kd(2)] gc_step_session [OF g kd(2)] by simp_all
  have "clean u" by (rule clean_intact [OF kd(3) intact_extends [OF e kd(2)] same(2)])
  then have "keyed E u" "calm E t u" using extends_keyed [OF k e same(3) s] extends_calm [OF k e same(3)] by simp_all
  moreover have kp: "keep t u c" if "own t c" for c using gc_step_keep [OF g kd(2)] that by (simp add: own_def)
  moreover have "own u = own t" by (rule own_cong) (use same in \<open>simp_all add: refs_def\<close>)
  ultimately show "kt.guar E M M t u" using assms(1) by (auto simp: kt.guar_def kt.valid_def)
  show "keep t u c" if "c \<in> M" for c using kp assms(1) that by (simp add: kt.valid_def)
qed

text \<open>Encrypting an own buffer with a view of the key.\<close>

lemma Encrypt_sealed:
  assumes "keyed E t" and "old (mem t) p" and "readable (mem t) p" and "k \<in> set (blist t)" and "viewed E t k"
    and "contents (mem t) p = m" and "slen p = length m" and "0 < slen p" and "int (slen p) + Overhead E \<le> 2 ^ 62"
  obtains c u where "Encrypt E p (data (bufs t k)) t = (Ret (Inr c), u)" and "gc_step t u" and "sealed E u \<lparr>ciphertext = c\<rparr> m"
proof -
  note kd = keyed_D [OF assms(1)] and ok = env_works_D [OF keyed_D(1) [OF assms(1)]]
  have K: "slen (data (bufs t k)) = 32" "contents (mem t) (data (bufs t k)) = key_value E t" using assms(5) by (simp_all add: viewed_def)
  obtain c u where u: "Encrypt E p (data (bufs t k)) t = (Ret (Inr c), u)" "gc_step t u" "\<not> old (mem t) c" "wf_slice c"
      "contents (mem u) c = rand_bytes E (rpos t) 24 @ sbSeal E (contents (mem t) p) (rand_bytes E (rpos t) 24) (contents (mem t) (data (bufs t k)))"
      "readable (mem u) c" "old (mem u) c"
    by (rule Encrypt_run [OF ok(3) K(1) assms(3) guarded_data(1) [OF session_D(2) [OF kd(2) assms(4)]] assms(2) old_data [OF kd(2) assms(4)]]) (rule that)
  obtain j i n k' where cs: "c = Slice (GC j) i n k'" using u(3) by (cases "(mem t, c)" rule: old.cases) auto
  have "key u = key t" using u(2) by (simp add: gc_step_def same_objs_def)
  then have "key_value E u = key_value E t"
    using extends_calm [OF assms(1) gc_step_extends [OF u(2) kd(2)]] by (simp add: calm_def)
  then have h: "holds E u \<lparr>ciphertext = c\<rparr> m"
    by (intro holdsI [where n = "rand_bytes E (rpos t) 24"], unfold Enclave.simps u(5) assms(6) K(2))
      (use u(4,6,7) in \<open>simp_all add: cs key_value_def rand_bytes_def del: contents.simps readable.simps\<close>)
  have "sealed E u \<lparr>ciphertext = c\<rparr> m"
    using h assms(7-9) holds_slen(1) [OF ok(6) h] by (auto simp: sealed_def Overhead_def)
  with u(1,2) show ?thesis by (rule that)
qed

text \<open>The lock of an own buffer.\<close>

lemma lock_guar:
  assumes "mt.valid E True M t" and "b \<in> M"
  shows "mt.guar E True M M t (set_rw (BufLock b) x t)"
proof -
  have "bare (set_rw (BufLock b) x t) = bare t" by (simp add: set_rw_def)
  moreover have "own t b" using valid_D(3) [OF assms] .
  ultimately have "shared E True (set_rw (BufLock b) x t)"
    using valid_D(2) [OF assms(1)] by (auto simp: shared_def set_rw_def)
  moreover have "kept t (set_rw (BufLock b) x t) c" if "c \<notin> M" for c
    using that assms(2) keep_refl [of t c] by (auto simp: kept_def set_rw_def)
  moreover have "calm E t (set_rw (BufLock b) x t)" by (simp add: set_rw_def calm_refl)
  ultimately show ?thesis using assms by (auto simp: mt.guar_def mt.valid_def set_rw_def)
qed

subsection \<open>Facts: NewEnclave while others run\<close>

text \<open>The result of sealing the data of \<open>b\<close>: the enclave, while the buffer and its lock \<open>h\<close> are as they were.\<close>

definition made :: "env \<Rightarrow> byte list \<Rightarrow> nat \<Rightarrow> rwlock \<Rightarrow> (err + Enclave) outcome \<Rightarrow> nat set \<Rightarrow> world \<Rightarrow> bool" where
  "made E m b h r M t \<longleftrightarrow> (\<exists>e. r = Ret (Inr e) \<and> M = {b} \<and> sealed E t e m \<and> locks t (BufLock b) = h)"

lemma made_rely: "mt.rely E L M s t \<Longrightarrow> made E m b h r M s \<Longrightarrow> made E m b h r M t"
  using rely_D(3) sealed_calm [OF rely_calm] by (fastforce simp: made_def)

lemma made_done: "sealed E s e m \<Longrightarrow> locks s (BufLock b) = h \<Longrightarrow> mt.safe E L (made E m b h) (Done (Ret (Inr e))) {b} s"
  by (rule mt.safe_done [OF _ made_rely]) (simp_all add: made_def)

definition source :: "world \<Rightarrow> byte list \<Rightarrow> nat \<Rightarrow> rwlock \<Rightarrow> bool" where
  "source s m b h \<longleftrightarrow> contents (mem s) (data (bufs s b)) = m \<and> slen (data (bufs s b)) = length m \<and> mutable (bufs s b) \<and>
     locks s (BufLock b) = h"

lemma source_rely: "mt.rely E L M s t \<Longrightarrow> mt.valid E L M s \<Longrightarrow> b \<in> M \<Longrightarrow> source s m b h \<Longrightarrow> source t m b h"
  using rely_contents rely_D(2,3) by (simp add: source_def)

lemma wipe_safe:
  assumes "mt.valid E L {b} s" and "mutable (bufs s b)" and "sealed E s e m" and "locks s (BufLock b) = h"
  shows "mt.safe E L (made E m b h) (tbind (atom (Wipe (data (bufs s b)))) (\<lambda>_. Done (Ret (Inr e)))) {b} s"
proof (rule lift_then)
  fix t assume t: "mt.rely E L {b} s t"
  note v = mt.rely_valid [OF t]
  let ?t = "bare t" and ?d = "data (bufs s b)"
  have same: "bufs t b = bufs s b" using rely_D(2) [OF t] by simp
  have w: "writable (mem ?t) ?d"
    using guarded_data(2) [OF valid_D(6) [OF v insertI1]] assms(2) same by simp
  define u where "u = ?t\<lparr>mem := put (mem ?t) ?d (replicate (slen ?d) 0)\<rparr>"
  have run: "Wipe ?d ?t = (Ret (), u)" unfolding u_def by (rule Wipe_run [OF w])
  have "kt.guar E {b} {b} ?t u"
    unfolding u_def by (rule put_guar(1) [OF mt_kt [OF v] insertI1, of "replicate (slen ?d) 0"]) (use same gc_step_refl in simp_all)
  moreover from this have c: "calm E t u" by (simp add: kt.guar_def)
  have "mt.safe E L (made E m b h) (Done (Ret (Inr e))) {b} (relock t u)"
    by (rule made_done) (use sealed_calm [OF c sealed_calm [OF rely_calm [OF t] assms(3)]] rely_D(3) [OF t] assms(4) in simp_all)
  moreover have "quiet t (Wipe ?d)" by (rule quiet_oblivious) (intro obliviousI)
  ultimately show "\<exists>x u M'. Wipe ?d ?t = (Ret x, u) \<and> quiet t (Wipe ?d) \<and> kt.guar E {b} M' ?t u \<and> (\<forall>c \<in> {b} - M'. idle t c) \<and>
      mt.safe E L (made E m b h) (Done (Ret (Inr e))) M' (relock t u)"
    using run by (intro exI [of _ "()"] exI [of _ u] exI [of _ "{b}"]) simp
qed

lemma drop_view_safe:
  assumes "mt.valid E L {k, b} s" and "b \<noteq> k" and "mutable (bufs s b)" and "sealed E s e m" and "locks s (BufLock b) = h" and "idle s k"
  shows "mt.safe E L (made E m b h) (tbind (atom (Destroy E k)) (\<lambda>_. tbind (atom (Wipe (data (bufs s b)))) (\<lambda>_. Done (Ret (Inr e))))) {k, b} s"
proof (rule lift_then)
  fix t assume t: "mt.rely E L {k, b} s t"
  note v = mt.rely_valid [OF t]
  have i: "idle t k" "locks t (BufLock b) = h" "bufs t b = bufs s b" using rely_D(2,3) [OF t] assms(5,6) by simp_all
  let ?u = "removed_state k (bare t)"
  have M: "{k, b} - {k} = {b}" using assms(2) by auto
  note d = Destroy_lifts [OF v insertI1 i(1), unfolded M]
  have c: "calm E t ?u" using d(3) by (simp add: kt.guar_def)
  have o: "bufs ?u b = bufs s b" using i(3) assms(2) by (simp add: removed_state_def destroyed_state_def)
  have "mt.valid E L {b} (relock t ?u)" by (rule mt.guar_valid [OF lift_guar [OF v d(3)]]) (use i in auto)
  then have "mt.safe E L (made E m b h) (tbind (atom (Wipe (data (bufs s b)))) (\<lambda>_. Done (Ret (Inr e)))) {b} (relock t ?u)"
    using wipe_safe [of E L b "relock t ?u" e m h] o assms(3) i(2) sealed_calm [OF c sealed_calm [OF rely_calm [OF t] assms(4)]] by simp
  with d(1-3) i show "\<exists>x u M'. Destroy E k (bare t) = (Ret x, u) \<and> quiet t (Destroy E k) \<and> kt.guar E {k, b} M' (bare t) u \<and>
      (\<forall>c \<in> {k, b} - M'. idle t c) \<and> mt.safe E L (made E m b h) (tbind (atom (Wipe (data (bufs s b)))) (\<lambda>_. Done (Ret (Inr e)))) M' (relock t u)"
    by (intro exI [of _ "()"] exI [of _ ?u] exI [of _ "{b}"]) auto
qed

lemma encrypt_safe:
  assumes "mt.valid E L {k, b} s" and "b \<noteq> k" and "source s m b h" and "viewed E s k" and "int (length m) + Overhead E \<le> 2 ^ 62"
  shows "mt.safe E L (made E m b h) (tbind (atom (Encrypt E (data (bufs s b)) (data (bufs s k)))) (\<lambda>r. case r of
      Inl e \<Rightarrow> atom (Panic E (PErr e))
    | Inr c \<Rightarrow> tbind (atom (Destroy E k)) (\<lambda>_. tbind (atom (Wipe (data (bufs s b)))) (\<lambda>_. Done (Ret (Inr \<lparr>ciphertext = c\<rparr>)))))) {k, b} s"
proof (rule lift_then)
  fix t assume t: "mt.rely E L {k, b} s t"
  note v = mt.rely_valid [OF t]
  have bk: "b \<in> {k, b}" "k \<in> {k, b}" by simp_all
  let ?t = "bare t" and ?d = "data (bufs s b)"
  note vb = kvalid_D [OF mt_kt [OF v] bk(1)] and vk = kvalid_D [OF mt_kt [OF v] bk(2)]
  have same: "bufs ?t b = bufs s b" "bufs ?t k = bufs s k" using rely_D(2) [OF t] by simp_all
  have S: "source t m b h" by (rule source_rely [OF t assms(1) bk(1) assms(3)])
  have kt: "viewed E t k" by (rule viewed_rely [OF t assms(1) bk(2) assms(4)])
  then have K: "viewed E ?t k" by (simp add: viewed_def)
  note gd = guarded_data [OF vb(5)]
  obtain c u where u: "Encrypt E (data (bufs ?t b)) (data (bufs ?t k)) ?t = (Ret (Inr c), u)" "gc_step ?t u" "sealed E u \<lparr>ciphertext = c\<rparr> m"
    by (rule Encrypt_sealed [OF vb(1) old_data [OF keyed_D(2) [OF vb(1)] vb(3)] gd(1) vk(3) K])
      (use S gd(5) assms(5) same in \<open>simp_all add: source_def\<close>)
  note g = gc_guar [OF mt_kt [OF v] u(2)]
  have o: "bufs u = bufs ?t" using u(2) by (simp add: gc_step_def same_objs_def)
  have "mt.safe E L (made E m b h) (tbind (atom (Destroy E k)) (\<lambda>_. tbind (atom (Wipe (data (bufs (relock t u) b)))) (\<lambda>_. Done (Ret (Inr \<lparr>ciphertext = c\<rparr>))))) {k, b} (relock t u)"
    by (rule drop_view_safe [OF mt.guar_valid [OF lift_guar [OF v g(1)]] assms(2)]) (use S kt o u(3) in \<open>simp_all add: source_def viewed_def\<close>)
  moreover have "quiet t (Encrypt E ?d (data (bufs s k)))" by (rule quiet_Encrypt [OF vb(1)])
  ultimately show "\<exists>x u M'. Encrypt E ?d (data (bufs s k)) ?t = (Ret x, u) \<and> quiet t (Encrypt E ?d (data (bufs s k))) \<and> kt.guar E {k, b} M' ?t u \<and>
      (\<forall>c \<in> {k, b} - M'. idle t c) \<and> mt.safe E L (made E m b h) (case x of
      Inl e \<Rightarrow> atom (Panic E (PErr e))
    | Inr c \<Rightarrow> tbind (atom (Destroy E k)) (\<lambda>_. tbind (atom (Wipe ?d)) (\<lambda>_. Done (Ret (Inr \<lparr>ciphertext = c\<rparr>))))) M' (relock t u)"
    using u(1) g(1) same o by (intro exI [of _ "Inr c"] exI [of _ u] exI [of _ "{k, b}"]) simp
qed

lemma NewEnclave_thread_safe:
  assumes "mt.valid E L {b} s" and "source s m b h" and "int (length m) + Overhead E \<le> 2 ^ 62"
  shows "mt.safe E L (made E m b h) (NewEnclave_thread E (data (bufs s b))) {b} s"
proof -
  have "0 < slen (data (bufs s b))" using guarded_data(5) [OF valid_D(6) [OF assms(1) insertI1]] .
  then show ?thesis
    unfolding NewEnclave_thread_def
  proof (simp only: less_one neq0_conv [symmetric] if_False, intro key_then view_then, unfold NewEnclave_with_key_def sum.case)
    fix t k w
    assume t: "mt.rely E L {b} s t" and w: "mt.valid E L {k, b} w" and k: "k \<notin> {b}" and K: "viewed E w k"
      and c: "calm E t w" and kp: "\<And>c. c \<in> {b} \<Longrightarrow> kept t w c"
    have bk: "b \<noteq> k" using k by auto
    have "source t m b h" by (rule source_rely [OF t assms(1) insertI1 assms(2)])
    moreover have kb: "keep t w b" "locks w (BufLock b) = locks t (BufLock b)" "bufs w b = bufs s b"
      using kp [OF insertI1] rely_D(2) [OF t insertI1] by (simp_all add: kept_def keep_def)
    moreover have "contents (mem w) (data (bufs w b)) = contents (mem t) (data (bufs t b))"
      using kept_data(1) [of "bare t" w b] kb(1) keyed_D(2) [OF valid_D(1) [OF mt.rely_valid [OF t]]] valid_D(4) [OF mt.rely_valid [OF t] insertI1] by simp
    ultimately have S: "source w m b h" using rely_D(2) [OF t insertI1] by (simp add: source_def)
    show "mt.safe E L (made E m b h) (tbind (atom (Data k)) (\<lambda>kd. tbind (atom (Encrypt E (data (bufs s b)) kd)) (\<lambda>r. case r of
        Inl e \<Rightarrow> atom (Panic E (PErr e))
      | Inr c \<Rightarrow> tbind (atom (Destroy E k)) (\<lambda>_. tbind (atom (Wipe (data (bufs s b)))) (\<lambda>_. Done (Ret (Inr \<lparr>ciphertext = c\<rparr>))))))) {k, b} w"
    proof (rule mt.safe_read [where v = "data (bufs w k)"])
      show "Data k x = (Ret (data (bufs w k)), x)" if "mt.rely E L {k, b} w x" for x using rely_D(2) [OF that] by simp
    qed (rule encrypt_safe [OF w bk S K assms(3), unfolded kb(3)])
  qed
qed

subsection \<open>Facts: Seal while others run\<close>

lemma source_lock: "source (set_rw (BufLock b) x s) m b x \<longleftrightarrow> source s m b (locks s (BufLock b))"
  by (auto simp: source_def set_rw_def)

lemma unlock_safe:
  assumes "mt.valid E True {b} s" and "sealed E s e m" and "locks s (BufLock b) = RLocked 1"
  shows "mt.safe E True (made E m b Unlocked) (tbind (atom (modify (release (BufLock b)))) (\<lambda>_. Done (Ret (Inr e)))) {b} s"
proof (rule mt.safe_then)
  fix t assume t: "mt.rely E True {b} s t"
  let ?u = "set_rw (BufLock b) Unlocked t"
  have "locks t (BufLock b) = RLocked 1" using rely_D(3) [OF t] assms(3) by simp
  then have run: "modify (release (BufLock b)) t = (Ret (), ?u)" by (simp add: release_def exec)
  have "sealed E ?u e m" using sealed_calm [OF rely_calm [OF t] assms(2)] by (simp add: set_rw_def)
  then have "mt.safe E True (made E m b Unlocked) (Done (Ret (Inr e))) {b} ?u" by (rule made_done) (simp add: set_rw_def)
  with run lock_guar [OF mt.rely_valid [OF t] insertI1]
  show "\<exists>v u M'. modify (release (BufLock b)) t = (Ret v, u) \<and> mt.guar E True {b} M' t u \<and>
      mt.safe E True (made E m b Unlocked) (Done (Ret (Inr e))) M' u" by blast
qed

lemma closure_safe:
  assumes "mt.valid E True {b} s" and "source s m b Unlocked" and "int (length m) + Overhead E \<le> 2 ^ 62"
  shows "mt.safe E True (made E m b Unlocked) (twith_rlock (BufLock b) (tbind (atom (Data b)) (NewEnclave_thread E))) {b} s"
  unfolding twith_rlock_def
proof (rule mt.safe_then)
  fix t assume t: "mt.rely E True {b} s t"
  let ?u = "set_rw (BufLock b) (RLocked 1) t"
  have S: "source t m b Unlocked" by (rule source_rely [OF t assms(1) insertI1 assms(2)])
  then have run: "RLock (BufLock b) t = (Ret (), ?u)" by (simp add: RLock_def source_def)
  note g = lock_guar [OF mt.rely_valid [OF t] insertI1, of "RLocked 1"]
  have Su: "source ?u m b (RLocked 1)" using S by (simp add: source_lock) (simp add: source_def)
  have "mt.safe E True (made E m b (RLocked 1)) (tbind (atom (Data b)) (NewEnclave_thread E)) {b} ?u"
  proof (rule mt.safe_read [where v = "data (bufs ?u b)"])
    show "Data b v = (Ret (data (bufs ?u b)), v)" if "mt.rely E True {b} ?u v" for v using rely_D(2) [OF that] by simp
  qed (rule NewEnclave_thread_safe [OF mt.guar_valid [OF g] Su assms(3)])
  then have "mt.safe E True (made E m b Unlocked) (tfinally (atom (modify (release (BufLock b)))) (tbind (atom (Data b)) (NewEnclave_thread E))) {b} ?u"
  proof (rule mt.safe_finally [OF _ mt.guar_valid [OF g]])
    fix r M v assume v: "mt.valid E True M v" and "made E m b (RLocked 1) r M v"
    then obtain e where "r = Ret (Inr e)" "M = {b}" "sealed E v e m" "locks v (BufLock b) = RLocked 1" by (auto simp: made_def)
    with v show "mt.safe E True (made E m b Unlocked) (at_end r (atom (modify (release (BufLock b))))) M v" by (simp add: unlock_safe)
  qed
  with run g show "\<exists>v u M'. RLock (BufLock b) t = (Ret v, u) \<and> mt.guar E True {b} M' t u \<and>
      mt.safe E True (made E m b Unlocked) (tfinally (atom (modify (release (BufLock b)))) (tbind (atom (Data b)) (NewEnclave_thread E))) M' u" by blast
qed

text \<open>The result of \<^verbatim>\<open>Seal\<close>: an enclave, and no buffer.\<close>

definition stored :: "env \<Rightarrow> byte list \<Rightarrow> (err + Enclave) outcome \<Rightarrow> nat set \<Rightarrow> world \<Rightarrow> bool" where
  "stored E m r M t \<longleftrightarrow> (\<exists>e. r = Ret (Inr e) \<and> M = {} \<and> sealed E t e m)"

lemma stored_done: "sealed E s e m \<Longrightarrow> mt.safe E L (stored E m) (Done (Ret (Inr e))) {} s"
  by (rule mt.safe_done) (auto simp: stored_def intro: sealed_calm rely_calm)

lemma give_up_safe:
  assumes "sealed E s e m" and "idle s b"
  shows "mt.safe E L (stored E m) (tbind (atom (Destroy E b)) (\<lambda>_. Done (Ret (Inr e)))) {b} s"
proof (rule lift_then)
  fix t assume t: "mt.rely E L {b} s t"
  have i: "idle t b" using rely_D(3) [OF t] assms(2) by simp
  note d = Destroy_lifts [OF mt.rely_valid [OF t] insertI1 i]
  let ?u = "removed_state b (bare t)"
  have "calm E t ?u" using d(3) by (simp add: kt.guar_def)
  then have "sealed E (relock t ?u) e m" using sealed_calm [OF _ sealed_calm [OF rely_calm [OF t] assms(1)]] by simp
  then show "\<exists>x u M'. Destroy E b (bare t) = (Ret x, u) \<and> quiet t (Destroy E b) \<and> kt.guar E {b} M' (bare t) u \<and>
      (\<forall>c \<in> {b} - M'. idle t c) \<and> mt.safe E L (stored E m) (Done (Ret (Inr e))) M' (relock t u)"
    using d(1-3) i by (intro exI [of _ "()"] exI [of _ ?u] exI [of _ "{}"]) (simp add: stored_done)
qed

lemma Seal_thread_safe:
  assumes "mt.valid E True {b} s" and "contents (mem s) (data (bufs s b)) = m" and "slen (data (bufs s b)) = length m"
    and "idle s b" and "int (length m) + Overhead E \<le> 2 ^ 62"
  shows "mt.safe E True (stored E m) (Seal_thread E b) {b} s"
  unfolding Seal_thread_def
proof (rule mt.safe_read [where v = True], unfold not_True_eq_False if_False)
  show "Alive b t = (Ret True, t)" if t: "mt.rely E True {b} s t" for t
  proof -
    have "alive (bufs t b)" "idle t b"
      using guarded_mapped(2) [OF valid_D(6) [OF mt.rely_valid [OF t] insertI1]] rely_D(3) [OF t] assms(4) by simp_all
    then show ?thesis
      unfolding Alive_def by (intro with_rlock_free) (auto simp: get_buf_def bind_def exec intro!: obliviousI)
  qed
  show "mt.safe E True (stored E m) (tbind (atom (Melt E b)) (\<lambda>_. tbind (twith_rlock (BufLock b) (tbind (atom (Data b)) (NewEnclave_thread E)))
      (\<lambda>r. case r of Inl e \<Rightarrow> Done (Ret (Inl e)) | Inr e \<Rightarrow> tbind (atom (Destroy E b)) (\<lambda>_. Done (Ret (Inr e)))))) {b} s"
  proof (rule lift_then)
    fix t assume t: "mt.rely E True {b} s t"
    note v = mt.rely_valid [OF t]
    note g = melt_guar [OF mt_kt [OF v] insertI1]
    have i: "idle t b" using rely_D(3) [OF t] assms(4) by simp
    let ?u = "relock t (melted_state b (bare t))"
    have S: "source ?u m b Unlocked"
      using g(3-5) i rely_contents [OF t assms(1)] rely_D(2) [OF t] assms(2,3) by (simp add: source_def)
    have vu: "mt.valid E True {b} ?u" by (rule mt.guar_valid [OF lift_guar [OF v g(2)]]) simp
    have "mt.safe E True (stored E m) (tbind (twith_rlock (BufLock b) (tbind (atom (Data b)) (NewEnclave_thread E)))
      (\<lambda>r. case r of Inl e \<Rightarrow> Done (Ret (Inl e)) | Inr e \<Rightarrow> tbind (atom (Destroy E b)) (\<lambda>_. Done (Ret (Inr e))))) {b} ?u"
    proof (rule mt.safe_bind [OF closure_safe [OF vu S assms(5)] vu])
      fix r M w assume "made E m b Unlocked r M w"
      then obtain e where "r = Ret (Inr e)" "M = {b}" "sealed E w e m" "idle w b" by (auto simp: made_def)
      then show "mt.safe E True (stored E m) (go_on r (\<lambda>r. case r of Inl e \<Rightarrow> Done (Ret (Inl e)) | Inr e \<Rightarrow>
          tbind (atom (Destroy E b)) (\<lambda>_. Done (Ret (Inr e))))) M w" by (simp add: give_up_safe)
    qed
    then show "\<exists>x u M'. Melt E b (bare t) = (Ret x, u) \<and> quiet t (Melt E b) \<and> kt.guar E {b} M' (bare t) u \<and> (\<forall>c \<in> {b} - M'. idle t c) \<and>
        mt.safe E True (stored E m) (tbind (twith_rlock (BufLock b) (tbind (atom (Data b)) (NewEnclave_thread E)))
        (\<lambda>r. case r of Inl e \<Rightarrow> Done (Ret (Inl e)) | Inr e \<Rightarrow> tbind (atom (Destroy E b)) (\<lambda>_. Done (Ret (Inr e))))) M' (relock t u)"
      using g(1,2) quiet_protect(2) [OF valid_D(1) [OF v] i]
      by (intro exI [of _ "()"] exI [of _ "melted_state b (bare t)"] exI [of _ "{b}"]) simp
  qed
qed

lemma LockedBuffer_Seal_thread_safe:
  assumes "mt.valid E True {b} s" and "contents (mem s) (data (bufs s b)) = m" and "slen (data (bufs s b)) = length m"
    and "idle s b" and "int (length m) + Overhead E \<le> 2 ^ 62"
  shows "mt.safe E True (\<lambda>r M t. \<exists>e. r = Ret (Some e) \<and> M = {} \<and> sealed E t e m) (LockedBuffer_Seal_thread E b) {b} s"
  unfolding LockedBuffer_Seal_thread_def
proof (rule mt.safe_bind [OF Seal_thread_safe [OF assms] assms(1)])
  fix r M t assume "stored E m r M t"
  then obtain e where e: "r = Ret (Inr e)" "M = {}" "sealed E t e m" by (auto simp: stored_def)
  have "mt.safe E True (\<lambda>r M t. \<exists>e. r = Ret (Some e) \<and> M = {} \<and> sealed E t e m) (Done (Ret (Some e))) {} t"
    by (rule mt.safe_done) (use e(3) in \<open>auto intro: sealed_calm rely_calm\<close>)
  then show "mt.safe E True (\<lambda>r M t. \<exists>e. r = Ret (Some e) \<and> M = {} \<and> sealed E t e m) (go_on r (\<lambda>r. case r of
      Inl e \<Rightarrow> if e = ErrBufferExpired then Done (Ret None) else atom (Panic E (PErr e)) | Inr e \<Rightarrow> Done (Ret (Some e)))) M t"
    by (simp add: e)
qed

subsection \<open>Goroutines that seal and open\<close>

text \<open>\<^verbatim>\<open>e := b.Seal(); e.Open()\<close>\<close>

definition seal_open_thread :: "env \<Rightarrow> nat \<Rightarrow> (world, err + nat) thread" where
  "seal_open_thread E b =
     tbind (LockedBuffer_Seal_thread E b) (\<lambda>e.
     case e of
       None \<Rightarrow> Done (Panicked (PRuntime ''invalid memory address or nil pointer dereference''))
     | Some e \<Rightarrow> Enclave_Open_thread E e)"

lemma seal_open_safe:
  assumes "mt.valid E True {b} s" and "contents (mem s) (data (bufs s b)) = m" and "slen (data (bufs s b)) = length m"
    and "idle s b" and "int (length m) + Overhead E \<le> 2 ^ 62"
  shows "mt.safe E True (opened E m) (seal_open_thread E b) {b} s"
  unfolding seal_open_thread_def
proof (rule mt.safe_bind [OF LockedBuffer_Seal_thread_safe [OF assms] assms(1)])
  fix r :: "Enclave option outcome" and M t assume v: "mt.valid E True M t" and "\<exists>e. r = Ret (Some e) \<and> M = {} \<and> sealed E t e m"
  then obtain e where "r = Ret (Some e)" "M = {}" "sealed E t e m" by blast
  with v show "mt.safe E True (opened E m) (go_on r (\<lambda>e. case e of
      None \<Rightarrow> Done (Panicked (PRuntime ''invalid memory address or nil pointer dereference'')) | Some e \<Rightarrow> Enclave_Open_thread E e)) M t"
    by (simp add: Enclave_Open_thread_safe)
qed

definition bytes_of :: "world \<Rightarrow> nat \<Rightarrow> byte list" where
  "bytes_of s b = contents (mem s) (data (bufs s b))"

lemma seal_open_pool:
  assumes "keyed E s" and "distinct bs" and "\<forall>b \<in> set bs. own s b \<and> int (slen (data (bufs s b))) + Overhead E \<le> 2 ^ 62"
  defines "P \<equiv> \<lambda>i. opened E (bytes_of s (bs ! i))"
  shows "mt.pool E True P {b. own s b \<and> b \<notin> set bs} s (map (seal_open_thread E) bs) s"
proof (rule mt.pool_init [where M = "\<lambda>i. {bs ! i}"])
  have sh: "shared E True s" by (rule keyed_shared [OF assms(1)])
  show "shared E True s" by (rule sh)
  fix i assume i: "i < length (map (seal_open_thread E) bs)"
  then have b: "bs ! i \<in> set bs" "own s (bs ! i)" "int (slen (data (bufs s (bs ! i)))) + Overhead E \<le> 2 ^ 62" using assms(3) by simp_all
  have v: "mt.valid E True {bs ! i} s" using sh b(2) by (simp add: mt.valid_def)
  have len: "slen (data (bufs s (bs ! i))) = length (bytes_of s (bs ! i))"
    using guarded_data(7) [OF valid_D(6) [OF v insertI1]] by (simp add: bytes_of_def)
  have "mt.safe E True (P i) (seal_open_thread E (bs ! i)) {bs ! i} s"
    unfolding P_def by (rule seal_open_safe [OF v _ len]) (use b len keyed_D(7) [OF assms(1)] in \<open>simp_all add: bytes_of_def\<close>)
  then show "mt.safe E True (P i) (map (seal_open_thread E) bs ! i) {bs ! i} s \<and> {bs ! i} \<inter> {b. own s b \<and> b \<notin> set bs} = {}"
    using i b(1) by simp
next
  show "{bs ! i} \<inter> {bs ! j} = {}" if "i < length (map (seal_open_thread E) bs)" "j < length (map (seal_open_thread E) bs)" "i \<noteq> j" for i j
    using that assms(2) by (simp add: nth_eq_iff_index_eq)
  show "own s c \<longleftrightarrow> c \<in> {b. own s b \<and> b \<notin> set bs} \<or> (\<exists>i < length (map (seal_open_thread E) bs). c \<in> {bs ! i})" for c
  proof -
    have "c \<in> set bs \<longleftrightarrow> (\<exists>i < length bs. c = bs ! i)" by (auto simp: in_set_conv_nth)
    then show ?thesis using assms(3) by auto
  qed
qed

lemma pool_schedule:
  assumes "(sched (\<lambda>s t. key_tick E s = (Ret (), t)) {})\<^sup>*\<^sup>* (ths, s) (ths', t)" and "mt.pool E L P H s0 ths s"
  shows "mt.pool E L P H s0 ths' t" and "length ths' = length ths"
proof -
  have "mt.pool E L P H s0 ths' t \<and> length ths' = length ths"
    using assms
  proof (induction rule: rtranclp_induct2)
    case refl
    then show ?case by simp
  next
    case (step u s1 v s2)
    have "length v = length u" using step(2) by cases auto
    then show ?case using step(3) [OF step(4)] mt.pool_sched [OF step(2)] by auto
  qed
  then show "mt.pool E L P H s0 ths' t" "length ths' = length ths" by simp_all
qed

text \<open>When all have ended, no lock is held.\<close>

lemma opened_keyed:
  assumes p: "mt.pool E True P H s ths t" and "keyed E s" and P: "\<And>i r M u. P i r M u \<Longrightarrow> \<forall>b \<in> M. idle u b"
    and fin: "\<And>i. i < length ths \<Longrightarrow> \<exists>r. ths ! i = Done r"
  shows "keyed E t"
proof -
  have H: "mt.rely E True H s t" using p by (simp add: mt.pool_def)
  have sh: "shared E True t" using mt.rely_valid [OF H] by (simp add: mt.valid_def)
  have "idle t c" if "own t c" for c
    using mt.pool_end [OF p fin that] P rely_D(3) [OF H, of c] keyed_D(7) [OF assms(2)] by auto
  then have "locks t l = Unlocked" for l using sh by (rule_tac ccontr) (auto simp: shared_def)
  then have "shared E False t" using sh by (simp add: shared_def)
  then show ?thesis by (rule shared_keyed)
qed

lemma Seal_Open_run:
  assumes "keyed E s" and "distinct bs" and "\<forall>b \<in> set bs. own s b \<and> int (slen (data (bufs s b))) + Overhead E \<le> 2 ^ 62"
    and run: "(sched (\<lambda>s t. key_tick E s = (Ret (), t)) {})\<^sup>*\<^sup>* (map (seal_open_thread E) bs, s) (ths, t)"
  shows "length ths = length bs \<and>
     (\<forall>i < length bs. \<exists>b u. run_thread (ths ! i) t = (Ret (Inr b), u) \<and> bytes_of u b = bytes_of s (bs ! i)) \<and>
     (\<forall>i < length bs. \<forall>r. ths ! i = Done r \<longrightarrow> (\<exists>b. r = Ret (Inr b) \<and> bytes_of t b = bytes_of s (bs ! i))) \<and>
     (\<forall>b. own s b \<and> b \<notin> set bs \<longrightarrow> own t b \<and> keep s t b) \<and>
     ((\<forall>i < length bs. \<exists>r. ths ! i = Done r) \<longrightarrow> keyed E t)"
proof -
  note p = pool_schedule [OF run seal_open_pool [OF assms(1-3)]]
  have len: "length ths = length bs" using p(2) by simp
  have r: "mt.rely E True {b. own s b \<and> b \<notin> set bs} s t" using p(1) by (simp add: mt.pool_def)
  show ?thesis
  proof (intro conjI allI impI)
    show "length ths = length bs" by (rule len)
    fix i assume i: "i < length bs"
    show "\<exists>b u. run_thread (ths ! i) t = (Ret (Inr b), u) \<and> bytes_of u b = bytes_of s (bs ! i)"
      by (rule mt.pool_thread [OF p(1), of i]) (use i len in \<open>auto simp: opened_def bytes_of_def\<close>)
    fix q assume "ths ! i = Done q"
    with mt.pool_done [OF p(1), of i] i len show "\<exists>b. q = Ret (Inr b) \<and> bytes_of t b = bytes_of s (bs ! i)"
      by (auto simp: opened_def bytes_of_def)
  next
    fix b assume "own s b \<and> b \<notin> set bs"
    then show "own t b" "keep s t b" using r by (simp_all add: mt.rely_def mt.valid_def kept_def)
  next
    assume "\<forall>i < length bs. \<exists>r. ths ! i = Done r"
    then show "keyed E t" by (intro opened_keyed [OF p(1) assms(1)]) (auto simp: opened_def len)
  qed
qed



subsection \<open>The properties\<close>

text \<open>
  C5. Goroutines that each seal a buffer of their own and open the enclave, whatever the schedule, the re-key goroutine
  included: none ever panics or waits for ever, and each ends with a buffer that has the bytes it sealed. Every one can be
  run to its end from where it is, although others may hold the read locks of their buffers. The buffers of nobody are
  untouched, and when all have ended no lock is held and the session is intact.
\<close>

theorem Seal_Open_schedules:
  assumes "keyed E s" and "distinct bs" and "\<forall>b \<in> set bs. own s b \<and> int (slen (data (bufs s b))) + Overhead E \<le> 2 ^ 62"
    and "(sched (\<lambda>s t. key_tick E s = (Ret (), t)) {})\<^sup>*\<^sup>* (map (seal_open_thread E) bs, s) (ths, t)"
  shows "length ths = length bs \<and>
     (\<forall>i < length bs. \<exists>b u. run_thread (ths ! i) t = (Ret (Inr b), u) \<and> bytes_of u b = bytes_of s (bs ! i)) \<and>
     (\<forall>i < length bs. \<forall>r. ths ! i = Done r \<longrightarrow> (\<exists>b. r = Ret (Inr b) \<and> bytes_of t b = bytes_of s (bs ! i))) \<and>
     (\<forall>b. own s b \<and> b \<notin> set bs \<longrightarrow> own t b \<and> keep s t b) \<and>
     ((\<forall>i < length bs. \<exists>r. ths ! i = Done r) \<longrightarrow> keyed E t)"
  by (rule Seal_Open_run [OF assms])

text \<open>Two goroutines; the first has sealed its buffer and not yet opened it.\<close>

definition w_hello :: world where
  "w_hello = w_key\<lparr>mem := put (mem w_key) (data (bufs w_key 0)) [1, 2, 3, 4, 5]\<rparr>"

lemma w_hello_facts:
  shows "keyed simE w_hello" and "own w_hello 0" and "contents (mem w_hello) (data (bufs w_hello 0)) = [1, 2, 3, 4, 5]"
    and "slen (data (bufs w_hello 0)) = 5"
proof -
  have len: "length [1, 2, 3, 4, 5 :: byte] = slen (data (bufs w_key 0))" using w_key_data(2) w_buf_sane(8) by simp
  note w = own_write [OF w_key_facts(2,6) len, folded w_hello_def]
  show "keyed simE w_hello" "contents (mem w_hello) (data (bufs w_hello 0)) = [1, 2, 3, 4, 5]" by (fact w(1,3))+
  show "own w_hello 0" using w_key_facts(6) by (simp add: own_def refs_def w_hello_def)
  show "slen (data (bufs w_hello 0)) = 5" using len by (simp add: w_hello_def)
qed

definition w_two :: world where
  "w_two = newbuf_state simE 2 w_hello"

lemma w_two_facts:
  shows "keyed simE w_two" and "own w_two 0" and "own w_two (nbufs w_hello)" and "nbufs w_hello \<noteq> 0"
    and "bytes_of w_two 0 = [1, 2, 3, 4, 5]" and "bytes_of w_two (nbufs w_hello) = [0, 0]"
    and "slen (data (bufs w_two 0)) = 5" and "slen (data (bufs w_two (nbufs w_hello))) = 2"
proof -
  note n = work_new [OF w_hello_facts(1), of 2, folded w_two_def]
  have n2: "work simE w_hello w_two (nbufs w_hello)" by (rule n) simp_all
  note w = work_D [OF n2]
  have h: "0 \<in> set (blist w_hello)" using w_hello_facts(2) by (simp add: own_def)
  show "keyed simE w_two" "own w_two (nbufs w_hello)" by (fact w(2,9))+
  show "nbufs w_hello \<noteq> 0" using session_D(3) [OF keyed_D(2) [OF w_hello_facts(1)] h] by simp
  have k: "keep w_hello w_two 0" by (rule extends_D(1) [OF w(3) h])
  show "own w_two 0" using w_hello_facts(2) w(5,13) by (simp add: own_def)
  show "bytes_of w_two 0 = [1, 2, 3, 4, 5]"
    using kept_data(1) [OF k keyed_D(2) [OF w_hello_facts(1)] h] w_hello_facts(3) by (simp add: bytes_of_def)
  show "slen (data (bufs w_two 0)) = 5" using k w_hello_facts(4) by (simp add: keep_def)
  show "bytes_of w_two (nbufs w_hello) = [0, 0]" "slen (data (bufs w_two (nbufs w_hello))) = 2"
    using n(4,5) by (simp_all add: bytes_of_def eval_nat_numeral)
qed

theorem Seal_Open_schedules_witness:
  "\<exists>e t b u. (sched (\<lambda>s t. key_tick simE s = (Ret (), t)) {})\<^sup>*\<^sup>* (map (seal_open_thread simE) [0, nbufs w_hello], w_two)
       ([Enclave_Open_thread simE e, seal_open_thread simE (nbufs w_hello)], t) \<and>
     run_thread (Enclave_Open_thread simE e) t = (Ret (Inr b), u) \<and> bytes_of u b = [1, 2, 3, 4, 5]"
proof -
  let ?bs = "[0, nbufs w_hello]" and ?open = "\<lambda>e. case e of
      None \<Rightarrow> Done (Panicked (PRuntime ''invalid memory address or nil pointer dereference'')) | Some e \<Rightarrow> Enclave_Open_thread simE e"
  note w = w_two_facts
  have all: "\<forall>b \<in> set ?bs. own w_two b \<and> int (slen (data (bufs w_two b))) + Overhead simE \<le> 2 ^ 62"
    using w(2,3,7,8) by (simp add: Overhead_def simE_def)
  note k = keyed_D [OF w(1)]
  have b: "0 \<in> set (blist w_two)" "0 \<notin> refs w_two (key w_two)" using w(2) by (simp_all add: own_def)
  obtain t e where t: "Seal simE 0 w_two = (Ret (Inr e), t)" by (rule Seal_run [OF k(1,2) b clean_D [OF k(3) b(1)]]) (rule that)
  then have "run_thread (LockedBuffer_Seal_thread simE 0) w_two = (Ret (Some e), t)"
    by (simp add: LockedBuffer_Seal_thread_alone LockedBuffer_Seal_def bind_def exec)
  from sched_first [OF _ _ this, of 0 "map (seal_open_thread simE) ?bs" ?open]
  have run: "(sched (\<lambda>s t. key_tick simE s = (Ret (), t)) {})\<^sup>*\<^sup>* (map (seal_open_thread simE) ?bs, w_two) ([Enclave_Open_thread simE e, seal_open_thread simE (nbufs w_hello)], t)"
    by (simp add: seal_open_thread_def)
  have "distinct ?bs" using w(4) by simp
  from Seal_Open_schedules [OF w(1) this all run, THEN conjunct2, THEN conjunct1, rule_format, of 0]
  obtain b u where "run_thread (Enclave_Open_thread simE e) t = (Ret (Inr b), u)" "bytes_of u b = [1, 2, 3, 4, 5]"
    unfolding nth_Cons_0 w(5) by (auto simp only: list.size)
  with run show ?thesis by blast
qed



end
