(* ===== verification/Races.thy ===== *)
theory Races
  imports Sealing
begin

text \<open>
  Races of the package: a goroutine that opens an enclave while another one purges the session, and one that seals a buffer
  while another one seals, destroys or freezes the same buffer.
\<close>

lemma Panic_ok:
  assumes "env_works E" and "session E s" and "\<forall>b \<in> set (blist s). canary_ok s b"
  shows "Panic E v s = (Panicked v, purged s)"
  using Purge_run_ok [OF env_works_D(1,2) [OF assms(1)] session_D(4,1) [OF assms(2)] assms(3)] by (simp add: Panic_def bind_def exec)

text \<open>What is left of \<^verbatim>\<open>Enclave.Open\<close> after the buffer is made, and after the key is read.\<close>

definition Open_end :: "env \<Rightarrow> err + nat \<Rightarrow> (world, err + nat) thread" where
  "Open_end E r =
     (case r of
        Inl err \<Rightarrow> if err \<noteq> ErrDecryptionFailed then atom (Panic E (PErr err)) else Done (Ret (Inl err))
      | Inr b \<Rightarrow> tbind (atom (Freeze E b)) (\<lambda>_. Done (Ret (Inr b))))"

definition Open_view :: "env \<Rightarrow> Enclave \<Rightarrow> nat \<Rightarrow> nat \<Rightarrow> (world, err + nat) thread" where
  "Open_view E e b c = tbind (tbind (atom (View E c)) (Open_with_key E e b)) (Open_end E)"

lemma Open_thread_started:
  assumes "NewBuffer E (int (slen (ciphertext e)) - Overhead E) s = (Ret (Inr b), u)" and "getOrCreateKey E u = (Ret c, v)"
  shows "(sched bg new)\<^sup>*\<^sup>* ([Enclave_Open_thread E e], s) ([Open_view E e b c], v)"
proof -
  let ?f = "\<lambda>r. tbind (case r of
       Inl _ \<Rightarrow> atom (Panic E (PStr ''<memguard:core> ciphertext has invalid length''))
     | Inr b \<Rightarrow> tbind (atom (getOrCreateKey E)) (\<lambda>c. tbind (atom (View E c)) (Open_with_key E e b))) (Open_end E)"
  let ?th = "tbind (atom (getOrCreateKey E)) (Open_view E e b)"
  have "Enclave_Open_thread E e = tbind (atom (NewBuffer E (int (slen (ciphertext e)) - Overhead E))) ?f"
    by (simp add: Enclave_Open_thread_def Open_thread_def tbind_assoc Open_end_def [abs_def])
  moreover have "go_on (Ret (Inr b)) ?f = ?th" by (simp add: tbind_assoc Open_view_def [abs_def])
  ultimately have "(sched bg new)\<^sup>*\<^sup>* ([Enclave_Open_thread E e], s) ([?th], u)"
    using sched_first [of 0 "[Enclave_Open_thread E e]" "atom (NewBuffer E (int (slen (ciphertext e)) - Overhead E))" ?f s "Ret (Inr b)" u] assms(1)
    by simp
  moreover have "(sched bg new)\<^sup>*\<^sup>* ([?th], u) ([Open_view E e b c], v)"
    using sched_first [of 0 "[?th]" "atom (getOrCreateKey E)" "Open_view E e b" u "Ret c" v] assms(2) by simp
  ultimately show ?thesis by (rule rtranclp_trans)
qed

text \<open>A purge, and what a goroutine that has the address of the key meets afterwards.\<close>

lemma purged_meets:
  assumes "keyed E s"
  shows "Purge E s = (Ret (), purged s)" and "View E (key s) (purged s) = (Ret (Inl ErrCofferExpired), purged s)"
    and "Panic E (PErr ErrCofferExpired) (purged s) = (Panicked (PErr ErrCofferExpired), purged (purged s))"
    and "getOrCreateKey E s = (Ret (key s), s)"
proof -
  note k = keyed_D [OF assms] and ok = env_works_D [OF keyed_D(1) [OF assms]]
  have can: "\<forall>b \<in> set (blist s). canary_ok s b" using k(3) by (simp add: clean_def)
  note p = purged_session [OF k(2) can]
  show "Purge E s = (Ret (), purged s)" by (rule Purge_run_ok [OF ok(1,2) session_D(4,1) [OF k(2)] can])
  show "View E (key s) (purged s) = (Ret (Inl ErrCofferExpired), purged s)" by (rule expired_runs(2) [OF session_D(1) [OF p(1)] p(2)])
  show "Panic E (PErr ErrCofferExpired) (purged s) = (Panicked (PErr ErrCofferExpired), purged (purged s))"
    by (rule Panic_ok [OF k(1) p(1)]) simp
  show "getOrCreateKey E s = (Ret (key s), s)" by (rule getOrCreateKey_run [OF k(1,2)]) (use k(4) in auto)
qed

lemma Open_Purge_run:
  assumes "keyed E s" and "sealed E s e m"
  shows "\<exists>t. (sched (\<lambda>s t. Purge E s = (Ret (), t)) {})\<^sup>*\<^sup>* ([Enclave_Open_thread E e], s) ([Done (Panicked (PErr ErrCofferExpired))], t)"
proof -
  let ?bg = "\<lambda>s t. Purge E s = (Ret (), t)"
  note k = keyed_D [OF assms(1)] and ok = env_works_D [OF keyed_D(1) [OF assms(1)]]
  have h: "holds E s e m" "m \<noteq> []" "int (slen (ciphertext e)) \<le> 2 ^ 62" using assms(2) by (simp_all add: sealed_def)
  have n: "0 < length m" "int (length m) \<le> 2 ^ 62" "int (slen (ciphertext e)) - Overhead E = int (length m)"
    using holds_slen(1) [OF ok(6) h(1)] h(2,3) by (auto simp: Overhead_def)
  let ?b = "nbufs s" and ?u = "newbuf_state E (length m) s"
  have new: "NewBuffer E (int (slen (ciphertext e)) - Overhead E) s = (Ret (Inr ?b), ?u)"
    unfolding n(3) by (rule NewBuffer_run [OF k(1) n(1,2) k(7)])
  note u = work_D [OF work_new(2) [OF assms(1) n(1,2)]]
  let ?p = "purged ?u"
  note p = purged_meets [OF u(2)]
  have "run_thread (Open_view E e ?b (key ?u)) ?p = (Panicked (PErr ErrCofferExpired), purged ?p)"
    using p(2,3) by (simp add: Open_view_def Open_with_key_def Open_end_def bind_def)
  then have rest: "(sched ?bg {})\<^sup>*\<^sup>* ([Open_view E e ?b (key ?u)], ?p) ([Done (Panicked (PErr ErrCofferExpired))], purged ?p)"
    using sched_run [of 0 "[Open_view E e ?b (key ?u)]" ?p "Panicked (PErr ErrCofferExpired)" "purged ?p"] by simp
  have "sched ?bg {} ([Open_view E e ?b (key ?u)], ?u) ([Open_view E e ?b (key ?u)], ?p)" by (rule sched.background) (rule p(1))
  then show ?thesis
    using rtranclp_trans [OF rtranclp.rtrancl_into_rtrancl [OF Open_thread_started [OF new p(4)]] rest] by blast
qed

text \<open>The same for \<^verbatim>\<open>memguard.NewEnclave\<close>.\<close>

definition NewEnclave_end :: "env \<Rightarrow> err + Enclave \<Rightarrow> (world, Enclave option) thread" where
  "NewEnclave_end E r =
     (case r of
        Inl e \<Rightarrow> if e = ErrNullEnclave then Done (Ret None) else atom (Panic E (PErr e))
      | Inr e \<Rightarrow> Done (Ret (Some e)))"

definition NewEnclave_view :: "env \<Rightarrow> slice \<Rightarrow> nat \<Rightarrow> (world, Enclave option) thread" where
  "NewEnclave_view E buf c = tbind (tbind (atom (View E c)) (NewEnclave_with_key E buf)) (NewEnclave_end E)"

lemma NewEnclave_Purge_run:
  assumes "keyed E s" and "0 < slen buf"
  shows "\<exists>t. (sched (\<lambda>s t. Purge E s = (Ret (), t)) {})\<^sup>*\<^sup>* ([memguard_NewEnclave_thread E buf], s) ([Done (Panicked (PErr ErrCofferExpired))], t)"
proof -
  let ?bg = "\<lambda>s t. Purge E s = (Ret (), t)" and ?p = "purged s" and ?v = "NewEnclave_view E buf (key s)"
  note p = purged_meets [OF assms(1)]
  have "memguard_NewEnclave_thread E buf = tbind (atom (getOrCreateKey E)) (NewEnclave_view E buf)"
    using assms(2) by (simp add: memguard_NewEnclave_thread_def NewEnclave_thread_def NewEnclave_end_def [abs_def] NewEnclave_view_def [abs_def] tbind_assoc)
  then have s1: "(sched ?bg {})\<^sup>*\<^sup>* ([memguard_NewEnclave_thread E buf], s) ([?v], s)"
    using sched_first [of 0 "[memguard_NewEnclave_thread E buf]" "atom (getOrCreateKey E)" "NewEnclave_view E buf" s "Ret (key s)" s] p(4) by simp
  have s2: "sched ?bg {} ([?v], s) ([?v], ?p)" by (rule sched.background) (rule p(1))
  have "run_thread ?v ?p = (Panicked (PErr ErrCofferExpired), purged ?p)"
    using p(2,3) by (simp add: NewEnclave_view_def NewEnclave_with_key_def NewEnclave_end_def bind_def)
  then have "(sched ?bg {})\<^sup>*\<^sup>* ([?v], ?p) ([Done (Panicked (PErr ErrCofferExpired))], purged ?p)"
    using sched_run [of 0 "[?v]" ?p "Panicked (PErr ErrCofferExpired)" "purged ?p"] by simp
  then show ?thesis using rtranclp_trans [OF rtranclp.rtrancl_into_rtrancl [OF s1 s2]] by blast
qed

subsection \<open>Facts: the steps of a goroutine that seals\<close>

text \<open>What is left of \<^verbatim>\<open>Seal\<close> after \<^verbatim>\<open>Alive\<close> and after the closure.\<close>

definition Seal_end :: "env \<Rightarrow> nat \<Rightarrow> err + Enclave \<Rightarrow> (world, Enclave option) thread" where
  "Seal_end E b r =
     (case r of
        Inl e \<Rightarrow> if e = ErrBufferExpired then Done (Ret None) else atom (Panic E (PErr e))
      | Inr e \<Rightarrow> tbind (atom (Destroy E b)) (\<lambda>_. Done (Ret (Some e))))"

definition Seal_rest :: "env \<Rightarrow> nat \<Rightarrow> (world, Enclave option) thread" where
  "Seal_rest E b =
     tbind (tbind (atom (Melt E b)) (\<lambda>_. twith_rlock (BufLock b) (tbind (atom (Data b)) (NewEnclave_thread E)))) (Seal_end E b)"

lemma Seal_thread_started:
  assumes "i < length ths" and "ths ! i = LockedBuffer_Seal_thread E b" and "Alive b s = (Ret True, s)"
  shows "(sched bg new)\<^sup>*\<^sup>* (ths, s) (ths[i := Seal_rest E b], s)"
proof -
  let ?f = "\<lambda>a. tbind (if \<not> a then Done (Ret (Inl ErrBufferExpired)) else
       tbind (atom (Melt E b)) (\<lambda>_. tbind (twith_rlock (BufLock b) (tbind (atom (Data b)) (NewEnclave_thread E))) (\<lambda>r.
       case r of Inl e \<Rightarrow> Done (Ret (Inl e)) | Inr e \<Rightarrow> tbind (atom (Destroy E b)) (\<lambda>_. Done (Ret (Inr e))))))
     (\<lambda>r. case r of Inl e \<Rightarrow> if e = ErrBufferExpired then Done (Ret None) else atom (Panic E (PErr e)) | Inr e \<Rightarrow> Done (Ret (Some e)))"
  have "LockedBuffer_Seal_thread E b = tbind (atom (Alive b)) ?f"
    by (simp add: LockedBuffer_Seal_thread_def Seal_thread_def tbind_assoc)
  moreover have "go_on (Ret True) ?f = Seal_rest E b"
    by (auto simp: Seal_rest_def Seal_end_def tbind_assoc fun_eq_iff intro!: arg_cong [where f = "tbind _"] split: sum.split)
  ultimately show ?thesis using sched_first [OF assms(1), of "atom (Alive b)" ?f s "Ret True" s] assms(2,3) by simp
qed

lemma run_Seal_rest:
  "run_thread (Seal_rest E b) = bind (bind (Melt E b) (\<lambda>_. with_rlock (BufLock b) (bind (Data b) (NewEnclave E)))) (\<lambda>r. run_thread (Seal_end E b r))"
  by (simp add: Seal_rest_def NewEnclave_thread_alone)

lemma run_Seal_end: "e \<noteq> ErrBufferExpired \<Longrightarrow> run_thread (Seal_end E b (Inl e)) = Panic E (PErr e)"
  by (simp add: Seal_end_def)


text \<open>Up to the end of the closure.\<close>

lemma Seal_thread_wiped:
  assumes "i < length ths" and "ths ! i = LockedBuffer_Seal_thread E b" and "keyed E s" and "own s b"
  obtains e t where "(sched bg new)\<^sup>*\<^sup>* (ths, s) (ths[i := Seal_end E b (Inr e)], t)" and "keyed E t" and "own t b"
    and "holds E t e (contents (mem s) (data (bufs s b)))" and "data (bufs t b) = data (bufs s b)"
    and "contents (mem t) (data (bufs t b)) = replicate (slen (data (bufs s b))) 0"
proof -
  note k = keyed_D [OF assms(3)]
  have b: "b \<in> set (blist s)" "b \<notin> refs s (key s)" using assms(4) by (simp_all add: own_def)
  define m where "m = melted_state b s"
  note start = Seal_begin [OF k(1,2) b(1), folded m_def] and o = melted_facts [OF k(2) b(1), folded m_def]
  note km = keyed_D [OF keyed_melted [OF assms(3,4), folded m_def]]
  have bm: "b \<in> set (blist m)" "b \<notin> refs m (key m)" using b o by simp_all
  obtain t e where t: "with_rlock (BufLock b) (bind (Data b) (NewEnclave E)) m = (Ret (Inr e), t)" "session E t" "coffer_ok t (key t)"
      "holds E t e (contents (mem m) (data (bufs m b)))" "b \<in> set (blist t)" "b \<notin> refs t (key t)" "bufs t b = bufs m b"
      "contents (mem t) (data (bufs m b)) = replicate (slen (data (bufs m b))) 0" "clean m \<Longrightarrow> clean t"
    by (rule Seal_closure [OF km(1,2) bm o(8)]) (rule that)
  have "run_thread (tbind (atom (Melt E b)) (\<lambda>_. twith_rlock (BufLock b) (tbind (atom (Data b)) (NewEnclave_thread E)))) s = (Ret (Inr e), t)"
    using start(2) t(1) by (simp add: NewEnclave_thread_alone bind_def)
  from sched_first [OF _ _ this, of i "ths[i := Seal_rest E b]" "Seal_end E b" bg new]
  have "(sched bg new)\<^sup>*\<^sup>* (ths[i := Seal_rest E b], s) (ths[i := Seal_end E b (Inr e)], t)"
    using assms(1) by (simp add: Seal_rest_def)
  with Seal_thread_started [OF assms(1,2) start(1)] have "(sched bg new)\<^sup>*\<^sup>* (ths, s) (ths[i := Seal_end E b (Inr e)], t)"
    by (rule rtranclp_trans)
  moreover have "keyed E t" using k(1) t(2,3,9) km(3) by (simp add: keyed_def)
  ultimately show ?thesis using t(4-8) o(6,9) by (intro that [of e t]) (simp_all add: own_def)
qed

text \<open>The last step, when another goroutine has destroyed the buffer in the meantime.\<close>

lemma Seal_end_dead:
  assumes "i < length ths" and "ths ! i = Seal_end E b (Inr e)" and "locks_free s" and "\<not> alive (bufs s b)" and "b \<notin> set (blist s)"
  shows "(sched bg new)\<^sup>*\<^sup>* (ths, s) (ths[i := Done (Ret (Some e))], s)"
proof (rule sched_run [OF assms(1)])
  show "run_thread (ths ! i) s = (Ret (Some e), s)"
    using dead_Destroy [OF assms(3-5), of E] assms(2) by (simp add: Seal_end_def bind_def exec)
qed

subsection \<open>Facts: two goroutines and one buffer\<close>

lemma Seal_Seal_run:
  assumes "keyed E s" and "own s b" and "int (slen (data (bufs s b))) + Overhead E \<le> 2 ^ 62"
  shows "\<exists>e f t. (sched bg new)\<^sup>*\<^sup>* ([LockedBuffer_Seal_thread E b, LockedBuffer_Seal_thread E b], s)
       ([Done (Ret (Some e)), Done (Ret (Some f))], t) \<and> keyed E t \<and>
     sealed E t e (contents (mem s) (data (bufs s b))) \<and> sealed E t f (replicate (slen (data (bufs s b))) 0)"
proof -
  let ?S = "LockedBuffer_Seal_thread E b" and ?n = "slen (data (bufs s b))"
  obtain e u where u: "(sched bg new)\<^sup>*\<^sup>* ([?S, ?S], s) ([?S, ?S][0 := Seal_end E b (Inr e)], u)" "keyed E u" "own u b"
      "holds E u e (contents (mem s) (data (bufs s b)))" "data (bufs u b) = data (bufs s b)"
      "contents (mem u) (data (bufs u b)) = replicate ?n 0"
    by (rule Seal_thread_wiped [of 0 "[?S, ?S]", OF _ _ assms(1,2)]) (use that in simp_all)
  note k = keyed_D [OF u(2)]
  have b: "b \<in> set (blist u)" "b \<notin> refs u (key u)" using u(3) by (simp_all add: own_def)
  obtain t f where t: "Seal E b u = (Ret (Inr f), t)" "session E t" "coffer_ok t (key t)"
      "holds E t f (contents (mem u) (data (bufs u b)))" "bufs t b = zero_Buffer" "b \<notin> set (blist t)"
      "coffer_ok u (key u) \<Longrightarrow> key t = key u \<and> coffer_value E t (key t) = coffer_value E u (key u) \<and> blist t = remove1 b (blist u)"
      "clean u \<Longrightarrow> clean t" "heap_kept u t"
    by (rule Seal_run [OF k(1,2) b clean_D [OF k(3) b(1)]]) (rule that)
  have kt: "keyed E t" using k(1,3) t(2,3,8) by (simp add: keyed_def)
  have h: "holds E t e (contents (mem s) (data (bufs s b)))" by (rule holds_heap [OF u(4) t(9)]) (use t(7) k(4) in blast)
  have "(sched bg new)\<^sup>*\<^sup>* ([Seal_end E b (Inr e), ?S], u) ([Seal_end E b (Inr e), ?S][1 := Done (Ret (Some f))], t)"
    by (rule sched_run) (use t(1) in \<open>simp_all add: LockedBuffer_Seal_thread_alone LockedBuffer_Seal_def bind_def exec\<close>)
  moreover have "(sched bg new)\<^sup>*\<^sup>* ([Seal_end E b (Inr e), Done (Ret (Some f))], t) ([Seal_end E b (Inr e), Done (Ret (Some f))][0 := Done (Ret (Some e))], t)"
    by (rule Seal_end_dead) (use t(2,5,6) in \<open>simp_all add: session_def\<close>)
  ultimately have run: "(sched bg new)\<^sup>*\<^sup>* ([?S, ?S], s) ([Done (Ret (Some e)), Done (Ret (Some f))], t)"
    using u(1) by simp
  have pos: "0 < ?n" using guarded_data(5) [OF session_D(2) [OF keyed_D(2) [OF assms(1)]]] assms(2) by (simp add: own_def)
  have len: "length (contents (mem s) (data (bufs s b))) = ?n"
    using guarded_data(7) [OF session_D(2) [OF keyed_D(2) [OF assms(1)]]] assms(2) by (simp add: own_def)
  have ne: "contents (mem s) (data (bufs s b)) \<noteq> []" "replicate ?n (0 :: byte) \<noteq> []" using pos len by auto
  have "sealed E t x m" if "holds E t x m" "length m = ?n" "m \<noteq> []" for x m
    using that assms(3) holds_slen(1) [OF env_works_D(6) [OF k(1)] that(1)] by (simp add: sealed_def Overhead_def)
  then have "sealed E t e (contents (mem s) (data (bufs s b)))" "sealed E t f (replicate ?n 0)"
    using h len ne t(4) u(6) by simp_all
  with run kt show ?thesis by blast
qed

lemma nil_NewEnclave: "NewEnclave E NilSlice s = (Ret (Inl ErrNullEnclave), s)"
  by (simp add: NewEnclave_def exec)

lemma Seal_Destroy_run:
  assumes "keyed E s" and "own s b"
  shows "\<exists>t. (sched bg new)\<^sup>*\<^sup>* ([LockedBuffer_Seal_thread E b, tbind (atom (LockedBuffer_Destroy E b)) (\<lambda>_. Done (Ret None))], s)
       ([Done (Panicked (PErr ErrNullEnclave)), Done (Ret None)], t) \<and> blist t = []"
proof -
  let ?S = "LockedBuffer_Seal_thread E b" and ?D = "tbind (atom (LockedBuffer_Destroy E b)) (\<lambda>_. Done (Ret None)) :: (world, Enclave option) thread"
  note k = keyed_D [OF assms(1)]
  have b: "b \<in> set (blist s)" "b \<notin> refs s (key s)" using assms(2) by (simp_all add: own_def)
  let ?u = "removed_state b s"
  note r = own_remove [OF assms]
  note ku = keyed_D [OF r(2)]
  have dead: "\<not> alive (bufs ?u b)" "data (bufs ?u b) = NilSlice" by (simp_all add: removed_state_def destroyed_state_def zero_Buffer_def)
  have "(sched bg new)\<^sup>*\<^sup>* ([?S, ?D], s) ([?S, ?D][0 := Seal_rest E b], s)"
    by (rule Seal_thread_started) (use Seal_begin(1) [OF k(1,2) b(1)] in simp_all)
  moreover have "(sched bg new)\<^sup>*\<^sup>* ([Seal_rest E b, ?D], s) ([Seal_rest E b, ?D][1 := Done (Ret None)], ?u)"
    by (rule sched_run) (use r(1) in \<open>simp_all add: bind_def exec\<close>)
  moreover have "(sched bg new)\<^sup>*\<^sup>* ([Seal_rest E b, Done (Ret None)], ?u) ([Seal_rest E b, Done (Ret None)][0 := Done (Panicked (PErr ErrNullEnclave))], purged ?u)"
  proof (rule sched_run)
    have "Melt E b ?u = (Ret (), ?u)" using dead_runs(2) [OF dead(1) ku(7), of E] by (simp add: Melt_def bind_def exec or_panic_None)
    moreover have "with_rlock (BufLock b) (bind (Data b) (NewEnclave E)) ?u = (Ret (Inl ErrNullEnclave), ?u)"
    proof (rule with_rlock_free_at [OF _ ku(7)])
      have d: "Data b ?u = (Ret NilSlice, ?u)" using dead(2) by (simp add: Data_def get_buf_def bind_def exec)
      have "oblivious (BufLock b) (NewEnclave E NilSlice)" using nil_NewEnclave by (simp add: oblivious_def)
      then show "oblivious_at [BufLock b] (bind (Data b) (NewEnclave E)) ?u"
        by (intro oblivious_at_step [of "Data b", OF d oblivious_atI [OF oblivious_Data(1)]] oblivious_atI) simp
      show "bind (Data b) (NewEnclave E) ?u = (Ret (Inl ErrNullEnclave), ?u)" using d nil_NewEnclave by (simp add: bind_def)
    qed
    moreover have "Panic E (PErr ErrNullEnclave) ?u = (Panicked (PErr ErrNullEnclave), purged ?u)"
      by (rule Panic_ok [OF ku(1,2)]) (use ku(3) in \<open>simp add: clean_def\<close>)
    ultimately have "run_thread (Seal_rest E b) ?u = (Panicked (PErr ErrNullEnclave), purged ?u)"
      unfolding run_Seal_rest by (simp add: bind_def Seal_end_def)
    then show "run_thread ([Seal_rest E b, Done (Ret None)] ! 0) ?u = (Panicked (PErr ErrNullEnclave), purged ?u)" by simp
  qed simp
  ultimately show ?thesis by (intro exI [of _ "purged ?u"]) (simp add: purged_session)
qed


lemma with_rlock_crash:
  "oblivious_at [l] m s \<Longrightarrow> locks s l = Unlocked \<Longrightarrow> m s = (Crash, t) \<Longrightarrow> with_rlock l m s = (Crash, set_rw l (RLocked 1) t)"
  using oblivious_at_run [of l m s Crash t "RLocked 1"] by (simp add: with_rlock_def deferred_def)

lemma frozen_closure:
  assumes "keyed E s" and "own s b" and "\<not> mutable (bufs s b)"
  obtains t where "with_rlock (BufLock b) (bind (Data b) (NewEnclave E)) s = (Crash, t)"
    and "contents (mem t) (data (bufs t b)) = contents (mem s) (data (bufs s b))"
proof -
  note k = keyed_D [OF assms(1)]
  have b: "b \<in> set (blist s)" "b \<notin> refs s (key s)" using assms(2) by (simp_all add: own_def)
  let ?buf = "data (bufs s b)"
  note g = session_D(2) [OF k(2) b(1)]
  note gd = guarded_data [OF g]
  obtain t c where t: "NewEnclave E ?buf s = bind (Wipe ?buf) (\<lambda>_. ret (Inr \<lparr>ciphertext = c\<rparr>)) t" "session E t" "extends s t"
    by (rule NewEnclave_upto [OF k(1,2) gd(5) stable_data [OF k(2) b(1)] gd(1)]) (rule that)
  have same: "keep s t b" "bufs t b = bufs s b" using extends_D(1) [OF t(3) b(1)] by (simp_all add: keep_def)
  have "idx_set ?buf 0 0 t = (Crash, t)"
    using frozen_data [OF session_D(2) [OF t(2) extends_D(2) [OF t(3) b(1)]]] same(2) assms(3) gd(5) by simp
  then have "Wipe ?buf t = (Crash, t)"
    unfolding Wipe_def using gd(5) by (intro for_each_crash [of _ "[]" 0 "[1..<slen ?buf]" _ t t]) (simp_all add: upt_conv_Cons exec)
  then have ne: "bind (Data b) (NewEnclave E) s = (Crash, t)" using t(1) by (simp add: bind_def)
  have "oblivious_at [BufLock b] (bind (Data b) (NewEnclave E)) s"
    by (rule oblivious_at_step [of "Data b", OF Data_run oblivious_atI [OF oblivious_Data(1)]])
      (rule oblivious_at_NewEnclave [OF k(1,2) b(1)], simp add: b session_D(3) [OF k(2) b(1)])
  then have "with_rlock (BufLock b) (bind (Data b) (NewEnclave E)) s = (Crash, set_rw (BufLock b) (RLocked 1) t)"
    using k(7) ne by (rule with_rlock_crash)
  moreover have "contents (mem t) (data (bufs t b)) = contents (mem s) ?buf" by (rule kept_data(1) [OF same(1) k(2) b(1)])
  ultimately show ?thesis by (intro that [of "set_rw (BufLock b) (RLocked 1) t"]) (simp_all add: set_rw_def)
qed

lemma Seal_Freeze_run:
  assumes "keyed E s" and "own s b"
  shows "\<exists>t. (sched bg new)\<^sup>*\<^sup>* ([LockedBuffer_Seal_thread E b, tbind (atom (LockedBuffer_Freeze E b)) (\<lambda>_. Done (Ret None))], s)
       ([Done Crash, Done (Ret None)], t) \<and> contents (mem t) (data (bufs t b)) = contents (mem s) (data (bufs s b))"
proof -
  let ?S = "LockedBuffer_Seal_thread E b" and ?F = "tbind (atom (LockedBuffer_Freeze E b)) (\<lambda>_. Done (Ret None)) :: (world, Enclave option) thread"
  let ?C = "twith_rlock (BufLock b) (tbind (atom (Data b)) (NewEnclave_thread E))"
  note k = keyed_D [OF assms(1)]
  have b: "b \<in> set (blist s)" "b \<notin> refs s (key s)" using assms(2) by (simp_all add: own_def)
  let ?m = "melted_state b s"
  note o = melted_facts [OF k(2) b(1)] and km = keyed_melted [OF assms]
  have "own ?m b" using b o by (simp add: own_def)
  then have v: "kt.valid E {b} ?m" using km by (simp add: kt.valid_def)
  note f = freeze_guar [OF v insertI1]
  let ?u = "frozen_state b ?m"
  have vu: "keyed E ?u" "own ?u b" using kt.guar_valid [OF f(2)] by (simp_all add: kt.valid_def)
  obtain t where t: "with_rlock (BufLock b) (bind (Data b) (NewEnclave E)) ?u = (Crash, t)"
      "contents (mem t) (data (bufs t b)) = contents (mem ?u) (data (bufs ?u b))"
    by (rule frozen_closure [OF vu f(4)]) (rule that)
  have s1: "(sched bg new)\<^sup>*\<^sup>* ([?S, ?F], s) ([Seal_rest E b, ?F], s)"
    using Seal_thread_started [of 0 "[?S, ?F]", OF _ _ Seal_begin(1) [OF k(1,2) b(1)]] by simp
  have "Seal_rest E b = tbind (atom (Melt E b)) (\<lambda>_. tbind ?C (Seal_end E b))" by (simp add: Seal_rest_def tbind_assoc)
  then have s2: "(sched bg new)\<^sup>*\<^sup>* ([Seal_rest E b, ?F], s) ([tbind ?C (Seal_end E b), ?F], ?m)"
    using sched_first [of 0 "[Seal_rest E b, ?F]" "atom (Melt E b)" "\<lambda>_. tbind ?C (Seal_end E b)" s "Ret ()" ?m] Seal_begin(2) [OF k(1,2) b(1)] by simp
  have s3: "(sched bg new)\<^sup>*\<^sup>* ([tbind ?C (Seal_end E b), ?F], ?m) ([tbind ?C (Seal_end E b), Done (Ret None)], ?u)"
    using sched_run [of 1 "[tbind ?C (Seal_end E b), ?F]" ?m "Ret None" ?u] f(1)
    by (simp add: LockedBuffer_Freeze_def bind_def exec)
  have "run_thread (tbind ?C (Seal_end E b)) ?u = (Crash, t)" using t(1) by (simp add: NewEnclave_thread_alone bind_def)
  then have s4: "(sched bg new)\<^sup>*\<^sup>* ([tbind ?C (Seal_end E b), Done (Ret None)], ?u) ([Done Crash, Done (Ret None)], t)"
    using sched_run [of 0 "[tbind ?C (Seal_end E b), Done (Ret None)]" ?u Crash t] by simp
  show ?thesis
    using rtranclp_trans [OF rtranclp_trans [OF rtranclp_trans [OF s1 s2] s3] s4] t(2) f(3) o(6,9)
    by (intro exI [of _ t]) simp
qed

subsection \<open>The properties\<close>

text \<open>
  C25. The key can be destroyed while an enclave is opened or made: between \<^verbatim>\<open>getOrCreateKey()\<close> and \<^verbatim>\<open>View()\<close> of \<^verbatim>\<open>core.Open\<close> and
  \<^verbatim>\<open>core.NewEnclave\<close> nothing holds the key. When another goroutine purges the session there, \<^verbatim>\<open>View\<close> fails. \<^verbatim>\<open>Enclave.Open\<close>, which takes
  every error other than \<^verbatim>\<open>ErrDecryptionFailed\<close> for a broken library, and \<^verbatim>\<open>NewEnclave\<close>, which does so for every error but
  \<^verbatim>\<open>ErrNullEnclave\<close>, panic.
\<close>

theorem Open_Purge_race:
  assumes "keyed E s" and "sealed E s e m" and "0 < slen buf"
  shows "(\<exists>t. (sched (\<lambda>s t. Purge E s = (Ret (), t)) {})\<^sup>*\<^sup>* ([Enclave_Open_thread E e], s) ([Done (Panicked (PErr ErrCofferExpired))], t)) \<and>
     (\<exists>t. (sched (\<lambda>s t. Purge E s = (Ret (), t)) {})\<^sup>*\<^sup>* ([memguard_NewEnclave_thread E buf], s) ([Done (Panicked (PErr ErrCofferExpired))], t))"
  by (rule conjI [OF Open_Purge_run [OF assms(1,2)] NewEnclave_Purge_run [OF assms(1,3)]])

theorem Open_Purge_race_witness:
  "(\<exists>t. (sched (\<lambda>s t. Purge simE s = (Ret (), t)) {})\<^sup>*\<^sup>* ([Enclave_Open_thread simE e_enc], w_enc) ([Done (Panicked (PErr ErrCofferExpired))], t)) \<and>
   (\<exists>t. (sched (\<lambda>s t. Purge simE s = (Ret (), t)) {})\<^sup>*\<^sup>* ([memguard_NewEnclave_thread simE w_sl], w_enc) ([Done (Panicked (PErr ErrCofferExpired))], t))"
  by (rule Open_Purge_race [OF w_enc_facts(2,3)]) (simp add: w_user_facts(6))

text \<open>
  C26. Two goroutines that seal the same buffer: the closure in \<^verbatim>\<open>Seal\<close> wipes the buffer but holds only its read lock, and nothing is
  held between the closure and \<^verbatim>\<open>Destroy\<close>. A second \<^verbatim>\<open>Seal\<close> that starts there finds the buffer alive. Both calls return
  an enclave and no error, but only one holds the data: the other holds zeros.
\<close>

theorem Seal_Seal_race:
  assumes "keyed E s" and "own s b" and "int (slen (data (bufs s b))) + Overhead E \<le> 2 ^ 62"
  shows "\<exists>e f t. (sched (\<lambda>s t. key_tick E s = (Ret (), t)) {})\<^sup>*\<^sup>* ([LockedBuffer_Seal_thread E b, LockedBuffer_Seal_thread E b], s)
       ([Done (Ret (Some e)), Done (Ret (Some f))], t) \<and> keyed E t \<and>
     sealed E t e (contents (mem s) (data (bufs s b))) \<and> sealed E t f (replicate (slen (data (bufs s b))) 0)"
  by (rule Seal_Seal_run [OF assms])

theorem Seal_Seal_race_witness:
  "\<exists>e f t. (sched (\<lambda>s t. key_tick simE s = (Ret (), t)) {})\<^sup>*\<^sup>* ([LockedBuffer_Seal_thread simE 0, LockedBuffer_Seal_thread simE 0], w_hello)
       ([Done (Ret (Some e)), Done (Ret (Some f))], t) \<and> sealed simE t e [1, 2, 3, 4, 5] \<and> sealed simE t f [0, 0, 0, 0, 0]"
proof -
  have "int (slen (data (bufs w_hello 0))) + Overhead simE \<le> 2 ^ 62" using w_hello_facts(4) by (simp add: Overhead_def simE_def)
  from Seal_Seal_race [OF w_hello_facts(1,2) this] show ?thesis
    using w_hello_facts(3,4) by (simp add: eval_nat_numeral del: contents.simps) blast
qed

text \<open>
  C27. \<^verbatim>\<open>Seal\<close> of a buffer that another goroutine destroys: the comment promises a \<^verbatim>\<open>nil\<close> enclave for a destroyed buffer. When \<^verbatim>\<open>Destroy\<close>
  runs between the check and the closure, \<^verbatim>\<open>NewEnclave\<close> gets a \<^verbatim>\<open>nil\<close> slice and returns \<^verbatim>\<open>ErrNullEnclave\<close>, and \<^verbatim>\<open>LockedBuffer.Seal\<close>
  panics, after a purge of the whole session.
\<close>

theorem Seal_Destroy_race:
  assumes "keyed E s" and "own s b"
  shows "\<exists>t. (sched (\<lambda>s t. key_tick E s = (Ret (), t)) {})\<^sup>*\<^sup>* ([LockedBuffer_Seal_thread E b, tbind (atom (LockedBuffer_Destroy E b)) (\<lambda>_. Done (Ret None))], s)
       ([Done (Panicked (PErr ErrNullEnclave)), Done (Ret None)], t) \<and> blist t = []"
  by (rule Seal_Destroy_run [OF assms])

theorem Seal_Destroy_race_witness:
  "\<exists>t. (sched (\<lambda>s t. key_tick simE s = (Ret (), t)) {})\<^sup>*\<^sup>* ([LockedBuffer_Seal_thread simE 0, tbind (atom (LockedBuffer_Destroy simE 0)) (\<lambda>_. Done (Ret None))], w_key)
       ([Done (Panicked (PErr ErrNullEnclave)), Done (Ret None)], t) \<and> blist t = []"
  by (rule Seal_Destroy_race [OF w_key_facts(2,6)])

text \<open>
  C28. \<^verbatim>\<open>Seal\<close> of a buffer that another goroutine freezes: when \<^verbatim>\<open>Freeze\<close> runs between \<^verbatim>\<open>Melt\<close> and the closure, the wipe in
  \<^verbatim>\<open>NewEnclave\<close> writes to memory that is read-only. The process dies of a fault, with the data still in the buffer.
\<close>

theorem Seal_Freeze_race:
  assumes "keyed E s" and "own s b"
  shows "\<exists>t. (sched (\<lambda>s t. key_tick E s = (Ret (), t)) {})\<^sup>*\<^sup>* ([LockedBuffer_Seal_thread E b, tbind (atom (LockedBuffer_Freeze E b)) (\<lambda>_. Done (Ret None))], s)
       ([Done Crash, Done (Ret None)], t) \<and> contents (mem t) (data (bufs t b)) = contents (mem s) (data (bufs s b))"
  by (rule Seal_Freeze_run [OF assms])

theorem Seal_Freeze_race_witness:
  "\<exists>t. (sched (\<lambda>s t. key_tick simE s = (Ret (), t)) {})\<^sup>*\<^sup>* ([LockedBuffer_Seal_thread simE 0, tbind (atom (LockedBuffer_Freeze simE 0)) (\<lambda>_. Done (Ret None))], w_hello)
       ([Done Crash, Done (Ret None)], t) \<and> contents (mem t) (data (bufs t 0)) = [1, 2, 3, 4, 5]"
  using Seal_Freeze_race [OF w_hello_facts(1,2)] unfolding w_hello_facts(3) .

end
