(* ===== verification/Spec2Isabelle.thy ===== *)
theory Spec2Isabelle
  imports Crypto_Props Buffer_Props Key_Props Locked_Props View_Props Reader_Props Stream_Fifo Signal_Props Client Fault_Props Casting Examples
    Stream_Example Socket_Example Deadlock_Example Races
begin

text \<open>
  A verification of memguard, a Go package that keeps secrets in guarded memory and encrypts those that are not in use.

  \<^bold>\<open>The program.\<close> Package \<^verbatim>\<open>core\<close> (\<^verbatim>\<open>src/core\<close>) makes a \<^verbatim>\<open>Buffer\<close>: pages mapped outside the Go heap between two
  inaccessible guard pages, locked into memory, with a canary before the data. All live buffers are in a global
  \<^verbatim>\<open>bufferList\<close>. A \<^verbatim>\<open>Coffer\<close> keeps a 32 byte key split over two buffers, masked with the hash of one of them, and a
  goroutine re-masks it periodically. An \<^verbatim>\<open>Enclave\<close> is a ciphertext on the Go heap under the global key coffer. \<^verbatim>\<open>Purge\<close>,
  \<^verbatim>\<open>Exit\<close> and \<^verbatim>\<open>Panic\<close> end a session. Package \<^verbatim>\<open>memguard\<close> (\<^verbatim>\<open>src/*.go\<close>) exports these as \<^verbatim>\<open>LockedBuffer\<close> and
  \<^verbatim>\<open>Enclave\<close>, with constructors that read from an \<^verbatim>\<open>io.Reader\<close>, typed views of the memory, an encrypted byte queue
  \<^verbatim>\<open>Stream\<close>, and a signal handler that wipes the session.

  \<^bold>\<open>The model.\<close> A call is a computation \<open>('s, 'a) comp\<close> (theory \<open>Prelude\<close>): it takes a state and gives an outcome and a state.
  The outcomes are the ways a Go call can end: a return, a panic, a fatal memory fault, blocking for ever on a mutex,
  \<^verbatim>\<open>os.Exit\<close>, and \<open>Unfinished\<close> for a loop whose fuel ran out. The state is \<open>world\<close> (theory \<open>World\<close>): a memory of regions with a
  protection and a lock bit per byte, some from the operating system and some of the garbage-collected heap; the objects
  \<^verbatim>\<open>Buffer\<close> and \<^verbatim>\<open>Coffer\<close> by address; the list of buffers; the global key; every mutex; and the position in the random
  source. A slice has a base, an offset, a length and a capacity, so aliasing is explicit, and every read and write
  checks the protection. What is not in the repository is a field of \<open>env\<close> and an argument of the definitions: the package
  memcall, secretbox, blake2b, the random source, the page size. The hypotheses about it are documented behaviour:
  \<open>memcall_ok\<close> (a call that succeeds does what it says), \<open>memcall_works\<close> (calls succeed), \<open>secretbox_ok\<close> (a box opens to what
  was sealed, lengths), \<open>hash_ok\<close> (32 bytes), \<open>rand_ok\<close>, and \<open>page_ok\<close> (the page size is a power of two below \<open>2 ^ 60\<close>).
  \<open>env_works\<close> is all of them; theory \<open>Sim\<close> has a concrete environment that satisfies them.

  \<^bold>\<open>Theories and sources.\<close>
  \<^item> \<open>Crypto\<close>, \<open>Cipher\<close>: \<^verbatim>\<open>core/crypto.go\<close>, \<^verbatim>\<open>core/auxiliary.go\<close>. Copying, wiping, comparing, hashing, encryption.
  \<^item> \<open>Buffer_Ops\<close>, \<open>Buffer\<close>: \<^verbatim>\<open>core/buffer.go\<close>. The operations of a buffer and the list, and their runs.
  \<^item> \<open>Purge\<close>, \<open>Exit\<close>, \<open>Exiting\<close>: \<^verbatim>\<open>core/exit.go\<close>. \<open>Exiting\<close> follows \<^verbatim>\<open>Exit\<close> in any session, \<open>Faults\<close> follows \<^verbatim>\<open>Purge\<close> and \<^verbatim>\<open>Destroy\<close> when the operating system refuses requests.
  \<^item> \<open>Interfaces\<close>: the locales between the components: a registry of buffers, a key that survives re-keying, a vault whose
    boxes open while the key survives. They are interpreted on \<^verbatim>\<open>bufferList\<close>, on the key coffer and on the enclaves.
  \<^item> \<open>Session\<close>: the invariant \<open>session\<close> (every listed buffer is \<open>guarded\<close>, no two share memory, no lock is held, the key coffer is
    destroyed or complete) and the relation \<open>extends\<close> (nothing that existed changed), with the rules by which calls keep them.
  \<^item> \<open>Coffer\<close>, \<open>Coffer_Life\<close>: \<^verbatim>\<open>core/coffer.go\<close>. One period of the re-key goroutine is one call of \<open>rekey_tick\<close>.
  \<^item> \<open>Enclave\<close>, \<open>Enclave_Ops\<close>: \<^verbatim>\<open>core/enclave.go\<close>. The global key, sealing and opening.
  \<^item> \<open>Steps\<close>: the steps of a program that uses the package, and that each keeps the session.
  \<^item> \<open>Locked_Buffer\<close>, \<open>Views\<close>, \<open>Readers\<close>, \<open>Byte_Reader\<close>: \<^verbatim>\<open>buffer.go\<close>, \<^verbatim>\<open>enclave.go\<close>, \<^verbatim>\<open>memguard.go\<close>. \<open>Workspace\<close> has the
    rules for a working buffer, \<open>Reader_Spec\<close> the contract of an \<^verbatim>\<open>io.Reader\<close> as a locale; it is interpreted on
    \<^verbatim>\<open>bytes.Reader\<close> and on \<^verbatim>\<open>Stream\<close>.
  \<^item> \<open>Streams\<close>, \<open>Stream_Spec\<close>, \<open>Stream_Writing\<close>: \<^verbatim>\<open>stream.go\<close>. The definitions, reading, and writing.
  \<^item> \<open>Calls\<close>, \<open>Reader_Calls\<close>, \<open>Client\<close>: the judgement \<open>does E X C m\<close> (from a session in which the program owns \<open>X\<close> the call \<open>m\<close>
    ends, with an error or a panic too, in a session in which it changed at most \<open>C\<close>), its rules for every exported function and method of
    \<^verbatim>\<open>buffer.go\<close>, \<^verbatim>\<open>enclave.go\<close>, \<^verbatim>\<open>stream.go\<close> and \<^verbatim>\<open>memguard.go\<close> on any arguments, and the programs \<open>client\<close> that make such calls in
    any order.
  \<^item> \<open>Signals\<close>: \<^verbatim>\<open>signals.go\<close>. Callers, goroutine, channels and runtime as a transition system.
  \<^item> \<open>Threads\<close>, \<open>Locking\<close>: goroutines. A thread is a computation cut into actions; the locale \<open>sharing\<close> has the rules by which
    threads that own disjoint objects run in any order; \<open>fair\<close> says that a schedule does not pass over a thread. It is interpreted twice on the buffers of the package: on states in
    which no lock is held, and on states in which goroutines hold locks of their buffers between two actions; an action that
    does not reach for these locks does the same in both.
  \<^item> \<open>Concurrent\<close>, \<open>Sealing\<close>, \<open>Races\<close>: \<^verbatim>\<open>core/enclave.go\<close>, \<^verbatim>\<open>enclave.go\<close> and \<^verbatim>\<open>LockedBuffer.Seal\<close> cut into actions. \<open>Concurrent\<close> has
    \<^verbatim>\<open>Open\<close>, \<open>Sealing\<close> has \<^verbatim>\<open>NewEnclave\<close>, the exported one too, and \<^verbatim>\<open>Seal\<close>, whose closure holds a read lock over many actions. Run alone, the threads are the functions
    of the other theories.
  \<^item> \<open>Examples\<close>, \<open>Stream_Example\<close>, \<open>Socket_Example\<close>, \<open>Casting\<close>, \<open>Deadlock_Example\<close>: the programs of \<^verbatim>\<open>examples/\<close>, composed of the operations above.

  \<^bold>\<open>What is shown.\<close> The theories with \<open>Props\<close> in their name, \<open>Client\<close>, \<open>Stream_Fifo\<close> and this one hold the properties, each with an
  instance at a concrete state. A buffer is guarded, freezing and melting change its protection and not its data, destroying
  it unmaps it and detects an overflow (\<open>Buffer_Props\<close>). The key keeps its value over every re-keying, and where the code
  can deadlock or leave key material behind (\<open>Key_Props\<close>). Encryption is inverted by decryption (\<open>Crypto_Props\<close>). The exported
  constructors and views (\<open>Locked_Props\<close>, \<open>View_Props\<close>). The constructors from readers end and return what was read, for
  every reader that keeps the contract (\<open>Reader_Props\<close>). A stream is a first-in first-out queue of bytes
  (\<open>Stream_Props\<close>, \<open>Stream_Fifo\<close>). Signals wipe the session, except in a race at the start (\<open>Signal_Props\<close>). Whatever requests
  the operating system refuses, a purge leaves no buffer with its data unless it warns about it (\<open>Fault_Props\<close>). Any number of
  goroutines can open enclaves (\<open>Deadlock_Example\<close>), and seal buffers of their own and open the result (\<open>Sealing\<close>), while the key is
  re-keyed, under every schedule; a schedule that does not pass over a goroutine for ever runs all of them to their ends. But a
  concurrent purge makes opening and \<^verbatim>\<open>NewEnclave\<close> panic, and sealing a buffer that another goroutine seals, destroys or freezes at
  the same time loses the data, panics or crashes (\<open>Races\<close>). The example programs do what they say, with the exceptions stated
  with them. Here: sealing and opening is a round trip, over re-keying too; and what \<^verbatim>\<open>Exit\<close> and \<^verbatim>\<open>Purge\<close> leave.

  \<^bold>\<open>Bounds and fuel.\<close> Sizes are \<open>int\<close>; \<^verbatim>\<open>roundToPageSize\<close> is computed at 64 bits with its wrap-around. Lengths are assumed to be at
  most \<open>2 ^ 62\<close>, which with a page size below \<open>2 ^ 60\<close> keeps the size of an allocation, data and canary rounded up to
  pages and two guard pages, below \<open>2 ^ 63\<close>; no machine has such a buffer. The loops of \<^verbatim>\<open>NewBufferFromReader\<close>,
  \<^verbatim>\<open>NewBufferFromReaderUntil\<close> and \<^verbatim>\<open>NewBufferFromEntireReader\<close> run as long as the reader wants; their fuel bounds the number of
  calls of \<^verbatim>\<open>Read\<close>. Every call delivers a byte, ends the loop, or is one of finitely many idle calls, so fuel for the bytes
  and idle calls to come and one or two more is enough, and the theorems say that the call then returns. The loop of the stream
  example reads at least one byte a time, so fuel for the 16384 bytes and one more is enough, and so does the loop that writes to
  a socket. All other loops
  are structural or have a termination proof.

  \<^bold>\<open>Concurrency.\<close> In most theories a call runs without interruption, with periods of the re-key goroutine between calls; the
  mutexes are modelled, so a call that would wait for itself blocks. In \<open>Concurrent\<close> and \<open>Sealing\<close> a call is cut into the functions of
  \<^verbatim>\<open>Buffer\<close>, \<^verbatim>\<open>Coffer\<close> and \<^verbatim>\<open>core/crypto.go\<close> it calls. Each of these holds the lock of its object for as long as it works on it, or works on
  memory the caller has locked, and is one action, so schedules within one of them, such as between the two locks
  \<^verbatim>\<open>Destroy\<close> takes one after the other, are not covered. An action that meets a lock another goroutine holds ends as \<open>Blocked\<close>
  instead of waiting; the theorems about all schedules show that this never happens, and the races do not use it. \<open>Signals\<close>
  interleaves the callers with the goroutine of the handler.

  \<^bold>\<open>Not modelled.\<close> \<^verbatim>\<open>core/init.go\<close> only disables core dumps; \<^verbatim>\<open>docs.go\<close> is a comment; \<^verbatim>\<open>examples/streams\<close> is empty.
  The package \<^verbatim>\<open>net\<close> is a parameter of \<open>Socket_Example\<close>, where the client ends before the server starts to read. The finalizers of the garbage collector, timing and side
  channels are outside the model.
\<close>

section \<open>Enclaves\<close>

text \<open>
  C1. Sealing a buffer and opening the enclave gives the data back. \<^verbatim>\<open>Seal\<close> of any buffer the program owns returns an
  enclave, whatever was in the buffer and whether it was frozen or not; the buffer is destroyed and its memory
  unmapped. \<^verbatim>\<open>Open\<close> of that enclave returns a new mutable buffer with the same bytes. Both leave a session with
  intact canaries.
\<close>

theorem seal_open:
  assumes "env_works E" and "sane E s" and "own s b" and "int (slen (data (bufs s b))) + Overhead E \<le> 2 ^ 62"
  shows "\<exists>e t b' u. Seal E b s = (Ret (Inr e), t) \<and> sane E t \<and> bufs t b = zero_Buffer \<and> b \<notin> set (blist t) \<and>
     regs (mem t) (buf_base (bufs s b)) = no_region \<and> Open E e t = (Ret (Inr b'), u) \<and> sane E u \<and> mutable (bufs u b') \<and>
     contents (mem u) (data (bufs u b')) = contents (mem s) (data (bufs s b))"
proof -
  note ok = env_works_D [OF assms(1)]
  have s: "session E s" "clean s" and b: "b \<in> set (blist s)" "b \<notin> refs s (key s)"
    using assms(2,3) by (simp_all add: sane_def own_def)
  let ?m = "contents (mem s) (data (bufs s b))"
  obtain t e where t: "Seal E b s = (Ret (Inr e), t)" "session E t" "coffer_ok t (key t)" "holds E t e ?m"
      "bufs t b = zero_Buffer" "b \<notin> set (blist t)" "regs (mem t) (buf_base (bufs s b)) = no_region" "clean s \<Longrightarrow> clean t"
    by (rule Seal_run [OF assms(1) s(1) b clean_D [OF s(2) b(1)]]) (rule that)
  note g = guarded_data [OF session_D(2) [OF s(1) b(1)]]
  have len: "length ?m = slen (data (bufs s b))" using g(7) by simp
  then have ne: "?m \<noteq> []" using g(5) by auto
  have small: "int (slen (ciphertext e)) \<le> 2 ^ 62" using holds_slen(1) [OF ok(6) t(4)] assms(4) len by (simp add: Overhead_def)
  obtain u where u: "Open E e t = (Ret (Inr (nbufs t)), u)" "session E u" "contents (mem u) (data (bufs u (nbufs t))) = ?m"
      "mutable (bufs u (nbufs t))" "clean t \<Longrightarrow> clean u"
    by (rule Open_run [OF assms(1) t(2,3,4) ne small]) (rule that)
  show ?thesis
    using t u s(2) by (intro exI [of _ e] exI [of _ t] exI [of _ "nbufs t"] exI [of _ u]) (simp add: sane_def)
qed

theorem seal_open_witness:
  "own w_key 0 \<and> (\<exists>e t b' u. Seal simE 0 w_key = (Ret (Inr e), t) \<and> bufs t 0 = zero_Buffer \<and> Open simE e t = (Ret (Inr b'), u) \<and>
     contents (mem u) (data (bufs u b')) = [0, 0, 0, 0, 0])"
proof -
  have "int (slen (data (bufs w_key 0))) + Overhead simE \<le> 2 ^ 62"
    using w_key_data(2) w_buf_sane(8) by (simp add: Overhead_def simE_def)
  from seal_open [OF simE_works w_key_facts(7,6) this] show ?thesis using w_key_facts(6) w_key_data(1) by (simp only:) blast
qed

text \<open>
  C2. Re-keying never loses an enclave: after any number of periods of the re-key goroutine, an enclave opens
  and gives the bytes that were sealed in it, and it can be opened again.
\<close>

theorem open_after_rekeys:
  assumes "keyed E s" and "sealed E s e m"
  shows "\<exists>k t. bind (for_each [0..<n] (\<lambda>_. key_tick E)) (\<lambda>_. Open E e) s = (Ret k, t) \<and> keyed E t \<and>
     buffer_bytes t k = m \<and> sealed E t e m"
  by (rule vt.open_after_ticks [OF assms])

theorem open_after_rekeys_witness:
  "\<exists>k t. bind (for_each [0..<3] (\<lambda>_. key_tick simE)) (\<lambda>_. Open simE e_enc) w_enc = (Ret k, t) \<and> buffer_bytes t k = [1, 2, 3]"
  using open_after_rekeys [OF w_enc_facts(2,3), of 3] by blast

section \<open>Sessions\<close>

text \<open>
  The invariant of the package: in every state a program can reach by calls of the package, writes to its buffers and
  periods of the re-key goroutine, no lock is held, every listed buffer is alive, mapped between two inaccessible
  guard pages, locked into memory, readable, and writable exactly when it is mutable, has an intact canary, and shares
  no memory with another.
\<close>

theorem reachable_session:
  assumes "env_works E" and "reachable E s"
  shows "locks_free s \<and> distinct (map (\<lambda>b. buf_base (bufs s b)) (blist s)) \<and>
     (\<forall>b \<in> set (blist s). guarded E s b \<and> canary_ok s b \<and> readable (mem s) (data (bufs s b)) \<and>
        (writable (mem s) (data (bufs s b)) \<longleftrightarrow> mutable (bufs s b))) \<and>
     (is_destroyed s (key s) \<or> coffer_ok s (key s))"
proof -
  have s: "sane E s" "session E s" "clean s" using reachable_sane [OF assms(2,1)] by (simp_all add: sane_def)
  show ?thesis
    using s(2,3) guarded_data(1) [OF session_D(2) [OF s(2)]] sane_writable [OF s(1)] by (simp add: session_def clean_def)
qed

theorem reachable_session_witness:
  "reachable simE w_buf \<and> guarded simE w_buf 0 \<and> canary_ok w_buf 0"
proof -
  have "NewBuffer simE (int 5) init_world = (Ret (Inr 0), w_buf)"
    using NewBuffer_run [OF simE_works, of 5 init_world] by (simp add: w_buf_def init_world_def)
  then have "step simE init_world w_buf" by (intro step.new [of 5]) simp_all
  then have r: "reachable simE w_buf" by (rule reachable.step [OF reachable.start])
  show ?thesis using reachable_session [OF simE_works r] w_buf_sane(6) r by simp
qed

section \<open>More on enclaves\<close>

text \<open>
  C39. \<^verbatim>\<open>NewEnclave\<close> of a slice of the program seals its bytes, wipes the slice, and \<^verbatim>\<open>EnclaveSize\<close> of the result is the
  length of the slice; every buffer is untouched. An empty slice is the error \<^verbatim>\<open>ErrNullEnclave\<close> and has no effect.
\<close>

theorem NewEnclave_seals:
  assumes "env_works E" and "sane E s" and "j < gcnext (mem s)" and "writable (mem s) (Slice (GC j) i n k)"
  shows "if n = 0 then NewEnclave E (Slice (GC j) i n k) s = (Ret (Inl ErrNullEnclave), s)
     else \<exists>e t. NewEnclave E (Slice (GC j) i n k) s = (Ret (Inr e), t) \<and> sane E t \<and>
       holds E t e (contents (mem s) (Slice (GC j) i n k)) \<and> contents (mem t) (Slice (GC j) i n k) = replicate n 0 \<and>
       EnclaveSize E e = int n \<and> (\<forall>b \<in> set (blist s). b \<in> set (blist t) \<and> keep s t b)"
proof (cases "n = 0")
  case True
  then show ?thesis by (simp add: NewEnclave_def exec)
next
  case False
  have s: "session E s" "clean s" using assms(2) by (simp_all add: sane_def)
  have n: "0 < n" using False by simp
  let ?buf = "Slice (GC j) i n k"
  obtain t e where t: "NewEnclave E ?buf s = (Ret (Inr e), t)" "session E t" "holds E t e (contents (mem s) ?buf)"
      "contents (mem t) ?buf = replicate n 0" "\<And>b. b \<in> set (blist s) \<Longrightarrow> b \<in> set (blist t) \<and> keep s t b" "clean s \<Longrightarrow> clean t"
    by (rule NewEnclave_run [OF assms(1) s(1) assms(3) n assms(4)]) (rule that)
  have "length (contents (mem s) ?buf) = n" using writable_fits [OF assms(4)] length_contents by (metis slen.simps(2))
  then have "EnclaveSize E e = int n" using holds_slen(2) [OF env_works_D(6) [OF assms(1)] t(3)] by simp
  then show ?thesis using t s(2) False by (simp add: sane_def del: contents.simps)
qed

theorem NewEnclave_seals_witness:
  "contents (mem w_user) w_sl = [1, 2, 3] \<and> (\<exists>e t. NewEnclave simE w_sl w_user = (Ret (Inr e), t) \<and> holds simE t e [1, 2, 3] \<and>
     contents (mem t) w_sl = [0, 0, 0] \<and> EnclaveSize simE e = 3)"
proof -
  have s: "sane simE w_user" using w_user_facts(1,2) by (simp add: sane_def)
  show ?thesis
    using NewEnclave_seals [OF simE_works s w_user_facts(7) w_user_facts(5) [unfolded w_user_facts(6)]] w_user_facts(4)
    unfolding w_user_facts(6) by (auto simp: eval_nat_numeral simp del: contents.simps)
qed

text \<open>
  C33. \<^verbatim>\<open>Open\<close> of an enclave that does not decrypt returns the error but does not clean up: the new buffer and the view of
  the key stay in the list, and the view still holds the key.
\<close>

theorem Open_failure_leaks_key:
  assumes "env_works E" and "session E s" and "coffer_ok s (key s)" and "stable s (ciphertext e)" and "wf_slice (ciphertext e)"
    and "readable (mem s) (ciphertext e)" and "Overhead E < int (slen (ciphertext e))" and "int (slen (ciphertext e)) \<le> 2 ^ 62"
    and "sbOpen E (drop 24 (contents (mem s) (ciphertext e))) (take 24 (contents (mem s) (ciphertext e))) (coffer_value E s (key s)) = None"
  shows "\<exists>t k. Open E e s = (Ret (Inl ErrDecryptionFailed), t) \<and> blist t = blist s @ [nbufs s, k] \<and>
     contents (mem t) (data (bufs t k)) = coffer_value E s (key s)"
  by (rule Open_fail [OF assms]) blast

theorem Open_failure_leaks_key_witness:
  "\<exists>t k. Open simE e_forged w_forged = (Ret (Inl ErrDecryptionFailed), t) \<and> blist t = blist w_forged @ [nbufs w_forged, k] \<and>
     contents (mem t) (data (bufs t k)) = coffer_value simE w_forged (key w_forged)"
  by (rule Open_failure_leaks_key [OF simE_works w_forged_facts(1-8)])

text \<open>
  A destroyed buffer cannot be used: \<^verbatim>\<open>Seal\<close> returns \<^verbatim>\<open>ErrBufferExpired\<close>, and \<^verbatim>\<open>Freeze\<close>, \<^verbatim>\<open>Melt\<close> and \<^verbatim>\<open>Destroy\<close> do
  nothing.
\<close>

theorem expired_buffer:
  assumes "locks_free s" and "\<not> alive (bufs s b)" and "b \<notin> set (blist s)"
  shows "Seal E b s = (Ret (Inl ErrBufferExpired), s) \<and> Freeze E b s = (Ret (), s) \<and> Melt E b s = (Ret (), s) \<and>
     Destroy E b s = (Ret (), s)"
proof -
  note free = locks_free_D [OF assms(1)]
  note d = dead_runs [OF assms(2) free, of E]
  have "Alive b s = (Ret False, s)"
    unfolding Alive_def
    by (rule with_rlock_free) (use assms(2) free in \<open>auto simp: get_buf_def bind_def exec intro!: obliviousI\<close>)
  then show ?thesis
    using d dead_Destroy [OF assms] by (simp add: Seal_def Freeze_def Melt_def bind_def exec or_panic_None)
qed

theorem expired_buffer_witness: "Seal simE 7 w_buf = (Ret (Inl ErrBufferExpired), w_buf)"
proof -
  have "\<not> alive (bufs w_buf 7)" by (simp add: w_buf_def newbuf_other init_world_def)
  then show ?thesis using expired_buffer [OF w_buf_sane(5), of 7] w_buf_sane(6) by simp
qed

text \<open>
  \<^verbatim>\<open>Open\<close> of a ciphertext that is too short to hold any data panics, with the session purged.
\<close>

theorem Open_short_panics:
  assumes "env_works E" and "sane E s" and "int (slen (ciphertext e)) \<le> Overhead E"
  shows "Open E e s = (Panicked (PStr ''<memguard:core> ciphertext has invalid length''), purged s)"
proof -
  note ok = env_works_D [OF assms(1)]
  have s: "session E s" "\<forall>b \<in> set (blist s). canary_ok s b" using assms(2) by (simp_all add: sane_def clean_def)
  have "NewBuffer E (int (slen (ciphertext e)) - Overhead E) s = (Ret (Inl ErrNullBuffer), s)"
    using assms(3) by (simp add: NewBuffer_def exec)
  then show ?thesis
    using Purge_run_ok [OF ok(1,2) session_D(4,1) [OF s(1)] s(2)] by (simp add: Open_def Panic_def bind_def exec)
qed

theorem Open_short_panics_witness:
  "Open simE \<lparr>ciphertext = NilSlice\<rparr> w_buf = (Panicked (PStr ''<memguard:core> ciphertext has invalid length''), purged w_buf)"
  using Open_short_panics [OF simE_works w_buf_sane(1), of "\<lparr>ciphertext = NilSlice\<rparr>"] by (simp add: Overhead_def)

section \<open>The end of a session\<close>

text \<open>
  A purge ends the use of the key: the next enclave is sealed under a new coffer, whose value is 32 bytes drawn from
  the random source.
\<close>

theorem Purge_new_key:
  assumes "env_works E" and "sane E s"
  shows "\<exists>t u k i. Purge E s = (Ret (), t) \<and> view_key E t = (Ret (Inr k), u) \<and> key u = ncoffers s \<and> key s < ncoffers s \<and>
     contents (mem u) (data (bufs u k)) = rand_bytes E i 32"
proof -
  note ok = env_works_D [OF assms(1)]
  have s: "session E s" "\<forall>b \<in> set (blist s). canary_ok s b" using assms(2) by (simp_all add: sane_def clean_def)
  note p = purged_session [OF s]
  have d: "is_destroyed (purged s) (key (purged s))" using p(2) by simp
  obtain u k where u: "view_key E (purged s) = (Ret (Inr k), u)" "contents (mem u) (data (bufs u k)) = coffer_value E u (key u)"
      "is_destroyed (purged s) (key (purged s)) \<Longrightarrow> key u = ncoffers (purged s) \<and> (\<exists>i. coffer_value E u (key u) = rand_bytes E i 32)"
    by (rule view_key_run [OF assms(1) p(1)]) (rule that)
  then show ?thesis
    using Purge_run_ok [OF ok(1,2) session_D(4,1) [OF s(1)] s(2)] u(3) [OF d] s(1) by (auto simp: session_def)
qed

theorem Purge_new_key_witness:
  "\<exists>t u k i. Purge simE w_key = (Ret (), t) \<and> view_key simE t = (Ret (Inr k), u) \<and> key u \<noteq> key w_key \<and>
     contents (mem u) (data (bufs u k)) = rand_bytes simE i 32"
  using Purge_new_key [OF simE_works w_key_facts(7)] by fastforce

end
